(* ===== verification/Emb_Prelude.thy ===== *)
theory Emb_Prelude
  imports Main "HOL-Library.Word" "HOL-Library.Monad_Syntax"
begin

unbundle bit_operations_syntax

text \<open>
  Shared vocabulary of the development: the machine types of the C code, memory objects as
  lists of cells whose accesses are checked, C strings, byte orders, and the interface of a
  self-delimiting code.

  A C function that may leave the bounds of an object (undefined behaviour), or that fails an
  \<open>assert\<close>, is modelled with result type \<open>'a option\<close>: \<open>None\<close> is exactly that case, and
  \<open>Some r\<close> is a defined execution that returns \<open>r\<close>. Error codes of the C code are ordinary
  values inside \<open>Some\<close>. A pointer that the code compares with \<open>NULL\<close> has type \<open>'a ptr\<close>.
\<close>

named_theorems mem_simps "rewriting of checked memory accesses"

type_synonym byte = "8 word"
type_synonym u16 = "16 word"
type_synonym u32 = "32 word"
type_synonym u64 = "64 word"
type_synonym u128 = "128 word"

datatype 'a ptr = Null | Ptr 'a

text \<open>The largest value of an \<open>int\<close>; a signed counter that passes it is undefined.\<close>

definition INT_MAX :: int where
  "INT_MAX = 2 ^ 31 - 1"

lemma INT_MAX_less: "INT_MAX < int n \<longleftrightarrow> \<not> n < 2 ^ 31"
  by (auto simp: INT_MAX_def)

section \<open>Memory objects\<close>

definition mem_get :: "'a list \<Rightarrow> nat \<Rightarrow> 'a option" where
  "mem_get m i = (if i < length m then Some (m ! i) else None)"

definition mem_put :: "'a list \<Rightarrow> nat \<Rightarrow> 'a \<Rightarrow> 'a list option" where
  "mem_put m i v = (if i < length m then Some (m[i := v]) else None)"

definition mem_read :: "'a list \<Rightarrow> nat \<Rightarrow> nat \<Rightarrow> 'a list option" where
  "mem_read m off n = (if off + n \<le> length m then Some (take n (drop off m)) else None)"

definition patch :: "'a list \<Rightarrow> nat \<Rightarrow> 'a list \<Rightarrow> 'a list" where
  "patch m off xs = take off m @ xs @ drop (off + length xs) m"

definition mem_blit :: "'a list \<Rightarrow> nat \<Rightarrow> 'a list \<Rightarrow> 'a list option" where
  "mem_blit m off xs = (if off + length xs \<le> length m then Some (patch m off xs) else None)"

lemma length_patch [simp]: "off + length xs \<le> length m \<Longrightarrow> length (patch m off xs) = length m"
  by (simp add: patch_def)

lemma mem_get_Some [simp]: "i < length m \<Longrightarrow> mem_get m i = Some (m ! i)"
  by (simp add: mem_get_def)

lemma mem_get_None [simp]: "length m \<le> i \<Longrightarrow> mem_get m i = None"
  by (simp add: mem_get_def)

lemma mem_read_Some [simp]: "off + n \<le> length m \<Longrightarrow> mem_read m off n = Some (take n (drop off m))"
  by (simp add: mem_read_def)

lemma mem_read_None [simp]: "length m < off + n \<Longrightarrow> mem_read m off n = None"
  by (simp add: mem_read_def)

lemma mem_put_patch: "i < length m \<Longrightarrow> mem_put m i v = Some (patch m i [v])"
  by (simp add: mem_put_def patch_def upd_conv_take_nth_drop)

lemma mem_put_None [simp]: "length m \<le> i \<Longrightarrow> mem_put m i v = None"
  by (simp add: mem_put_def)

lemma mem_blit_patch [simp]:
  "off + length xs \<le> length m \<Longrightarrow> mem_blit m off xs = Some (patch m off xs)"
  by (simp add: mem_blit_def)

lemma mem_blit_None [simp]: "length m < off + length xs \<Longrightarrow> mem_blit m off xs = None"
  by (simp add: mem_blit_def)

lemma mem_put_length: "mem_put m i v = Some m' \<Longrightarrow> length m' = length m"
  by (auto simp: mem_put_def split: if_splits)

lemma mem_blit_length: "mem_blit m i xs = Some m' \<Longrightarrow> length m' = length m"
  by (auto simp: mem_blit_def split: if_splits)

lemma patch_Nil [simp]: "patch m off [] = m"
  by (simp add: patch_def)

text \<open>Consecutive writes are one write of the concatenation.\<close>

lemma patch_append:
  assumes "off + length xs + length ys \<le> length m" and "off' = off + length xs"
  shows "patch (patch m off xs) off' ys = patch m off (xs @ ys)"
  using assms by (cases xs) (auto simp: patch_def min_def ac_simps)

lemma patch_overwrite:
  assumes "off + length ys \<le> length m" and "length xs \<le> length ys"
  shows "patch (patch m off xs) off ys = patch m off ys"
proof -
  have "min (length m) off = off" using assms by simp
  moreover have "drop (length ys) (xs @ drop (off + length xs) m) = drop (off + length ys) m"
    using assms by (simp add: ac_simps)
  ultimately show ?thesis by (simp add: patch_def add.commute)
qed

lemma take_drop_patch [simp]:
  "off + length xs \<le> length m \<Longrightarrow> take (length xs) (drop off (patch m off xs)) = xs"
  by (simp add: patch_def)

lemma take_patch_0 [simp]: "take (length xs) (patch m 0 xs) = xs"
  by (simp add: patch_def)

lemma nth_patch:
  "off + length xs \<le> length m \<Longrightarrow> off \<le> i \<Longrightarrow> i < off + length xs \<Longrightarrow> patch m off xs ! i = xs ! (i - off)"
  by (auto simp: patch_def nth_append min_def)

lemma nth_patch_if:
  "off + length xs \<le> length m \<Longrightarrow> i < length m \<Longrightarrow>
    patch m off xs ! i = (if off \<le> i \<and> i < off + length xs then xs ! (i - off) else m ! i)"
  by (auto simp: patch_def nth_append min_def)

lemma patch_after: "patch (r @ y) (length r) [c] = r @ c # drop 1 y"
  by (simp add: patch_def)

lemma drop_patch: "off + length xs \<le> n \<Longrightarrow> off + length xs \<le> length m \<Longrightarrow> drop n (patch m off xs) = drop n m"
  by (auto simp: patch_def drop_append min_def intro!: arg_cong [of _ _ "\<lambda>k. drop k m"])

lemma take_patch: "n \<le> off \<Longrightarrow> off \<le> length m \<Longrightarrow> take n (patch m off xs) = take n m"
  by (simp add: patch_def min_def)

lemma mem_last_patch:
  assumes "xs \<noteq> []" "off + length xs \<le> length m"
  shows "mem_get (patch m off xs) (off + length xs - 1) = Some (last xs)"
    and "mem_put (patch m off xs) (off + length xs - 1) b = Some (patch m off (butlast xs @ [b]))"
proof -
  let ?y = "take off m @ butlast xs" and ?z = "drop (off + length xs) m"
  have p: "patch m off xs = ?y @ last xs # ?z" using assms by (simp add: patch_def)
  have l: "length ?y = off + length xs - 1" using assms by (cases xs) simp_all
  have i: "off + length xs - 1 < length (patch m off xs)" using assms by (cases xs) simp_all
  have "patch m off xs ! length ?y = last xs" unfolding p by (rule nth_append_length)
  then show "mem_get (patch m off xs) (off + length xs - 1) = Some (last xs)"
    using i by (simp only: mem_get_Some l)
  have "(?y @ last xs # ?z)[length ?y := b] = ?y @ b # ?z" by (rule list_update_length)
  also have "\<dots> = patch m off (butlast xs @ [b])" using assms by (cases xs) (simp_all add: patch_def)
  finally show "mem_put (patch m off xs) (off + length xs - 1) b = Some (patch m off (butlast xs @ [b]))"
    using i by (simp only: mem_put_def l p if_True)
qed

lemmas [mem_simps] = mem_put_patch patch_append

section \<open>C strings\<close>

abbreviation NUL :: char where "NUL \<equiv> CHR 0x00"

text \<open>The string stored in an object: up to its first NUL; without one, \<open>strlen\<close> runs out of it.\<close>

definition c_str :: "string \<Rightarrow> string option" where
  "c_str m = (if NUL \<in> set m then Some (takeWhile (\<lambda>c. c \<noteq> NUL) m) else None)"

lemma c_str_append_NUL: "NUL \<notin> set s \<Longrightarrow> c_str (s @ NUL # rest) = Some s"
  by (induction s) (auto simp: c_str_def)

definition byte_of_char :: "char \<Rightarrow> byte" where
  "byte_of_char c = word_of_nat (of_char c)"

definition char_of_byte :: "byte \<Rightarrow> char" where
  "char_of_byte b = char_of (unat b)"

lemma char_of_byte_of_char [simp]: "char_of_byte (byte_of_char c) = c"
  by (simp add: char_of_byte_def byte_of_char_def unat_of_nat)

lemma byte_of_char_of_byte [simp]: "byte_of_char (char_of_byte b) = b"
  using unsigned_less [of b, where ?'a = nat] by (simp add: char_of_byte_def byte_of_char_def)

text \<open>Decimal digits.\<close>

abbreviation code :: "char \<Rightarrow> nat" where "code c \<equiv> of_char c"

definition is_digit :: "char \<Rightarrow> bool" where
  "is_digit c \<longleftrightarrow> 48 \<le> code c \<and> code c \<le> 57"

definition digit_val :: "char \<Rightarrow> nat" where
  "digit_val c = code c - 48"

definition digit_char :: "nat \<Rightarrow> char" where
  "digit_char d = char_of (d + 48)"

text \<open>The number a digit string denotes, most significant digit first.\<close>

definition dec_val :: "string \<Rightarrow> nat" where
  "dec_val s = foldl (\<lambda>v c. v * 10 + digit_val c) 0 s"

lemma is_digit_char [simp]: "d < 10 \<Longrightarrow> is_digit (digit_char d)"
  by (simp add: is_digit_def digit_char_def)

lemma digit_val_char [simp]: "d < 10 \<Longrightarrow> digit_val (digit_char d) = d"
  by (simp add: digit_val_def digit_char_def)

lemma digit_char_val [simp]: "is_digit c \<Longrightarrow> digit_char (digit_val c) = c"
  by (simp add: is_digit_def digit_val_def digit_char_def)

lemma digit_val_less [simp]: "is_digit c \<Longrightarrow> digit_val c < 10"
  by (auto simp: is_digit_def digit_val_def)

lemma foldl_dec:
  "foldl (\<lambda>v c. v * 10 + digit_val c) a s = a * 10 ^ length s + dec_val s"
proof (induction s arbitrary: a)
  case Nil
  then show ?case by (simp add: dec_val_def)
next
  case (Cons c s)
  show ?case
    using Cons [of "a * 10 + digit_val c"] Cons [of "digit_val c"]
    by (simp add: dec_val_def algebra_simps)
qed

lemma dec_val_Nil [simp]: "dec_val [] = 0"
  by (simp add: dec_val_def)

lemma dec_val_append: "dec_val (s @ t) = dec_val s * 10 ^ length t + dec_val t"
  by (simp add: dec_val_def foldl_dec [of "foldl _ _ _", unfolded dec_val_def])

lemma dec_val_single [simp]: "dec_val [c] = digit_val c"
  by (simp add: dec_val_def)

lemma dec_val_Cons: "dec_val (c # s) = digit_val c * 10 ^ length s + dec_val s"
  using dec_val_append [of "[c]" s] by simp

lemma dec_val_less: "(\<forall>c \<in> set s. is_digit c) \<Longrightarrow> dec_val s < 10 ^ length s"
proof (induction s)
  case (Cons c s)
  then have "dec_val s < 10 ^ length s" and "digit_val c \<le> 9"
    using digit_val_less [of c] by (simp_all add: less_Suc_eq_le [symmetric] del: digit_val_less)
  then have "digit_val c * 10 ^ length s + dec_val s < 9 * 10 ^ length s + 10 ^ length s"
    by (intro add_le_less_mono mult_right_mono) simp_all
  then show ?case by (simp add: dec_val_Cons)
qed simp

lemma digit_char_0: "digit_char 0 = CHR ''0''"
  by (rule of_char_eqI [where ?'a = nat]) (simp add: digit_char_def)

text \<open>The canonical decimal digits of a number.\<close>

fun dec_digits :: "nat \<Rightarrow> string" where
  "dec_digits n = (if n < 10 then [digit_char n] else dec_digits (n div 10) @ [digit_char (n mod 10)])"

declare dec_digits.simps [simp del]

lemma dec_val_digits [simp]: "dec_val (dec_digits n) = n"
proof (induction n rule: dec_digits.induct)
  case (1 n)
  then show ?case
    by (cases "n < 10") (simp_all add: dec_digits.simps [of n] dec_val_append)
qed

lemma dec_digits_digits: "c \<in> set (dec_digits n) \<Longrightarrow> is_digit c"
proof (induction n rule: dec_digits.induct)
  case (1 n)
  then show ?case
    by (cases "n < 10") (auto simp: dec_digits.simps [of n])
qed

lemma dec_digits_nonempty [simp]: "dec_digits n \<noteq> []"
  by (simp add: dec_digits.simps)

lemma length_dec_digits: "n < 10 ^ k \<Longrightarrow> 0 < k \<Longrightarrow> length (dec_digits n) \<le> k"
proof (induction k arbitrary: n)
  case (Suc k)
  show ?case
  proof (cases "n < 10")
    case False
    with Suc.prems have "n div 10 < 10 ^ k" and "0 < k"
      by (auto simp: less_mult_imp_div_less mult.commute intro!: Suc_lessI gr0I)
    then show ?thesis
      using Suc.IH [of "n div 10"] False by (simp add: dec_digits.simps [of n])
  qed (simp add: dec_digits.simps)
qed simp

section \<open>Byte orders\<close>

text \<open>The \<open>n\<close> bytes of a word, least significant first, and the word they denote.\<close>

definition le_bytes :: "nat \<Rightarrow> 'a::len word \<Rightarrow> byte list" where
  "le_bytes n w = map (\<lambda>i. ucast (drop_bit (8 * i) w)) [0..<n]"

fun of_le_bytes :: "byte list \<Rightarrow> 'a::len word" where
  "of_le_bytes [] = 0"
| "of_le_bytes (b # bs) = ucast b OR push_bit 8 (of_le_bytes bs)"

text \<open>The object representation of a word on a big-endian (\<open>True\<close>) or little-endian host.\<close>

definition host_bytes :: "bool \<Rightarrow> nat \<Rightarrow> 'a::len word \<Rightarrow> byte list" where
  "host_bytes big n w = (if big then rev (le_bytes n w) else le_bytes n w)"

definition of_host_bytes :: "bool \<Rightarrow> byte list \<Rightarrow> 'a::len word" where
  "of_host_bytes big bs = of_le_bytes (if big then rev bs else bs)"

lemma length_le_bytes [simp]: "length (le_bytes n w) = n"
  by (simp add: le_bytes_def)

lemma length_host_bytes [simp]: "length (host_bytes big n w) = n"
  by (simp add: host_bytes_def)

lemma le_bytes_0 [simp]: "le_bytes 0 w = []"
  by (simp add: le_bytes_def)

lemma le_bytes_Suc: "le_bytes (Suc n) w = ucast w # le_bytes n (drop_bit 8 w)"
  by (rule nth_equalityI) (auto simp: le_bytes_def nth_Cons add.commute split: nat.splits
      simp del: upt_Suc)

lemma of_le_bytes_le_bytes: "of_le_bytes (le_bytes n w) = take_bit (8 * n) w"
proof (induction n arbitrary: w)
  case (Suc n)
  show ?case
    by (rule bit_word_eqI)
      (auto simp: le_bytes_Suc Suc bit_simps not_le)
qed simp

lemma of_host_bytes_host_bytes [simp]:
  assumes "LENGTH('a) \<le> 8 * n"
  shows "of_host_bytes big (host_bytes big n (w :: 'a::len word)) = w"
proof -
  have "of_le_bytes (le_bytes n w) = w"
    unfolding of_le_bytes_le_bytes using assms by (rule take_bit_word_eq_self)
  then show ?thesis by (cases big) (simp_all add: of_host_bytes_def host_bytes_def)
qed

lemma le_bytes_of_le_bytes:
  "8 * length bs \<le> LENGTH('a) \<Longrightarrow> le_bytes (length bs) (of_le_bytes bs :: 'a::len word) = bs"
proof (induction bs)
  case (Cons b bs)
  let ?w = "of_le_bytes bs :: 'a word"
  have "le_bytes (length bs) (drop_bit 8 (push_bit 8 ?w)) = le_bytes (length bs) ?w"
    using Cons.prems
    by (intro nth_equalityI) (auto simp: le_bytes_def bit_eq_iff bit_simps)
  moreover have "drop_bit 8 (ucast b :: 'a word) = 0"
    by (rule bit_word_eqI) (auto simp: bit_simps dest: bit_imp_le_length)
  moreover have "ucast (push_bit 8 ?w) = (0 :: byte)"
    by (rule bit_word_eqI) (auto simp: bit_simps)
  moreover have "ucast (ucast b :: 'a word) = b"
    using Cons.prems by (intro bit_word_eqI) (auto simp: bit_simps)
  ultimately show ?case
    using Cons by (simp add: le_bytes_Suc unsigned_or_eq)
qed simp

section \<open>Numbers as bytes\<close>

text \<open>The number a byte string denotes and the \<open>k\<close> bytes of a number, in both byte orders.\<close>

fun le_val :: "byte list \<Rightarrow> nat" where
  "le_val [] = 0"
| "le_val (b # bs) = unat b + 2 ^ 8 * le_val bs"

definition be_val :: "byte list \<Rightarrow> nat" where
  "be_val bs = le_val (rev bs)"

fun num_le :: "nat \<Rightarrow> nat \<Rightarrow> byte list" where
  "num_le 0 n = []"
| "num_le (Suc k) n = word_of_nat n # num_le k (n div 2 ^ 8)"

definition num_be :: "nat \<Rightarrow> nat \<Rightarrow> byte list" where
  "num_be k n = rev (num_le k n)"

lemma length_num_le [simp]: "length (num_le k n) = k"
  by (induction k n rule: num_le.induct) simp_all

lemma length_num_be [simp]: "length (num_be k n) = k"
  by (simp add: num_be_def)

lemma unat_byte: "unat (b :: byte) < 2 ^ 8"
  using unsigned_less [of b, where ?'a = nat] by simp

lemma le_val_append: "le_val (a @ b) = le_val a + 2 ^ (8 * length a) * le_val b"
  by (induction a) (simp_all add: power_add algebra_simps)

lemma le_val_less: "le_val a < 2 ^ (8 * length a)"
proof (induction a)
  case (Cons b a)
  have "unat b + 2 ^ 8 * le_val a < 2 ^ 8 * (le_val a + 1)" using unat_byte [of b] by simp
  also have "\<dots> \<le> 2 ^ 8 * 2 ^ (8 * length a)" using Cons by (intro mult_left_mono) simp_all
  finally show ?case by (simp add: power_add)
qed simp

lemma le_val_num_le: "le_val (num_le k n) = n mod 2 ^ (8 * k)"
proof (induction k n rule: num_le.induct)
  case (2 k n)
  have "n mod (2 ^ 8 * 2 ^ (8 * k)) = n mod 2 ^ 8 + 2 ^ 8 * (n div 2 ^ 8 mod 2 ^ (8 * k))"
    by (simp only: mod_mult2_eq)
  then show ?case using 2 by (simp add: unat_of_nat power_add)
qed simp

lemma num_le_le_val: "num_le (length bs) (le_val bs) = bs"
proof (induction bs)
  case (Cons b bs)
  have "(unat b + 2 ^ 8 * le_val bs) mod 2 ^ 8 = unat b" "(unat b + 2 ^ 8 * le_val bs) div 2 ^ 8 = le_val bs"
    using unat_byte [of b] by simp_all
  moreover from this(1) have "word_of_nat (unat b + 2 ^ 8 * le_val bs) = b"
    unfolding word_unat_eq_iff unat_of_nat take_bit_eq_mod by simp
  ultimately show ?case using Cons by (simp only: le_val.simps num_le.simps length_Cons)
qed simp

lemma be_val_num_be: "be_val (num_be k n) = n mod 2 ^ (8 * k)"
  by (simp add: be_val_def num_be_def le_val_num_le)

lemma num_be_be_val: "num_be (length bs) (be_val bs) = bs"
  using num_le_le_val [of "rev bs"] by (simp add: be_val_def num_be_def)

lemma be_val_less: "be_val bs < 2 ^ (8 * length bs)"
  using le_val_less [of "rev bs"] by (simp add: be_val_def)

lemma num_le_add: "num_le (j + k) n = num_le j n @ num_le k (n div 2 ^ (8 * j))"
  by (induction j n rule: num_le.induct) (simp_all add: div_mult2_eq [symmetric] power_add mult.commute)

lemma num_be_add: "num_be (j + k) n = num_be k (n div 2 ^ (8 * j)) @ num_be j n"
  by (simp add: num_be_def num_le_add)

lemma num_le_mod: "num_le k (n mod 2 ^ (8 * k)) = num_le k n"
  using num_le_le_val [of "num_le k n"] by (simp add: le_val_num_le)

lemma num_le_le_bytes:
  "8 * k \<le> LENGTH('a) \<Longrightarrow> num_le k n = le_bytes k (word_of_nat n :: 'a::len word)"
proof (induction k n rule: num_le.induct)
  case (2 k n)
  have "ucast (word_of_nat n :: 'a word) = (word_of_nat n :: byte)"
    using 2 by (intro bit_word_eqI) (auto simp: bit_simps)
  moreover have "le_bytes k (drop_bit 8 (word_of_nat n :: 'a word)) = le_bytes k (word_of_nat (n div 2 ^ 8) :: 'a word)"
    using 2(2) unfolding drop_bit_eq_div [where n = 8 and a = n, symmetric]
    by (intro nth_equalityI) (auto simp: le_bytes_def bit_eq_iff bit_simps add.assoc add.left_commute)
  ultimately show ?case using 2 by (simp add: le_bytes_Suc)
qed simp

section \<open>The interface of a self-delimiting code\<close>

text \<open>Decoding a whole byte string, value after value; a decoder that makes no progress fails.\<close>

function dec_all :: "('b list \<Rightarrow> ('v \<times> 'b list) option) \<Rightarrow> 'b list \<Rightarrow> 'v list option" where
  "dec_all dec bs =
     (if bs = [] then Some []
      else do {
        (v, r) \<leftarrow> dec bs;
        if length bs \<le> length r then None
        else do {
          vs \<leftarrow> dec_all dec r;
          Some (v # vs)
        }
      })"
  by pat_completeness auto

termination dec_all
  by (relation "measure (\<lambda>(_, bs). length bs)") auto

declare dec_all.simps [simp del]

text \<open>
  An encoder and a decoder of one value at the front of a byte string. The one law is that
  decoding what was encoded gives the value back and leaves whatever follows.
\<close>

locale prefix_code =
  fixes enc :: "'v \<Rightarrow> 'b list"
    and dec :: "'b list \<Rightarrow> ('v \<times> 'b list) option"
    and ok :: "'v \<Rightarrow> bool"
  assumes dec_enc: "ok v \<Longrightarrow> dec (enc v @ r) = Some (v, r)"
begin

lemma prefix_free: "ok v \<Longrightarrow> ok w \<Longrightarrow> enc v @ r = enc w @ s \<Longrightarrow> v = w \<and> r = s"
  by (metis dec_enc option.inject prod.inject)

lemma enc_inj: "ok v \<Longrightarrow> ok w \<Longrightarrow> enc v = enc w \<Longrightarrow> v = w"
  using prefix_free [of v w "[]" "[]"] by simp

lemma concat_inj:
  "list_all ok vs \<Longrightarrow> list_all ok ws \<Longrightarrow> length vs = length ws \<Longrightarrow>
    concat (map enc vs) @ r = concat (map enc ws) @ s \<Longrightarrow> vs = ws \<and> r = s"
proof (induction vs ws rule: list_induct2')
  case (4 v vs w ws)
  then show ?case
    using prefix_free [of v w "concat (map enc vs) @ r" "concat (map enc ws) @ s"] by simp
qed simp_all

lemma dec_all_enc:
  "(\<And>v. ok v \<Longrightarrow> enc v \<noteq> []) \<Longrightarrow> list_all ok vs \<Longrightarrow> dec_all dec (concat (map enc vs)) = Some vs"
proof (induction vs)
  case (Cons v vs)
  then show ?case
    by (subst dec_all.simps) (simp add: dec_enc)
qed (simp add: dec_all.simps)

end

end
