(* ===== verification/Endian_Conv.thy ===== *)
theory Endian_Conv
  imports Emb_Prelude
begin

text \<open>
  \<open>src/endian_conv.c\<close>: the byte-order test and the byte swaps. The byte order of the host is the
  argument \<open>big\<close>; \<open>host_bytes big\<close> is the representation of an integer object on that host.
\<close>

definition endian_is_bigendian :: "bool \<Rightarrow> bool" where
  "endian_is_bigendian big =
     (let c = host_bytes big 2 (0x1234 :: u16) in c ! 0 = 0x12 \<and> c ! 1 = 0x34)"

definition endian_swap16 :: "u16 \<Rightarrow> u16" where
  "endian_swap16 value = drop_bit 8 value OR push_bit 8 value"

definition endian_swap32 :: "u32 \<Rightarrow> u32" where
  "endian_swap32 value =
     (let temp = (push_bit 8 value AND 0xFF00FF00) OR (drop_bit 8 value AND 0xFF00FF)
      in push_bit 16 temp OR drop_bit 16 temp)"

definition endian_swap64 :: "u64 \<Rightarrow> u64" where
  "endian_swap64 value =
     (let v1 = push_bit 32 (value AND 0x00000000FFFFFFFF) OR drop_bit 32 (value AND 0xFFFFFFFF00000000);
          v2 = push_bit 16 (v1 AND 0x0000FFFF0000FFFF) OR drop_bit 16 (v1 AND 0xFFFF0000FFFF0000);
          v3 = push_bit 8 (v2 AND 0x00FF00FF00FF00FF) OR drop_bit 8 (v2 AND 0xFF00FF00FF00FF00)
      in v3)"

text \<open>The macros \<open>ENDIAN_H2LE16\<close>, \<open>ENDIAN_H2LE32\<close> and \<open>ENDIAN_H2LE64\<close> of \<open>endian_conv.h\<close>.\<close>

definition ENDIAN_H2LE16 :: "bool \<Rightarrow> u16 \<Rightarrow> u16" where
  "ENDIAN_H2LE16 big x = (if endian_is_bigendian big then endian_swap16 x else x)"

definition ENDIAN_H2LE32 :: "bool \<Rightarrow> u32 \<Rightarrow> u32" where
  "ENDIAN_H2LE32 big x = (if endian_is_bigendian big then endian_swap32 x else x)"

definition ENDIAN_H2LE64 :: "bool \<Rightarrow> u64 \<Rightarrow> u64" where
  "ENDIAN_H2LE64 big x = (if endian_is_bigendian big then endian_swap64 x else x)"

lemma endian_is_bigendian [simp]: "endian_is_bigendian big = big"
  by (simp add: endian_is_bigendian_def host_bytes_def le_bytes_def upt_rec)

section \<open>The contract of a byte swap\<close>

text \<open>
  What the callers of the swaps use: a swap reverses the bytes of the value. It follows that it
  is its own inverse, that storing \<open>ENDIAN_H2LE\<close> of a value writes the same bytes on every host,
  and what a value read from bytes is after the macro.
\<close>

locale byte_swap =
  fixes swap :: "'a::len word \<Rightarrow> 'a word" and n :: nat
  assumes width: "LENGTH('a) = 8 * n"
    and swap_bytes: "le_bytes n (swap v) = rev (le_bytes n v)"
begin

lemma of_le_bytes_self: "of_le_bytes (le_bytes n v) = (v :: 'a word)"
  unfolding of_le_bytes_le_bytes by (rule take_bit_word_eq_self) (simp add: width)

lemma le_bytes_inj:
  assumes "le_bytes n v = le_bytes n w"
  shows "v = (w :: 'a word)"
proof -
  from assms have "of_le_bytes (le_bytes n v) = (of_le_bytes (le_bytes n w) :: 'a word)"
    by (simp only:)
  then show ?thesis by (simp only: of_le_bytes_self)
qed

lemma swap_swap: "swap (swap v) = v"
  by (rule le_bytes_inj) (simp add: swap_bytes)

lemma swap_eq: "swap v = of_le_bytes (rev (le_bytes n v))"
  using of_le_bytes_self [of "swap v"] by (simp add: swap_bytes)

lemma h2le_host_bytes: "host_bytes big n (if big then swap v else v) = le_bytes n v"
  by (simp add: host_bytes_def swap_bytes)

lemma h2be_host_bytes: "host_bytes big n (if big then v else swap v) = rev (le_bytes n v)"
  by (simp add: host_bytes_def swap_bytes)

lemma le_bytes_of [simp]: "length bs = n \<Longrightarrow> le_bytes n (of_le_bytes bs :: 'a word) = bs"
  using le_bytes_of_le_bytes [of bs, where ?'a = 'a] width by simp

lemma h2le_of_host_bytes:
  "length bs = n \<Longrightarrow> (if big then swap (of_host_bytes big bs) else of_host_bytes big bs) = of_le_bytes bs"
  by (simp add: of_host_bytes_def swap_eq)

lemma be2h_of_host_bytes:
  "length bs = n \<Longrightarrow> (if big then of_host_bytes big bs else swap (of_host_bytes big bs)) = of_le_bytes (rev bs)"
  by (simp add: of_host_bytes_def swap_eq)

lemma swap_of_host_bytes [simp]: "swap (of_host_bytes big bs) = (of_host_bytes (\<not> big) bs)"
  if "length bs = n"
  using that by (simp add: of_host_bytes_def swap_eq)

end

lemma endian_masks:
  "(0xFF00FF00 :: u32) = push_bit 8 (mask 8) OR push_bit 24 (mask 8)"
  "(0xFF00FF :: u32) = mask 8 OR push_bit 16 (mask 8)"
  "(0x00000000FFFFFFFF :: u64) = mask 32"
  "(0xFFFFFFFF00000000 :: u64) = push_bit 32 (mask 32)"
  "(0x0000FFFF0000FFFF :: u64) = mask 16 OR push_bit 32 (mask 16)"
  "(0xFFFF0000FFFF0000 :: u64) = push_bit 16 (mask 16) OR push_bit 48 (mask 16)"
  "(0x00FF00FF00FF00FF :: u64) =
     mask 8 OR push_bit 16 (mask 8) OR push_bit 32 (mask 8) OR push_bit 48 (mask 8)"
  "(0xFF00FF00FF00FF00 :: u64) =
     push_bit 8 (mask 8) OR push_bit 24 (mask 8) OR push_bit 40 (mask 8) OR push_bit 56 (mask 8)"
  by (simp_all add: mask_eq_exp_minus_1)

lemma swap16_bytes: "le_bytes 2 (endian_swap16 v) = rev (le_bytes 2 v)"
  by (simp add: le_bytes_def upt_rec endian_swap16_def)
    (intro conjI; rule bit_word_eqI; simp add: bit_simps)

lemma swap32_bytes: "le_bytes 4 (endian_swap32 v) = rev (le_bytes 4 v)"
  unfolding endian_swap32_def Let_def endian_masks
  by (simp add: le_bytes_def upt_rec) (intro conjI; rule bit_word_eqI; simp add: bit_simps)

lemma swap64_bytes: "le_bytes 8 (endian_swap64 v) = rev (le_bytes 8 v)"
  unfolding endian_swap64_def Let_def endian_masks
  by (simp add: le_bytes_def upt_rec) (intro conjI; rule bit_word_eqI; simp add: bit_simps)

interpretation swap16: byte_swap endian_swap16 2
  by unfold_locales (simp_all add: swap16_bytes)

interpretation swap32: byte_swap endian_swap32 4
  by unfold_locales (simp_all add: swap32_bytes)

interpretation swap64: byte_swap endian_swap64 8
  by unfold_locales (simp_all add: swap64_bytes)

end
