(* ===== verification/U128.thy ===== *)
theory U128
  imports Emb_Prelude
begin

text \<open>
  \<open>src/u128.c\<close>: 128-bit numbers and their decimal strings, in both builds. The default build has
  \<open>uint128_t = __uint128_t\<close> (functions without suffix, on \<open>128 word\<close>); with \<open>_NO_128INT_\<close> a number is
  the 40-character array that holds its decimal string (functions with suffix \<open>_raw\<close>).
  A character buffer is a \<open>string\<close> of the buffer's size, updated in place.
\<close>

definition UINT128_RAW_MAX_LEN :: nat where
  "UINT128_RAW_MAX_LEN = 40"

section \<open>The native build\<close>

definition u128_equal :: "u128 \<Rightarrow> u128 \<Rightarrow> bool" where
  "u128_equal a b \<longleftrightarrow> a = b"

definition u128_is_less :: "u128 \<Rightarrow> u128 \<Rightarrow> bool" where
  "u128_is_less a b \<longleftrightarrow> a < b"

text \<open>The loop of \<open>str2u128\<close>: multiplication and addition wrap at 128 bits.\<close>

fun str2u128_loop :: "string \<Rightarrow> u128 \<Rightarrow> u128" where
  "str2u128_loop [] u = u"
| "str2u128_loop (c # cs) u =
     (if is_digit c then str2u128_loop cs (u * 10 + word_of_nat (digit_val c)) else 0)"

definition str2u128 :: "string \<Rightarrow> u128" where
  "str2u128 str = str2u128_loop str 0"

definition construct_u128 :: "string \<Rightarrow> u128" where
  "construct_u128 str = str2u128 str"

text \<open>
  The digit loop of \<open>u1282str\<close> writes the digits at \<open>end\<close>, least significant first; it returns
  \<open>Null\<close> when \<open>end - start < str_max_len - 1\<close> fails, else the final \<open>end\<close>.
\<close>

function u1282str_digits :: "u128 \<Rightarrow> string \<Rightarrow> nat \<Rightarrow> nat \<Rightarrow> (string \<times> nat ptr) option" where
  "u1282str_digits num str e lim =
     (if num \<noteq> 0 then
        if e < lim - 1 then do {
          str \<leftarrow> mem_put str e (digit_char (unat (num mod 10)));
          u1282str_digits (num div 10) str (e + 1) lim
        } else Some (str, Null)
      else Some (str, Ptr e))"
  by pat_completeness auto
termination
proof (relation "measure (\<lambda>(num, str, e, lim). unat num)")
  fix num :: u128
  assume "num \<noteq> 0"
  then have "0 < unat num" by (simp add: unat_gt_0)
  then show "\<And>str e lim x. ((num div 10, x, e + 1, lim), num, str, e, lim)
      \<in> measure (\<lambda>(num, str, e, lim). unat num)"
    by (simp add: unat_div_distrib)
qed simp

declare u1282str_digits.simps [simp del]

text \<open>The loop \<open>while (start < --end)\<close> that swaps the two ends.\<close>

function reverse_chars :: "string \<Rightarrow> nat \<Rightarrow> nat \<Rightarrow> string option" where
  "reverse_chars str s e =
     (if s < e - 1 then do {
        temp \<leftarrow> mem_get str s;
        c \<leftarrow> mem_get str (e - 1);
        str \<leftarrow> mem_put str s c;
        str \<leftarrow> mem_put str (e - 1) temp;
        reverse_chars str (s + 1) (e - 1)
      } else Some str)"
  by pat_completeness auto
termination by (relation "measure (\<lambda>(str, s, e). e)") auto

declare reverse_chars.simps [simp del]

text \<open>\<open>u1282str\<close> returns the buffer and whether the returned pointer is not \<open>NULL\<close>.\<close>

definition u1282str :: "u128 \<Rightarrow> string \<Rightarrow> nat \<Rightarrow> (string \<times> bool) option" where
  "u1282str num str str_max_len =
     (if str_max_len < 2 then None
      else if num = 0 then do {
        str \<leftarrow> mem_put str 0 CHR ''0'';
        str \<leftarrow> mem_put str 1 NUL;
        Some (str, True)
      } else do {
        (str, r) \<leftarrow> u1282str_digits num str 0 str_max_len;
        (case r of
           Null \<Rightarrow> Some (str, False)
         | Ptr e \<Rightarrow> do {
             str \<leftarrow> mem_put str e NUL;
             str \<leftarrow> reverse_chars str 0 e;
             Some (str, True)
           })
      })"

section \<open>The build without 128-bit integers\<close>

type_synonym u128_raw = string

definition u128_equal_raw :: "u128_raw \<Rightarrow> u128_raw \<Rightarrow> bool" where
  "u128_equal_raw a b \<longleftrightarrow> take UINT128_RAW_MAX_LEN a = take UINT128_RAW_MAX_LEN b"

text \<open>\<open>memcmp (a, b, n) < 0\<close>: the first differing byte decides.\<close>

fun mem_less :: "string \<Rightarrow> string \<Rightarrow> bool" where
  "mem_less (x # xs) (y # ys) = (if x = y then mem_less xs ys else code x < code y)"
| "mem_less _ _ = False"

definition u128_is_less_raw :: "u128_raw \<Rightarrow> u128_raw \<Rightarrow> bool option" where
  "u128_is_less_raw a b = do {
     a_len \<leftarrow> map_option length (c_str a);
     b_len \<leftarrow> map_option length (c_str b);
     Some (if a_len < b_len then True
           else if b_len < a_len then False
           else mem_less (take a_len a) (take a_len b))
   }"

text \<open>The copy loop: on a character that is not a digit the number becomes \<open>0\<close>.\<close>

definition raw_zero :: u128_raw where
  "raw_zero = replicate UINT128_RAW_MAX_LEN NUL"

fun str2u128_raw_loop :: "string \<Rightarrow> nat \<Rightarrow> u128_raw \<Rightarrow> u128_raw option" where
  "str2u128_raw_loop [] dest raw = Some raw"
| "str2u128_raw_loop (c # src) dest raw =
     (if is_digit c then do {
        raw \<leftarrow> mem_put raw dest c;
        str2u128_raw_loop src (dest + 1) raw
      } else mem_put raw_zero 0 CHR ''0'')"

definition str2u128_raw :: "string \<Rightarrow> u128_raw option" where
  "str2u128_raw str =
     (if length str > UINT128_RAW_MAX_LEN - 1 then mem_put raw_zero 0 CHR ''0''
      else str2u128_raw_loop str 0 raw_zero)"

definition u1282str_raw :: "u128_raw \<Rightarrow> string \<Rightarrow> nat \<Rightarrow> (string \<times> bool) option" where
  "u1282str_raw num str str_max_len =
     (if str_max_len < 2 then None
      else do {
        raw_len \<leftarrow> map_option length (c_str num);
        if str_max_len < raw_len + 1 then Some (str, False)
        else do {
          str \<leftarrow> mem_blit str 0 (take raw_len num);
          str \<leftarrow> mem_put str raw_len NUL;
          Some (str, True)
        }
      })"

section \<open>What the string conversions compute\<close>

lemma str2u128_loop_digits:
  "list_all is_digit s \<Longrightarrow> str2u128_loop s u = u * 10 ^ length s + word_of_nat (dec_val s)"
  by (induction s arbitrary: u) (simp_all add: dec_val_Cons algebra_simps)

lemma str2u128_loop_bad: "\<not> list_all is_digit s \<Longrightarrow> str2u128_loop s u = 0"
  by (induction s arbitrary: u) auto

lemma str2u128_digits: "list_all is_digit s \<Longrightarrow> str2u128 s = word_of_nat (dec_val s)"
  by (simp add: str2u128_def str2u128_loop_digits)

lemma list_all_dec_digits [simp]: "list_all is_digit (dec_digits n)"
  by (simp add: list_all_iff dec_digits_digits)

lemma NUL_not_digit [simp]: "\<not> is_digit NUL"
  by (simp add: is_digit_def)

lemma digits_no_NUL: "list_all is_digit s \<Longrightarrow> NUL \<notin> set s"
  by (auto simp: list_all_iff)

text \<open>The digits in the order the loop writes them.\<close>

lemma u1282str_digits_writes:
  assumes "e + length (dec_digits (unat num)) < lim" "lim \<le> length str" "num \<noteq> 0"
  shows "u1282str_digits num str e lim =
    Some (patch str e (rev (dec_digits (unat num))), Ptr (e + length (dec_digits (unat num))))"
  using assms
proof (induction num str e lim rule: u1282str_digits.induct)
  case (1 num str e lim)
  have nd: "unat (num div 10) = unat num div 10" and nm: "unat (num mod 10) = unat num mod 10"
    by (simp_all add: unat_div_distrib unat_mod_distrib)
  show ?case
  proof (cases "unat num < 10")
    case True
    then have "num div 10 = 0" by (simp add: unat_eq_zero [symmetric] nd del: unat_eq_zero)
    moreover have "unat num mod 10 = unat num" using True by simp
    ultimately show ?thesis
      using 1 True by (simp add: u1282str_digits.simps [of num] u1282str_digits.simps [of 0]
          mem_put_patch nm dec_digits.simps [of "unat num"])
  next
    case False
    then have "num div 10 \<noteq> 0" by (simp add: unat_eq_zero [symmetric] nd del: unat_eq_zero)
    with 1 False show ?thesis
      by (simp add: u1282str_digits.simps [of num] mem_put_patch nm nd dec_digits.simps [of "unat num"]
          patch_append)
  qed
qed

lemma u1282str_digits_short:
  assumes "lim \<le> e + length (dec_digits (unat num))" "lim \<le> length str" "num \<noteq> 0"
  shows "\<exists>str'. u1282str_digits num str e lim = Some (str', Null) \<and> length str' = length str"
  using assms
proof (induction num str e lim rule: u1282str_digits.induct)
  case (1 num str e lim)
  have nd: "unat (num div 10) = unat num div 10"
    by (simp add: unat_div_distrib)
  show ?case
  proof (cases "e < lim - 1")
    case False
    with 1 show ?thesis by (simp add: u1282str_digits.simps [of num])
  next
    case less: True
    then have "1 < length (dec_digits (unat num))" using "1.prems" by linarith
    then have ge: "\<not> unat num < 10" by (auto simp: dec_digits.simps [of "unat num"])
    then have nz: "num div 10 \<noteq> 0" by (simp add: unat_eq_zero [symmetric] nd del: unat_eq_zero)
    let ?str = "patch str e [digit_char (unat (num mod 10))]"
    have "\<exists>str'. u1282str_digits (num div 10) ?str (e + 1) lim = Some (str', Null)
        \<and> length str' = length ?str"
      using less "1.prems" ge nz
      by (intro "1.IH") (auto simp: mem_put_patch nd dec_digits.simps [of "unat num"])
    with less 1 show ?thesis
      by (simp add: u1282str_digits.simps [of num] mem_put_patch)
  qed
qed

lemma reverse_chars_rev:
  "reverse_chars (pre @ xs @ post) (length pre) (length pre + length xs) = Some (pre @ rev xs @ post)"
proof (induction "length xs" arbitrary: pre xs post rule: less_induct)
  case less
  show ?case
  proof (cases "length xs \<le> 1")
    case True
    then have "rev xs = xs" by (cases xs) auto
    with True show ?thesis by (simp add: reverse_chars.simps)
  next
    case False
    then obtain x ys y where xs: "xs = x # ys @ [y]"
      by (cases xs; cases "tl xs" rule: rev_cases) auto
    have "reverse_chars ((pre @ [y]) @ ys @ x # post) (length (pre @ [y])) (length (pre @ [y]) + length ys)
        = Some ((pre @ [y]) @ rev ys @ x # post)"
      by (rule less) (simp add: xs)
    moreover have "pre @ x # ys @ y # post = (pre @ x # ys) @ y # post" by simp
    ultimately show ?thesis
      by (subst reverse_chars.simps)
        (simp add: xs mem_put_def nth_append list_update_append)
  qed
qed

theorem u1282str_fits:
  assumes "2 \<le> lim" "lim \<le> length str" "length (dec_digits (unat num)) < lim"
  shows "u1282str num str lim = Some (patch str 0 (dec_digits (unat num) @ [NUL]), True)"
proof (cases "num = 0")
  case True
  have "0 < length str" and "1 < length str" using assms by auto
  with True assms(1) show ?thesis
    by (simp add: u1282str_def mem_put_patch patch_append dec_digits.simps digit_char_0 del: length_greater_0_conv)
next
  case False
  let ?d = "dec_digits (unat num)"
  have "u1282str_digits num str 0 lim = Some (patch str 0 (rev ?d), Ptr (length ?d))"
    using u1282str_digits_writes [of 0 num lim str] assms False by simp
  moreover have "patch str 0 (rev ?d @ [NUL]) = [] @ rev ?d @ NUL # drop (Suc (length ?d)) str"
    by (simp add: patch_def)
  moreover have "patch str 0 (?d @ [NUL]) = ?d @ NUL # drop (Suc (length ?d)) str"
    by (simp add: patch_def)
  ultimately show ?thesis
    using reverse_chars_rev [of "[]" "rev ?d" "NUL # drop (Suc (length ?d)) str"] assms False
    by (simp add: u1282str_def mem_put_patch patch_append)
qed

theorem u1282str_short:
  assumes "2 \<le> lim" "lim \<le> length str" "lim \<le> length (dec_digits (unat num))"
  shows "\<exists>str'. u1282str num str lim = Some (str', False) \<and> length str' = length str"
proof -
  from assms have nz: "num \<noteq> 0" by (auto simp: dec_digits.simps)
  then obtain str' where "u1282str_digits num str 0 lim = Some (str', Null)" "length str' = length str"
    using u1282str_digits_short [of lim 0 num str] assms by auto
  with assms nz show ?thesis by (simp add: u1282str_def)
qed

lemma u128_digits_fit: "length (dec_digits (unat (num :: u128))) < UINT128_RAW_MAX_LEN"
proof -
  have "unat num < 2 ^ 128" using unsigned_less [of num, where ?'a = nat] by simp
  then have "unat num < 10 ^ 39" by simp
  then show ?thesis using length_dec_digits [of "unat num" 39] by (simp add: UINT128_RAW_MAX_LEN_def)
qed

lemma c_str_patch_digits:
  "length s < length m \<Longrightarrow> list_all is_digit s \<Longrightarrow> c_str (patch m 0 (s @ [NUL])) = Some s"
  by (simp add: patch_def c_str_append_NUL digits_no_NUL)

section \<open>The build without 128-bit integers computes the same\<close>

text \<open>The number an array stands for.\<close>

definition raw_val :: "u128_raw \<Rightarrow> nat" where
  "raw_val raw = dec_val (takeWhile (\<lambda>c. c \<noteq> NUL) raw)"

definition raw_of :: "string \<Rightarrow> u128_raw" where
  "raw_of s = s @ replicate (UINT128_RAW_MAX_LEN - length s) NUL"

lemma str2u128_raw_loop_digits:
  assumes "list_all is_digit s" "length p + length s < UINT128_RAW_MAX_LEN"
  shows "str2u128_raw_loop s (length p) (raw_of p) = Some (raw_of (p @ s))"
  using assms
proof (induction s arbitrary: p)
  case (Cons c s)
  have "mem_put (raw_of p) (length p) c = Some (raw_of (p @ [c]))"
    using Cons.prems
    by (simp add: raw_of_def mem_put_def list_update_append Suc_diff_Suc [symmetric] del: Suc_diff_Suc)
  with Cons.IH [of "p @ [c]"] Cons.prems show ?case by simp
qed simp

lemma str2u128_raw_digits:
  assumes "list_all is_digit s" "length s < UINT128_RAW_MAX_LEN"
  shows "str2u128_raw s = Some (raw_of s)"
  using str2u128_raw_loop_digits [of s "[]"] assms
  by (simp add: str2u128_raw_def raw_of_def raw_zero_def)

lemma str2u128_raw_loop_bad:
  assumes "\<not> list_all is_digit s" "dest + length s < length raw"
  shows "str2u128_raw_loop s dest raw = Some (raw_of ''0'')"
  using assms
proof (induction s arbitrary: dest raw)
  case (Cons c s)
  have "mem_put raw_zero 0 CHR ''0'' = Some (raw_of ''0'')"
    unfolding mem_put_def raw_zero_def raw_of_def UINT128_RAW_MAX_LEN_def by code_simp
  with Cons show ?case by (auto simp: mem_put_def)
qed simp

lemma takeWhile_raw_of:
  assumes "list_all is_digit s"
  shows "takeWhile (\<lambda>c. c \<noteq> NUL) (raw_of s) = s"
proof -
  have "takeWhile (\<lambda>c. c \<noteq> NUL) (s @ replicate n NUL) = s" for n
    using assms by (induction s) (cases n, auto)
  then show ?thesis by (simp add: raw_of_def)
qed

lemma raw_val_of: "list_all is_digit s \<Longrightarrow> raw_val (raw_of s) = dec_val s"
  by (simp add: raw_val_def takeWhile_raw_of)

lemma c_str_raw_of:
  assumes "list_all is_digit s" "length s < UINT128_RAW_MAX_LEN"
  shows "c_str (raw_of s) = Some s"
proof -
  obtain k where "UINT128_RAW_MAX_LEN - length s = Suc k"
    using assms(2) by (metis Suc_diff_Suc)
  with assms(1) show ?thesis
    by (simp add: raw_of_def c_str_append_NUL digits_no_NUL)
qed

text \<open>On digit strings of one length the byte order is the numeric order.\<close>

lemma mem_less_dec_val:
  "list_all is_digit s \<Longrightarrow> list_all is_digit t \<Longrightarrow> length s = length t \<Longrightarrow>
    mem_less s t \<longleftrightarrow> dec_val s < dec_val t"
proof (induction s t rule: mem_less.induct)
  case (1 x xs y ys)
  have dx: "is_digit x" and dy: "is_digit y" and dxs: "list_all is_digit xs"
    and dys: "list_all is_digit ys" and len: "length xs = length ys" using "1.prems" by simp_all
  have less: "dec_val xs < 10 ^ length ys" "dec_val ys < 10 ^ length ys"
    using dec_val_less [of xs] dec_val_less [of ys] dxs dys len by (simp_all add: list_all_iff)
  have code: "code x < code y \<longleftrightarrow> digit_val x < digit_val y"
    using dx dy by (auto simp: digit_val_def is_digit_def)
  show ?case
  proof (cases "digit_val x" "digit_val y" rule: linorder_cases)
    case equal
    then have "x = y" using dx dy by (metis digit_char_val)
    with "1.IH" dxs dys len show ?thesis by (simp add: dec_val_Cons)
  next
    case lt: less
    then have "(digit_val x + 1) * 10 ^ length ys \<le> digit_val y * 10 ^ length ys"
      by (intro mult_right_mono) simp_all
    with less have "dec_val (x # xs) < dec_val (y # ys)"
      by (simp add: dec_val_Cons len)
    with lt code show ?thesis by auto
  next
    case gt: greater
    then have "(digit_val y + 1) * 10 ^ length ys \<le> digit_val x * 10 ^ length ys"
      by (intro mult_right_mono) simp_all
    with less have "dec_val (y # ys) < dec_val (x # xs)"
      by (simp add: dec_val_Cons len)
    with gt code show ?thesis by auto
  qed
qed simp_all

text \<open>A digit string without leading zeros: the shorter one is the smaller number.\<close>

definition canonical :: "string \<Rightarrow> bool" where
  "canonical s \<longleftrightarrow> s \<noteq> [] \<and> list_all is_digit s \<and> (length s = 1 \<or> hd s \<noteq> CHR ''0'')"

lemma canonical_ge:
  assumes "canonical s" "1 < length s"
  shows "10 ^ (length s - 1) \<le> dec_val s"
proof -
  obtain c t where s: "s = c # t" using assms by (cases s) auto
  with assms have "is_digit c" "c \<noteq> CHR ''0''" by (auto simp: canonical_def)
  then have "1 \<le> digit_val c"
    using digit_char_val [of c] digit_char_0 by (cases "digit_val c") auto
  then have "10 ^ length t \<le> digit_val c * 10 ^ length t" by simp
  then have "10 ^ length t \<le> digit_val c * 10 ^ length t + dec_val t" by (rule trans_le_add1)
  then show ?thesis by (simp only: s dec_val_Cons list.size diff_Suc_1 add_Suc_right add_0_right)
qed

lemma canonical_shorter_less:
  assumes "canonical s" "canonical t" "length s < length t"
  shows "dec_val s < dec_val t"
proof -
  have "dec_val s < 10 ^ length s"
    using assms dec_val_less [of s] by (simp add: canonical_def list_all_iff)
  also have "(10::nat) ^ length s \<le> 10 ^ (length t - 1)" using assms by (intro power_increasing) simp_all
  also have "\<dots> \<le> dec_val t" using assms by (intro canonical_ge) (cases s; simp add: canonical_def)+
  finally show ?thesis .
qed

section \<open>Properties\<close>

text \<open>C30: Number to string and back. For every 128-bit number and every buffer of at least 40
  characters \<open>u1282str\<close> stays inside the buffer, returns it, and leaves a NUL-terminated string in it
  from which \<open>str2u128\<close> reads the number back.\<close>

theorem u128_str_roundtrip:
  assumes "length str = lim" "UINT128_RAW_MAX_LEN \<le> lim"
  shows "\<exists>str' s. u1282str num str lim = Some (str', True) \<and> length str' = lim
    \<and> c_str str' = Some s \<and> str2u128 s = num"
proof -
  let ?d = "dec_digits (unat num)"
  have lt: "length ?d < lim" and "2 \<le> lim"
    using u128_digits_fit [of num] assms(2) by (simp_all add: UINT128_RAW_MAX_LEN_def)
  then have "u1282str num str lim = Some (patch str 0 (?d @ [NUL]), True)"
    using u1282str_fits [of lim str num] assms(1) by simp
  moreover have "c_str (patch str 0 (?d @ [NUL])) = Some ?d"
    using lt assms(1) by (simp add: c_str_patch_digits)
  moreover have "str2u128 ?d = num" by (simp add: str2u128_digits)
  ultimately show ?thesis using lt assms(1) by auto
qed

theorem u128_str_roundtrip_witness:
  "\<exists>str' s. u1282str 12345 (replicate 40 NUL) 40 = Some (str', True) \<and> length str' = 40
    \<and> c_str str' = Some s \<and> str2u128 s = 12345"
  by (rule u128_str_roundtrip) (simp_all add: UINT128_RAW_MAX_LEN_def)

text \<open>\<open>u1282str\<close> returns \<open>NULL\<close> exactly when the decimal digits and the final NUL do not fit the
  stated size; on the other sizes it writes exactly the canonical decimal digits of the number.
  In no case does it write outside the buffer.\<close>

theorem u1282str_result:
  assumes "2 \<le> lim" "lim \<le> length str"
  shows "\<exists>str' ok. u1282str num str lim = Some (str', ok) \<and> length str' = length str
    \<and> (ok \<longleftrightarrow> length (dec_digits (unat num)) < lim)
    \<and> (ok \<longrightarrow> str' = patch str 0 (dec_digits (unat num) @ [NUL]))"
proof (cases "length (dec_digits (unat num)) < lim")
  case True
  with u1282str_fits [OF assms True] assms show ?thesis by auto
next
  case False
  then obtain str' where "u1282str num str lim = Some (str', False)" "length str' = length str"
    using u1282str_short [OF assms, of num] by auto
  with False show ?thesis by blast
qed

theorem u1282str_result_witness:
  "\<exists>str' ok. u1282str 12345 (replicate 8 NUL) 5 = Some (str', ok) \<and> length str' = length (replicate 8 NUL)
    \<and> (ok \<longleftrightarrow> length (dec_digits (unat (12345 :: u128))) < 5)
    \<and> (ok \<longrightarrow> str' = patch (replicate 8 NUL) 0 (dec_digits (unat (12345 :: u128)) @ [NUL]))"
  by (rule u1282str_result) simp_all

text \<open>\<open>str2u128\<close> on every string: the decimal value modulo \<open>2 ^ 128\<close> when all characters are
  digits (the wrap-around is silent), and 0 as soon as one is not.\<close>

theorem str2u128_value:
  "unat (str2u128 s) = (if list_all is_digit s then dec_val s mod 2 ^ 128 else 0)"
  by (cases "list_all is_digit s")
    (simp_all add: str2u128_digits unat_of_nat, simp add: str2u128_def str2u128_loop_bad)

text \<open>C25: The two builds agree. For digit strings without leading zeros, of numbers below \<open>2 ^ 128\<close> and short enough for the array of the array build, that build
  converts both strings, and compares them and tests them for equality exactly as the build with 128-bit integers.\<close>

theorem u128_builds_agree:
  assumes "canonical s" "canonical t" "dec_val s < 2 ^ 128" "dec_val t < 2 ^ 128"
    and "length s < UINT128_RAW_MAX_LEN" "length t < UINT128_RAW_MAX_LEN"
  shows "\<exists>a b. str2u128_raw s = Some a \<and> str2u128_raw t = Some b
    \<and> u128_is_less_raw a b = Some (u128_is_less (str2u128 s) (str2u128 t))
    \<and> (u128_equal_raw a b \<longleftrightarrow> u128_equal (str2u128 s) (str2u128 t))"
proof -
  have ds: "list_all is_digit s" and dt: "list_all is_digit t"
    using assms by (simp_all add: canonical_def)
  have us: "unat (str2u128 s) = dec_val s" and ut: "unat (str2u128 t) = dec_val t"
    using assms ds dt by (simp_all add: str2u128_digits unat_of_nat)
  have less: "u128_is_less_raw (raw_of s) (raw_of t) = Some (dec_val s < dec_val t)"
  proof (cases "length s" "length t" rule: linorder_cases)
    case equal
    then show ?thesis
      using ds dt assms by (simp add: u128_is_less_raw_def c_str_raw_of mem_less_dec_val [symmetric])
        (simp add: raw_of_def)
  qed (use ds dt assms canonical_shorter_less [of s t] canonical_shorter_less [of t s] in
      \<open>auto simp: u128_is_less_raw_def c_str_raw_of\<close>)
  have eq: "raw_of s = raw_of t \<longleftrightarrow> dec_val s = dec_val t"
  proof
    assume "raw_of s = raw_of t"
    then show "dec_val s = dec_val t" using raw_val_of [OF ds] raw_val_of [OF dt] by simp
  next
    assume v: "dec_val s = dec_val t"
    then have "length s = length t"
      using canonical_shorter_less [of s t] canonical_shorter_less [of t s] assms
      by (cases "length s" "length t" rule: linorder_cases) auto
    then have "s = t" using ds dt v
    proof (induction s t rule: list_induct2)
      case (Cons x xs y ys)
      have "\<not> mem_less (x # xs) (y # ys)" "\<not> mem_less (y # ys) (x # xs)"
        using Cons mem_less_dec_val [of "x # xs" "y # ys"] mem_less_dec_val [of "y # ys" "x # xs"]
        by simp_all
      then have "code x = code y" by (auto split: if_splits)
      then have "x = y" by simp
      with Cons show ?case by (simp add: dec_val_Cons)
    qed simp
    then show "raw_of s = raw_of t" by simp
  qed
  have len: "length (raw_of s) = UINT128_RAW_MAX_LEN" "length (raw_of t) = UINT128_RAW_MAX_LEN"
    using assms by (simp_all add: raw_of_def)
  have "u128_equal_raw (raw_of s) (raw_of t) \<longleftrightarrow> u128_equal (str2u128 s) (str2u128 t)"
    using len eq us ut by (simp add: u128_equal_raw_def u128_equal_def word_unat_eq_iff)
  then show ?thesis
    using ds dt assms less us ut str2u128_raw_digits
    by (simp add: u128_is_less_def word_less_nat_alt)
qed

theorem u128_builds_agree_witness:
  "\<exists>a b. str2u128_raw ''99'' = Some a \<and> str2u128_raw ''100'' = Some b
    \<and> u128_is_less_raw a b = Some (u128_is_less (str2u128 ''99'') (str2u128 ''100''))
    \<and> (u128_equal_raw a b \<longleftrightarrow> u128_equal (str2u128 ''99'') (str2u128 ''100''))"
  by (rule u128_builds_agree)
    (simp_all add: canonical_def is_digit_def dec_val_def digit_val_def UINT128_RAW_MAX_LEN_def)

end
