(* ===== verification/Utils.thy ===== *)
theory Utils
  imports Emb_Prelude
begin

text \<open>
  \<open>src/utils.c\<close>: \<open>utils_rau2iotx\<close> rewrites an amount in rau (a decimal string) as the decimal string
  of the same amount in IOTX (1 IOTX is \<open>10 ^ 18\<close> rau). The three loops of the function are the
  three recursive functions; the output buffer is a \<open>string\<close> updated in place.
\<close>

definition transform_factor :: nat where
  "transform_factor = 18"

text \<open>The copy loop of the first branch: \<open>.\<close> is inserted after \<open>decimal_point_pos\<close> characters.\<close>

fun rau_copy :: "string \<Rightarrow> nat \<Rightarrow> nat \<Rightarrow> nat \<Rightarrow> string \<Rightarrow> (string \<times> nat) option" where
  "rau_copy [] r w point m = Some (m, w)"
| "rau_copy (c # rau) r w point m = do {
     m \<leftarrow> mem_put m w c;
     (if r + 1 = point then do {
        m \<leftarrow> mem_put m (w + 1) CHR ''.'';
        rau_copy rau (r + 1) (w + 2) point m
      } else rau_copy rau (r + 1) (w + 1) point m)
   }"

text \<open>\<open>do { iotx[w++] = '0'; } while (w < lim);\<close>\<close>

function pad_zeros :: "nat \<Rightarrow> nat \<Rightarrow> string \<Rightarrow> (string \<times> nat) option" where
  "pad_zeros w lim m = do {
     m \<leftarrow> mem_put m w CHR ''0'';
     (if w + 1 < lim then pad_zeros (w + 1) lim m else Some (m, w + 1))
   }"
  by pat_completeness auto
termination by (relation "measure (\<lambda>(w, lim, m). lim - w)") auto

declare pad_zeros.simps [simp del]

text \<open>\<open>do { iotx[w++] = rau[r++]; } while (r < rau_len);\<close> on the rest of the string and its NUL.\<close>

fun copy_digits :: "string \<Rightarrow> nat \<Rightarrow> string \<Rightarrow> (string \<times> nat) option" where
  "copy_digits [] w m = do { m \<leftarrow> mem_put m w NUL; Some (m, w + 1) }"
| "copy_digits [c] w m = do { m \<leftarrow> mem_put m w c; Some (m, w + 1) }"
| "copy_digits (c # rau) w m = do { m \<leftarrow> mem_put m w c; copy_digits rau (w + 1) m }"

text \<open>\<open>while ('0' == iotx[w]) --w;\<close> where \<open>--w\<close> at 0 leaves the buffer.\<close>

fun strip_zeros :: "string \<Rightarrow> nat \<Rightarrow> nat option" where
  "strip_zeros m 0 = do { c \<leftarrow> mem_get m 0; if c = CHR ''0'' then None else Some 0 }"
| "strip_zeros m (Suc w) = do { c \<leftarrow> mem_get m (Suc w); if c = CHR ''0'' then strip_zeros m w else Some (Suc w) }"

text \<open>The two branches that fill the buffer; \<open>w\<close> is the position after the last character.\<close>

definition rau_digits :: "string \<Rightarrow> string \<Rightarrow> (string \<times> nat) option" where
  "rau_digits rau m =
     (let rau_len = length rau in
      if rau_len \<ge> transform_factor then rau_copy rau 0 0 (rau_len - transform_factor) m
      else do {
        m \<leftarrow> mem_put m 0 CHR ''0'';
        m \<leftarrow> mem_put m 1 CHR ''.'';
        (m, w) \<leftarrow> pad_zeros 2 (transform_factor - rau_len + 2) m;
        copy_digits rau w m
      })"

text \<open>The result: the buffer and whether the returned pointer is not \<open>NULL\<close>.\<close>

definition utils_rau2iotx :: "string \<Rightarrow> string ptr \<Rightarrow> nat \<Rightarrow> (string ptr \<times> bool) option" where
  "utils_rau2iotx rau iotx lim =
     (let rau_len = length rau in
      case iotx of
        Null \<Rightarrow> Some (Null, False)
      | Ptr m \<Rightarrow>
        if lim < rau_len + 3 \<or> lim < transform_factor + 3 then Some (Ptr m, False)
        else if rau \<noteq> [] \<and> hd rau = CHR ''0'' then do {
          m \<leftarrow> mem_put m 0 CHR ''0'';
          m \<leftarrow> mem_put m 1 NUL;
          Some (Ptr m, True)
        } else do {
          (m, w) \<leftarrow> rau_digits rau m;
          w \<leftarrow> strip_zeros m (w - 1);
          c \<leftarrow> mem_get m w;
          m \<leftarrow> mem_put m (if c = CHR ''.'' then w else w + 1) NUL;
          Some (Ptr m, True)
        })"

section \<open>The text the function composes\<close>

text \<open>The amount before trailing zeros are removed, as the branches build it.\<close>

definition iotx_text :: "string \<Rightarrow> string" where
  "iotx_text rau =
     (let n = length rau in
      if n < transform_factor then ''0.'' @ replicate (transform_factor - n) CHR ''0'' @ rau
      else if n = transform_factor then rau
      else take (n - transform_factor) rau @ CHR ''.'' # drop (n - transform_factor) rau)"

definition strip0 :: "string \<Rightarrow> string" where
  "strip0 s = rev (dropWhile (\<lambda>c. c = CHR ''0'') (rev s))"

definition strip_point :: "string \<Rightarrow> string" where
  "strip_point s = (if s \<noteq> [] \<and> last s = CHR ''.'' then butlast s else s)"

text \<open>The amount in rau that an IOTX string denotes.\<close>

definition iotx_to_rau :: "string \<Rightarrow> nat" where
  "iotx_to_rau s =
     (let int_part = takeWhile (\<lambda>c. c \<noteq> CHR ''.'') s;
          frac = drop 1 (dropWhile (\<lambda>c. c \<noteq> CHR ''.'') s)
      in dec_val int_part * 10 ^ transform_factor + dec_val frac * 10 ^ (transform_factor - length frac))"

lemma rau_copy_no_point:
  assumes "point \<le> r" "w + length rau \<le> length m"
  shows "rau_copy rau r w point m = Some (patch m w rau, w + length rau)"
  using assms
proof (induction rau r w point m rule: rau_copy.induct)
  case (2 c rau r w point m)
  then show ?case by (simp add: mem_put_patch patch_append)
qed simp

lemma rau_copy_point:
  assumes "r < point" "point \<le> r + length rau" "w + length rau + 1 \<le> length m"
  shows "rau_copy rau r w point m =
    Some (patch m w (take (point - r) rau @ CHR ''.'' # drop (point - r) rau), w + length rau + 1)"
  using assms
proof (induction rau r w point m rule: rau_copy.induct)
  case (2 c rau r w point m)
  show ?case
  proof (cases "r + 1 = point")
    case True
    with "2.prems" show ?thesis
      by (simp add: mem_put_patch patch_append rau_copy_no_point flip: True)
  next
    case False
    with "2.prems" have "point - r = Suc (point - (r + 1))" by simp
    with 2 False show ?thesis by (simp add: mem_put_patch patch_append)
  qed
qed simp

lemma pad_zeros_eq:
  "w < lim \<Longrightarrow> lim \<le> length m \<Longrightarrow> pad_zeros w lim m = Some (patch m w (replicate (lim - w) CHR ''0''), lim)"
proof (induction w lim m rule: pad_zeros.induct)
  case (1 w lim m)
  show ?case
  proof (cases "w + 1 < lim")
    case True
    then have "lim - w = Suc (lim - (w + 1))" by simp
    with 1 True show ?thesis
      by (simp add: pad_zeros.simps [of w] mem_put_patch patch_append)
  next
    case False
    with "1.prems" have "lim = Suc w" by simp
    with "1.prems" show ?thesis by (simp add: pad_zeros.simps [of w] mem_put_patch)
  qed
qed

lemma copy_digits_eq:
  "rau \<noteq> [] \<Longrightarrow> w + length rau \<le> length m \<Longrightarrow> copy_digits rau w m = Some (patch m w rau, w + length rau)"
  by (induction rau w m rule: copy_digits.induct) (simp_all add: mem_put_patch patch_append)

lemma strip0_snoc: "strip0 (s @ [c]) = (if c = CHR ''0'' then strip0 s else s @ [c])"
  by (simp add: strip0_def)

lemma strip0_append_zeros: "\<exists>k. s = strip0 s @ replicate k CHR ''0''"
proof (induction s rule: rev_induct)
  case (snoc c s)
  then obtain k where "s = strip0 s @ replicate k CHR ''0''" by blast
  then have "s @ [CHR ''0''] = strip0 s @ replicate (Suc k) CHR ''0''"
    by (metis append.assoc replicate_append_same replicate_Suc)
  then have "\<exists>k. s @ [CHR ''0''] = strip0 s @ replicate k CHR ''0''" by blast
  then show ?case by (auto simp: strip0_snoc intro: exI [of _ 0])
qed (simp add: strip0_def)

lemma strip0_not_zero: "strip0 s \<noteq> [] \<Longrightarrow> last (strip0 s) \<noteq> CHR ''0''"
  by (induction s rule: rev_induct) (auto simp: strip0_snoc, simp add: strip0_def)

lemma strip_zeros_eq:
  assumes "s \<noteq> []" "strip0 s \<noteq> []"
  shows "strip_zeros (s @ rest) (length s - 1) = Some (length (strip0 s) - 1)"
  using assms
proof (induction s arbitrary: rest rule: rev_induct)
  case (snoc c s)
  show ?case
  proof (cases s)
    case Nil
    with snoc.prems show ?thesis by (simp add: strip0_def split: if_splits)
  next
    case (Cons a t)
    then obtain k where k: "length s = Suc k" by simp
    have IH: "strip_zeros (s @ c # rest) k = Some (length (strip0 s) - 1)" if "strip0 s \<noteq> []"
      using snoc.IH [of "c # rest"] that Cons k by simp
    show ?thesis using snoc.prems IH k by (auto simp: strip0_snoc nth_append)
  qed
qed simp

section \<open>The whole function\<close>

lemma strip0_subset: "set (strip0 s) \<subseteq> set s"
  by (auto simp: strip0_def dest: set_dropWhileD)

lemma strip_point_prefix: "\<exists>t. strip0 s = strip_point (strip0 s) @ t"
  by (auto simp: strip_point_def) (metis append_butlast_last_id)

lemma strip_prefix: "\<exists>t. s = strip_point (strip0 s) @ t"
  by (metis append.assoc strip0_append_zeros strip_point_prefix)

lemma iotx_text_short:
  "length rau < transform_factor \<Longrightarrow>
    iotx_text rau = ''0.'' @ replicate (transform_factor - length rau) CHR ''0'' @ rau"
  by (simp add: iotx_text_def)

lemma iotx_text_equal: "length rau = transform_factor \<Longrightarrow> iotx_text rau = rau"
  by (simp add: iotx_text_def)

lemma iotx_text_long:
  "transform_factor < length rau \<Longrightarrow> iotx_text rau =
    take (length rau - transform_factor) rau @ CHR ''.'' # drop (length rau - transform_factor) rau"
  by (simp add: iotx_text_def Let_def)

lemmas iotx_text_cases = iotx_text_short iotx_text_equal iotx_text_long

lemma length_iotx_text:
  "length (iotx_text rau) = (if length rau < transform_factor then transform_factor + 2
     else if length rau = transform_factor then length rau else length rau + 1)"
  by (cases "length rau" transform_factor rule: linorder_cases) (simp_all add: iotx_text_cases)

lemma set_iotx_text:
  "set rau \<subseteq> set (iotx_text rau)" "set (iotx_text rau) \<subseteq> set rau \<union> {CHR ''0'', CHR ''.''}"
proof -
  have "set rau = set (take n rau) \<union> set (drop n rau)" for n
    by (metis append_take_drop_id set_append)
  then show "set rau \<subseteq> set (iotx_text rau)" "set (iotx_text rau) \<subseteq> set rau \<union> {CHR ''0'', CHR ''.''}"
    by (cases "length rau" transform_factor rule: linorder_cases, auto simp: iotx_text_cases)+
qed

lemma strip0_nonempty: "\<exists>c \<in> set s. c \<noteq> CHR ''0'' \<Longrightarrow> strip0 s \<noteq> []"
  by (auto simp: strip0_def dropWhile_eq_Nil_conv)

lemma strip0_iotx_text:
  assumes "rau \<noteq> []" "hd rau \<noteq> CHR ''0''"
  shows "strip0 (iotx_text rau) \<noteq> []"
proof (rule strip0_nonempty)
  have "hd rau \<in> set rau" using assms by simp
  then show "\<exists>c\<in>set (iotx_text rau). c \<noteq> CHR ''0''"
    using assms set_iotx_text(1) by blast
qed

lemma compose_branches:
  assumes "rau \<noteq> []" "length rau + 3 \<le> length m" "transform_factor + 3 \<le> length m"
  shows "rau_digits rau m = Some (patch m 0 (iotx_text rau), length (iotx_text rau))"
proof (cases "length rau" transform_factor rule: linorder_cases)
  case less
  have z: "0 < length m" "1 < length m" using assms by auto
  with less assms show ?thesis
    by (simp add: rau_digits_def Let_def mem_put_patch patch_append pad_zeros_eq copy_digits_eq iotx_text_short
        del: length_greater_0_conv)
next
  case equal
  with assms show ?thesis by (simp add: rau_digits_def Let_def rau_copy_no_point iotx_text_equal)
next
  case greater
  with assms show ?thesis by (simp add: rau_digits_def Let_def rau_copy_point iotx_text_long)
qed

lemma utils_rau2iotx_text:
  assumes "rau \<noteq> []" "hd rau \<noteq> CHR ''0''" "NUL \<notin> set rau"
    and "length rau + 3 \<le> lim" "transform_factor + 3 \<le> lim" "lim \<le> length m"
  shows "\<exists>m'. utils_rau2iotx rau (Ptr m) lim = Some (Ptr m', True) \<and> length m' = length m
    \<and> c_str m' = Some (strip_point (strip0 (iotx_text rau)))"
proof -
  let ?t = "iotx_text rau" and ?s = "strip0 (iotx_text rau)"
  let ?r = "strip_point ?s"
  have L: "length ?t + 1 \<le> length m" and tne: "?t \<noteq> []"
    using assms set_iotx_text(1) [of rau] by (auto simp: length_iotx_text)
  have sne: "?s \<noteq> []" using assms strip0_iotx_text by blast
  obtain z where z: "?t = ?r @ z" using strip_prefix by blast
  obtain k where k: "?t = ?s @ replicate k CHR ''0''" using strip0_append_zeros by blast
  have p: "patch m 0 ?t = ?t @ drop (length ?t) m" by (simp add: patch_def)
  have get: "mem_get (?t @ drop (length ?t) m) (length ?s - 1) = Some (last ?s)"
  proof -
    have lt: "length ?s - 1 < length ?s" using sne by simp
    then have "(?t @ drop (length ?t) m) ! (length ?s - 1) = ?s ! (length ?s - 1)"
      by (subst k) (simp add: nth_append)
    moreover have "length ?s \<le> length ?t" by (subst k) simp
    moreover from this lt have "length ?s - 1 < length ?t + (length m - length ?t)" by linarith
    ultimately show ?thesis using sne by (simp add: mem_get_def last_conv_nth)
  qed
  have idx: "(if last ?s = CHR ''.'' then length ?s - Suc 0 else length ?s - Suc 0 + 1) = length ?r"
    using sne by (simp add: strip_point_def)
  have put: "mem_put (?t @ drop (length ?t) m) (if last ?s = CHR ''.'' then length ?s - Suc 0 else length ?s - Suc 0 + 1) NUL
      = Some (patch (?t @ drop (length ?t) m) (length ?r) [NUL])"
    unfolding idx using L arg_cong [OF z, of length] by (intro mem_put_patch) simp
  have rL: "length ?r \<le> length ?t" by (subst z) simp
  have "?t @ drop (length ?t) m = ?r @ z @ drop (length ?t) m"
    by (subst z) simp
  then have patch: "patch (?t @ drop (length ?t) m) (length ?r) [NUL]
      = ?r @ NUL # drop 1 (z @ drop (length ?t) m)"
    by (simp only: patch_after)
  have "NUL \<notin> set ?t" using set_iotx_text(2) [of rau] assms(3) by auto
  then have nul: "NUL \<notin> set ?r" by (subst (asm) z) simp
  have strip: "strip_zeros (?t @ drop (length ?t) m) (length ?t - 1) = Some (length ?s - 1)"
    using strip_zeros_eq [OF tne sne] .
  have br: "rau_digits rau m = Some (?t @ drop (length ?t) m, length ?t)"
    using compose_branches [of rau m] assms by (simp add: patch_def)
  have "utils_rau2iotx rau (Ptr m) lim
      = Some (Ptr (patch (?t @ drop (length ?t) m) (length ?r) [NUL]), True)"
    using assms get put strip by (simp add: utils_rau2iotx_def br split del: if_split)
  moreover have "length (patch (?t @ drop (length ?t) m) (length ?r) [NUL]) = length m"
    using L rL by (subst length_patch) simp_all
  moreover have "c_str (patch (?t @ drop (length ?t) m) (length ?r) [NUL]) = Some ?r"
    unfolding patch using nul by (rule c_str_append_NUL)
  ultimately show ?thesis by blast
qed

lemma strip0_point: "strip0 (a @ CHR ''.'' # b) = a @ CHR ''.'' # strip0 b"
proof (induction b rule: rev_induct)
  case (snoc c b)
  then show ?case
    using strip0_snoc [of "a @ CHR ''.'' # b" c] by (simp add: strip0_snoc)
qed (simp add: strip0_def)

lemma dec_val_zeros [simp]: "dec_val (replicate k CHR ''0'') = 0"
  by (induction k) (simp_all add: dec_val_Cons digit_val_def)

lemma dec_val_strip0: "dec_val s = dec_val (strip0 s) * 10 ^ (length s - length (strip0 s))"
proof -
  obtain k where k: "s = strip0 s @ replicate k CHR ''0''" using strip0_append_zeros by blast
  have "dec_val s = dec_val (strip0 s) * 10 ^ k" by (subst k) (simp add: dec_val_append)
  moreover have "length s = length (strip0 s) + k" using arg_cong [OF k, of length] by simp
  ultimately show ?thesis by simp
qed

lemma no_point_digits: "list_all is_digit s \<Longrightarrow> c \<in> set s \<Longrightarrow> c \<noteq> CHR ''.''"
  by (auto simp: list_all_iff is_digit_def)

lemma iotx_to_rau_strip:
  assumes "list_all is_digit ip" "list_all is_digit fp" "length fp = transform_factor"
  shows "iotx_to_rau (strip_point (strip0 (ip @ CHR ''.'' # fp)))
    = dec_val ip * 10 ^ transform_factor + dec_val fp"
proof -
  have tw: "takeWhile (\<lambda>c. c \<noteq> CHR ''.'') (ip @ r) = ip @ takeWhile (\<lambda>c. c \<noteq> CHR ''.'') r"
    "dropWhile (\<lambda>c. c \<noteq> CHR ''.'') (ip @ r) = dropWhile (\<lambda>c. c \<noteq> CHR ''.'') r" for r
    using no_point_digits [OF assms(1)] by (simp_all add: takeWhile_append2 dropWhile_append2)
  have ip: "takeWhile (\<lambda>c. c \<noteq> CHR ''.'') ip = ip" "dropWhile (\<lambda>c. c \<noteq> CHR ''.'') ip = []"
    using tw [of "[]"] by (simp_all only: append_Nil2 takeWhile.simps dropWhile.simps)
  show ?thesis
  proof (cases "strip0 fp = []")
    case True
    then have "dec_val fp = 0" using dec_val_strip0 [of fp] by simp
    then show ?thesis using True
      by (simp add: strip0_point strip_point_def iotx_to_rau_def ip)
  next
    case False
    have "last (strip0 fp) \<in> set fp" using False strip0_subset by force
    then have "last (strip0 fp) \<noteq> CHR ''.''" using no_point_digits assms(2) by blast
    then show ?thesis
      using False dec_val_strip0 [of fp] tw [of "CHR ''.'' # strip0 fp"] assms(3)
      by (simp add: strip0_point strip_point_def iotx_to_rau_def Let_def)
  qed
qed

lemma dec_val_take_drop: "dec_val (take n s) * 10 ^ (length s - n) + dec_val (drop n s) = dec_val s"
  using dec_val_append [of "take n s" "drop n s"] by simp

lemma iotx_text_value:
  assumes "list_all is_digit rau" "length rau \<noteq> transform_factor"
  shows "iotx_to_rau (strip_point (strip0 (iotx_text rau))) = dec_val rau"
proof (cases "length rau" transform_factor rule: linorder_cases)
  case less
  have "iotx_text rau = ''0'' @ CHR ''.'' # (replicate (transform_factor - length rau) CHR ''0'' @ rau)"
    using less by (simp add: iotx_text_short)
  moreover have "list_all is_digit (replicate (transform_factor - length rau) CHR ''0'' @ rau)"
    using assms(1) by (auto simp: list_all_iff is_digit_def)
  ultimately show ?thesis
    using less by (simp add: iotx_to_rau_strip is_digit_def dec_val_append del: append.simps) (simp add: digit_val_def)
next
  case greater
  have "list_all is_digit (take n rau)" "list_all is_digit (drop n rau)" for n
    using assms(1) by (auto simp: list_all_iff dest: in_set_takeD in_set_dropD)
  with greater show ?thesis
    using dec_val_take_drop [of "length rau - transform_factor" rau]
    by (simp add: iotx_text_long iotx_to_rau_strip)
qed (use assms in simp)

section \<open>Properties\<close>

text \<open>C40: The conversion to IOTX is exact. For every amount written without a leading zero whose
  length is not 18, in a buffer that passes the size check, the function stays in the buffer and
  leaves a string in it that denotes exactly the same amount.\<close>

theorem utils_rau2iotx_exact:
  assumes "list_all is_digit rau" "rau \<noteq> []" "hd rau \<noteq> CHR ''0''" "length rau \<noteq> transform_factor"
    and "length rau + 3 \<le> lim" "transform_factor + 3 \<le> lim" "lim \<le> length m"
  shows "\<exists>m' s. utils_rau2iotx rau (Ptr m) lim = Some (Ptr m', True) \<and> length m' = length m
    \<and> c_str m' = Some s \<and> iotx_to_rau s = dec_val rau"
proof -
  have "NUL \<notin> set rau" using assms(1) by (auto simp: list_all_iff is_digit_def)
  then show ?thesis
    using utils_rau2iotx_text [of rau lim m] iotx_text_value [of rau] assms by auto
qed

theorem utils_rau2iotx_exact_witness:
  "\<exists>m' s. utils_rau2iotx ''1500000000000000000'' (Ptr (replicate 64 NUL)) 64 = Some (Ptr m', True)
    \<and> length m' = length (replicate 64 NUL) \<and> c_str m' = Some s
    \<and> iotx_to_rau s = dec_val ''1500000000000000000''"
  by (rule utils_rau2iotx_exact) (simp_all add: is_digit_def transform_factor_def)

text \<open>An amount of exactly 18 digits is not converted: no decimal point is inserted, so the string
  that comes back denotes at least \<open>10 ^ 18\<close> rau although the amount was smaller. (0.1 IOTX, for
  one, is printed as 1 IOTX.)\<close>

theorem utils_rau2iotx_18_digits:
  assumes "list_all is_digit rau" "length rau = transform_factor" "hd rau \<noteq> CHR ''0''"
    and "transform_factor + 3 \<le> lim" "lim \<le> length m"
  shows "\<exists>m' s. utils_rau2iotx rau (Ptr m) lim = Some (Ptr m', True)
    \<and> c_str m' = Some s \<and> s = strip0 rau \<and> dec_val rau < 10 ^ 18 \<and> 10 ^ 18 \<le> iotx_to_rau s"
proof -
  have ne: "rau \<noteq> []" using assms(2) by (auto simp: transform_factor_def)
  have nul: "NUL \<notin> set rau" using assms(1) by (auto simp: list_all_iff is_digit_def)
  have t: "iotx_text rau = rau" using assms(2) by (rule iotx_text_equal)
  have digits: "list_all is_digit (strip0 rau)"
    using assms(1) strip0_subset [of rau] by (auto simp: list_all_iff)
  have sne: "strip0 rau \<noteq> []" using strip0_iotx_text [OF ne assms(3)] t by simp
  then have "strip_point (strip0 rau) = strip0 rau"
    using digits no_point_digits [OF digits, of "last (strip0 rau)"] by (simp add: strip_point_def)
  then have res: "\<exists>m'. utils_rau2iotx rau (Ptr m) lim = Some (Ptr m', True) \<and> c_str m' = Some (strip0 rau)"
    using utils_rau2iotx_text [of rau lim m] assms ne nul t by auto
  have "dec_val rau < 10 ^ transform_factor"
    using dec_val_less [of rau] assms(1,2) by (simp add: list_all_iff)
  moreover have "0 < dec_val (strip0 rau)"
  proof -
    obtain c r where cr: "strip0 rau = c # r" using sne by (cases "strip0 rau") auto
    obtain k where "rau = strip0 rau @ replicate k CHR ''0''" using strip0_append_zeros by blast
    then have "hd rau = c" using cr by (metis append_Cons list.sel(1))
    then have "c \<noteq> CHR ''0''" "is_digit c" using assms(3) digits cr by auto
    then have "digit_val c \<noteq> 0" using digit_char_val [of c] digit_char_0 by (metis)
    then show ?thesis by (simp add: cr dec_val_Cons)
  qed
  moreover have "iotx_to_rau (strip0 rau) = dec_val (strip0 rau) * 10 ^ transform_factor"
  proof -
    have "takeWhile (\<lambda>c. c \<noteq> CHR ''.'') (strip0 rau) = strip0 rau"
      "dropWhile (\<lambda>c. c \<noteq> CHR ''.'') (strip0 rau) = []"
      using no_point_digits [OF digits] by auto
    then show ?thesis by (simp only: iotx_to_rau_def Let_def) simp
  qed
  ultimately show ?thesis using res by (auto simp: transform_factor_def)
qed

theorem utils_rau2iotx_18_digits_witness:
  "\<exists>m' s. utils_rau2iotx ''100000000000000000'' (Ptr (replicate 64 NUL)) 64 = Some (Ptr m', True)
    \<and> c_str m' = Some s \<and> s = strip0 ''100000000000000000''
    \<and> dec_val ''100000000000000000'' < 10 ^ 18 \<and> 10 ^ 18 \<le> iotx_to_rau s"
  by (rule utils_rau2iotx_18_digits) (simp_all add: is_digit_def transform_factor_def)

end
