(* ===== verification/Signer_Hex.thy ===== *)
theory Signer_Hex
  imports Emb_Prelude
begin

text \<open>
  The hexadecimal conversions of \<open>src/signer.c\<close>: \<open>value\<close>, \<open>signer_hex2str\<close> and
  \<open>signer_str2hex\<close>, the last one also with source and destination in the same object, the way
  \<open>iotex_emb_read_contract_by_addr\<close> calls it.
\<close>

text \<open>\<open>value\<close>: the returned digit and the flag it stores through \<open>ret\<close>. The third branch of the code
  is \<open>return c = 'A' + 10\<close>, an assignment.\<close>

definition value_hex :: "char \<Rightarrow> byte \<times> bool" where
  "value_hex c =
     (if 48 \<le> code c \<and> code c \<le> 57 then (word_of_nat (code c - 48), True)
      else if 97 \<le> code c \<and> code c \<le> 122 then (word_of_nat (code c - 97 + 10), True)
      else if 65 \<le> code c \<and> code c \<le> 90 then (65 + 10, True)
      else (0, False))"

definition hexmap :: string where
  "hexmap = ''0123456789abcdef''"

text \<open>The loop of \<open>signer_hex2str\<close> over the bytes \<open>hex[0..hex_size)\<close>.\<close>

fun hex2str_loop :: "byte list \<Rightarrow> nat \<Rightarrow> string \<Rightarrow> (int \<times> string) option" where
  "hex2str_loop [] cur str = Some (int cur, str)"
| "hex2str_loop (b # it) cur str = do {
     str \<leftarrow> mem_put str cur (hexmap ! unat (drop_bit 4 b));
     str \<leftarrow> mem_put str (cur + 1) (hexmap ! unat (b AND 0xf));
     hex2str_loop it (cur + 2) str
   }"

definition signer_hex2str :: "byte list \<Rightarrow> nat \<Rightarrow> string \<Rightarrow> nat \<Rightarrow> (int \<times> string) option" where
  "signer_hex2str hex hex_size str str_sz =
     (if str_sz < hex_size * 2 then Some (-1, str)
      else do {
        bytes \<leftarrow> mem_read hex 0 hex_size;
        hex2str_loop bytes 0 str
      })"

text \<open>The loop of \<open>signer_str2hex\<close> from \<open>it\<close> to \<open>end\<close>.\<close>

fun str2hex_loop :: "string \<Rightarrow> byte list \<Rightarrow> nat \<Rightarrow> (int \<times> byte list) option" where
  "str2hex_loop [] hex cur = Some (int cur, hex)"
| "str2hex_loop [c] hex cur =
     (let (high, valid) = value_hex c in
      if \<not> valid then Some (-1, hex)
      else do { hex \<leftarrow> mem_put hex cur high; Some (int (cur + 1), hex) })"
| "str2hex_loop (c # d # it) hex cur =
     (let (high, valid) = value_hex c in
      if \<not> valid then Some (-1, hex)
      else let (low, valid) = value_hex d in
        if \<not> valid then Some (-1, hex)
        else do {
          hex \<leftarrow> mem_put hex cur (push_bit 4 high OR low);
          str2hex_loop it hex (cur + 1)
        })"

definition skip_0x :: "string \<Rightarrow> nat" where
  "skip_0x str = (if 2 \<le> length str \<and> str ! 0 = CHR ''0'' \<and> str ! 1 = CHR ''x'' then 2 else 0)"

definition signer_str2hex :: "string \<Rightarrow> byte list \<Rightarrow> nat \<Rightarrow> (int \<times> byte list) option" where
  "signer_str2hex str hex sz =
     (if sz < (length str + 1) div 2 then Some (-1, hex)
      else str2hex_loop (drop (skip_0x str) str) hex 0)"

text \<open>The same loop when \<open>hex\<close> and \<open>str\<close> point to the same object \<open>m\<close>; \<open>it\<close> and \<open>e\<close> are positions
  of it (\<open>e\<close> is computed before the loop).\<close>

function str2hex_inplace_loop :: "byte list \<Rightarrow> nat \<Rightarrow> nat \<Rightarrow> nat \<Rightarrow> (int \<times> byte list) option" where
  "str2hex_inplace_loop m it e cur =
     (if it < e then do {
        c \<leftarrow> mem_get m it;
        (let (high, valid) = value_hex (char_of_byte c) in
         if \<not> valid then Some (-1, m)
         else if it + 1 = e then do { m \<leftarrow> mem_put m cur high; Some (int (cur + 1), m) }
         else do {
           d \<leftarrow> mem_get m (it + 1);
           (let (low, valid) = value_hex (char_of_byte d) in
            if \<not> valid then Some (-1, m)
            else do {
              m \<leftarrow> mem_put m cur (push_bit 4 high OR low);
              str2hex_inplace_loop m (it + 2) e (cur + 1)
            })
         })
      } else Some (int cur, m))"
  by pat_completeness auto
termination by (relation "measure (\<lambda>(m, it, e, cur). e - it)") auto

declare str2hex_inplace_loop.simps [simp del]

definition signer_str2hex_inplace :: "byte list \<Rightarrow> nat \<Rightarrow> (int \<times> byte list) option" where
  "signer_str2hex_inplace m sz = do {
     str \<leftarrow> c_str (map char_of_byte m);
     (if sz < (length str + 1) div 2 then Some (-1, m)
      else str2hex_inplace_loop m (skip_0x str) (length str) 0)
   }"

section \<open>Specification of the text\<close>

definition hex_digit :: "byte \<Rightarrow> char" where
  "hex_digit n = hexmap ! unat n"

definition hex_pair :: "byte \<Rightarrow> string" where
  "hex_pair b = [hex_digit (drop_bit 4 b), hex_digit (b AND 0xf)]"

definition hex_unpair :: "string \<Rightarrow> (byte \<times> string) option" where
  "hex_unpair s =
     (case s of c # d # r \<Rightarrow>
        (case (value_hex c, value_hex d) of
           ((h, True), (l, True)) \<Rightarrow> Some (push_bit 4 h OR l, r)
         | _ \<Rightarrow> None)
      | _ \<Rightarrow> None)"

lemma value_hex_digit_all: "\<forall>n \<in> set [0..<16]. value_hex (hexmap ! n) = (word_of_nat n, True)"
  by (simp add: upt_rec hexmap_def value_hex_def)

lemma value_hex_digit: "unat n < 16 \<Longrightarrow> value_hex (hex_digit n) = (n, True)"
  using value_hex_digit_all by (simp add: hex_digit_def)

lemma nibble_high: "unat (drop_bit 4 (b :: byte)) < 16"
proof -
  have "unat b < 256" using unsigned_less [of b, where ?'a = nat] by simp
  then show ?thesis by (simp add: drop_bit_eq_div unat_div_distrib)
qed

lemma nibble_low: "unat (b AND 0xf :: byte) < 16"
proof -
  have "b AND 0xf = take_bit 4 b" by (simp add: take_bit_eq_mask mask_eq_exp_minus_1)
  then show ?thesis by (simp add: take_bit_eq_mod unat_mod_distrib)
qed

lemma nibbles: "push_bit 4 (drop_bit 4 b) OR (b AND 0xf) = (b :: byte)"
proof -
  have "b AND 0xf = take_bit 4 b" by (simp add: take_bit_eq_mask mask_eq_exp_minus_1)
  then show ?thesis by (auto intro!: bit_word_eqI simp: bit_simps)
qed

lemma hex_unpair_pair: "hex_unpair (hex_pair b @ r) = Some (b, r)"
  by (simp add: hex_unpair_def hex_pair_def value_hex_digit nibble_high nibble_low nibbles)

interpretation hex_code: prefix_code hex_pair hex_unpair "\<lambda>_. True"
  by unfold_locales (rule hex_unpair_pair)

lemma length_hex_pairs [simp]: "length (concat (map hex_pair bs)) = 2 * length bs"
  by (induction bs) (simp_all add: hex_pair_def)

lemma hex2str_loop_eq:
  "cur + 2 * length bs \<le> length str \<Longrightarrow>
    hex2str_loop bs cur str = Some (int (cur + 2 * length bs), patch str cur (concat (map hex_pair bs)))"
  by (induction bs cur str rule: hex2str_loop.induct)
    (simp_all add: mem_put_patch patch_append hex_pair_def hex_digit_def)

text \<open>What a string without errors decodes to: pairs of digits, and a single last digit as a byte.\<close>

fun hex_decode :: "string \<Rightarrow> byte list option" where
  "hex_decode [] = Some []"
| "hex_decode [c] = (let (h, v) = value_hex c in if v then Some [h] else None)"
| "hex_decode (c # d # s) = do { (b, r) \<leftarrow> hex_unpair (c # d # s); bs \<leftarrow> hex_decode s; Some (b # bs) }"

lemma hex_decode_pairs [simp]: "hex_decode (concat (map hex_pair bs)) = Some bs"
proof (induction bs)
  case (Cons b bs)
  have "hex_unpair (concat (map hex_pair (b # bs))) = Some (b, concat (map hex_pair bs))"
    by (simp add: hex_unpair_pair)
  moreover have "concat (map hex_pair (b # bs)) =
      hex_digit (drop_bit 4 b) # hex_digit (b AND 0xf) # concat (map hex_pair bs)"
    by (simp add: hex_pair_def)
  ultimately show ?case using Cons by (simp only: hex_decode.simps bind.bind_lunit) simp
qed simp

lemma length_hex_decode: "hex_decode s = Some bs \<Longrightarrow> length bs = (length s + 1) div 2"
  by (induction s arbitrary: bs rule: hex_decode.induct)
    (auto simp: Let_def bind_eq_Some_conv split: if_splits prod.splits)

lemma str2hex_loop_Some:
  assumes "hex_decode s = Some bs" "cur + length bs \<le> length hex"
  shows "str2hex_loop s hex cur = Some (int (cur + length bs), patch hex cur bs)"
  using assms
proof (induction s hex cur arbitrary: bs rule: str2hex_loop.induct)
  case (3 c d it hex cur)
  then show ?case
    by (auto simp: Let_def hex_unpair_def mem_put_patch patch_append bind_eq_Some_conv
        split: prod.splits bool.splits)
qed (auto simp: Let_def mem_put_patch split: prod.splits if_splits)

lemma str2hex_loop_None:
  assumes "hex_decode s = None" "cur + (length s + 1) div 2 \<le> length hex"
  shows "\<exists>hex'. str2hex_loop s hex cur = Some (-1, hex') \<and> length hex' = length hex"
  using assms
proof (induction s arbitrary: hex cur rule: hex_decode.induct)
  case (3 c d s)
  show ?case
  proof (cases "snd (value_hex c) \<and> snd (value_hex d)")
    case True
    let ?b = "push_bit 4 (fst (value_hex c)) OR fst (value_hex d)"
    have u: "hex_unpair (c # d # s) = Some (?b, s)"
      using True by (auto simp: hex_unpair_def split: prod.splits)
    then have "hex_decode s = None" using "3.prems"(1) by (simp add: bind_eq_None_conv)
    then have "\<exists>hex'. str2hex_loop s (patch hex cur [?b]) (cur + 1) = Some (-1, hex')
        \<and> length hex' = length (patch hex cur [?b])"
      using "3.prems" u by (intro "3.IH") auto
    with True "3.prems" show ?thesis
      by (auto simp: Let_def mem_put_patch split: prod.splits)
  qed (auto simp: Let_def split: prod.splits)
qed (auto simp: Let_def split: prod.splits if_splits)

lemma signer_str2hex_cases:
  assumes "sz \<le> length hex"
  shows "\<exists>r hex'. signer_str2hex str hex sz = Some (r, hex') \<and> length hex' = length hex
    \<and> (case hex_decode (drop (skip_0x str) str) of
         Some bs \<Rightarrow> if sz < (length str + 1) div 2 then r = -1 \<and> hex' = hex
                    else r = int (length bs) \<and> hex' = patch hex 0 bs
       | None \<Rightarrow> r = -1)"
proof (cases "sz < (length str + 1) div 2")
  case True
  then show ?thesis by (simp add: signer_str2hex_def split: option.split)
next
  case False
  let ?s = "drop (skip_0x str) str"
  have le: "(length ?s + 1) div 2 \<le> length hex"
    using False assms div_le_mono [of "length ?s + 1" "length str + 1" 2] by simp
  show ?thesis
  proof (cases "hex_decode ?s")
    case None
    then show ?thesis
      using False le str2hex_loop_None [of ?s 0 hex] by (auto simp: signer_str2hex_def)
  next
    case (Some bs)
    then have "length bs \<le> length hex" using le length_hex_decode by fastforce
    then show ?thesis
      using False Some str2hex_loop_Some [of ?s bs 0 hex] by (auto simp: signer_str2hex_def)
  qed
qed

section \<open>Conversion in place\<close>

lemma inplace_loop_eq:
  assumes "map char_of_byte (take (length s) (drop it m)) = s" "it + length s = e"
    and "e \<le> length m" "cur \<le> it"
  shows "str2hex_inplace_loop m it e cur = str2hex_loop s m cur"
  using assms
proof (induction s arbitrary: it m cur rule: induct_list012)
  case 1
  then show ?case by (simp add: str2hex_inplace_loop.simps)
next
  case (2 c)
  then have "char_of_byte (m ! it) = c" "it < length m" by (auto simp: take_Suc hd_drop_conv_nth)
  with 2 show ?case by (auto simp: str2hex_inplace_loop.simps Let_def split: prod.splits)
next
  case (3 c d s)
  then have r: "it + 1 < length m" "it + length s + 2 = e" by auto
  then have dr: "drop it m = m ! it # m ! (it + 1) # drop (it + 2) m"
    by (simp add: Cons_nth_drop_Suc [symmetric])
  then have cd: "char_of_byte (m ! it) = c" "char_of_byte (m ! (it + 1)) = d"
    and s: "map char_of_byte (take (length s) (drop (it + 2) m)) = s"
    using "3.prems"(1) by simp_all
  have IH: "str2hex_inplace_loop (patch m cur [b]) (it + 2) e (cur + 1) = str2hex_loop s (patch m cur [b]) (cur + 1)" for b
  proof -
    have "drop (it + 2) (patch m cur [b]) = drop (it + 2) m"
      using "3.prems" r by (intro drop_patch) simp_all
    then show ?thesis using "3.prems" r s by (intro "3.IH") simp_all
  qed
  show ?case
    using cd r IH "3.prems"
    by (subst str2hex_inplace_loop.simps) (auto simp: Let_def mem_put_patch split: prod.splits)
qed

section \<open>Properties\<close>

text \<open>\<open>signer_hex2str\<close> writes exactly the two lower-case digits of every byte and returns their
  number, touching nothing else; a destination that is too small gives -1 and stays unchanged.\<close>

theorem signer_hex2str_result:
  assumes "sz \<le> length hex" "str_sz \<le> length str"
  shows "signer_hex2str hex sz str str_sz =
    (if str_sz < 2 * sz then Some (-1, str)
     else Some (int (2 * sz), patch str 0 (concat (map hex_pair (take sz hex)))))"
  using assms hex2str_loop_eq [of 0 "take sz hex" str] by (simp add: signer_hex2str_def mult.commute min_def)

theorem signer_hex2str_result_witness:
  "signer_hex2str [0xab, 0x01] 2 (replicate 5 NUL) 5 =
    (if (5::nat) < 2 * 2 then Some (-1, replicate 5 NUL)
     else Some (int (2 * 2), patch (replicate 5 NUL) 0 (concat (map hex_pair (take 2 [0xab, 0x01])))))"
  by (rule signer_hex2str_result) simp_all

text \<open>C37: Hexadecimal round trip. The text \<open>signer_hex2str\<close> produces for any bytes converts back to
  exactly these bytes with \<open>signer_str2hex\<close>. The counter is unbounded here; the code's is an \<open>int\<close>, so this holds of it below 2 to the 30 bytes.\<close>

theorem signer_hex_roundtrip:
  assumes "length bs \<le> sz" "sz \<le> length hex" "2 * length bs \<le> length str"
  shows "\<exists>str'. signer_hex2str bs (length bs) str (length str) = Some (int (2 * length bs), str')
    \<and> signer_str2hex (take (2 * length bs) str') hex sz = Some (int (length bs), patch hex 0 bs)"
proof -
  let ?s = "concat (map hex_pair bs)"
  have "skip_0x ?s = 0"
  proof (cases bs)
    case (Cons b cs)
    have "hex_digit n \<noteq> CHR ''x''" if "unat n < 16" for n
    proof
      assume "hex_digit n = CHR ''x''"
      then have "value_hex CHR ''x'' = (n, True)" using value_hex_digit [OF that] by simp
      then have "n = 33" by (auto simp: value_hex_def)
      with that show False by simp
    qed
    then show ?thesis using Cons nibble_low [of b] by (simp add: skip_0x_def hex_pair_def)
  qed (simp add: skip_0x_def)
  then have "signer_str2hex ?s hex sz = Some (int (length bs), patch hex 0 bs)"
    using assms str2hex_loop_Some [of ?s bs 0 hex] by (simp add: signer_str2hex_def)
  moreover have "take (2 * length bs) (patch str 0 ?s) = ?s" by (simp add: patch_def)
  ultimately show ?thesis
    using assms signer_hex2str_result [of "length bs" bs "length str" str] by auto
qed

theorem signer_hex_roundtrip_witness:
  "\<exists>str'. signer_hex2str [0xde, 0xad] (length [0xde, 0xad :: byte]) (replicate 8 NUL) (length (replicate 8 NUL))
      = Some (int (2 * length [0xde, 0xad :: byte]), str')
    \<and> signer_str2hex (take (2 * length [0xde, 0xad :: byte]) str') (replicate 3 0) 3
      = Some (int (length [0xde, 0xad :: byte]), patch (replicate 3 0) 0 [0xde, 0xad])"
  by (rule signer_hex_roundtrip) simp_all

text \<open>C38: \<open>signer_str2hex\<close> stays inside any destination of the stated size, whatever the text. It fails
  (-1) when the whole text, a \<open>0x\<close> prefix included, needs more than \<open>size\<close> bytes or a character
  after the prefix has no digit value, and otherwise stores the decoded digits.\<close>

theorem signer_str2hex_total:
  assumes "sz \<le> length hex"
  shows "\<exists>r hex'. signer_str2hex str hex sz = Some (r, hex') \<and> length hex' = length hex
    \<and> (case hex_decode (drop (skip_0x str) str) of
         Some bs \<Rightarrow> if sz < (length str + 1) div 2 then r = -1 \<and> hex' = hex
                    else r = int (length bs) \<and> hex' = patch hex 0 bs
       | None \<Rightarrow> r = -1)"
  using assms by (rule signer_str2hex_cases)

theorem signer_str2hex_total_witness:
  "\<exists>r hex'. signer_str2hex ''12xy'' [0, 0] 2 = Some (r, hex') \<and> length hex' = length [0, 0 :: byte]
    \<and> (case hex_decode (drop (skip_0x ''12xy'') ''12xy'') of
         Some bs \<Rightarrow> if (2::nat) < (length ''12xy'' + 1) div 2 then r = -1 \<and> hex' = [0, 0]
                    else r = int (length bs) \<and> hex' = patch [0, 0] 0 bs
       | None \<Rightarrow> r = -1)"
  by (rule signer_str2hex_total) simp

text \<open>Upper-case digits are decoded wrongly: every pair of upper-case letters, valid hexadecimal or
  not, decodes to the byte \<open>0xfb\<close>.\<close>

theorem signer_str2hex_uppercase:
  assumes "65 \<le> code c" "code c \<le> 90" "65 \<le> code d" "code d \<le> 90" "1 \<le> sz" "sz \<le> length hex"
  shows "signer_str2hex [c, d] hex sz = Some (1, patch hex 0 [0xfb])"
proof -
  have "skip_0x [c, d] = 0" using assms by (auto simp: skip_0x_def)
  moreover have "value_hex c = (75, True)" "value_hex d = (75, True)"
    using assms by (simp_all add: value_hex_def)
  moreover have "0 < length hex" using assms by linarith
  ultimately show ?thesis using assms
    by (simp add: signer_str2hex_def mem_put_patch) (rule arg_cong [where f = "patch hex 0"], simp)
qed

theorem signer_str2hex_uppercase_witness:
  "signer_str2hex [CHR ''A'', CHR ''B''] [0] 1 = Some (1, patch [0] 0 [0xfb])"
  by (rule signer_str2hex_uppercase) simp_all

text \<open>A private key written with a \<open>0x\<close> prefix is refused: 64 digits after the prefix decode to 32
  bytes, but the size check counts the prefix, so a 32-byte destination gets -1.\<close>

theorem signer_str2hex_0x_key:
  assumes "length digits = 64" "hex_decode digits = Some key"
  shows "length key = 32 \<and> signer_str2hex (''0x'' @ digits) (replicate 32 0) 32 = Some (-1, replicate 32 0)"
  using assms length_hex_decode [OF assms(2)] by (simp add: signer_str2hex_def)

theorem signer_str2hex_0x_key_witness:
  "length (replicate 32 (0x11 :: byte)) = 32
    \<and> signer_str2hex (''0x'' @ concat (map hex_pair (replicate 32 0x11))) (replicate 32 0) 32
      = Some (-1, replicate 32 0)"
  by (rule signer_str2hex_0x_key) (simp_all only: length_hex_pairs length_replicate hex_decode_pairs)

text \<open>C39: Converting in place is converting: reading and overwriting the same object gives what the
  separate buffers give, because the write position never passes the read position.\<close>

theorem signer_str2hex_inplace_eq:
  assumes "c_str (map char_of_byte m) = Some str"
  shows "signer_str2hex_inplace m sz = signer_str2hex str m sz"
proof -
  have str: "str = takeWhile (\<lambda>c. c \<noteq> NUL) (map char_of_byte m)"
    using assms by (simp add: c_str_def split: if_splits)
  then have len: "length str \<le> length m" using length_takeWhile_le [of _ "map char_of_byte m"] by simp
  have "str = take (length str) (map char_of_byte m)"
    unfolding str by (rule takeWhile_eq_take)
  then have m: "map char_of_byte (take (length str) m) = str" by (simp add: take_map)
  have "map char_of_byte (take (length str - n) (drop n m)) = drop n str" for n
    using arg_cong [OF m, of "drop n"] by (simp add: drop_map drop_take)
  moreover have "skip_0x str \<le> length str" by (simp add: skip_0x_def)
  ultimately have "str2hex_inplace_loop m (skip_0x str) (length str) 0
      = str2hex_loop (drop (skip_0x str) str) m 0"
    using len by (intro inplace_loop_eq) simp_all
  then show ?thesis using assms by (simp add: signer_str2hex_inplace_def signer_str2hex_def)
qed

theorem signer_str2hex_inplace_eq_witness:
  "signer_str2hex_inplace [0x31, 0x32, 0, 0] 1 = signer_str2hex ''12'' [0x31, 0x32, 0, 0] 1"
  by (rule signer_str2hex_inplace_eq) (simp add: c_str_def char_of_byte_def char_of_def bit_iff_odd)

end
