(* ===== verification/Abi.thy ===== *)
theory Abi
  imports Endian_Conv
begin

text \<open>
  \<open>src/abi_pack.c\<close> and \<open>src/abi_read_contract.c\<close>: packing of the call data of \<open>publish(bytes)\<close> and
  reading of the four values of \<open>getDeviceOrderByID()\<close>. \<open>malloc\<close> is an argument: for a number of
  bytes it gives \<open>Null\<close> or an object (the code relies on that object having the size asked for).
  The byte order of the host is the argument \<open>big\<close>.
\<close>

section \<open>Packing\<close>

text \<open>The byte-copy loops: \<open>*curr++ = *p++\<close> for every byte of the source.\<close>

fun copy_bytes :: "byte list \<Rightarrow> byte list \<Rightarrow> nat \<Rightarrow> (byte list \<times> nat) option" where
  "copy_bytes [] data cur = Some (data, cur)"
| "copy_bytes (b # bs) data cur = do {
     data \<leftarrow> mem_put data cur b;
     copy_bytes bs data (cur + 1)
   }"

text \<open>The loop counters are \<open>int\<close>, compared with 64-bit sizes: from \<open>2 ^ 31\<close> bytes on (\<open>INT_MAX\<close>) they overflow.\<close>

definition abi_align :: "u64 \<Rightarrow> u64" where
  "abi_align sz = push_bit 5 (drop_bit 5 (sz + 31))"

definition abi_pack_publish ::
  "bool \<Rightarrow> (nat \<Rightarrow> byte list ptr) \<Rightarrow> byte list \<Rightarrow> u64 \<Rightarrow> (byte list ptr \<times> u64) option" where
  "abi_pack_publish big malloc input sz =
     (let alignSize = abi_align sz in
      case malloc (unat (4 + 32 + 32 + alignSize)) of
        Null \<Rightarrow> Some (Null, 0)
      | Ptr data \<Rightarrow> do {
          data \<leftarrow> mem_blit data 0 (replicate 68 0);
          data \<leftarrow> mem_put data 0 0x7f;
          data \<leftarrow> mem_put data 1 0xd2;
          data \<leftarrow> mem_put data 2 0x83;
          data \<leftarrow> mem_put data 3 0x46;
          data \<leftarrow> mem_put data (4 + 31) 32;
          let bigSize = (if endian_is_bigendian big then sz else endian_swap64 sz);
          (data, cur) \<leftarrow> copy_bytes (host_bytes big 8 bigSize) data (4 + 31 + 1 + 24);
          if INT_MAX < uint sz then None
          else do {
            bytes \<leftarrow> mem_read input 0 (unat sz);
            (data, cur) \<leftarrow> copy_bytes bytes data cur;
            (data, cur) \<leftarrow> copy_bytes (replicate (unat (alignSize - sz)) 0) data cur;
            Some (Ptr data, 68 + alignSize)
          }
        })"

section \<open>Reading\<close>

definition abi_get_order_start :: "bool \<Rightarrow> byte list \<Rightarrow> nat \<Rightarrow> u64 option" where
  "abi_get_order_start big input sz =
     (if sz < 32 then Some 0
      else do {
        bytes \<leftarrow> mem_read input 24 8;
        let start = of_host_bytes big bytes;
        Some (if \<not> endian_is_bigendian big then endian_swap64 start else start)
      })"

definition abi_get_order_duration :: "bool \<Rightarrow> byte list \<Rightarrow> nat \<Rightarrow> u32 option" where
  "abi_get_order_duration big input sz =
     (if sz < 64 then Some 0
      else do {
        bytes \<leftarrow> mem_read input 60 4;
        let duration = of_host_bytes big bytes;
        Some (if \<not> endian_is_bigendian big then endian_swap32 duration else duration)
      })"

text \<open>A 16-bit big-endian field, as \<open>abi_get_order_endpoint\<close> and \<open>abi_get_order_token\<close> read it.\<close>

definition abi_read_u16 :: "bool \<Rightarrow> byte list \<Rightarrow> nat \<Rightarrow> nat option" where
  "abi_read_u16 big input pos = do {
     bytes \<leftarrow> mem_read input pos 2;
     let v = of_host_bytes big bytes;
     Some (unat (if \<not> endian_is_bigendian big then endian_swap16 v else v))
   }"

text \<open>
  The common body of \<open>abi_get_order_endpoint\<close> (\<open>head = 64\<close>) and \<open>abi_get_order_token\<close>
  (\<open>head = 96\<close>), which differ in the position of the head word only: the two copies of the code
  read the offset in the last two bytes of the head word, the length in the last two bytes of the
  word at the offset, and copy the bytes after it into a fresh NUL-terminated string.
\<close>

definition abi_get_order_string ::
  "bool \<Rightarrow> (nat \<Rightarrow> byte list ptr) \<Rightarrow> nat \<Rightarrow> byte list \<Rightarrow> nat \<Rightarrow> byte list ptr option" where
  "abi_get_order_string big malloc head input sz =
     (if sz < head + 32 then Some Null
      else do {
        offset \<leftarrow> abi_read_u16 big input (head + 30);
        if sz < offset + 32 then Some Null
        else do {
          len \<leftarrow> abi_read_u16 big input (offset + 30);
          if sz < offset + 32 + len then Some Null
          else case malloc (len + 1) of
            Null \<Rightarrow> Some Null
          | Ptr m \<Rightarrow> do {
              bytes \<leftarrow> mem_read input (offset + 32) len;
              m \<leftarrow> mem_blit m 0 bytes;
              m \<leftarrow> mem_put m len 0;
              Some (Ptr m)
            }
        }
      })"

definition abi_get_order_endpoint ::
  "bool \<Rightarrow> (nat \<Rightarrow> byte list ptr) \<Rightarrow> byte list \<Rightarrow> nat \<Rightarrow> byte list ptr option" where
  "abi_get_order_endpoint big malloc input sz = abi_get_order_string big malloc 64 input sz"

definition abi_get_order_token ::
  "bool \<Rightarrow> (nat \<Rightarrow> byte list ptr) \<Rightarrow> byte list \<Rightarrow> nat \<Rightarrow> byte list ptr option" where
  "abi_get_order_token big malloc input sz = abi_get_order_string big malloc 96 input sz"

section \<open>Specification: the ABI encoding\<close>

definition be_word :: "nat \<Rightarrow> byte list" where
  "be_word n = replicate 24 0 @ rev (le_bytes 8 (word_of_nat n :: u64))"

definition abi_pad :: "nat \<Rightarrow> nat" where
  "abi_pad n = (32 - n mod 32) mod 32"

definition abi_bytes :: "byte list \<Rightarrow> byte list" where
  "abi_bytes s = be_word (length s) @ s @ replicate (abi_pad (length s)) 0"

definition publish_calldata :: "byte list \<Rightarrow> byte list" where
  "publish_calldata s = [0x7f, 0xd2, 0x83, 0x46] @ be_word 32 @ abi_bytes s"

text \<open>The return data of \<open>getDeviceOrderByID()\<close>: two integers, two dynamic strings.\<close>

definition order_data :: "u64 \<Rightarrow> u32 \<Rightarrow> byte list \<Rightarrow> byte list \<Rightarrow> byte list" where
  "order_data start duration endpoint token =
     be_word (unat start) @ be_word (unat duration) @ be_word 128
     @ be_word (128 + length (abi_bytes endpoint)) @ abi_bytes endpoint @ abi_bytes token"

lemma length_be_word [simp]: "length (be_word n) = 32"
  by (simp add: be_word_def)

lemma length_abi_bytes: "length (abi_bytes s) = 32 + length s + abi_pad (length s)"
  by (simp add: abi_bytes_def)

lemma copy_bytes_eq:
  "cur + length bs \<le> length data \<Longrightarrow> copy_bytes bs data cur = Some (patch data cur bs, cur + length bs)"
  by (induction bs data cur rule: copy_bytes.induct) (simp_all add: mem_put_patch patch_append)

lemma round_up_32: "(n + 31) div 32 * 32 = n + (32 - n mod 32) mod (32 :: nat)"
proof -
  define q r where "q = n div 32" and "r = n mod 32"
  have n: "n = 32 * q + r" and r: "r < 32" by (simp_all add: q_def r_def)
  show ?thesis
  proof (cases "r = 0")
    case False
    then have "(n + 31) div 32 = q + 1" using r by (intro div_nat_eqI) (simp_all add: n)
    moreover have "n mod 32 = r" by (simp add: r_def)
    ultimately show ?thesis using False r by (simp add: n)
  qed (simp add: n)
qed

lemma abi_align_value:
  assumes "unat sz < 2 ^ 31"
  shows "unat (abi_align sz) = unat sz + abi_pad (unat sz)"
proof -
  have lt: "unat sz + 31 < 2 ^ 32" using assms by simp
  then have s: "unat (sz + 31) = unat sz + 31" by (simp add: unat_word_ariths)
  have le: "(unat sz + 31) div 32 * 32 \<le> unat sz + 31" by simp
  have "unat (abi_align sz) = (unat sz + 31) div 32 * 32"
    using lt s le by (simp add: abi_align_def push_bit_eq_mult drop_bit_eq_div unat_word_ariths unat_div_distrib)
  then show ?thesis by (simp only: round_up_32 abi_pad_def)
qed

lemma be_word_low: "take 8 (drop 24 (be_word n @ r)) = rev (le_bytes 8 (word_of_nat n :: u64))"
  by (simp add: be_word_def)

lemma be_bytes_split: "rev (le_bytes (m + n) w) = rev (le_bytes n (drop_bit (8 * m) w)) @ rev (le_bytes m w)"
proof (induction m arbitrary: w)
  case (Suc m)
  then show ?case by (simp add: le_bytes_Suc drop_bit_drop_bit add.commute)
qed simp

lemma be_bytes_tail:
  assumes "k \<le> 8"
  shows "take k (drop (32 - k) (be_word n @ r)) = rev (le_bytes k (word_of_nat n :: u64))"
proof -
  let ?w = "word_of_nat n :: u64"
  have "be_word n = (replicate 24 0 @ rev (le_bytes (8 - k) (drop_bit (8 * k) ?w))) @ rev (le_bytes k ?w)"
    using be_bytes_split [of k "8 - k" ?w] assms by (simp add: be_word_def)
  moreover have "length (replicate 24 (0::byte) @ rev (le_bytes (8 - k) (drop_bit (8 * k) ?w))) = 32 - k"
    using assms by simp
  ultimately show ?thesis by simp
qed

lemma le_bytes_ucast:
  "8 * k \<le> LENGTH('b) \<Longrightarrow> 8 * k \<le> LENGTH('a) \<Longrightarrow>
    le_bytes k (ucast (w :: 'a::len word) :: 'b::len word) = le_bytes k w"
  by (auto simp: le_bytes_def intro!: bit_word_eqI) (auto simp: bit_simps)

lemma le_bytes_of_nat:
  assumes "8 * k \<le> LENGTH('b)" "8 * k \<le> LENGTH('a)"
  shows "le_bytes k (word_of_nat n :: 'b::len word) = le_bytes k (word_of_nat n :: 'a::len word)"
  using assms by (auto simp: le_bytes_def bit_simps intro!: bit_word_eqI)


section \<open>Packing produces the ABI encoding\<close>

lemma mem_put_append: "i < length p \<Longrightarrow> mem_put (p @ t) i v = Some (p[i := v] @ t)"
  by (simp add: mem_put_def list_update_append)

lemma patch_in_prefix:
  "off + length xs \<le> length p \<Longrightarrow> patch (p @ t) off xs = patch p off xs @ t"
  by (simp add: patch_def)

lemma publish_head_const:
  "take 60 ((replicate 68 (0 :: byte))[0 := 0x7f, Suc 0 := 0xd2, 2 := 0x83, 3 := 0x46, 35 := 32]) =
     [0x7f, 0xd2, 0x83, 0x46] @ be_word 32 @ replicate 24 0"
  by code_simp

lemma publish_head:
  "patch ((replicate 68 0)[0 := 0x7f, Suc 0 := 0xd2, 2 := 0x83, 3 := 0x46, 35 := 32]) 60
     (rev (le_bytes 8 w)) = [0x7f, 0xd2, 0x83, 0x46] @ be_word 32 @ be_word (unat (w :: u64))"
  unfolding patch_def publish_head_const by (simp add: be_word_def)

lemma abi_pack_publish_eq:
  assumes sz: "unat sz < 2 ^ 31" "unat sz \<le> length input"
    and m: "malloc (68 + unat sz + abi_pad (unat sz)) = Ptr m" "length m = 68 + unat sz + abi_pad (unat sz)"
  shows "abi_pack_publish big malloc input sz =
    Some (Ptr (publish_calldata (take (unat sz) input)),
          word_of_nat (length (publish_calldata (take (unat sz) input))))"
proof -
  let ?n = "unat sz" and ?p = "abi_pad (unat sz)"
  obtain t where t: "drop 68 m = t" "length t = ?n + ?p" using m by simp
  have pad: "?p < 32" by (simp add: abi_pad_def)
  have al: "unat (abi_align sz) = ?n + ?p" by (rule abi_align_value [OF sz(1)])
  have mal: "unat (68 + abi_align sz) = 68 + ?n + ?p"
    using sz pad by (simp add: unat_word_ariths al)
  have diff: "unat (abi_align sz - sz) = ?p"
    by (subst unat_sub) (simp_all add: al word_le_nat_alt)
  have "mem_blit m 0 (replicate 68 0) = Some (replicate 68 0 @ t)"
    using m t by (simp add: patch_def)
  moreover have "host_bytes big 8 (if big then sz else endian_swap64 sz) = rev (le_bytes 8 (word_of_nat ?n :: u64))"
    by (simp add: swap64.h2be_host_bytes)
  moreover have "\<not> INT_MAX < uint sz" using INT_MAX_less [of "unat sz"] sz by simp
  ultimately have "abi_pack_publish big malloc input sz =
      Some (Ptr (publish_calldata (take ?n input)), 68 + abi_align sz)"
    using sz m t pad
    by (simp add: abi_pack_publish_def Let_def mal diff mem_put_append copy_bytes_eq
        patch_in_prefix publish_head patch_append publish_calldata_def abi_bytes_def min_absorb2)
      (simp add: patch_def)
  moreover have "68 + abi_align sz = word_of_nat (length (publish_calldata (take ?n input)))"
    using sz pad by (intro iffD2 [OF word_unat_eq_iff])
      (simp add: publish_calldata_def length_abi_bytes min_def unat_word_ariths al unat_of_nat)
  ultimately show ?thesis by simp
qed


section \<open>Reading the fields of the contract's answer\<close>

lemma abi_read_u16_eq:
  "pos + 2 \<le> length input \<Longrightarrow>
    abi_read_u16 big input pos = Some (unat (of_le_bytes (rev (take 2 (drop pos input))) :: u16))"
  using swap16.be2h_of_host_bytes [of "take 2 (drop pos input)" big]
  by (cases big) (simp_all add: abi_read_u16_def Let_def)

lemma abi_get_order_start_eq:
  "abi_get_order_start big input sz =
    (if sz < 32 then Some 0 else if length input < 32 then None
     else Some (of_le_bytes (rev (take 8 (drop 24 input)))))"
  using swap64.be2h_of_host_bytes [of "take 8 (drop 24 input)" big]
  by (cases big) (simp_all add: abi_get_order_start_def Let_def mem_read_def)

lemma abi_get_order_duration_eq:
  "abi_get_order_duration big input sz =
    (if sz < 64 then Some 0 else if length input < 64 then None
     else Some (of_le_bytes (rev (take 4 (drop 60 input)))))"
  using swap32.be2h_of_host_bytes [of "take 4 (drop 60 input)" big]
  by (cases big) (simp_all add: abi_get_order_duration_def Let_def mem_read_def)

text \<open>The last \<open>k\<close> bytes of a 32-byte word inside the data.\<close>

lemma be_field:
  assumes "k \<le> 8" and "LENGTH('a) = 8 * k" and "pos = length pre + (32 - k)"
  shows "of_le_bytes (rev (take k (drop pos (pre @ be_word n @ post)))) = (word_of_nat n :: 'a::len word)"
proof -
  have "take k (drop pos (pre @ be_word n @ post)) = rev (le_bytes k (word_of_nat n :: 'a word))"
    using assms be_bytes_tail [of k n post] le_bytes_of_nat [of k, where ?'a = 64 and ?'b = 'a, of n]
    by simp
  moreover have "of_le_bytes (le_bytes k (word_of_nat n :: 'a word)) = (word_of_nat n :: 'a word)"
    unfolding of_le_bytes_le_bytes by (rule take_bit_word_eq_self) (simp add: assms)
  ultimately show ?thesis by simp
qed

lemma abi_read_u16_field:
  assumes "pos = length pre + 30" and "n < 2 ^ 16"
  shows "abi_read_u16 big (pre @ be_word n @ post) pos = Some n"
  using assms be_field [where ?'a = 16, of 2 pos pre n post]
  by (simp add: abi_read_u16_eq unat_of_nat)

text \<open>A string whose head word is at \<open>head\<close> and whose data is at the offset the head word holds.\<close>

lemma abi_get_order_string_field:
  assumes input: "input = pre @ be_word off @ mid" "input = pre' @ abi_bytes s @ post"
    and pos: "length pre = head" "length pre' = off" and fits: "off < 2 ^ 16" "length s < 2 ^ 16"
    and m: "malloc (length s + 1) = Ptr m" "length m = length s + 1" and sz: "sz = length input"
  shows "abi_get_order_string big malloc head input sz = Some (Ptr (s @ [0]))"
proof -
  let ?post = "s @ replicate (abi_pad (length s)) 0 @ post"
  have two: "input = pre' @ be_word (length s) @ ?post" using input(2) by (simp add: abi_bytes_def)
  have "abi_read_u16 big input (head + 30) = Some off"
    unfolding input(1) by (rule abi_read_u16_field) (use fits in \<open>simp_all add: pos\<close>)
  moreover have "abi_read_u16 big input (off + 30) = Some (length s)"
    unfolding two by (rule abi_read_u16_field) (use fits in \<open>simp_all add: pos\<close>)
  moreover have "mem_read input (off + 32) (length s) = Some s"
    by (simp add: two pos)
  moreover have "\<not> sz < head + 32" "\<not> sz < off + 32" "\<not> sz < off + 32 + length s"
    using arg_cong [OF input(1), of length] arg_cong [OF two, of length] by (simp_all add: pos sz)
  ultimately show ?thesis
    using m by (simp add: abi_get_order_string_def mem_simps) (simp add: patch_def)
qed


text \<open>Whatever the input says, a reader stays inside the bytes it was given.\<close>

lemma abi_get_order_string_safe:
  assumes sz: "sz \<le> length input" and m: "\<forall>n m. malloc n = Ptr m \<longrightarrow> length m = n"
  shows "\<exists>r. abi_get_order_string big malloc head input sz = Some r \<and>
    (r = Null \<or> (\<exists>pos len. pos + len \<le> sz \<and> r = Ptr (take len (drop pos input) @ [0])))"
proof (cases "sz < head + 32")
  case False
  then obtain off where off: "abi_read_u16 big input (head + 30) = Some off"
    using sz by (simp add: abi_read_u16_eq)
  show ?thesis
  proof (cases "sz < off + 32")
    case lo: False
    then obtain len where len: "abi_read_u16 big input (off + 30) = Some len"
      using sz by (simp add: abi_read_u16_eq)
    show ?thesis
    proof (cases "sz < off + 32 + len \<or> malloc (len + 1) = Null")
      case ok: False
      then obtain m' where m': "malloc (len + 1) = Ptr m'" "length m' = len + 1"
        using m by (cases "malloc (len + 1)") auto
      have "abi_get_order_string big malloc head input sz = Some (Ptr (take len (drop (off + 32) input) @ [0]))"
        using False lo ok sz m' off len
        by (simp add: abi_get_order_string_def mem_simps) (simp add: patch_def)
      then show ?thesis using ok by (metis linorder_not_less)
    qed (use False lo off len in \<open>auto simp: abi_get_order_string_def\<close>)
  qed (use False off in \<open>simp add: abi_get_order_string_def\<close>)
qed (simp add: abi_get_order_string_def)

section \<open>Properties\<close>

text \<open>C35: For every payload below 2 GiB, when the allocation succeeds, the packer fills the object with exactly
  the ABI encoding of the call \<open>publish(bytes)\<close> of that payload, on hosts of both byte orders, writes nothing
  outside the object, and reports its exact length.\<close>

theorem abi_pack_publish_result:
  assumes "unat sz < 2 ^ 31" "length input = unat sz"
    and "malloc (length (publish_calldata input)) = Ptr m" "length m = length (publish_calldata input)"
  shows "abi_pack_publish big malloc input sz =
    Some (Ptr (publish_calldata input), word_of_nat (length (publish_calldata input)))"
  using assms abi_pack_publish_eq [of sz input malloc m big]
  by (simp add: publish_calldata_def length_abi_bytes ac_simps)

theorem abi_pack_publish_result_witness:
  "abi_pack_publish False (\<lambda>n. Ptr (replicate n 0xAA)) [1, 2, 3] 3 =
    Some (Ptr ([0x7f, 0xd2, 0x83, 0x46] @ replicate 31 0 @ [32] @ replicate 31 0 @ [3, 1, 2, 3] @ replicate 29 0), 100)"
proof -
  have e: "publish_calldata [1, 2, 3] =
      [0x7f, 0xd2, 0x83, 0x46] @ replicate 31 0 @ [32] @ replicate 31 0 @ [3, 1, 2, 3] @ replicate 29 0"
    by code_simp
  show ?thesis
    using abi_pack_publish_result [of 3 "[1, 2, 3]" "\<lambda>n. Ptr (replicate n 0xAA)" "replicate 100 0xAA" False]
    by (simp add: e)
qed

text \<open>C36: Reading back an answer of \<open>getDeviceOrderByID()\<close> that is encoded as the contract encodes it gives the
  start height, the duration and the two strings it was made of, for all strings whose offsets and lengths fit the
  16 bits that the code reads.\<close>

theorem abi_get_order_roundtrip:
  assumes input: "input = order_data start duration endpoint token @ rest"
    and fits: "128 + length (abi_bytes endpoint) < 2 ^ 16" "length token < 2 ^ 16"
    and m: "\<forall>n. \<exists>m. malloc n = Ptr m \<and> length m = n"
  shows "abi_get_order_start big input (length input) = Some start \<and>
    abi_get_order_duration big input (length input) = Some duration \<and>
    abi_get_order_endpoint big malloc input (length input) = Some (Ptr (endpoint @ [0])) \<and>
    abi_get_order_token big malloc input (length input) = Some (Ptr (token @ [0]))"
proof (intro conjI)
  let ?e = "abi_bytes endpoint" and ?t = "abi_bytes token"
  let ?w0 = "be_word (unat start)" and ?w1 = "be_word (unat duration)"
    and ?w2 = "be_word 128" and ?w3 = "be_word (128 + length ?e)"
  have i: "input = ?w0 @ ?w1 @ ?w2 @ ?w3 @ ?e @ ?t @ rest" by (simp add: input order_data_def)
  have len: "128 \<le> length input" by (simp add: i)
  have le: "length endpoint < 2 ^ 16" using fits(1) by (simp add: length_abi_bytes)
  obtain me where me: "malloc (length endpoint + 1) = Ptr me" "length me = length endpoint + 1" using m by blast
  obtain mt where mt: "malloc (length token + 1) = Ptr mt" "length mt = length token + 1" using m by blast
  show "abi_get_order_start big input (length input) = Some start"
    using be_field [of 8 24 "[]" "unat start", where ?'a = 64] len by (simp add: abi_get_order_start_eq i)
  show "abi_get_order_duration big input (length input) = Some duration"
    using be_field [of 4 60 ?w0 "unat duration", where ?'a = 32] len by (simp add: abi_get_order_duration_eq i)
  show "abi_get_order_endpoint big malloc input (length input) = Some (Ptr (endpoint @ [0]))"
    unfolding abi_get_order_endpoint_def
    by (rule abi_get_order_string_field [where pre = "?w0 @ ?w1" and off = 128 and mid = "?w3 @ ?e @ ?t @ rest"
          and pre' = "?w0 @ ?w1 @ ?w2 @ ?w3" and post = "?t @ rest"])
      (use me le in \<open>simp_all add: i\<close>)
  show "abi_get_order_token big malloc input (length input) = Some (Ptr (token @ [0]))"
    unfolding abi_get_order_token_def
    by (rule abi_get_order_string_field [where pre = "?w0 @ ?w1 @ ?w2" and off = "128 + length ?e"
          and mid = "?e @ ?t @ rest" and pre' = "?w0 @ ?w1 @ ?w2 @ ?w3 @ ?e" and post = rest])
      (use mt fits in \<open>simp_all add: i\<close>)
qed

theorem abi_get_order_roundtrip_witness:
  "abi_get_order_start True (order_data 7 9 [65, 66] [67]) 256 = Some 7 \<and>
   abi_get_order_duration True (order_data 7 9 [65, 66] [67]) 256 = Some 9 \<and>
   abi_get_order_endpoint True (\<lambda>n. Ptr (replicate n 0)) (order_data 7 9 [65, 66] [67]) 256 = Some (Ptr [65, 66, 0]) \<and>
   abi_get_order_token True (\<lambda>n. Ptr (replicate n 0)) (order_data 7 9 [65, 66] [67]) 256 = Some (Ptr [67, 0])"
  using abi_get_order_roundtrip [of "order_data 7 9 [65, 66] [67]" 7 9 "[65, 66]" "[67]" "[]" "\<lambda>n. Ptr (replicate n 0)" True]
  by (simp add: order_data_def length_abi_bytes abi_pad_def)

text \<open>For every input, well-formed or not, of at least the stated size, each of the four readers returns without
  reading outside the input; a string reader gives \<open>NULL\<close> or a fresh NUL-terminated copy of a range of the input.\<close>

theorem abi_get_order_safe:
  assumes "sz \<le> length input" and "\<forall>n m. malloc n = Ptr m \<longrightarrow> length m = n"
    and "get = abi_get_order_endpoint big malloc \<or> get = abi_get_order_token big malloc"
  shows "abi_get_order_start big input sz \<noteq> None \<and> abi_get_order_duration big input sz \<noteq> None \<and>
    (\<exists>r. get input sz = Some r \<and>
      (r = Null \<or> (\<exists>pos len. pos + len \<le> sz \<and> r = Ptr (take len (drop pos input) @ [0]))))"
  using assms abi_get_order_string_safe [of sz input malloc big]
  by (auto simp: abi_get_order_start_eq abi_get_order_duration_eq abi_get_order_endpoint_def
      abi_get_order_token_def)

theorem abi_get_order_safe_witness:
  "\<exists>r. abi_get_order_token False (\<lambda>n. Ptr (replicate n 0)) (replicate 130 0xFF) 130 = Some r"
  using abi_get_order_safe [of 130 "replicate 130 0xFF" "\<lambda>n. Ptr (replicate n 0)"
      "abi_get_order_token False (\<lambda>n. Ptr (replicate n 0))" False]
  by auto

end
