(* ===== verification/Pb_Pack.thy ===== *)
theory Pb_Pack
  imports Endian_Conv
begin

text \<open>
  \<open>src/pb_pack.c\<close>: the protocol-buffer encoder. A message is a list of items whose data pointer is
  \<open>NULL\<close>, a byte object or a list of items. The output buffer is the object \<open>mem\<close> from offset
  \<open>base\<close>; as in the code, the size the encoder is given and the bytes that really exist there are
  two different things. The byte order of the host is the argument \<open>big\<close>.

  The specification is the protocol-buffer wire format: fields with a number and a wire value,
  their encoding and a decoder for it.
\<close>

section \<open>Data\<close>

datatype pb_st_item = Pb_Item (pb_type: byte) (pb_field: byte) (pb_data: pb_data) (pb_length: byte)
  and pb_data = Pb_Null | Pb_Bytes "byte list" | Pb_Items "pb_st_item list"

definition PB_WT_VARINT :: byte where "PB_WT_VARINT = 0"
definition PB_WT_64 :: byte where "PB_WT_64 = 1"
definition PB_WT_LD :: byte where "PB_WT_LD = 2"
definition PB_WT_32 :: byte where "PB_WT_32 = 5"
definition PB_WT_EMB :: byte where "PB_WT_EMB = 0x82"

definition PB_MAX_TYPE :: byte where "PB_MAX_TYPE = PB_WT_32"

definition PB_ERR_WTYPE :: int where "PB_ERR_WTYPE = 1"
definition PB_ERR_FIELD :: int where "PB_ERR_FIELD = 2"
definition PB_ERR_ENCBUF :: int where "PB_ERR_ENCBUF = 4"

lemmas pb_consts = PB_WT_VARINT_def PB_WT_64_def PB_WT_LD_def PB_WT_32_def PB_WT_EMB_def
  PB_MAX_TYPE_def PB_ERR_WTYPE_def PB_ERR_FIELD_def PB_ERR_ENCBUF_def

definition PB_GET_WTYPE :: "byte \<Rightarrow> byte" where "PB_GET_WTYPE x = x AND 0x7"

definition IS_EMB_MSG :: "byte \<Rightarrow> bool" where
  "IS_EMB_MSG x \<longleftrightarrow> PB_GET_WTYPE x = PB_WT_LD \<and> x AND 0x80 \<noteq> 0"

definition PB_SET_HEADER :: "u32 \<Rightarrow> byte \<Rightarrow> u32" where
  "PB_SET_HEADER field ty = push_bit 3 (field AND 0x1fffffff) OR (ucast ty AND 0x7)"

section \<open>Scalar encoders\<close>

text \<open>\<open>pb_varint_is_zero\<close>: the data is read byte by byte up to the first that is not zero.\<close>

fun bytes_zero :: "byte list \<Rightarrow> nat \<Rightarrow> bool option" where
  "bytes_zero _ 0 = Some True"
| "bytes_zero [] (Suc n) = None"
| "bytes_zero (b # bs) (Suc n) = (if b \<noteq> 0 then Some False else bytes_zero bs n)"

definition pb_varint_is_zero :: "byte \<Rightarrow> byte list \<Rightarrow> byte \<Rightarrow> bool option" where
  "pb_varint_is_zero ty data len =
     (if ty \<noteq> PB_WT_VARINT then Some False
      else bytes_zero data (if len \<noteq> 0 then unat len else 8))"

text \<open>The loop of \<open>pb_pack_varint\<close>: \<open>for (i = 0; i < size && varint; i++)\<close>.\<close>

function put_varint :: "u64 \<Rightarrow> byte list \<Rightarrow> nat \<Rightarrow> nat \<Rightarrow> int \<Rightarrow> (nat \<times> byte list) option" where
  "put_varint varint mem off i sz =
     (if int i < sz \<and> varint \<noteq> 0 then do {
        mem \<leftarrow> mem_put mem (off + i) (0x80 OR (ucast varint AND 0x7F));
        put_varint (drop_bit 7 varint) mem off (i + 1) sz
      } else Some (i, mem))"
  by pat_completeness auto

lemma unat_drop_bit_7: "unat (drop_bit 7 (v :: u64)) = unat v div 128"
  by (simp add: drop_bit_eq_div unat_div_distrib)

termination put_varint
  by (relation "measure (\<lambda>(v, _). unat v)") (auto simp: unat_drop_bit_7 unat_gt_0 intro!: div_less_dividend)

declare put_varint.simps [simp del]

text \<open>
  The three conversion unions are initialised before the \<open>switch\<close>, so eight bytes of data are read
  whatever the length of the item is.
\<close>

definition pb_pack_varint ::
  "bool \<Rightarrow> byte list \<Rightarrow> byte \<Rightarrow> byte list \<Rightarrow> nat \<Rightarrow> int \<Rightarrow> (int \<times> byte list) option" where
  "pb_pack_varint big data len mem off sz = do {
     bytes \<leftarrow> mem_read data 0 8;
     let u16 = of_host_bytes big (take 2 bytes);
     let u32 = of_host_bytes big (take 4 bytes);
     let u64 = of_host_bytes big bytes;
     let varint =
       (if len = 1 then ucast (bytes ! 0)
        else if len = 2 then ucast (ENDIAN_H2LE16 big u16)
        else if len = 4 then ucast (ENDIAN_H2LE32 big u32)
        else ENDIAN_H2LE64 big u64);
     (i, mem) \<leftarrow> put_varint varint mem off 0 sz;
     if i = 0 then Some (0, mem)
     else do {
       b \<leftarrow> mem_get mem (off + i - 1);
       mem \<leftarrow> mem_put mem (off + i - 1) (b AND NOT 0x80);
       Some (int i, mem)
     }
   }"

text \<open>\<open>size < sizeof(...)\<close> compares an \<open>int32_t\<close> with a \<open>size_t\<close>: a negative size counts as huge.\<close>

definition size_t :: "int \<Rightarrow> nat" where "size_t i = nat (i mod 2 ^ 64)"

definition int32_t :: "nat \<Rightarrow> int" where "int32_t n = sint (word_of_nat n :: u32)"

definition pb_pack_64bit ::
  "bool \<Rightarrow> byte list \<Rightarrow> byte list \<Rightarrow> nat \<Rightarrow> int \<Rightarrow> (int \<times> byte list) option" where
  "pb_pack_64bit big data mem off sz =
     (if size_t sz < 8 then Some (- PB_ERR_ENCBUF, mem)
      else do {
        bytes \<leftarrow> mem_read data 0 8;
        let u_data = ENDIAN_H2LE64 big (of_host_bytes big bytes);
        mem \<leftarrow> mem_blit mem off (host_bytes big 8 u_data);
        Some (8, mem)
      })"

definition pb_pack_32bit ::
  "bool \<Rightarrow> byte list \<Rightarrow> byte list \<Rightarrow> nat \<Rightarrow> int \<Rightarrow> (int \<times> byte list) option" where
  "pb_pack_32bit big data mem off sz =
     (if size_t sz < 4 then Some (- PB_ERR_ENCBUF, mem)
      else do {
        bytes \<leftarrow> mem_read data 0 4;
        let u_data = ENDIAN_H2LE32 big (of_host_bytes big bytes);
        mem \<leftarrow> mem_blit mem off (host_bytes big 4 u_data);
        Some (4, mem)
      })"

definition pb_encode_varint ::
  "bool \<Rightarrow> u64 \<Rightarrow> byte list \<Rightarrow> nat \<Rightarrow> int \<Rightarrow> (int \<times> byte list) option" where
  "pb_encode_varint big varint mem off sz =
     (if varint \<le> 0x7f then do {
        mem \<leftarrow> mem_put mem off (ucast (varint AND 0x7f));
        Some (1, mem)
      }
      else pb_pack_varint big (host_bytes big 8 varint) 8 mem off sz)"

text \<open>The header of a field above 15 goes through \<open>pb_pack_varint\<close> on the four bytes of \<open>field\<close>.\<close>

definition pb_encode_header ::
  "bool \<Rightarrow> byte list \<Rightarrow> nat \<Rightarrow> nat \<Rightarrow> byte \<Rightarrow> u32 \<Rightarrow> (int \<times> byte list) option" where
  "pb_encode_header big mem off sz ty field =
     (if field = 0 \<or> 0x1fffffff < field \<or> (19000 \<le> field \<and> field \<le> 19999)
      then Some (- PB_ERR_FIELD, mem)
      else let field = PB_SET_HEADER field ty in
        if field < 0x7f then do {
          mem \<leftarrow> mem_put mem off (ucast (field AND 0x7f));
          Some (1, mem)
        }
        else pb_pack_varint big (host_bytes big 4 field) 4 mem off (int32_t sz))"

definition pb_pack_ld ::
  "bool \<Rightarrow> byte list \<Rightarrow> byte \<Rightarrow> byte list \<Rightarrow> nat \<Rightarrow> int \<Rightarrow> (int \<times> byte list) option" where
  "pb_pack_ld big data len mem off sz = do {
     (varint_length, mem) \<leftarrow> pb_encode_varint big (ucast len) mem off sz;
     if varint_length < 0 then Some (- PB_ERR_ENCBUF, mem)
     else do {
       bytes \<leftarrow> mem_read data 0 (unat len);
       mem \<leftarrow> mem_blit mem (off + nat varint_length) bytes;
       Some (varint_length + int (unat len), mem)
     }
   }"

text \<open>The table \<open>__encoder\<close>.\<close>

definition pb_encoder ::
  "bool \<Rightarrow> byte \<Rightarrow> (byte list \<Rightarrow> byte \<Rightarrow> byte list \<Rightarrow> nat \<Rightarrow> int \<Rightarrow> (int \<times> byte list) option) option" where
  "pb_encoder big write_type =
     (if write_type = PB_WT_VARINT then Some (pb_pack_varint big)
      else if write_type = PB_WT_64 then Some (\<lambda>data len. pb_pack_64bit big data)
      else if write_type = PB_WT_LD then Some (pb_pack_ld big)
      else if write_type = PB_WT_32 then Some (\<lambda>data len. pb_pack_32bit big data)
      else None)"

section \<open>Messages\<close>

text \<open>What one round of the loop of \<open>pb_pack\<close> does: \<open>continue\<close>, \<open>return\<close>, or advance \<open>packed_len\<close>.\<close>

datatype round = Continue | Return int | Packed nat

definition pb_pack_scalar ::
  "bool \<Rightarrow> byte \<Rightarrow> byte \<Rightarrow> pb_data \<Rightarrow> byte \<Rightarrow> byte list \<Rightarrow> nat \<Rightarrow> nat \<Rightarrow> nat \<Rightarrow> (round \<times> byte list) option" where
  "pb_pack_scalar big ty field dat len mem base sz packed_len =
     (case (dat, pb_encoder big (PB_GET_WTYPE ty)) of
        (Pb_Bytes data, Some encode) \<Rightarrow> do {
          zero \<leftarrow> (if PB_GET_WTYPE ty = PB_WT_VARINT then pb_varint_is_zero ty data len else Some False);
          if zero then Some (Continue, mem)
          else do {
            (header_len, mem) \<leftarrow>
              pb_encode_header big mem (base + packed_len) (size_t (int sz - int packed_len)) ty (ucast field);
            if header_len < 0 then Some (Return (- PB_ERR_ENCBUF), mem)
            else do {
              let packed_len = packed_len + nat header_len;
              (value_len, mem) \<leftarrow>
                encode data len mem (base + packed_len) (int32_t (size_t (int sz - int packed_len)));
              if value_len < 0 then Some (Return value_len, mem)
              else Some (Packed (packed_len + nat value_len), mem)
            }
          }
        }
      | _ \<Rightarrow> None)"

text \<open>The length of an embedded message is put before its bytes, which are moved if it is longer than a byte.\<close>

definition pb_put_emb_len ::
  "bool \<Rightarrow> byte list \<Rightarrow> nat \<Rightarrow> nat \<Rightarrow> nat \<Rightarrow> (round \<times> byte list) option" where
  "pb_put_emb_len big mem base packed_len emb_msg_len =
     (if emb_msg_len > 0x7f then do {
        (occupy, len_buffer) \<leftarrow> pb_encode_varint big (word_of_nat emb_msg_len) (replicate 8 0) 0 8;
        bytes \<leftarrow> mem_read mem (base + packed_len + 1) emb_msg_len;
        mem \<leftarrow> mem_blit mem (base + packed_len + nat occupy) bytes;
        mem \<leftarrow> mem_blit mem (base + packed_len) (take (nat occupy) len_buffer);
        Some (Packed (packed_len + nat occupy + emb_msg_len), mem)
      }
      else do {
        mem \<leftarrow> mem_put mem (base + packed_len) (word_of_nat emb_msg_len);
        Some (Packed (packed_len + emb_msg_len + 1), mem)
      })"

text \<open>
  \<open>pb_pack\<close>: the items, how many of them to pack, the buffer, and the size the caller states; the
  last argument is \<open>packed_len\<close>, an \<open>int\<close>. The result is the value returned and the buffer.
\<close>

fun pb_pack_loop ::
  "bool \<Rightarrow> pb_st_item list \<Rightarrow> nat \<Rightarrow> byte list \<Rightarrow> nat \<Rightarrow> nat \<Rightarrow> nat \<Rightarrow> (int \<times> byte list) option" where
  "pb_pack_loop big message 0 mem base sz packed_len = Some (int packed_len, mem)"
| "pb_pack_loop big [] (Suc n) mem base sz packed_len = None"
| "pb_pack_loop big (Pb_Item ty field dat len # message) (Suc n) mem base sz packed_len =
     (if PB_MAX_TYPE < PB_GET_WTYPE ty then Some (- PB_ERR_WTYPE, mem)
      else if pb_encoder big (PB_GET_WTYPE ty) = None \<or> dat = Pb_Null
      then pb_pack_loop big message n mem base sz packed_len
      else do {
        (round, mem) \<leftarrow>
          (if IS_EMB_MSG ty then do {
             (header_len, mem) \<leftarrow>
               pb_encode_header big mem (base + packed_len) (size_t (int sz - int packed_len))
                 (PB_GET_WTYPE ty) (ucast field);
             if header_len \<le> 0 then Some (Return (- PB_ERR_ENCBUF), mem)
             else case dat of
               Pb_Items items \<Rightarrow> do {
                 let packed_len = packed_len + nat header_len;
                 (emb_msg_len, mem) \<leftarrow>
                   pb_pack_loop big items (unat len) mem (base + packed_len + 1)
                     (size_t (int sz - int packed_len - 1)) 0;
                 if emb_msg_len < 0 then Some (Return emb_msg_len, mem)
                 else pb_put_emb_len big mem base packed_len (nat emb_msg_len)
               }
             | _ \<Rightarrow> None
           }
           else pb_pack_scalar big ty field dat len mem base sz packed_len);
        case round of
          Continue \<Rightarrow> pb_pack_loop big message n mem base sz packed_len
        | Return e \<Rightarrow> Some (e, mem)
        | Packed packed_len \<Rightarrow>
            if INT_MAX < int packed_len then None
            else if sz \<le> packed_len then Some (- PB_ERR_ENCBUF, mem)
            else pb_pack_loop big message n mem base sz packed_len
      })"

definition pb_pack ::
  "bool \<Rightarrow> pb_st_item list \<Rightarrow> nat \<Rightarrow> byte list \<Rightarrow> nat \<Rightarrow> nat \<Rightarrow> (int \<times> byte list) option" where
  "pb_pack big message len mem base sz = pb_pack_loop big message len mem base sz 0"


section \<open>Specification: the wire format\<close>

fun leb128 :: "nat \<Rightarrow> byte list" where
  "leb128 n = (if n < 128 then [word_of_nat n] else word_of_nat (128 + n mod 128) # leb128 (n div 128))"

declare leb128.simps [simp del]

fun leb128_dec :: "byte list \<Rightarrow> (nat \<times> byte list) option" where
  "leb128_dec [] = None"
| "leb128_dec (b # bs) =
     (if unat b < 128 then Some (unat b, bs)
      else do {
        (n, r) \<leftarrow> leb128_dec bs;
        Some (unat b - 128 + 128 * n, r)
      })"

lemma leb128_dec_enc: "leb128_dec (leb128 n @ r) = Some (n, r)"
proof (induction n rule: leb128.induct)
  case (1 n)
  have b: "unat (word_of_nat (128 + n mod 128) :: byte) = 128 + n mod 128"
    by (simp add: unat_of_nat del: of_nat_add) 
  have m: "n mod 128 + 128 * (n div 128) = n" by simp
  show ?case
    by (cases "n < 128")
      (simp_all add: leb128.simps [of n] unat_of_nat b m 1 del: of_nat_add)
qed

interpretation varint_code: prefix_code leb128 leb128_dec "\<lambda>_. True"
  by unfold_locales (rule leb128_dec_enc)

datatype wire = W_Varint nat | W_64 "byte list" | W_Len "byte list" | W_32 "byte list"

fun wire_type :: "wire \<Rightarrow> nat" where
  "wire_type (W_Varint _) = 0"
| "wire_type (W_64 _) = 1"
| "wire_type (W_Len _) = 2"
| "wire_type (W_32 _) = 5"

fun wire_bytes :: "wire \<Rightarrow> byte list" where
  "wire_bytes (W_Varint n) = leb128 n"
| "wire_bytes (W_64 bs) = bs"
| "wire_bytes (W_Len bs) = leb128 (length bs) @ bs"
| "wire_bytes (W_32 bs) = bs"

fun enc_field :: "nat \<times> wire \<Rightarrow> byte list" where
  "enc_field (f, w) = leb128 (f * 8 + wire_type w) @ wire_bytes w"

definition split_at :: "nat \<Rightarrow> (byte list \<Rightarrow> wire) \<Rightarrow> byte list \<Rightarrow> (wire \<times> byte list) option" where
  "split_at n con bs = (if n \<le> length bs then Some (con (take n bs), drop n bs) else None)"

definition dec_field :: "byte list \<Rightarrow> ((nat \<times> wire) \<times> byte list) option" where
  "dec_field bs = do {
     (k, bs) \<leftarrow> leb128_dec bs;
     (w, bs) \<leftarrow>
       (if k mod 8 = 0 then map_option (apfst W_Varint) (leb128_dec bs)
        else if k mod 8 = 1 then split_at 8 W_64 bs
        else if k mod 8 = 2 then do {
          (n, bs) \<leftarrow> leb128_dec bs;
          split_at n W_Len bs
        }
        else if k mod 8 = 5 then split_at 4 W_32 bs
        else None);
     Some ((k div 8, w), bs)
   }"

fun ok_field :: "nat \<times> wire \<Rightarrow> bool" where
  "ok_field (f, W_64 bs) = (length bs = 8)"
| "ok_field (f, W_32 bs) = (length bs = 4)"
| "ok_field _ = True"

lemma key_div_mod [simp]:
  "Suc (f * 8) mod 8 = 1" "Suc (f * 8) div 8 = f"
  "Suc (Suc (f * 8)) mod 8 = 2" "Suc (Suc (f * 8)) div 8 = f"
  by presburger+

interpretation field_code: prefix_code enc_field dec_field ok_field
proof
  fix v r
  assume "ok_field v"
  then show "dec_field (enc_field v @ r) = Some (v, r)"
    by (cases v rule: ok_field.cases)
      (simp_all add: dec_field_def leb128_dec_enc split_at_def)
qed

definition enc_msg :: "(nat \<times> wire) list \<Rightarrow> byte list" where
  "enc_msg fs = concat (map enc_field fs)"

definition dec_msg :: "byte list \<Rightarrow> (nat \<times> wire) list option" where
  "dec_msg bs = dec_all dec_field bs"

lemma leb128_nonempty [simp]: "leb128 n \<noteq> []"
  by (simp add: leb128.simps)

lemma dec_msg_enc: "list_all ok_field fs \<Longrightarrow> dec_msg (enc_msg fs) = Some fs"
  unfolding dec_msg_def enc_msg_def by (rule field_code.dec_all_enc) auto



section \<open>Varints\<close>

lemma and_80:
  assumes m: "m < 128"
  shows "0x80 AND word_of_nat m = (0 :: byte)"
proof (rule bit_word_eqI)
  fix n
  have "(word_of_nat m :: byte) = take_bit 7 (word_of_nat m)"
    using m by (intro iffD2 [OF word_unat_eq_iff]) (simp add: unsigned_take_bit_eq unat_of_nat take_bit_nat_eq_self)
  then have b7: "\<not> bit (word_of_nat m :: byte) 7" by (metis bit_take_bit_iff less_irrefl)
  have b80: "bit (0x80 :: byte) i \<longleftrightarrow> i = 7" for i
    using bit_push_bit_iff [of 7 "1 :: byte" i] by (auto simp: bit_simps)
  show "bit ((0x80 :: byte) AND word_of_nat m) n \<longleftrightarrow> bit (0 :: byte) n"
    unfolding bit_and_iff b80 using b7 by (cases "n = 7") simp_all
qed

lemma or_80: "m < 128 \<Longrightarrow> 0x80 OR word_of_nat m = (word_of_nat (128 + m) :: byte)"
proof -
  assume "m < 128"
  then have "(0x80 :: byte) AND word_of_nat m = 0" by (rule and_80)
  then have "(0x80 :: byte) + word_of_nat m = 0x80 OR word_of_nat m"
    by (rule disjunctive_add_eq_or)
  then show ?thesis by simp
qed

lemma or_80_more: "0x80 OR word_of_nat (128 + n mod 128) = (word_of_nat (128 + n mod 128) :: byte)"
  using or_80 [of "n mod 128"] by (metis mod_less_divisor or.left_idem zero_less_numeral)

lemma varint_byte: "0x80 OR (ucast v AND 0x7F) = (word_of_nat (128 + unat (v :: u64) mod 128) :: byte)"
proof -
  have "(0x7F :: byte) = mask 7" by (simp add: mask_eq_exp_minus_1)
  then have "ucast v AND 0x7F = take_bit 7 (ucast v :: byte)" by (simp only: take_bit_eq_mask)
  also have "\<dots> = (word_of_nat (unat v mod 128) :: byte)"
    by (intro iffD2 [OF word_unat_eq_iff])
      (simp only: unsigned_take_bit_eq unsigned_ucast_eq unat_of_nat, simp add: take_bit_eq_mod mod_mod_cancel)
  finally have "ucast v AND 0x7F = (word_of_nat (unat v mod 128) :: byte)" .
  then show ?thesis by (simp only: or_80 mod_less_divisor zero_less_numeral)
qed

abbreviation set_more :: "byte list \<Rightarrow> byte list" where
  "set_more \<equiv> map (\<lambda>b. 0x80 OR b)"

lemma put_varint_fits:
  "v \<noteq> 0 \<Longrightarrow> int (i + length (leb128 (unat v))) \<le> sz \<Longrightarrow> off + i + length (leb128 (unat v)) \<le> length mem \<Longrightarrow>
    put_varint v mem off i sz =
      Some (i + length (leb128 (unat v)), patch mem (off + i) (set_more (leb128 (unat v))))"
proof (induction v mem off i sz rule: put_varint.induct)
  case (1 v mem off i sz)
  let ?n = "unat v"
  have n: "0 < ?n" using 1 by (simp add: unat_gt_0)
  have len: "0 < length (leb128 ?n)" by simp
  have i: "int i < sz" "off + i < length mem" using 1 len by linarith+
  show ?case
  proof (cases "?n < 128")
    case True
    then have "drop_bit 7 v = 0" by (simp add: word_unat_eq_iff unat_drop_bit_7)
    moreover have "word_of_nat (128 + ?n) = (0x80 OR ucast v :: byte)" using or_80 [OF True] by simp
    ultimately show ?thesis
      using True i 1 by (subst put_varint.simps)
        (simp add: put_varint.simps [of 0] mem_simps varint_byte leb128.simps [of ?n] or_80 del: of_nat_add word_of_nat_eq_0_iff)
  next
    case False
    have l: "leb128 ?n = word_of_nat (128 + ?n mod 128) # leb128 (?n div 128)"
      using False by (simp add: leb128.simps [of ?n])
    have "drop_bit 7 v \<noteq> 0" using False by (simp add: word_unat_eq_iff unat_drop_bit_7 div_eq_0_iff)
    then have "put_varint (drop_bit 7 v) (patch mem (off + i) [word_of_nat (128 + ?n mod 128)]) off (i + 1) sz =
        Some (i + 1 + length (leb128 (?n div 128)),
          patch (patch mem (off + i) [word_of_nat (128 + ?n mod 128)]) (off + (i + 1)) (set_more (leb128 (?n div 128))))"
      using 1 i by (intro "1.IH" [unfolded unat_drop_bit_7]) (simp_all add: mem_simps varint_byte l del: of_nat_add)
    then show ?thesis
      using 1 i by (subst put_varint.simps)
        (simp add: mem_simps varint_byte l or_80_more del: of_nat_add)
  qed
qed


lemma put_varint_total:
  "i \<le> k \<Longrightarrow> off + k \<le> length mem \<Longrightarrow>
    \<exists>mem'. put_varint v mem off i (int k) =
      Some (i + min (if v = 0 then 0 else length (leb128 (unat v))) (k - i), mem') \<and> length mem' = length mem"
proof (induction v mem off i "int k" rule: put_varint.induct)
  case (1 v mem off i)
  show ?case
  proof (cases "i < k \<and> v \<noteq> 0")
    case True
    then obtain m where m: "mem_put mem (off + i) (0x80 OR (ucast v AND 0x7F)) = Some m" "length m = length mem"
      using 1 by (auto simp: mem_simps)
    obtain m' where m': "put_varint (drop_bit 7 v) m off (i + 1) (int k) =
        Some (i + 1 + min (if drop_bit 7 v = 0 then 0 else length (leb128 (unat v div 128))) (k - (i + 1)), m')"
      "length m' = length mem"
      using "1.hyps" [OF _ m(1)] 1 True m by (auto simp: unat_drop_bit_7)
    have "drop_bit 7 v = 0 \<longleftrightarrow> unat v < 128"
      by (simp add: word_unat_eq_iff unat_drop_bit_7 div_eq_0_iff)
    then have "1 + min (if drop_bit 7 v = 0 then 0 else length (leb128 (unat v div 128))) (k - (i + 1))
        = min (length (leb128 (unat v))) (k - i)"
      using True by (auto simp: leb128.simps [of "unat v"])
    then show ?thesis using True m m' by (subst put_varint.simps) simp
  qed (use 1 in \<open>auto simp: put_varint.simps [of v]\<close>)
qed

lemma clear_more: "butlast (set_more (leb128 n)) @ [last (set_more (leb128 n)) AND NOT 0x80] = leb128 n"
proof (induction n rule: leb128.induct)
  case (1 n)
  show ?case
  proof (cases "n < 128")
    case True
    have "(0x80 OR w) AND NOT 0x80 = w" if "0x80 AND w = 0" for w :: byte
    proof (rule bit_word_eqI)
      fix i
      have "\<not> (bit (0x80 :: byte) i \<and> bit w i)" using that by (metis bit_and_iff bit_0_eq bot_apply bot_bool_def)
      moreover assume "i < LENGTH(8)"
      ultimately show "bit ((0x80 OR w) AND NOT 0x80) i \<longleftrightarrow> bit w i"
        unfolding bit_and_iff bit_or_iff bit_not_iff by (auto simp: possible_bit_def)
    qed
    then have "(0x80 OR word_of_nat n) AND NOT 0x80 = (word_of_nat n :: byte)"
      by (simp only: and_80 [OF True])
    then show ?thesis using True by (simp add: leb128.simps [of n])
  next
    case False
    then show ?thesis
      using 1 or_80_more [of n] by (simp add: leb128.simps [of n] del: of_nat_add)
  qed
qed


text \<open>The value that \<open>pb_pack_varint\<close> takes from an item, on a little-endian host.\<close>

definition varint_value :: "byte list \<Rightarrow> byte \<Rightarrow> u64" where
  "varint_value data len =
     of_le_bytes (take (if len = 1 then 1 else if len = 2 then 2 else if len = 4 then 4 else 8) data)"

lemma bit_of_le_bytes: "bit (of_le_bytes bs :: 'a::len word) n \<Longrightarrow> n < 8 * length bs"
proof (induction bs arbitrary: n)
  case (Cons b bs)
  then consider "n < 8" | "8 \<le> n" "bit (of_le_bytes bs :: 'a word) (n - 8)"
    by (auto simp: bit_simps dest: bit_imp_le_length)
  then show ?case
  proof cases
    case 2
    then show ?thesis using Cons.IH [of "n - 8"] by simp
  qed simp
qed simp

lemma ucast_of_le_bytes:
  "8 * length bs \<le> LENGTH('a) \<Longrightarrow> LENGTH('a) \<le> LENGTH('b) \<Longrightarrow>
    ucast (of_le_bytes bs :: 'a::len word) = (of_le_bytes bs :: 'b::len word)"
proof (induction bs)
  case (Cons b bs)
  have ih: "(of_le_bytes bs :: 'b word) = ucast (of_le_bytes bs :: 'a word)"
    using Cons by simp
  have "bit (of_le_bytes bs :: 'b word) n \<longleftrightarrow> bit (of_le_bytes bs :: 'a word) n \<and> n < LENGTH('a)" if "n < LENGTH('b)" for n
    unfolding ih using that by (auto simp: bit_simps dest: bit_imp_le_length)
  moreover have "bit (of_le_bytes bs :: 'a word) n \<Longrightarrow> n + 8 < LENGTH('a)" for n
    using bit_of_le_bytes [of bs n, where ?'a = 'a] Cons.prems by simp
  moreover note that = calculation
  show ?case
  proof (rule bit_word_eqI)
    fix n
    assume "n < LENGTH('b)"
    then show "bit (ucast (of_le_bytes (b # bs) :: 'a word) :: 'b word) n \<longleftrightarrow> bit (of_le_bytes (b # bs) :: 'b word) n"
      using that(1) [of "n - 8"] that(2) [of "n - 8"] Cons.prems
      by (cases "n < 8") (auto simp: bit_simps dest: bit_imp_le_length)
  qed
qed simp

lemma pb_pack_varint_value:
  assumes "8 \<le> length data"
  shows "pb_pack_varint False data len mem off sz = do {
     (i, mem) \<leftarrow> put_varint (varint_value data len) mem off 0 sz;
     if i = 0 then Some (0, mem)
     else do {
       b \<leftarrow> mem_get mem (off + i - 1);
       mem \<leftarrow> mem_put mem (off + i - 1) (b AND NOT 0x80);
       Some (int i, mem)
     }
   }"
proof -
  have b: "ucast (take 8 data ! 0) = (of_le_bytes (take 1 data) :: u64)"
    using assms by (cases data) simp_all
  have "ucast (of_le_bytes (take 2 data) :: u16) = (of_le_bytes (take 2 data) :: u64)"
    and "ucast (of_le_bytes (take 4 data) :: u32) = (of_le_bytes (take 4 data) :: u64)"
    by (rule ucast_of_le_bytes; simp)+
  then show ?thesis
    using assms b
    by (simp add: pb_pack_varint_def varint_value_def Let_def of_host_bytes_def ENDIAN_H2LE16_def
        ENDIAN_H2LE32_def ENDIAN_H2LE64_def min_def)
qed

lemma pb_pack_varint_fits:
  assumes "8 \<le> length data" and v: "varint_value data len = v" "v \<noteq> 0"
    and "int (length (leb128 (unat v))) \<le> sz" and "off + length (leb128 (unat v)) \<le> length mem"
  shows "pb_pack_varint False data len mem off sz =
    Some (int (length (leb128 (unat v))), patch mem off (leb128 (unat v)))"
  using assms mem_last_patch [of "set_more (leb128 (unat v))" off mem] clear_more [of "unat v"]
  by (simp add: pb_pack_varint_value put_varint_fits)

lemma pb_pack_varint_total:
  assumes "8 \<le> length data" and "off + k \<le> length mem"
  shows "\<exists>mem'. pb_pack_varint False data len mem off (int k) =
    Some (int (min (if varint_value data len = 0 then 0 else length (leb128 (unat (varint_value data len)))) k), mem')
    \<and> length mem' = length mem"
  using assms put_varint_total [of 0 k off mem "varint_value data len"]
  by (auto simp: pb_pack_varint_value mem_simps)

lemma pb_encode_varint_fits:
  assumes "int (length (leb128 (unat v))) \<le> sz" and "off + length (leb128 (unat v)) \<le> length mem"
  shows "pb_encode_varint False v mem off sz =
    Some (int (length (leb128 (unat v))), patch mem off (leb128 (unat v)))"
proof (cases "v \<le> 0x7f")
  case True
  then have n: "unat v < 128" by (simp add: word_le_nat_alt)
  have "(0x7f :: u64) = mask 7" by (simp add: mask_eq_exp_minus_1)
  then have "v AND 0x7f = take_bit 7 v" by (simp only: take_bit_eq_mask)
  also have "\<dots> = v"
    using n by (simp add: word_unat_eq_iff unsigned_take_bit_eq take_bit_nat_eq_self)
  finally have "v AND 0x7f = v" .
  then show ?thesis
    using True n assms by (simp add: pb_encode_varint_def leb128.simps [of "unat v"] mem_simps)
next
  case False
  have "varint_value (le_bytes 8 v) 8 = v"
    by (simp add: varint_value_def swap64.of_le_bytes_self)
  moreover have "v \<noteq> 0" using False by auto
  ultimately show ?thesis
    using False assms pb_pack_varint_fits [of "le_bytes 8 v" 8 v sz off mem]
    by (simp add: pb_encode_varint_def host_bytes_def)
qed


section \<open>What a message means\<close>

definition wire_scalar :: "byte \<Rightarrow> byte list \<Rightarrow> byte \<Rightarrow> wire list" where
  "wire_scalar ty data len =
     (if ty = PB_WT_VARINT then
        (if varint_value data len = 0 then [] else [W_Varint (unat (varint_value data len))])
      else if ty = PB_WT_64 then [W_64 (take 8 data)]
      else if ty = PB_WT_LD then [W_Len (take (unat len) data)]
      else if ty = PB_WT_32 then [W_32 (take 4 data)]
      else [])"

fun wire_msg :: "pb_st_item list \<Rightarrow> (nat \<times> wire) list" where
  "wire_msg [] = []"
| "wire_msg (Pb_Item ty field dat len # message) =
     (case dat of
        Pb_Null \<Rightarrow> []
      | Pb_Bytes data \<Rightarrow> map (Pair (unat field)) (wire_scalar ty data len)
      | Pb_Items items \<Rightarrow> [(unat field, W_Len (enc_msg (wire_msg items)))])
     @ wire_msg message"

text \<open>
  The items the encoder is made for: data objects of the size their type is read with, and field
  numbers up to 15 (a larger one makes \<open>pb_encode_header\<close> read past its own variable).
\<close>

definition wf_scalar :: "byte \<Rightarrow> byte list \<Rightarrow> byte \<Rightarrow> bool" where
  "wf_scalar ty data len \<longleftrightarrow>
     ty = PB_WT_VARINT \<and> len \<in> {0, 1, 2, 4, 8} \<and> 8 \<le> length data \<or>
     ty = PB_WT_64 \<and> 8 \<le> length data \<or>
     ty = PB_WT_LD \<and> unat len \<le> length data \<or>
     ty = PB_WT_32 \<and> 4 \<le> length data"

definition wf_field :: "byte \<Rightarrow> bool" where
  "wf_field field \<longleftrightarrow> 1 \<le> unat field \<and> unat field \<le> 15"

fun wf_msg :: "pb_st_item list \<Rightarrow> bool" where
  "wf_msg [] \<longleftrightarrow> True"
| "wf_msg (Pb_Item ty field dat len # message) \<longleftrightarrow>
     (case dat of
        Pb_Null \<Rightarrow> PB_GET_WTYPE ty \<le> PB_MAX_TYPE
      | Pb_Bytes data \<Rightarrow> wf_field field \<and> wf_scalar ty data len
      | Pb_Items items \<Rightarrow> wf_field field \<and> ty = PB_WT_EMB \<and> unat len = length items \<and> wf_msg items)
     \<and> wf_msg message"

lemma ok_wire_msg: "wf_msg message \<Longrightarrow> list_all ok_field (wire_msg message)"
  by (induction message rule: wire_msg.induct)
    (auto simp: wf_scalar_def wire_scalar_def pb_consts split: pb_data.splits)

lemma enc_msg_simps [simp]:
  "enc_msg [] = []" "enc_msg (v # vs) = enc_field v @ enc_msg vs" "enc_msg (vs @ ws) = enc_msg vs @ enc_msg ws"
  by (simp_all add: enc_msg_def)

lemma header_value: "unat (PB_SET_HEADER (ucast (field :: byte)) ty) = unat field * 8 + unat (PB_GET_WTYPE ty)"
proof -
  let ?f = "push_bit 3 (ucast field AND 0x1fffffff) :: u32" and ?t = "ucast ty AND 0x7 :: u32"
  have m: "(0x1fffffff :: u32) = mask 29" "(0x7 :: u32) = mask 3" "(0x7 :: byte) = mask 3"
    by (simp_all add: mask_eq_exp_minus_1)
  have f8: "bit field n \<Longrightarrow> n < 8" for n using bit_imp_le_length [of field n] by simp
  have "?f AND ?t = 0"
    unfolding m by (rule bit_word_eqI) (auto simp: bit_simps)
  then have "unat (PB_SET_HEADER (ucast field) ty) = unat (?f + ?t)"
    unfolding PB_SET_HEADER_def by (simp only: disjunctive_add_eq_or)
  moreover have "ucast field AND 0x1fffffff = (ucast field :: u32)"
    unfolding m by (rule bit_word_eqI) (auto simp: bit_simps dest: f8)
  moreover have "?t = ucast (PB_GET_WTYPE ty)"
    unfolding PB_GET_WTYPE_def m by (rule bit_word_eqI) (auto simp: bit_simps)
  moreover have "unat field < 256" "unat (PB_GET_WTYPE ty) < 256"
    using unsigned_less [of field, where ?'a = nat] unsigned_less [of "PB_GET_WTYPE ty", where ?'a = nat] by simp_all
  ultimately show ?thesis
    by (simp add: push_bit_eq_mult unat_word_ariths unsigned_ucast_eq take_bit_nat_eq_self mult.commute)
qed

lemma header_fits:
  assumes f: "wf_field field" and ty: "PB_GET_WTYPE ty \<le> PB_MAX_TYPE" and off: "off < length mem"
  shows "pb_encode_header big mem off sz ty (ucast field) =
    Some (1, patch mem off (leb128 (unat field * 8 + unat (PB_GET_WTYPE ty))))"
proof -
  let ?h = "PB_SET_HEADER (ucast field) ty"
  have t: "unat (PB_GET_WTYPE ty) \<le> 5" using ty by (simp add: pb_consts word_le_nat_alt)
  have h: "unat ?h < 127" using header_value [of field ty] f t by (simp add: wf_field_def)
  have "(0x7f :: u32) = mask 7" by (simp add: mask_eq_exp_minus_1)
  then have "?h AND 0x7f = take_bit 7 ?h" by (simp only: take_bit_eq_mask)
  also have "\<dots> = ?h" using h by (simp add: word_unat_eq_iff unsigned_take_bit_eq take_bit_nat_eq_self)
  finally have m: "?h AND 0x7f = ?h" .
  have "ucast ?h = (word_of_nat (unat ?h) :: byte)" by simp
  moreover have "(ucast field :: u32) \<noteq> 0" "\<not> 0x1fffffff < (ucast field :: u32)" "\<not> 19000 \<le> (ucast field :: u32)"
    using f by (auto simp: wf_field_def word_le_nat_alt word_less_nat_alt unsigned_ucast_eq word_unat_eq_iff
        take_bit_nat_eq_self)
  moreover have "?h < 0x7f" using h by (simp add: word_less_nat_alt)
  ultimately show ?thesis
    using h off by (simp add: pb_encode_header_def Let_def m mem_simps header_value leb128.simps [of "unat _ * 8 + _"]
        del: of_nat_unat of_nat_add word_of_nat_eq_0_iff)
qed

lemma bytes_zero_eq: "n \<le> length bs \<Longrightarrow> bytes_zero bs n = Some (\<forall>b \<in> set (take n bs). b = 0)"
  by (induction bs n rule: bytes_zero.induct) auto

lemma of_le_bytes_zero:
  "8 * length bs \<le> LENGTH('a) \<Longrightarrow> (of_le_bytes bs :: 'a::len word) = 0 \<longleftrightarrow> (\<forall>b \<in> set bs. b = 0)"
proof -
  assume l: "8 * length bs \<le> LENGTH('a)"
  have "of_le_bytes bs = (0 :: 'a word)" if "\<forall>b \<in> set bs. b = 0"
    using that by (induction bs) simp_all
  moreover have "le_bytes n (0 :: 'a word) = replicate n 0" for n
    by (simp add: le_bytes_def map_replicate_const)
  ultimately show ?thesis
    using le_bytes_of_le_bytes [OF l] by (metis in_set_replicate)
qed

lemma pb_varint_is_zero_eq:
  assumes "wf_scalar PB_WT_VARINT data len"
  shows "pb_varint_is_zero PB_WT_VARINT data len = Some (varint_value data len = 0)"
proof -
  have "len \<in> {0, 1, 2, 4, 8}" "8 \<le> length data"
    using assms by (auto simp: wf_scalar_def pb_consts)
  then show ?thesis
    by (auto simp: pb_varint_is_zero_def varint_value_def bytes_zero_eq of_le_bytes_zero)
qed

lemma size_t_nat: "n < 2 ^ 64 \<Longrightarrow> size_t (int n) = n"
  by (simp add: size_t_def)

lemma int32_t_nat: "n < 2 ^ 31 \<Longrightarrow> int32_t n = int n"
  by (simp add: int32_t_def signed_of_nat signed_take_bit_int_eq_self)

lemma size_t_diff: "p \<le> s \<Longrightarrow> s < 2 ^ 31 \<Longrightarrow> size_t (int s - int p) = s - p"
  using size_t_nat [of "s - p"] by (simp add: of_nat_diff)

lemma enc_64_32: "host_bytes False 8 (ENDIAN_H2LE64 False (of_host_bytes False bs)) = bs" if "length bs = 8"
  using that by (simp add: ENDIAN_H2LE64_def host_bytes_def of_host_bytes_def)

lemma enc_32: "host_bytes False 4 (ENDIAN_H2LE32 False (of_host_bytes False bs)) = bs" if "length bs = 4"
  using that by (simp add: ENDIAN_H2LE32_def host_bytes_def of_host_bytes_def)


section \<open>The encoder writes the wire format\<close>

lemma length_key: "wf_field field \<Longrightarrow> PB_GET_WTYPE ty \<le> PB_MAX_TYPE \<Longrightarrow>
    length (leb128 (unat field * 8 + unat (PB_GET_WTYPE ty))) = 1"
  by (simp add: leb128.simps wf_field_def pb_consts word_le_nat_alt)

lemma wf_scalar_type: "wf_scalar ty data len \<Longrightarrow> PB_GET_WTYPE ty = ty \<and> ty \<le> PB_MAX_TYPE"
  by (auto simp: wf_scalar_def pb_consts PB_GET_WTYPE_def)

lemma wire_scalar_enc:
  assumes "wf_scalar ty data len" and "wire_scalar ty data len \<noteq> []"
  shows "enc_msg (map (Pair (unat field)) (wire_scalar ty data len)) =
    leb128 (unat field * 8 + unat ty) @
      (if ty = PB_WT_VARINT then leb128 (unat (varint_value data len))
       else if ty = PB_WT_LD then leb128 (unat len) @ take (unat len) data
       else take (if ty = PB_WT_64 then 8 else 4) data)"
  using assms by (auto simp: wf_scalar_def wire_scalar_def pb_consts)

text \<open>One value behind its key: the value encoder is called on the rest of the buffer.\<close>

lemma pb_pack_scalar_step:
  assumes wf: "wf_field field" "wf_scalar ty data len" "wire_scalar ty data len \<noteq> []"
    and enc: "pb_encoder False ty = Some encode"
    and sz: "packed_len < sz" "sz < 2 ^ 31" "base + sz \<le> length mem"
  defines "key \<equiv> leb128 (unat field * 8 + unat ty)"
  shows "pb_pack_scalar False ty field (Pb_Bytes data) len mem base sz packed_len = do {
      (value_len, mem) \<leftarrow> encode data len (patch mem (base + packed_len) key) (base + packed_len + 1) (int (sz - packed_len - 1));
      if value_len < 0 then Some (Return value_len, mem)
      else Some (Packed (Suc packed_len + nat value_len), mem)
    }"
proof -
  have ty: "PB_GET_WTYPE ty = ty" "ty \<le> PB_MAX_TYPE" using wf wf_scalar_type by auto
  have zero: "(if ty = PB_WT_VARINT then pb_varint_is_zero ty data len else Some False) = Some False"
    using wf pb_varint_is_zero_eq [of data len] by (auto simp: wire_scalar_def split: if_splits)
  have "pb_encode_header False mem (base + packed_len) (sz - packed_len) ty (ucast field)
      = Some (1, patch mem (base + packed_len) key)"
    unfolding key_def using header_fits [of field ty "base + packed_len" mem] wf sz by (simp add: ty)
  moreover have "int32_t (size_t (int sz - int (packed_len + 1))) = int (sz - packed_len - 1)"
    using sz by (simp only: size_t_diff) (simp add: int32_t_nat)
  moreover have "size_t (int sz - int packed_len) = sz - packed_len"
    using sz by (simp add: size_t_diff)
  ultimately show ?thesis
    by (simp add: pb_pack_scalar_def enc ty zero Let_def)
qed

lemma nat_int_uint: "nat (int a + uint w) = a + unat w" "\<not> int a + uint w < 0"
proof -
  have u: "uint w = int (unat w)" by simp
  show "nat (int a + uint w) = a + unat w" "\<not> int a + uint w < 0" unfolding u by linarith+
qed

lemma pb_pack_scalar_fits:
  assumes wf: "wf_field field" "wf_scalar ty data len"
    and sz: "sz < 2 ^ 31" "base + sz \<le> length mem"
    and fits: "packed_len + length (enc_msg (map (Pair (unat field)) (wire_scalar ty data len))) < sz"
  defines "E \<equiv> enc_msg (map (Pair (unat field)) (wire_scalar ty data len))"
  shows "pb_pack_scalar False ty field (Pb_Bytes data) len mem base sz packed_len =
    Some (if wire_scalar ty data len = [] then Continue else Packed (packed_len + length E), patch mem (base + packed_len) E)"
proof (cases "wire_scalar ty data len = []")
  case True
  then have ty: "ty = PB_WT_VARINT" "varint_value data len = 0"
    using wf by (auto simp: wire_scalar_def wf_scalar_def split: if_splits)
  then show ?thesis
    using True pb_varint_is_zero_eq [of data len] wf
    by (simp add: pb_pack_scalar_def pb_encoder_def PB_GET_WTYPE_def PB_WT_VARINT_def E_def)
next
  case False
  let ?key = "leb128 (unat field * 8 + unat ty)"
  have key: "length ?key = 1" using length_key [of field ty] wf wf_scalar_type by auto
  note E = wire_scalar_enc [OF wf(2) False, of field, folded E_def]
  have p: "packed_len < sz" using fits by simp
  let ?m = "patch mem (base + packed_len) ?key" and ?v = "base + packed_len + 1"
  have m: "length ?m = length mem" using sz p by (simp add: key)
  have join: "patch ?m ?v vs = patch mem (base + packed_len) (?key @ vs)"
    if "packed_len + 1 + length vs \<le> sz" for vs
    using that sz by (intro patch_append) (simp_all add: key)
  note step = pb_pack_scalar_step [OF wf False _ p sz]
  note fits' = fits [folded E_def]
  consider (varint) "ty = PB_WT_VARINT" "8 \<le> length data" "varint_value data len \<noteq> 0"
    | (ld) "ty = PB_WT_LD" "unat len \<le> length data"
    | (fix64) "ty = PB_WT_64" "8 \<le> length data" | (fix32) "ty = PB_WT_32" "4 \<le> length data"
    using wf(2) False by (auto simp: wf_scalar_def wire_scalar_def split: if_splits)
  then show ?thesis
  proof cases
    case varint
    let ?L = "leb128 (unat (varint_value data len))"
    have "E = ?key @ ?L" by (simp add: E varint)
    moreover have "pb_pack_varint False data len ?m ?v (int (sz - packed_len - 1)) = Some (int (length ?L), patch ?m ?v ?L)"
      using calculation fits' sz varint by (intro pb_pack_varint_fits) (simp_all add: m key)
    ultimately show ?thesis
      using key fits' False varint step [of "pb_pack_varint False"] join [of ?L]
      by (simp add: pb_encoder_def pb_consts key)
  next
    case ld
    let ?L = "leb128 (unat len)" and ?d = "take (unat len) data"
    have E': "E = ?key @ ?L @ ?d" by (simp add: E ld pb_consts)
    have "pb_encode_varint False (ucast len) ?m ?v (int (sz - packed_len - 1)) = Some (int (length ?L), patch ?m ?v ?L)"
      using pb_encode_varint_fits [of "ucast len" "int (sz - packed_len - 1)" ?v ?m] E' fits' sz ld
      by (simp add: m key unsigned_ucast_eq take_bit_nat_eq_self)
    then have "pb_pack_ld False data len ?m ?v (int (sz - packed_len - 1))
        = Some (int (length (?L @ ?d)), patch ?m ?v (?L @ ?d))"
      using E' fits' sz ld by (simp add: pb_pack_ld_def m key mem_simps)
    then show ?thesis
      using key E' fits' False ld step [of "pb_pack_ld False"] join [of "?L @ ?d"]
      by (simp add: pb_encoder_def pb_consts key nat_int_uint)
  next
    case fix64
    have E': "E = ?key @ take 8 data" by (simp add: E fix64 pb_consts)
    have "\<not> size_t (int (sz - packed_len - 1)) < 8"
      using E' fits' sz fix64 by (subst size_t_nat) (simp_all add: key)
    then have "pb_pack_64bit False data ?m ?v (int (sz - packed_len - 1)) = Some (8, patch ?m ?v (take 8 data))"
      using E' fits' sz fix64 by (simp add: pb_pack_64bit_def m key size_t_nat enc_64_32 Let_def)
    then show ?thesis
      using key E' fits' False fix64 step [of "\<lambda>data len. pb_pack_64bit False data"] join [of "take 8 data"]
      by (simp add: pb_encoder_def pb_consts key)
  next
    case fix32
    have E': "E = ?key @ take 4 data" by (simp add: E fix32 pb_consts)
    have "\<not> size_t (int (sz - packed_len - 1)) < 4"
      using E' fits' sz fix32 by (subst size_t_nat) (simp_all add: key)
    then have "pb_pack_32bit False data ?m ?v (int (sz - packed_len - 1)) = Some (4, patch ?m ?v (take 4 data))"
      using E' fits' sz fix32 by (simp add: pb_pack_32bit_def m key size_t_nat enc_32 Let_def)
    then show ?thesis
      using key E' fits' False fix32 step [of "\<lambda>data len. pb_pack_32bit False data"] join [of "take 4 data"]
      by (simp add: pb_encoder_def pb_consts key)
  qed
qed


lemma wf_emb_type: "PB_GET_WTYPE PB_WT_EMB = PB_WT_LD" "IS_EMB_MSG PB_WT_EMB"
    "PB_GET_WTYPE PB_WT_LD = PB_WT_LD" "PB_WT_LD \<le> PB_MAX_TYPE" "\<not> PB_MAX_TYPE < PB_WT_LD" "pb_encoder big PB_WT_LD = Some (pb_pack_ld big)"
  by (simp_all add: pb_consts PB_GET_WTYPE_def IS_EMB_MSG_def pb_encoder_def)

lemma length_leb128_pos: "0 < length (leb128 n)"
  by simp

lemma length_leb128_ge: "128 \<le> n \<Longrightarrow> 2 \<le> length (leb128 n)"
  using length_leb128_pos [of "n div 128"] unfolding leb128.simps [of n] by (simp del: length_greater_0_conv)

lemma length_leb128_le: "n < 128 ^ k \<Longrightarrow> 0 < k \<Longrightarrow> length (leb128 n) \<le> k"
proof (induction k arbitrary: n)
  case (Suc k)
  show ?case
  proof (cases "n < 128")
    case False
    with Suc.prems have "n div 128 < 128 ^ k" and "0 < k"
      by (auto simp: less_mult_imp_div_less mult.commute intro!: gr0I)
    then show ?thesis using Suc.IH [of "n div 128"] False by (simp add: leb128.simps [of n])
  qed (simp add: leb128.simps)
qed simp

text \<open>Closing an embedded message: its bytes, written one byte after the place of their length, end up behind it.\<close>

lemma pb_put_emb_len_fits:
  assumes fits: "base + packed_len + length (leb128 (length bs)) + length bs \<le> length mem" "length bs < 2 ^ 31"
  shows "pb_put_emb_len False (patch mem (base + packed_len + 1) bs) base packed_len (length bs) =
    Some (Packed (packed_len + length (leb128 (length bs)) + length bs),
      patch mem (base + packed_len) (leb128 (length bs) @ bs))"
proof (cases "length bs > 0x7f")
  case False
  then have l: "leb128 (length bs) = [word_of_nat (length bs)]" by (simp add: leb128.simps)
  have "patch (patch mem (base + packed_len + 1) bs) (base + packed_len) [b] = patch mem (base + packed_len) (b # bs)" for b
    using fits by (simp add: l patch_def min_def)
  then show ?thesis
    using False fits by (simp add: pb_put_emb_len_def l mem_put_patch)
next
  case True
  let ?L = "leb128 (length bs)" and ?m = "patch mem (base + packed_len + 1) bs"
  have two: "2 \<le> length ?L" using True by (intro length_leb128_ge) simp
  have len8: "length ?L \<le> 8" using fits by (intro length_leb128_le) simp_all
  have u: "unat (word_of_nat (length bs) :: u64) = length bs"
    using fits by (simp add: unat_of_nat)
  have "pb_encode_varint False (word_of_nat (length bs)) (replicate 8 0) 0 8 = Some (int (length ?L), patch (replicate 8 0) 0 ?L)"
    using pb_encode_varint_fits [of "word_of_nat (length bs)" 8 0 "replicate 8 0"] len8 by (simp add: u)
  moreover have "mem_read ?m (base + packed_len + 1) (length bs) = Some bs"
    using fits two by simp
  moreover have "take (length ?L) (patch (replicate 8 0) 0 ?L) = ?L"
    by (simp add: patch_def)
  moreover have "patch (patch ?m (base + packed_len + length ?L) bs) (base + packed_len) ?L = patch mem (base + packed_len) (?L @ bs)"
    by (rule nth_equalityI) (use fits two in \<open>auto simp: nth_patch_if nth_append\<close>)
  ultimately show ?thesis
    using True fits two by (simp add: pb_put_emb_len_def)
qed


text \<open>The whole loop.\<close>

lemma pb_pack_loop_fits:
  "wf_msg message \<Longrightarrow> sz < 2 ^ 31 \<Longrightarrow> base + sz \<le> length mem \<Longrightarrow>
    packed_len + length (enc_msg (wire_msg message)) < sz \<Longrightarrow>
    pb_pack_loop False message (length message) mem base sz packed_len =
      Some (int (packed_len + length (enc_msg (wire_msg message))), patch mem (base + packed_len) (enc_msg (wire_msg message)))"
proof (induction message arbitrary: mem base sz packed_len rule: wf_msg.induct)
  case 1
  then show ?case by simp
next
  case (2 ty field dat len message)
  note rest = "2.IH"(2)
  let ?R = "enc_msg (wire_msg message)"
  have wf: "wf_msg message" and sz: "sz < 2 ^ 31" "base + sz \<le> length mem" using "2.prems" by simp_all
  have join: "patch (patch mem (base + packed_len) xs) (base + (packed_len + length xs)) ?R = patch mem (base + packed_len) (xs @ ?R)"
    if "packed_len + length xs + length ?R < sz" for xs
    using that sz by (intro patch_append) simp_all
  show ?case
  proof (cases dat)
    case Pb_Null
    moreover have "\<not> PB_MAX_TYPE < PB_GET_WTYPE ty" using "2.prems"(1) Pb_Null by (simp add: not_less)
    ultimately show ?thesis using "2.prems" rest wf by simp
  next
    case (Pb_Bytes data)
    let ?E = "enc_msg (map (Pair (unat field)) (wire_scalar ty data len))"
    have wfs: "wf_field field" "wf_scalar ty data len" using "2.prems" Pb_Bytes by simp_all
    have ty: "PB_GET_WTYPE ty = ty" "\<not> PB_MAX_TYPE < ty" using wf_scalar_type [OF wfs(2)] by auto
    obtain encode where enc: "pb_encoder False ty = Some encode" "\<not> IS_EMB_MSG ty"
      using wfs(2) by (auto simp: pb_encoder_def wf_scalar_def pb_consts IS_EMB_MSG_def)
    have fits: "packed_len + length ?E + length ?R < sz" using "2.prems" Pb_Bytes by simp
    have one: "pb_pack_scalar False ty field (Pb_Bytes data) len mem base sz packed_len =
        Some (if wire_scalar ty data len = [] then Continue else Packed (packed_len + length ?E), patch mem (base + packed_len) ?E)"
      using wfs sz fits by (intro pb_pack_scalar_fits) simp_all
    have "pb_pack_loop False message (length message) (patch mem (base + packed_len) ?E) base sz (packed_len + length ?E) =
        Some (int (packed_len + length ?E + length ?R), patch mem (base + packed_len) (?E @ ?R))"
      using rest [of sz base "patch mem (base + packed_len) ?E" "packed_len + length ?E"] wf sz fits join by simp
    moreover have "\<not> INT_MAX < int (packed_len + length ?E)" using fits sz unfolding INT_MAX_less by simp
    ultimately show ?thesis using Pb_Bytes ty enc one fits by (cases "wire_scalar ty data len = []") simp_all
  next
    case (Pb_Items items)
    let ?B = "enc_msg (wire_msg items)"
    let ?key = "leb128 (unat field * 8 + unat PB_WT_LD)" and ?L = "leb128 (length ?B)"
    let ?p = "packed_len + 1"
    have w: "wf_field field" "ty = PB_WT_EMB" "unat len = length items" "wf_msg items" using "2.prems" Pb_Items by simp_all
    have key: "length ?key = 1" using length_key [of field PB_WT_LD] w(1) by (simp add: wf_emb_type)
    have E: "enc_msg (wire_msg (Pb_Item ty field dat len # message)) = (?key @ ?L @ ?B) @ ?R"
      by (simp add: Pb_Items pb_consts)
    have fits: "packed_len + length (?key @ ?L @ ?B) + length ?R < sz" using "2.prems"(4) unfolding E by simp
    have L: "0 < length ?L" by simp
    let ?m1 = "patch mem (base + packed_len) ?key"
    have head: "pb_encode_header False mem (base + packed_len) (size_t (int sz - int packed_len)) PB_WT_LD (ucast field) = Some (1, ?m1)"
      using header_fits [of field PB_WT_LD "base + packed_len" mem] w(1) sz fits by (simp add: wf_emb_type)
    have two: "packed_len + 2 \<le> sz" using fits L key unfolding length_append by linarith
    have size: "size_t (int sz - int ?p - 1) = sz - packed_len - 2"
      using two sz size_t_diff [of "packed_len + 2" sz] by (simp add: algebra_simps)
    have room: "length ?B < sz - packed_len - 2" using fits L key unfolding length_append by linarith
    have body: "pb_pack_loop False items (unat len) ?m1 (base + ?p + 1) (size_t (int sz - int ?p - 1)) 0 =
        Some (int (length ?B), patch ?m1 (base + ?p + 1) ?B)"
      unfolding size w(3)
      using "2.IH"(1) [OF Pb_Items w(4), of "sz - packed_len - 2" "base + ?p + 1" ?m1 0] room two sz by (simp add: key)
    have close: "pb_put_emb_len False (patch ?m1 (base + ?p + 1) ?B) base ?p (length ?B) =
        Some (Packed (?p + length ?L + length ?B), patch ?m1 (base + ?p) (?L @ ?B))"
      using fits sz by (intro pb_put_emb_len_fits) (simp_all add: key)
    have merge: "patch ?m1 (base + ?p) (?L @ ?B) = patch mem (base + packed_len) (?key @ ?L @ ?B)"
      using fits sz by (intro patch_append) (simp_all add: key)
    have all: "pb_pack_loop False message (length message) (patch mem (base + packed_len) (?key @ ?L @ ?B)) base sz (packed_len + length (?key @ ?L @ ?B)) =
        Some (int (packed_len + length (?key @ ?L @ ?B) + length ?R), patch mem (base + packed_len) ((?key @ ?L @ ?B) @ ?R))"
      using rest [of sz base "patch mem (base + packed_len) (?key @ ?L @ ?B)" "packed_len + length (?key @ ?L @ ?B)"] wf sz fits
        join [of "?key @ ?L @ ?B"] by simp
    have p: "?p + length ?L + length ?B = packed_len + length (?key @ ?L @ ?B)" by (simp add: key)
    have "\<not> INT_MAX < int (packed_len + length (?key @ ?L @ ?B))" using fits sz unfolding INT_MAX_less by simp
    then show ?thesis
      using fits body close all E unfolding p merge
      by (simp add: Pb_Items w(2) wf_emb_type head Let_def)
  qed
qed


section \<open>Messages of scalars are packed without leaving the buffer\<close>

text \<open>Varints, 32-bit and 64-bit values: these encoders know the size of the buffer.\<close>

definition no_ld :: "pb_st_item \<Rightarrow> bool" where
  "no_ld item \<longleftrightarrow> (case pb_data item of Pb_Bytes _ \<Rightarrow> pb_type item \<noteq> PB_WT_LD | Pb_Null \<Rightarrow> True | Pb_Items _ \<Rightarrow> False)"

lemma pb_pack_scalar_short:
  assumes wf: "wf_field field" "wf_scalar ty data len" "ty \<noteq> PB_WT_LD"
    and sz: "packed_len < sz" "sz < 2 ^ 31" "base + sz \<le> length mem"
    and short: "sz \<le> packed_len + length (enc_msg (map (Pair (unat field)) (wire_scalar ty data len)))"
  shows "\<exists>r mem'. pb_pack_scalar False ty field (Pb_Bytes data) len mem base sz packed_len = Some (r, mem') \<and>
    length mem' = length mem \<and> (r = Return (- PB_ERR_ENCBUF) \<or> r = Packed sz)"
proof -
  let ?key = "leb128 (unat field * 8 + unat ty)" and ?v = "base + packed_len + 1"
  let ?m = "patch mem (base + packed_len) ?key"
  have ne: "wire_scalar ty data len \<noteq> []" using sz short by auto
  have key: "length ?key = 1" using length_key [of field ty] wf wf_scalar_type by auto
  have m: "length ?m = length mem" using sz by (simp add: key)
  note step = pb_pack_scalar_step [OF wf(1,2) ne _ sz]
  note short' = short [unfolded wire_scalar_enc [OF wf(2) ne, of field]]
  consider (varint) "ty = PB_WT_VARINT" "8 \<le> length data" "varint_value data len \<noteq> 0"
    | (fix64) "ty = PB_WT_64" "8 \<le> length data" | (fix32) "ty = PB_WT_32" "4 \<le> length data"
    using wf ne by (auto simp: wf_scalar_def wire_scalar_def split: if_splits)
  then show ?thesis
  proof cases
    case varint
    let ?L = "leb128 (unat (varint_value data len))"
    have "sz - packed_len - 1 \<le> length ?L" using key short' varint by simp
    then obtain mem' where "pb_pack_varint False data len ?m ?v (int (sz - packed_len - 1)) = Some (int (sz - packed_len - 1), mem')"
        "length mem' = length mem"
      using pb_pack_varint_total [of data ?v "sz - packed_len - 1" ?m len] varint(2,3) sz by (auto simp: m min_absorb2)
    moreover have "Suc packed_len + nat (int (sz - packed_len - 1)) = sz" using sz by simp
    ultimately show ?thesis
      using step [of "pb_pack_varint False"] varint by (auto simp: pb_encoder_def pb_consts)
  next
    case fix64
    have "sz - packed_len - 1 \<le> 8" using key short' fix64 by (simp add: pb_consts)
    then show ?thesis
    proof (cases "sz - packed_len - 1 = 8")
      case False
      then have "size_t (int (sz - packed_len - 1)) < 8"
        using \<open>sz - packed_len - 1 \<le> 8\<close> by (subst size_t_nat) simp_all
      then have "pb_pack_64bit False data ?m ?v (int (sz - packed_len - 1)) = Some (- PB_ERR_ENCBUF, ?m)"
        by (simp add: pb_pack_64bit_def)
      then show ?thesis using step [of "\<lambda>data len. pb_pack_64bit False data"] fix64 m by (simp add: pb_encoder_def pb_consts)
    next
      case True
      then have "\<not> size_t (int (sz - packed_len - 1)) < 8" by (simp add: size_t_def)
      then have "\<exists>mem'. pb_pack_64bit False data ?m ?v (int (sz - packed_len - 1)) = Some (8, mem') \<and> length mem' = length mem"
        using True sz fix64 m by (simp add: pb_pack_64bit_def Let_def size_t_def)
      moreover have "Suc packed_len + 8 = sz" using True sz by simp
      ultimately show ?thesis using step [of "\<lambda>data len. pb_pack_64bit False data"] fix64 by (auto simp: pb_encoder_def pb_consts)
    qed
  next
    case fix32
    have "sz - packed_len - 1 \<le> 4" using key short' fix32 by (simp add: pb_consts)
    then show ?thesis
    proof (cases "sz - packed_len - 1 = 4")
      case False
      then have "size_t (int (sz - packed_len - 1)) < 4"
        using \<open>sz - packed_len - 1 \<le> 4\<close> by (subst size_t_nat) simp_all
      then have "pb_pack_32bit False data ?m ?v (int (sz - packed_len - 1)) = Some (- PB_ERR_ENCBUF, ?m)"
        by (simp add: pb_pack_32bit_def)
      then show ?thesis using step [of "\<lambda>data len. pb_pack_32bit False data"] fix32 m by (simp add: pb_encoder_def pb_consts)
    next
      case True
      then have "\<not> size_t (int (sz - packed_len - 1)) < 4" by (simp add: size_t_def)
      then have "\<exists>mem'. pb_pack_32bit False data ?m ?v (int (sz - packed_len - 1)) = Some (4, mem') \<and> length mem' = length mem"
        using True sz fix32 m by (simp add: pb_pack_32bit_def Let_def size_t_def)
      moreover have "Suc packed_len + 4 = sz" using True sz by simp
      ultimately show ?thesis using step [of "\<lambda>data len. pb_pack_32bit False data"] fix32 by (auto simp: pb_encoder_def pb_consts)
    qed
  qed
qed

lemma pb_pack_loop_short:
  "wf_msg message \<Longrightarrow> list_all no_ld message \<Longrightarrow> packed_len < sz \<Longrightarrow> sz < 2 ^ 31 \<Longrightarrow> base + sz \<le> length mem \<Longrightarrow>
    sz \<le> packed_len + length (enc_msg (wire_msg message)) \<Longrightarrow>
    \<exists>mem'. pb_pack_loop False message (length message) mem base sz packed_len = Some (- PB_ERR_ENCBUF, mem')"
proof (induction message arbitrary: mem packed_len rule: wf_msg.induct)
  case (2 ty field dat len message)
  show ?case
  proof (cases dat)
    case Pb_Null
    moreover have "\<not> PB_MAX_TYPE < PB_GET_WTYPE ty" using "2.prems"(1) Pb_Null by (simp add: not_less)
    ultimately show ?thesis using "2.prems" "2.IH"(2) [of packed_len mem] by simp
  next
    case (Pb_Bytes data)
    let ?E = "enc_msg (map (Pair (unat field)) (wire_scalar ty data len))"
    have wfs: "wf_field field" "wf_scalar ty data len" "ty \<noteq> PB_WT_LD" using "2.prems" Pb_Bytes by (simp_all add: no_ld_def)
    have ty: "PB_GET_WTYPE ty = ty" "\<not> PB_MAX_TYPE < ty" using wf_scalar_type [OF wfs(2)] by auto
    obtain encode where enc: "pb_encoder False ty = Some encode" "\<not> IS_EMB_MSG ty"
      using wfs(2) by (auto simp: pb_encoder_def wf_scalar_def pb_consts IS_EMB_MSG_def)
    have INT: "\<not> INT_MAX < int p" if "p \<le> sz" for p using INT_MAX_less [of p] that "2.prems" by simp
    show ?thesis
    proof (cases "packed_len + length ?E < sz")
      case True
      have "pb_pack_scalar False ty field (Pb_Bytes data) len mem base sz packed_len =
          Some (if wire_scalar ty data len = [] then Continue else Packed (packed_len + length ?E), patch mem (base + packed_len) ?E)"
        using wfs "2.prems" True by (intro pb_pack_scalar_fits) simp_all
      moreover have "\<exists>mem'. pb_pack_loop False message (length message) (patch mem (base + packed_len) ?E) base sz (packed_len + length ?E) =
          Some (- PB_ERR_ENCBUF, mem')"
        using "2.IH"(2) [of "packed_len + length ?E" "patch mem (base + packed_len) ?E"] "2.prems" Pb_Bytes True by simp
      ultimately show ?thesis
        using True Pb_Bytes ty enc INT [of "packed_len + length ?E"] by (cases "wire_scalar ty data len = []") auto
    next
      case False
      then obtain r mem' where "pb_pack_scalar False ty field (Pb_Bytes data) len mem base sz packed_len = Some (r, mem')"
          "r = Return (- PB_ERR_ENCBUF) \<or> r = Packed sz"
        using pb_pack_scalar_short [OF wfs "2.prems"(3-5)] by auto
      then show ?thesis using Pb_Bytes ty enc INT [of sz] by auto
    qed
  next
    case (Pb_Items items)
    then show ?thesis using "2.prems" by (simp add: no_ld_def)
  qed
qed simp


section \<open>Properties\<close>

text \<open>C26: On a little-endian host, for every well-formed message (embedded messages nested to any depth) whose
  encoding is shorter than the stated buffer, \<open>pb_pack\<close> writes exactly the protocol-buffer encoding of the message
  and nothing else, and returns its length.\<close>

theorem pb_pack_result:
  assumes "wf_msg message" and "len = length message" and "sz < 2 ^ 31" and "base + sz \<le> length mem"
    and "length (enc_msg (wire_msg message)) < sz"
  shows "pb_pack False message len mem base sz =
    Some (int (length (enc_msg (wire_msg message))), patch mem base (enc_msg (wire_msg message)))"
  using assms pb_pack_loop_fits [of message sz base mem 0] by (simp add: pb_pack_def)

theorem pb_pack_result_witness:
  "pb_pack False [Pb_Item 0 1 (Pb_Bytes [0x2C, 1, 0, 0, 0, 0, 0, 0]) 8, Pb_Item 0x82 10 (Pb_Items [Pb_Item 2 1 (Pb_Bytes [65, 66]) 2]) 1]
     2 (replicate 12 0) 0 12 = Some (9, [8, 0xAC, 2, 0x52, 4, 0x0A, 2, 65, 66, 0, 0, 0])"
proof -
  let ?m = "[Pb_Item 0 1 (Pb_Bytes [0x2C, 1, 0, 0, 0, 0, 0, 0]) 8, Pb_Item 0x82 10 (Pb_Items [Pb_Item 2 1 (Pb_Bytes [65, 66]) 2]) 1]"
  have v: "varint_value [0x2C, 1, 0, 0, 0, 0, 0, 0] 8 = 300" by (simp add: varint_value_def)
  have e: "enc_msg (wire_msg ?m) = [8, 0xAC, 2, 0x52, 4, 0x0A, 2, 65, 66]"
    by (simp add: wire_scalar_def pb_consts v leb128.simps)
  have w: "wf_msg ?m" by (simp add: wf_scalar_def wf_field_def pb_consts)
  show ?thesis
    using pb_pack_result [of ?m 2 12 0 "replicate 12 0"] w unfolding e by (simp add: patch_def numeral_3_eq_3)
qed

text \<open>
  On a big-endian host the conversion swaps the bytes of a number that the union has already put together: the number 1 is packed as \<open>2 ^ 56\<close>.
\<close>

lemma pb_pack_big_endian:
  "pb_pack True [Pb_Item 0 1 (Pb_Bytes [0, 0, 0, 0, 0, 0, 0, 1]) 8] 1 (replicate 12 0) 0 12 = Some (10, [8, 128, 128, 128, 128, 128, 128, 128, 128, 1, 0, 0])"
  by code_simp

text \<open>For well-formed messages of varints and 32-bit and 64-bit values, \<open>pb_pack\<close> never leaves its buffer
  whatever the size of the buffer is: it either succeeds with the encoding, which it does exactly when the encoding
  is shorter than the buffer, or it returns the buffer error.\<close>

theorem pb_pack_scalars_total:
  assumes "wf_msg message" and "list_all no_ld message" and "0 < sz" and "sz < 2 ^ 31" and "base + sz \<le> length mem"
  shows "\<exists>r mem'. pb_pack False message (length message) mem base sz = Some (r, mem') \<and>
    (if length (enc_msg (wire_msg message)) < sz
     then r = int (length (enc_msg (wire_msg message))) \<and> mem' = patch mem base (enc_msg (wire_msg message))
     else r = - PB_ERR_ENCBUF)"
proof (cases "length (enc_msg (wire_msg message)) < sz")
  case True
  then show ?thesis using assms pb_pack_loop_fits [of message sz base mem 0] by (simp add: pb_pack_def)
next
  case False
  then show ?thesis using assms pb_pack_loop_short [of message 0 sz base mem] by (auto simp: pb_pack_def)
qed

theorem pb_pack_scalars_total_witness:
  "\<exists>mem'. pb_pack False [Pb_Item 5 1 (Pb_Bytes [1, 2, 3, 4]) 0] 1 (replicate 5 0) 0 5 = Some (- 4, mem')"
proof -
  let ?m = "[Pb_Item 5 1 (Pb_Bytes [1, 2, 3, 4]) 0]"
  have e: "enc_msg (wire_msg ?m) = [13, 1, 2, 3, 4]"
    by (simp add: wire_scalar_def pb_consts leb128.simps)
  have w: "wf_msg ?m" "list_all no_ld ?m" by (simp_all add: wf_scalar_def wf_field_def pb_consts no_ld_def)
  show ?thesis
    using pb_pack_scalars_total [of ?m 5 0 "replicate 5 0"] w unfolding e by (simp add: PB_ERR_ENCBUF_def)
qed

text \<open>A length-delimited value that does not fit is not reported as the buffer error: \<open>pb_pack\<close> copies it
  past the end of the buffer.\<close>

theorem pb_pack_ld_overflow:
  assumes "wf_field field" and "unat len \<le> length data" and "unat len < 128" and "length mem = base + sz"
    and "2 \<le> sz" and "sz < 2 + unat len" and "sz < 2 ^ 31"
  shows "pb_pack False [Pb_Item PB_WT_LD field (Pb_Bytes data) len] 1 mem base sz = None"
proof -
  let ?key = "leb128 (unat field * 8 + unat PB_WT_LD)" and ?L = "leb128 (unat len)"
  let ?m = "patch mem base ?key"
  have key: "length ?key = 1" using length_key [of field PB_WT_LD] assms(1) by (simp add: wf_emb_type)
  have l: "length ?L = 1" using assms by (simp add: leb128.simps)
  have w: "wf_scalar PB_WT_LD data len" "wire_scalar PB_WT_LD data len \<noteq> []"
    using assms by (simp_all add: wf_scalar_def wire_scalar_def pb_consts)
  have "pb_encode_varint False (ucast len) ?m (base + 1) (int (sz - 1)) = Some (1, patch ?m (base + 1) ?L)"
    using pb_encode_varint_fits [of "ucast len" "int (sz - 1)" "base + 1" ?m] assms l
    by (simp add: key unsigned_ucast_eq take_bit_nat_eq_self)
  then have "pb_pack_ld False data len ?m (base + 1) (int (sz - 1)) = None"
    using assms by (simp add: pb_pack_ld_def key l)
  then have "pb_pack_scalar False PB_WT_LD field (Pb_Bytes data) len mem base sz 0 = None"
    using pb_pack_scalar_step [OF assms(1) w, of "pb_pack_ld False" 0 sz base mem] assms by (simp add: wf_emb_type)
  then show ?thesis
    using assms by (simp add: pb_pack_def wf_emb_type) (simp add: pb_consts IS_EMB_MSG_def)
qed

theorem pb_pack_ld_overflow_witness:
  "pb_pack False [Pb_Item PB_WT_LD 1 (Pb_Bytes [1, 2, 3]) 3] 1 [0, 0, 0, 0] 0 4 = None"
  by (rule pb_pack_ld_overflow) (simp_all add: wf_field_def)

text \<open>A field number above 15, which needs a header of two bytes, makes the header encoder read eight bytes of
  its four-byte variable, on every host.\<close>

theorem pb_pack_field_16:
  assumes "16 \<le> unat field" and "unat len \<le> length data"
  shows "pb_pack big [Pb_Item PB_WT_LD field (Pb_Bytes data) len] 1 mem base sz = None"
proof -
  let ?h = "PB_SET_HEADER (ucast field) PB_WT_LD"
  have "\<not> ?h < 0x7f" using header_value [of field PB_WT_LD] assms by (simp add: word_less_nat_alt)
  moreover have "(ucast field :: u32) \<noteq> 0" "\<not> 0x1fffffff < (ucast field :: u32)" "\<not> 19000 \<le> (ucast field :: u32)"
    using assms unsigned_less [of field, where ?'a = nat]
    by (auto simp: word_le_nat_alt word_less_nat_alt unsigned_ucast_eq word_unat_eq_iff take_bit_nat_eq_self)
  ultimately have "pb_encode_header big mem off sz PB_WT_LD (ucast field) = None" for mem off sz
    by (simp add: pb_encode_header_def Let_def pb_pack_varint_def)
  then have "pb_pack_scalar big PB_WT_LD field (Pb_Bytes data) len mem base sz 0 = None"
    by (simp add: pb_pack_scalar_def wf_emb_type) (simp add: pb_consts)
  then show ?thesis
    by (simp add: pb_pack_def wf_emb_type) (simp add: pb_consts IS_EMB_MSG_def)
qed

theorem pb_pack_field_16_witness:
  "pb_pack True [Pb_Item PB_WT_LD 16 (Pb_Bytes [1]) 1] 1 (replicate 100 0) 0 100 = None"
  by (rule pb_pack_field_16) simp_all

end
