(* ===== verification/Pb_Proto.thy ===== *)
theory Pb_Proto
  imports Pb_Pack Signer_Hex
begin

text \<open>
  \<open>src/pb_proto.c\<close>: the bytes of a signed action. The two operations of the signer are arguments:
  \<open>get_public_key key\<close> gives the public key object, \<open>get_signature data key\<close> the value returned and the
  signature object (\<open>None\<close> where they are undefined). \<open>Signer\<close> has their definitions.
\<close>

section \<open>Data\<close>

text \<open>A string is the text before its NUL; a pointer to a \<open>uint64_t\<close> is the value it points to.\<close>

record iotex_st_act_core =
  version :: "u64 ptr"
  nonce :: "u64 ptr"
  gasLimit :: "u64 ptr"
  gasPrice :: "string ptr"
  chainID :: "u64 ptr"
  privateKey :: "string ptr"

record iotex_st_transfer =
  tx_amount :: "string ptr"
  tx_recipient :: "string ptr"
  tx_payload :: "byte list ptr"
  tx_payloadLength :: nat
  tx_core :: iotex_st_act_core

record iotex_st_execution =
  ex_amount :: "string ptr"
  ex_contract :: "string ptr"
  ex_data :: "byte list ptr"
  ex_dataLength :: nat
  ex_core :: iotex_st_act_core

definition SIG_PRIVATE_KEY_SIZE :: nat where "SIG_PRIVATE_KEY_SIZE = 32"
definition SIG_PUBLIC_KEY_SIZE :: nat where "SIG_PUBLIC_KEY_SIZE = 65"
definition SIG_SIGNATURE_SIZE :: nat where "SIG_SIGNATURE_SIZE = 65"

lemmas sig_sizes = SIG_PRIVATE_KEY_SIZE_def SIG_PUBLIC_KEY_SIZE_def SIG_SIGNATURE_SIZE_def

definition TX_AMOUNT :: byte where "TX_AMOUNT = 1"
definition TX_RECIPIENT :: byte where "TX_RECIPIENT = 2"
definition TX_PAYLOAD :: byte where "TX_PAYLOAD = 3"
definition EX_AMOUNT :: byte where "EX_AMOUNT = 1"
definition EX_CONTRACT :: byte where "EX_CONTRACT = 2"
definition EX_DATA :: byte where "EX_DATA = 3"
definition AC_VERSION :: byte where "AC_VERSION = 1"
definition AC_NONCE :: byte where "AC_NONCE = 2"
definition AC_GAS_LIMIT :: byte where "AC_GAS_LIMIT = 3"
definition AC_GAS_PRICE :: byte where "AC_GAS_PRICE = 4"
definition AC_CHAIN_ID :: byte where "AC_CHAIN_ID = 5"
definition ACTION_CORE :: byte where "ACTION_CORE = 1"
definition ACTION_SND_PUBKEY :: byte where "ACTION_SND_PUBKEY = 2"
definition ACTION_SIGNATURE :: byte where "ACTION_SIGNATURE = 3"
definition ACT_TRANSFER :: byte where "ACT_TRANSFER = 10"
definition ACT_EXECUTION :: byte where "ACT_EXECUTION = 12"

lemmas proto_consts = TX_AMOUNT_def TX_RECIPIENT_def TX_PAYLOAD_def EX_AMOUNT_def EX_CONTRACT_def
  EX_DATA_def AC_VERSION_def AC_NONCE_def AC_GAS_LIMIT_def AC_GAS_PRICE_def AC_CHAIN_ID_def
  ACTION_CORE_def ACTION_SND_PUBKEY_def ACTION_SIGNATURE_def ACT_TRANSFER_def ACT_EXECUTION_def

section \<open>Items\<close>

text \<open>What an item points to; an item without a length in the initialiser has length 0.\<close>

definition u64_data :: "bool \<Rightarrow> u64 ptr \<Rightarrow> pb_data" where
  "u64_data big p = (case p of Null \<Rightarrow> Pb_Null | Ptr v \<Rightarrow> Pb_Bytes (host_bytes big 8 v))"

definition str_bytes :: "string \<Rightarrow> byte list" where
  "str_bytes s = map byte_of_char s"

definition str_data :: "string ptr \<Rightarrow> pb_data" where
  "str_data p = (case p of Null \<Rightarrow> Pb_Null | Ptr s \<Rightarrow> Pb_Bytes (str_bytes s @ [0]))"

definition bytes_data :: "byte list ptr \<Rightarrow> pb_data" where
  "bytes_data p = (case p of Null \<Rightarrow> Pb_Null | Ptr bs \<Rightarrow> Pb_Bytes bs)"

definition SAFE_STRLEN :: "string ptr \<Rightarrow> nat" where
  "SAFE_STRLEN p = (case p of Null \<Rightarrow> 0 | Ptr s \<Rightarrow> length s)"

text \<open>The \<open>length\<close> of an item is a \<open>uint8_t\<close>: a longer length is truncated by \<open>word_of_nat\<close>.\<close>

definition act_core_items ::
  "bool \<Rightarrow> iotex_st_act_core \<Rightarrow> byte \<Rightarrow> pb_st_item list \<Rightarrow> nat \<Rightarrow> pb_st_item list" where
  "act_core_items big core action_id action action_sz =
     [Pb_Item PB_WT_VARINT AC_VERSION (u64_data big (version core)) 0,
      Pb_Item PB_WT_VARINT AC_NONCE (u64_data big (nonce core)) 0,
      Pb_Item PB_WT_VARINT AC_GAS_LIMIT (u64_data big (gasLimit core)) 0,
      Pb_Item PB_WT_LD AC_GAS_PRICE (str_data (gasPrice core)) (word_of_nat (SAFE_STRLEN (gasPrice core))),
      Pb_Item PB_WT_VARINT AC_CHAIN_ID (u64_data big (chainID core)) 0,
      Pb_Item PB_WT_EMB action_id (Pb_Items action) (word_of_nat action_sz)]"

definition tx_action_items :: "pb_st_item list \<Rightarrow> byte list \<Rightarrow> byte list \<Rightarrow> pb_st_item list" where
  "tx_action_items act_core public_key_bytes action_signature =
     [Pb_Item PB_WT_EMB ACTION_CORE (Pb_Items act_core) (word_of_nat (length act_core)),
      Pb_Item PB_WT_LD ACTION_SND_PUBKEY (Pb_Bytes public_key_bytes) (word_of_nat SIG_PUBLIC_KEY_SIZE),
      Pb_Item PB_WT_LD ACTION_SIGNATURE (Pb_Bytes action_signature) (word_of_nat SIG_SIGNATURE_SIZE)]"

section \<open>Actions\<close>

definition proto_gen_action ::
  "(byte list \<Rightarrow> byte list option) \<Rightarrow> (byte list \<Rightarrow> byte list \<Rightarrow> (int \<times> byte list) option) \<Rightarrow> bool \<Rightarrow>
   iotex_st_act_core \<Rightarrow> byte \<Rightarrow> pb_st_item list \<Rightarrow> nat \<Rightarrow> byte list \<Rightarrow> nat \<Rightarrow> (int \<times> byte list) option" where
  "proto_gen_action get_public_key get_signature big core action_id action action_sz action_bytes max_sz =
     (case privateKey core of
        Null \<Rightarrow> None
      | Ptr key \<Rightarrow> do {
          (n, private_key_bytes) \<leftarrow> signer_str2hex key (replicate SIG_PRIVATE_KEY_SIZE 0) SIG_PRIVATE_KEY_SIZE;
          if n \<noteq> int SIG_PRIVATE_KEY_SIZE then Some (-1, action_bytes)
          else do {
            public_key_bytes \<leftarrow> get_public_key private_key_bytes;
            let act_core = act_core_items big core action_id action action_sz;
            (pb_len, action_bytes) \<leftarrow> pb_pack big act_core (length act_core) action_bytes 0 max_sz;
            if pb_len < 0 then Some (pb_len, action_bytes)
            else do {
              packed \<leftarrow> mem_read action_bytes 0 (nat pb_len);
              (r, action_signature) \<leftarrow> get_signature packed private_key_bytes;
              if r \<noteq> 0 then Some (-1, action_bytes)
              else let tx_action = tx_action_items act_core public_key_bytes action_signature in
                pb_pack big tx_action (length tx_action) action_bytes 0 max_sz
            }
          }
        })"

definition tx_items :: "iotex_st_transfer \<Rightarrow> pb_st_item list" where
  "tx_items tx =
     [Pb_Item PB_WT_LD TX_AMOUNT (str_data (tx_amount tx)) (word_of_nat (SAFE_STRLEN (tx_amount tx))),
      Pb_Item PB_WT_LD TX_RECIPIENT (str_data (tx_recipient tx)) (word_of_nat (SAFE_STRLEN (tx_recipient tx))),
      Pb_Item PB_WT_LD TX_PAYLOAD (bytes_data (tx_payload tx)) (word_of_nat (tx_payloadLength tx))]"

definition ex_items :: "iotex_st_execution \<Rightarrow> pb_st_item list" where
  "ex_items ex =
     [Pb_Item PB_WT_LD EX_AMOUNT (str_data (ex_amount ex)) (word_of_nat (SAFE_STRLEN (ex_amount ex))),
      Pb_Item PB_WT_LD EX_CONTRACT (str_data (ex_contract ex)) (word_of_nat (SAFE_STRLEN (ex_contract ex))),
      Pb_Item PB_WT_LD EX_DATA (bytes_data (ex_data ex)) (word_of_nat (ex_dataLength ex))]"

definition proto_gen_tx_action ::
  "(byte list \<Rightarrow> byte list option) \<Rightarrow> (byte list \<Rightarrow> byte list \<Rightarrow> (int \<times> byte list) option) \<Rightarrow> bool \<Rightarrow>
   iotex_st_transfer \<Rightarrow> byte list \<Rightarrow> nat \<Rightarrow> (int \<times> byte list) option" where
  "proto_gen_tx_action get_public_key get_signature big tx action_bytes max_sz =
     proto_gen_action get_public_key get_signature big (tx_core tx) ACT_TRANSFER
       (tx_items tx) (length (tx_items tx)) action_bytes max_sz"

definition proto_gen_ex_action ::
  "(byte list \<Rightarrow> byte list option) \<Rightarrow> (byte list \<Rightarrow> byte list \<Rightarrow> (int \<times> byte list) option) \<Rightarrow> bool \<Rightarrow>
   iotex_st_execution \<Rightarrow> byte list \<Rightarrow> nat \<Rightarrow> (int \<times> byte list) option" where
  "proto_gen_ex_action get_public_key get_signature big ex action_bytes max_sz =
     proto_gen_action get_public_key get_signature big (ex_core ex) ACT_EXECUTION
       (ex_items ex) (length (ex_items ex)) action_bytes max_sz"

section \<open>Specification: the action messages\<close>

definition opt_varint :: "nat \<Rightarrow> u64 ptr \<Rightarrow> (nat \<times> wire) list" where
  "opt_varint f p = (case p of Null \<Rightarrow> [] | Ptr v \<Rightarrow> if v = 0 then [] else [(f, W_Varint (unat v))])"

definition opt_str :: "nat \<Rightarrow> string ptr \<Rightarrow> (nat \<times> wire) list" where
  "opt_str f p = (case p of Null \<Rightarrow> [] | Ptr s \<Rightarrow> [(f, W_Len (str_bytes s))])"

definition opt_bytes :: "nat \<Rightarrow> byte list ptr \<Rightarrow> nat \<Rightarrow> (nat \<times> wire) list" where
  "opt_bytes f p n = (case p of Null \<Rightarrow> [] | Ptr bs \<Rightarrow> [(f, W_Len (take n bs))])"

definition core_msg :: "iotex_st_act_core \<Rightarrow> nat \<Rightarrow> (nat \<times> wire) list \<Rightarrow> (nat \<times> wire) list" where
  "core_msg core action_id action =
     opt_varint 1 (version core) @ opt_varint 2 (nonce core) @ opt_varint 3 (gasLimit core)
     @ opt_str 4 (gasPrice core) @ opt_varint 5 (chainID core) @ [(action_id, W_Len (enc_msg action))]"

definition action_msg :: "byte list \<Rightarrow> byte list \<Rightarrow> byte list \<Rightarrow> (nat \<times> wire) list" where
  "action_msg core pubkey signature = [(1, W_Len core), (2, W_Len pubkey), (3, W_Len signature)]"

definition tx_msg :: "iotex_st_transfer \<Rightarrow> (nat \<times> wire) list" where
  "tx_msg tx = opt_str 1 (tx_amount tx) @ opt_str 2 (tx_recipient tx) @ opt_bytes 3 (tx_payload tx) (tx_payloadLength tx)"

definition ex_msg :: "iotex_st_execution \<Rightarrow> (nat \<times> wire) list" where
  "ex_msg ex = opt_str 1 (ex_amount ex) @ opt_str 2 (ex_contract ex) @ opt_bytes 3 (ex_data ex) (ex_dataLength ex)"

text \<open>Fields whose length fits the eight bits of an item and whose object has that length.\<close>

definition short_str :: "string ptr \<Rightarrow> bool" where
  "short_str p \<longleftrightarrow> (case p of Null \<Rightarrow> True | Ptr s \<Rightarrow> length s < 256)"

definition short_bytes :: "byte list ptr \<Rightarrow> nat \<Rightarrow> bool" where
  "short_bytes p n \<longleftrightarrow> (case p of Null \<Rightarrow> True | Ptr bs \<Rightarrow> n < 256 \<and> n \<le> length bs)"


section \<open>The items mean the action messages\<close>

lemma varint_value_u64: "varint_value (host_bytes False 8 v) 0 = v"
  by (simp add: varint_value_def host_bytes_def swap64.of_le_bytes_self)

lemma wire_u64:
  "(case u64_data False p of Pb_Null \<Rightarrow> [] | Pb_Bytes data \<Rightarrow> map (Pair f) (wire_scalar PB_WT_VARINT data 0)
     | Pb_Items items \<Rightarrow> g items) = opt_varint f p"
  by (simp add: u64_data_def opt_varint_def wire_scalar_def varint_value_u64 split: ptr.splits)

lemma unat_length: "n < 256 \<Longrightarrow> unat (word_of_nat n :: byte) = n"
  by (simp add: unat_of_nat)

lemma wire_str:
  "short_str p \<Longrightarrow>
    (case str_data p of Pb_Null \<Rightarrow> [] | Pb_Bytes data \<Rightarrow> map (Pair f) (wire_scalar PB_WT_LD data (word_of_nat (SAFE_STRLEN p)))
     | Pb_Items items \<Rightarrow> g items) = opt_str f p"
  by (auto simp: str_data_def opt_str_def wire_scalar_def pb_consts SAFE_STRLEN_def short_str_def str_bytes_def
      unat_length split: ptr.splits)

lemma wire_bytes_data:
  "short_bytes p n \<Longrightarrow>
    (case bytes_data p of Pb_Null \<Rightarrow> [] | Pb_Bytes data \<Rightarrow> map (Pair f) (wire_scalar PB_WT_LD data (word_of_nat n))
     | Pb_Items items \<Rightarrow> g items) = opt_bytes f p n"
  by (auto simp: bytes_data_def opt_bytes_def wire_scalar_def pb_consts short_bytes_def unat_length split: ptr.splits)

lemma wf_u64:
  "(case u64_data False p of Pb_Null \<Rightarrow> PB_GET_WTYPE PB_WT_VARINT \<le> PB_MAX_TYPE
     | Pb_Bytes data \<Rightarrow> wf_field f \<and> wf_scalar PB_WT_VARINT data 0 | Pb_Items items \<Rightarrow> g items)" if "wf_field f"
  using that by (auto simp: u64_data_def wf_scalar_def pb_consts PB_GET_WTYPE_def split: ptr.splits)

lemma wf_str:
  "(case str_data p of Pb_Null \<Rightarrow> PB_GET_WTYPE PB_WT_LD \<le> PB_MAX_TYPE
     | Pb_Bytes data \<Rightarrow> wf_field f \<and> wf_scalar PB_WT_LD data (word_of_nat (SAFE_STRLEN p)) | Pb_Items items \<Rightarrow> g items)"
  if "wf_field f" "short_str p"
  using that by (auto simp: str_data_def wf_scalar_def pb_consts PB_GET_WTYPE_def SAFE_STRLEN_def short_str_def
      str_bytes_def unat_length split: ptr.splits)

lemma wf_bytes:
  "(case bytes_data p of Pb_Null \<Rightarrow> PB_GET_WTYPE PB_WT_LD \<le> PB_MAX_TYPE
     | Pb_Bytes data \<Rightarrow> wf_field f \<and> wf_scalar PB_WT_LD data (word_of_nat n) | Pb_Items items \<Rightarrow> g items)"
  if "wf_field f" "short_bytes p n"
  using that by (auto simp: bytes_data_def wf_scalar_def pb_consts PB_GET_WTYPE_def short_bytes_def unat_length
      split: ptr.splits)

lemmas item_rules = wire_u64 wire_str wire_bytes_data wf_u64 wf_str wf_bytes

definition short_tx :: "iotex_st_transfer \<Rightarrow> bool" where
  "short_tx tx \<longleftrightarrow> short_str (tx_amount tx) \<and> short_str (tx_recipient tx) \<and> short_bytes (tx_payload tx) (tx_payloadLength tx)
     \<and> short_str (gasPrice (tx_core tx))"

definition short_ex :: "iotex_st_execution \<Rightarrow> bool" where
  "short_ex ex \<longleftrightarrow> short_str (ex_amount ex) \<and> short_str (ex_contract ex) \<and> short_bytes (ex_data ex) (ex_dataLength ex)
     \<and> short_str (gasPrice (ex_core ex))"

lemma tx_items_wire: "short_tx tx \<Longrightarrow> wf_msg (tx_items tx) \<and> wire_msg (tx_items tx) = tx_msg tx"
  by (simp add: short_tx_def tx_items_def tx_msg_def item_rules proto_consts wf_field_def)

lemma ex_items_wire: "short_ex ex \<Longrightarrow> wf_msg (ex_items ex) \<and> wire_msg (ex_items ex) = ex_msg ex"
  by (simp add: short_ex_def ex_items_def ex_msg_def item_rules proto_consts wf_field_def)

lemma act_core_items_wire:
  "wf_msg action \<Longrightarrow> length action < 256 \<Longrightarrow> wf_field action_id \<Longrightarrow> short_str (gasPrice core) \<Longrightarrow>
    wf_msg (act_core_items False core action_id action (length action)) \<and>
    wire_msg (act_core_items False core action_id action (length action)) = core_msg core (unat action_id) (wire_msg action)"
  by (simp add: act_core_items_def core_msg_def item_rules proto_consts wf_field_def unat_length)

lemma tx_action_items_wire:
  "wf_msg act_core \<Longrightarrow> length act_core < 256 \<Longrightarrow> length pk = 65 \<Longrightarrow> length sig = 65 \<Longrightarrow>
    wf_msg (tx_action_items act_core pk sig) \<and>
    wire_msg (tx_action_items act_core pk sig) = action_msg (enc_msg (wire_msg act_core)) pk sig"
  by (simp add: tx_action_items_def action_msg_def proto_consts wf_field_def unat_length sig_sizes)
    (simp add: pb_consts wf_scalar_def wire_scalar_def)


lemma key_decodes:
  assumes "hex_decode (drop (skip_0x key) key) = Some kb" "length kb = 32" "length key \<le> 64"
  shows "signer_str2hex key (replicate SIG_PRIVATE_KEY_SIZE 0) SIG_PRIVATE_KEY_SIZE = Some (int SIG_PRIVATE_KEY_SIZE, kb)"
  using assms signer_str2hex_cases [of 32 "replicate 32 0" key]
  by (auto simp: sig_sizes patch_def)

lemma proto_gen_action_fits:
  assumes key: "privateKey core = Ptr key" "hex_decode (drop (skip_0x key) key) = Some kb" "length kb = 32" "length key \<le> 64"
    and action: "wf_msg action" "length action < 256" "wf_field action_id" "short_str (gasPrice core)"
    and packed: "packed = enc_msg (core_msg core (unat action_id) (wire_msg action))"
    and signer: "get_public_key kb = Some pk" "length pk = 65" "get_signature packed kb = Some (0, sig)" "length sig = 65"
    and room: "length (enc_msg (action_msg packed pk sig)) < max_sz" "max_sz \<le> length buf" "max_sz < 2 ^ 31"
  shows "proto_gen_action get_public_key get_signature False core action_id action (length action) buf max_sz =
    Some (int (length (enc_msg (action_msg packed pk sig))), patch buf 0 (enc_msg (action_msg packed pk sig)))"
proof -
  let ?core = "act_core_items False core action_id action (length action)"
  have c: "wf_msg ?core" "wire_msg ?core = core_msg core (unat action_id) (wire_msg action)"
    using act_core_items_wire action by auto
  have lc: "length ?core < 256" by (simp add: act_core_items_def)
  have t: "wf_msg (tx_action_items ?core pk sig)" "wire_msg (tx_action_items ?core pk sig) = action_msg packed pk sig"
    using tx_action_items_wire [OF c(1) lc signer(2,4)] c(2) packed by auto
  have shorter: "length packed < length (enc_msg (action_msg packed pk sig))"
    by (simp add: action_msg_def)
  have "pb_pack False ?core (length ?core) buf 0 max_sz = Some (int (length packed), patch buf 0 packed)"
    unfolding pb_pack_def using pb_pack_loop_fits [OF c(1), of max_sz 0 buf 0] room shorter by (simp add: c(2) packed)
  moreover have "pb_pack False (tx_action_items ?core pk sig) (length (tx_action_items ?core pk sig)) (patch buf 0 packed) 0 max_sz =
      Some (int (length (enc_msg (action_msg packed pk sig))), patch buf 0 (enc_msg (action_msg packed pk sig)))"
    unfolding pb_pack_def using pb_pack_loop_fits [OF t(1), of max_sz 0 "patch buf 0 packed" 0] room shorter
      patch_overwrite [of 0 "enc_msg (action_msg packed pk sig)" buf packed] by (simp add: t(2))
  moreover have "mem_read (patch buf 0 packed) 0 (length packed) = Some packed"
    using room shorter by simp
  ultimately show ?thesis
    using key(1) signer room by (simp add: proto_gen_action_def key_decodes [OF key(2-4)] Let_def)
qed

section \<open>Properties\<close>

text \<open>C13: On a little-endian host, for a private key text of at most 64 characters that denotes 32 bytes, and with callbacks that give a public key and a signature of
  65 bytes each: a transfer whose strings and payload are shorter than 256 bytes, and whose action message is shorter than the stated size of the buffer, is turned
  into the encoding of that message: the action core with the transfer inside it, the public key of the account, and the
  signature of exactly the encoded core. Its length is returned, and the buffer beyond it is unchanged.\<close>

theorem proto_gen_tx_action_result:
  assumes "privateKey (tx_core tx) = Ptr key" "hex_decode (drop (skip_0x key) key) = Some kb" "length kb = 32" "length key \<le> 64"
    and "short_tx tx"
    and "packed = enc_msg (core_msg (tx_core tx) 10 (tx_msg tx))"
    and "get_public_key kb = Some pk" "length pk = 65" "get_signature packed kb = Some (0, sig)" "length sig = 65"
    and "length (enc_msg (action_msg packed pk sig)) < max_sz" "max_sz \<le> length buf" "max_sz < 2 ^ 31"
  shows "proto_gen_tx_action get_public_key get_signature False tx buf max_sz =
    Some (int (length (enc_msg (action_msg packed pk sig))), patch buf 0 (enc_msg (action_msg packed pk sig)))"
  unfolding proto_gen_tx_action_def
  using assms tx_items_wire [of tx]
  by (intro proto_gen_action_fits [where key = key and kb = kb])
    (auto simp: tx_items_def wf_field_def ACT_TRANSFER_def short_tx_def)

definition sample_core :: iotex_st_act_core where
  "sample_core = \<lparr> version = Ptr 1, nonce = Ptr 0, gasLimit = Null, gasPrice = Null, chainID = Null,
     privateKey = Ptr (replicate 64 CHR ''1'') \<rparr>"

definition sample_tx :: iotex_st_transfer where
  "sample_tx = \<lparr> tx_amount = Ptr ''5'', tx_recipient = Null, tx_payload = Null, tx_payloadLength = 0, tx_core = sample_core \<rparr>"

theorem proto_gen_tx_action_result_witness:
  "proto_gen_tx_action (\<lambda>_. Some (replicate 65 4)) (\<lambda>_ _. Some (0, replicate 65 7)) False sample_tx (replicate 200 0) 200 =
    Some (143, [10, 7, 8, 1, 82, 3, 10, 1, 53] @ [18, 65] @ replicate 65 4 @ [26, 65] @ replicate 65 7 @ replicate 57 0)"
proof -
  let ?p = "[8, 1, 82, 3, 10, 1, 53] :: byte list"
  have p: "enc_msg (core_msg (tx_core sample_tx) 10 (tx_msg sample_tx)) = ?p"
    by (simp add: sample_tx_def sample_core_def core_msg_def tx_msg_def opt_varint_def opt_str_def opt_bytes_def
        str_bytes_def byte_of_char_def leb128.simps)
  have a: "enc_msg (action_msg ?p (replicate 65 4) (replicate 65 7)) =
      [10, 7, 8, 1, 82, 3, 10, 1, 53] @ [18, 65] @ replicate 65 4 @ [26, 65] @ replicate 65 7"
    by (simp add: action_msg_def leb128.simps)
  have k: "hex_decode (drop (skip_0x (replicate 64 CHR ''1'')) (replicate 64 CHR ''1'')) = Some (replicate 32 0x11)"
    by code_simp
  show ?thesis
    using proto_gen_tx_action_result [of sample_tx "replicate 64 CHR ''1''" "replicate 32 0x11" ?p
        "\<lambda>_. Some (replicate 65 4)" "replicate 65 4" "\<lambda>_ _. Some (0, replicate 65 7)" "replicate 65 7" 200 "replicate 200 0"]
    unfolding a using p k
    by (simp add: sample_tx_def sample_core_def short_tx_def short_str_def short_bytes_def patch_def)
qed

text \<open>The same for an execution of a contract.\<close>

theorem proto_gen_ex_action_result:
  assumes "privateKey (ex_core ex) = Ptr key" "hex_decode (drop (skip_0x key) key) = Some kb" "length kb = 32" "length key \<le> 64"
    and "short_ex ex"
    and "packed = enc_msg (core_msg (ex_core ex) 12 (ex_msg ex))"
    and "get_public_key kb = Some pk" "length pk = 65" "get_signature packed kb = Some (0, sig)" "length sig = 65"
    and "length (enc_msg (action_msg packed pk sig)) < max_sz" "max_sz \<le> length buf" "max_sz < 2 ^ 31"
  shows "proto_gen_ex_action get_public_key get_signature False ex buf max_sz =
    Some (int (length (enc_msg (action_msg packed pk sig))), patch buf 0 (enc_msg (action_msg packed pk sig)))"
  unfolding proto_gen_ex_action_def
  using assms ex_items_wire [of ex]
  by (intro proto_gen_action_fits [where key = key and kb = kb])
    (auto simp: ex_items_def wf_field_def ACT_EXECUTION_def short_ex_def)

definition sample_ex :: iotex_st_execution where
  "sample_ex = \<lparr> ex_amount = Null, ex_contract = Null, ex_data = Ptr [1, 2], ex_dataLength = 2, ex_core = sample_core \<rparr>"

theorem proto_gen_ex_action_result_witness:
  "proto_gen_ex_action (\<lambda>_. Some (replicate 65 4)) (\<lambda>_ _. Some (0, replicate 65 7)) False sample_ex (replicate 200 0) 200 =
    Some (144, [10, 8, 8, 1, 98, 4, 26, 2, 1, 2] @ [18, 65] @ replicate 65 4 @ [26, 65] @ replicate 65 7 @ replicate 56 0)"
proof -
  let ?p = "[8, 1, 98, 4, 26, 2, 1, 2] :: byte list"
  have p: "enc_msg (core_msg (ex_core sample_ex) 12 (ex_msg sample_ex)) = ?p"
    by (simp add: sample_ex_def sample_core_def core_msg_def ex_msg_def opt_varint_def opt_str_def opt_bytes_def leb128.simps)
  have a: "enc_msg (action_msg ?p (replicate 65 4) (replicate 65 7)) =
      [10, 8, 8, 1, 98, 4, 26, 2, 1, 2] @ [18, 65] @ replicate 65 4 @ [26, 65] @ replicate 65 7"
    by (simp add: action_msg_def leb128.simps)
  have k: "hex_decode (drop (skip_0x (replicate 64 CHR ''1'')) (replicate 64 CHR ''1'')) = Some (replicate 32 0x11)"
    by code_simp
  show ?thesis
    using proto_gen_ex_action_result [of sample_ex "replicate 64 CHR ''1''" "replicate 32 0x11" ?p
        "\<lambda>_. Some (replicate 65 4)" "replicate 65 4" "\<lambda>_ _. Some (0, replicate 65 7)" "replicate 65 7" 200 "replicate 200 0"]
    unfolding a using p k
    by (simp add: sample_ex_def sample_core_def short_ex_def short_str_def short_bytes_def patch_def)
qed

text \<open>Of a payload only its length modulo 256 counts: a payload of 256 bytes or more is cut without an error, and
  the cut action is signed.\<close>

theorem proto_gen_tx_action_cuts:
  "proto_gen_tx_action get_public_key get_signature big tx buf max_sz =
   proto_gen_tx_action get_public_key get_signature big (tx\<lparr> tx_payloadLength := tx_payloadLength tx mod 256 \<rparr>) buf max_sz"
proof -
  have "(word_of_nat n :: byte) = word_of_nat (n mod 256)" for n
    by (rule iffD2 [OF word_unat_eq_iff]) (simp add: unat_of_nat)
  then have "tx_items tx = tx_items (tx\<lparr> tx_payloadLength := tx_payloadLength tx mod 256 \<rparr>)"
    by (simp add: tx_items_def)
  then show ?thesis by (simp add: proto_gen_tx_action_def)
qed

end
