(* ===== verification/Emb_Config.thy ===== *)
theory Emb_Config
  imports Emb_Prelude
begin

text \<open>
  \<open>src/config.c\<close>: the global configuration. The file system is the argument \<open>stat\<close>: the mode of a
  path, or \<open>None\<close> where \<open>stat\<close> fails; the code relies on its failing for a null path. The global
  variable \<open>__g_config\<close> is passed along as \<open>g\<close>. What is printed is not modelled.
\<close>

record iotex_st_config =
  ver :: u32
  verify_cert :: int
  verify_host :: int
  cert_dir :: "string ptr"
  cert_file :: "string ptr"

text \<open>The error codes of \<open>iotex_emb.h\<close>.\<close>

datatype iotex_em_error = IOTEX_E_NOERR | IOTEX_E_VER | IOTEX_E_CERT | IOTEX_E_URL | IOTEX_E_PRVKEY
  | IOTEX_E_MEM | IOTEX_E_REQUEST | IOTEX_E_PARSE | IOTEX_E_RESPONSE | IOTEX_E_UNSUPPORT
  | IOTEX_E_PBPACK | IOTEX_E_HEX2STR

definition err :: "iotex_em_error \<Rightarrow> int" where
  "err e = (case e of IOTEX_E_NOERR \<Rightarrow> 0 | IOTEX_E_VER \<Rightarrow> 1 | IOTEX_E_CERT \<Rightarrow> 2 | IOTEX_E_URL \<Rightarrow> 3
     | IOTEX_E_PRVKEY \<Rightarrow> 4 | IOTEX_E_MEM \<Rightarrow> 5 | IOTEX_E_REQUEST \<Rightarrow> 6 | IOTEX_E_PARSE \<Rightarrow> 7
     | IOTEX_E_RESPONSE \<Rightarrow> 8 | IOTEX_E_UNSUPPORT \<Rightarrow> 9 | IOTEX_E_PBPACK \<Rightarrow> 10 | IOTEX_E_HEX2STR \<Rightarrow> 11)"

definition g_support_ver_list :: "u32 list" where
  "g_support_ver_list = [1]"

definition g_cert_files :: "string list" where
  "g_cert_files =
     [''/etc/ssl/certs/ca-certificates.crt'',
      ''/etc/pki/tls/certs/ca-bundle.crt'',
      ''/etc/ssl/ca-bundle.pem'',
      ''/etc/pki/tls/cacert.pem'',
      ''/etc/pki/ca-trust/extracted/pem/tls-ca-bundle.pem'',
      ''/etc/ssl/cert.pem'']"

definition g_cert_dirs :: "string list" where
  "g_cert_dirs =
     [''/etc/ssl/certs'',
      ''/system/etc/security/cacerts'',
      ''/usr/local/share/certs'',
      ''/etc/pki/tls/certs'',
      ''/etc/openssl/certs'',
      ''/var/ssl/certs'']"

type_synonym file_system = "string ptr \<Rightarrow> u32 option"

definition get_file_type :: "file_system \<Rightarrow> string ptr \<Rightarrow> u32" where
  "get_file_type stat path = (case stat path of None \<Rightarrow> -1 | Some st_mode \<Rightarrow> st_mode)"

text \<open>The macros \<open>S_ISREG\<close> and \<open>S_ISDIR\<close> of \<open>sys/stat.h\<close>.\<close>

definition S_ISREG :: "u32 \<Rightarrow> bool" where "S_ISREG m \<longleftrightarrow> m AND 0xF000 = 0x8000"
definition S_ISDIR :: "u32 \<Rightarrow> bool" where "S_ISDIR m \<longleftrightarrow> m AND 0xF000 = 0x4000"

fun search_path :: "(u32 \<Rightarrow> bool) \<Rightarrow> file_system \<Rightarrow> string list \<Rightarrow> string ptr" where
  "search_path is_type stat [] = Null"
| "search_path is_type stat (path # paths) =
     (if is_type (get_file_type stat (Ptr path)) then Ptr path else search_path is_type stat paths)"

definition config_search_cert_file :: "file_system \<Rightarrow> string ptr" where
  "config_search_cert_file stat = search_path S_ISREG stat g_cert_files"

definition config_search_cert_dir :: "file_system \<Rightarrow> string ptr" where
  "config_search_cert_dir stat = search_path S_ISDIR stat g_cert_dirs"

definition clear_config :: iotex_st_config where
  "clear_config = \<lparr> ver = 0, verify_cert = 0, verify_host = 0, cert_dir = Null, cert_file = Null \<rparr>"

definition init_config :: "file_system \<Rightarrow> iotex_st_config ptr \<Rightarrow> iotex_st_config \<Rightarrow> int \<times> iotex_st_config" where
  "init_config stat config g =
     (let g = (case config of
          Ptr c \<Rightarrow>
            let g = c;
                g = (if ver g = 0 then g\<lparr> ver := 1 \<rparr> else g);
                g = (if cert_dir g = Null then g\<lparr> cert_dir := config_search_cert_dir stat \<rparr> else g)
            in if cert_file g = Null then g\<lparr> cert_file := config_search_cert_file stat \<rparr> else g
        | Null \<Rightarrow>
            g\<lparr> ver := 1, cert_dir := config_search_cert_dir stat, cert_file := config_search_cert_file stat \<rparr>)
      in if ver g \<notin> set g_support_ver_list then (- err IOTEX_E_VER, clear_config)
         else if \<not> S_ISDIR (get_file_type stat (cert_dir g)) \<and> \<not> S_ISREG (get_file_type stat (cert_file g))
         then (- err IOTEX_E_NOERR, clear_config)
         else (0, g))"

section \<open>Reachable configurations\<close>

text \<open>The file system may change between the calls.\<close>

datatype config_op = Init file_system "iotex_st_config ptr" | Clear

inductive config_step :: "iotex_st_config \<Rightarrow> config_op \<Rightarrow> iotex_st_config \<Rightarrow> bool" where
  init: "init_config stat c g = (r, g') \<Longrightarrow> config_step g (Init stat c) g'"
| clear: "config_step g Clear clear_config"

inductive config_reachable :: "iotex_st_config \<Rightarrow> bool" where
  start: "config_reachable clear_config"
| step: "config_reachable g \<Longrightarrow> config_step g op g' \<Longrightarrow> (\<forall>stat c. op = Init stat c \<longrightarrow> stat Null = None) \<Longrightarrow>
    config_reachable g'"

inductive_cases config_stepE: "config_step g op g'"

definition usable :: "file_system \<Rightarrow> iotex_st_config \<Rightarrow> bool" where
  "usable stat g \<longleftrightarrow> ver g = 1 \<and>
     (S_ISDIR (get_file_type stat (cert_dir g)) \<or> S_ISREG (get_file_type stat (cert_file g)))"

lemma not_a_file [simp]: "stat p = None \<Longrightarrow> \<not> S_ISREG (get_file_type stat p) \<and> \<not> S_ISDIR (get_file_type stat p)"
  by (simp add: get_file_type_def S_ISREG_def S_ISDIR_def)

lemma init_config_usable: "init_config stat c g = (r, g') \<Longrightarrow> usable stat g' \<or> g' = clear_config"
  by (auto simp: init_config_def usable_def Let_def g_support_ver_list_def split: if_splits ptr.splits)

section \<open>Properties\<close>

text \<open>C31: In every state the API can bring the configuration to, it is either all zero or has the supported
  version and names a certificate file or directory.\<close>

theorem config_reachable_inv:
  assumes "config_reachable g"
  shows "g = clear_config \<or> ver g = 1 \<and> (cert_dir g \<noteq> Null \<or> cert_file g \<noteq> Null)"
  using assms
proof induction
  case (step g op g')
  show ?case
  proof (cases op)
    case (Init stat c)
    then obtain r where "init_config stat c g = (r, g')" using step.hyps by (auto elim: config_stepE)
    moreover have "stat Null = None" using step.hyps Init by simp
    ultimately show ?thesis using init_config_usable [of stat c g r g'] by (auto simp: usable_def)
  qed (use step.hyps in \<open>auto elim: config_stepE\<close>)
qed simp

text \<open>A file system with the Debian certificates.\<close>

definition sample_fs :: file_system where
  "sample_fs p = (if p = Ptr ''/etc/ssl/certs'' then Some 0x41ED
     else if p = Ptr ''/etc/ssl/certs/ca-certificates.crt'' then Some 0x81A4 else None)"

theorem config_reachable_inv_witness:
  "ver (snd (init_config sample_fs Null clear_config)) = 1"
proof -
  have i: "init_config sample_fs Null clear_config = (0, clear_config\<lparr> ver := 1, cert_dir := Ptr ''/etc/ssl/certs'',
      cert_file := Ptr ''/etc/ssl/certs/ca-certificates.crt'' \<rparr>)"
    by (simp add: init_config_def clear_config_def config_search_cert_dir_def config_search_cert_file_def g_cert_files_def
        g_cert_dirs_def sample_fs_def get_file_type_def S_ISDIR_def S_ISREG_def g_support_ver_list_def Let_def)
  have "config_reachable (snd (init_config sample_fs Null clear_config))"
    by (rule config_reachable.step [OF config_reachable.start config_step.init [of sample_fs Null]])
      (auto simp: i sample_fs_def)
  from config_reachable_inv [OF this] show ?thesis unfolding i by (auto simp: clear_config_def)
qed

text \<open>C32: Initialisation succeeds with the given settings, filled up from the first certificate directory and file of
  the search lists that exist, or it clears the configuration; it refuses exactly the versions other than 0 and 1 with
  \<open>-IOTEX_E_VER\<close>.\<close>

theorem init_config_result:
  "init_config stat (Ptr c) g =
    (let c' = c\<lparr> ver := (if ver c = 0 then 1 else ver c),
                 cert_dir := (if cert_dir c = Null then config_search_cert_dir stat else cert_dir c),
                 cert_file := (if cert_file c = Null then config_search_cert_file stat else cert_file c) \<rparr>
     in if usable stat c' then (0, c')
        else (if ver c \<notin> {0, 1} then - 1 else 0, clear_config))
   \<and> config_search_cert_file stat =
        (case List.find (\<lambda>p. S_ISREG (get_file_type stat (Ptr p))) g_cert_files of None \<Rightarrow> Null | Some p \<Rightarrow> Ptr p)
   \<and> config_search_cert_dir stat =
        (case List.find (\<lambda>p. S_ISDIR (get_file_type stat (Ptr p))) g_cert_dirs of None \<Rightarrow> Null | Some p \<Rightarrow> Ptr p)"
proof -
  have "search_path is_type stat ps = (case List.find (\<lambda>p. is_type (get_file_type stat (Ptr p))) ps of None \<Rightarrow> Null | Some p \<Rightarrow> Ptr p)"
    for is_type ps
    by (induction ps) auto
  then show ?thesis
    by (simp add: init_config_def usable_def Let_def g_support_ver_list_def err_def config_search_cert_file_def
        config_search_cert_dir_def)
qed

text \<open>Without any certificate the initialisation returns 0, the value of success, and leaves an empty
  configuration.\<close>

theorem init_config_no_cert:
  assumes "\<forall>p. stat p = None"
  shows "init_config stat Null g = (0, clear_config)"
  using assms by (simp add: init_config_def Let_def g_support_ver_list_def err_def)

theorem init_config_no_cert_witness: "init_config (\<lambda>_. None) Null clear_config = (0, clear_config)"
  by (rule init_config_no_cert) simp

end
