(* ===== verification/Request.thy ===== *)
theory Request
  imports Emb_Config
begin

text \<open>
  \<open>src/request.c\<close>: composing a request URL and running a request. Buffers of text are lists of
  characters. The arguments of the variadic call are a list; what \<open>printf\<close> does with the conversions
  the code uses is \<open>c_format\<close>. libcurl is a parameter: \<open>perform\<close> gives, for the transfers made before and the options
  set, the chunks it hands to the write callback and whether the transfer itself succeeds. The transfers made are a
  list that a request extends. What the code relies
  on is that a transfer fails when the callback does not accept a chunk whole. The messages printed
  are not modelled.
\<close>

section \<open>Formatted output\<close>

datatype c_arg = A_str string | A_uint u32

definition dec_signed :: "int \<Rightarrow> string" where
  "dec_signed i = (if i < 0 then CHR ''-'' # dec_digits (nat (- i)) else dec_digits (nat i))"

text \<open>\<open>None\<close>: a missing argument or one of the wrong type.\<close>

fun c_format :: "string \<Rightarrow> c_arg list \<Rightarrow> string option" where
  "c_format [] args = Some []"
| "c_format [c] args = (if c = CHR ''%'' then None else Some [c])"
| "c_format (c # d # fmt) args =
     (if c \<noteq> CHR ''%'' then map_option (Cons c) (c_format (d # fmt) args)
      else case args of
        [] \<Rightarrow> None
      | A_str s # args \<Rightarrow>
          (if d = CHR ''s'' then map_option ((@) s) (c_format fmt args) else None)
      | A_uint n # args \<Rightarrow>
          (if d = CHR ''u'' then map_option ((@) (dec_digits (unat n))) (c_format fmt args)
           else if d = CHR ''d'' then map_option ((@) (dec_signed (sint n))) (c_format fmt args)
           else None))"

text \<open>\<open>snprintf\<close>: at most \<open>sz - 1\<close> characters and a NUL.\<close>

definition snprintf :: "string \<Rightarrow> nat \<Rightarrow> nat \<Rightarrow> string \<Rightarrow> c_arg list \<Rightarrow> string option" where
  "snprintf mem off sz fmt args = do {
     s \<leftarrow> c_format fmt args;
     if sz = 0 then Some mem else mem_blit mem off (take (sz - 1) s @ [NUL])
   }"

section \<open>Request table\<close>

datatype iotex_em_request = REQ_GET_ACCOUNT | REQ_GET_CHAINMETA | REQ_GET_TRANSFERS_BY_BLOCK
  | REQ_GET_ACTIONS_BY_HASH | REQ_GET_ACTIONS_BY_ADDR | REQ_READ_CONTRACT_BY_ADDR
  | REQ_GET_MEMBER_VALIDATORS | REQ_GET_MEMBER_DELEGATIONS | REQ_SEND_SIGNED_ACTION_BYTES | REQ_TAIL_NONE

record iotex_st_request_conf =
  conf_req :: iotex_em_request
  conf_paths :: "string list"
  args_fmt :: "string ptr"

text \<open>The table up to its terminating entry, whose list of paths is empty.\<close>

definition g_req_configs :: "iotex_st_request_conf list" where
  "g_req_configs =
     [\<lparr> conf_req = REQ_GET_ACCOUNT, conf_paths = [''accounts''], args_fmt = Ptr ''%s'' \<rparr>,
      \<lparr> conf_req = REQ_GET_CHAINMETA, conf_paths = [''chainmeta''], args_fmt = Null \<rparr>,
      \<lparr> conf_req = REQ_GET_ACTIONS_BY_ADDR, conf_paths = [''actions'', ''addr''], args_fmt = Ptr ''%s?start=%u&count=%u'' \<rparr>,
      \<lparr> conf_req = REQ_GET_ACTIONS_BY_HASH, conf_paths = [''actions'', ''hash''], args_fmt = Ptr ''%s'' \<rparr>,
      \<lparr> conf_req = REQ_READ_CONTRACT_BY_ADDR, conf_paths = [''contract'', ''addr''], args_fmt = Ptr ''%s?method=%s&data=%s'' \<rparr>,
      \<lparr> conf_req = REQ_GET_TRANSFERS_BY_BLOCK, conf_paths = [''transfers'', ''block''], args_fmt = Ptr ''%s'' \<rparr>,
      \<lparr> conf_req = REQ_GET_MEMBER_VALIDATORS, conf_paths = [''staking'', ''validators''], args_fmt = Null \<rparr>,
      \<lparr> conf_req = REQ_GET_MEMBER_DELEGATIONS, conf_paths = [''staking'', ''delegations''], args_fmt = Null \<rparr>,
      \<lparr> conf_req = REQ_SEND_SIGNED_ACTION_BYTES, conf_paths = [''actionbytes''], args_fmt = Ptr ''%s'' \<rparr>]"

definition IOTEX_EMB_BASE_URL :: string where
  "IOTEX_EMB_BASE_URL = ''https://pharos.iotex.io/v%d/''"

section \<open>Composing a URL\<close>

text \<open>The loop over the path segments; \<open>Inl\<close>: the buffer is too short.\<close>

fun compose_paths :: "string list \<Rightarrow> string \<Rightarrow> nat \<Rightarrow> nat \<Rightarrow> (string + string \<times> nat) option" where
  "compose_paths [] url url_tail max_sz = Some (Inr (url, url_tail))"
| "compose_paths (segment # segments) url url_tail max_sz =
     (if url_tail + length segment + 1 < max_sz then do {
        url \<leftarrow> mem_blit url url_tail segment;
        url \<leftarrow> mem_put url (url_tail + length segment) CHR ''/'';
        compose_paths segments url (url_tail + length segment + 1) max_sz
      }
      else Some (Inl url))"

text \<open>The result is whether the URL or \<open>NULL\<close> is returned, and the buffer.\<close>

definition req_compose_url ::
  "iotex_st_config \<Rightarrow> string \<Rightarrow> nat \<Rightarrow> iotex_em_request \<Rightarrow> c_arg list \<Rightarrow> (bool \<times> string) option" where
  "req_compose_url g url url_max_sz request ap =
     (case List.find (\<lambda>conf. conf_req conf = request) g_req_configs of
        None \<Rightarrow> Some (False, url)
      | Some conf \<Rightarrow> do {
          url \<leftarrow> mem_blit url 0 (replicate url_max_sz NUL);
          url \<leftarrow> snprintf url 0 url_max_sz IOTEX_EMB_BASE_URL [A_uint (ver g)];
          base \<leftarrow> c_str url;
          r \<leftarrow> compose_paths (conf_paths conf) url (length base) url_max_sz;
          case r of
            Inl url \<Rightarrow> Some (False, url)
          | Inr (url, url_tail) \<Rightarrow>
              (case args_fmt conf of
                 Null \<Rightarrow> do {
                   url \<leftarrow> mem_put url (url_tail - 1) NUL;
                   Some (True, url)
                 }
               | Ptr fmt \<Rightarrow> do {
                   url \<leftarrow> snprintf url url_tail (url_max_sz - url_tail) fmt ap;
                   Some (True, url)
                 })
        })"

section \<open>Receiving a response\<close>

record iotex_st_response_data =
  rdata :: "string ptr"
  rlen :: nat

definition free_response_data :: "iotex_st_response_data \<Rightarrow> iotex_st_response_data" where
  "free_response_data res = (if rdata res = Null then res else \<lparr> rdata = Null, rlen = 0 \<rparr>)"

text \<open>
  \<open>malloc n\<close> and \<open>realloc old n\<close> give \<open>Null\<close> or an object; the code relies on its having \<open>n\<close> bytes,
  the first of which are those of the old object.
\<close>

definition curl_write_callback ::
  "(nat \<Rightarrow> string ptr) \<Rightarrow> (string \<Rightarrow> nat \<Rightarrow> string ptr) \<Rightarrow> string \<Rightarrow> iotex_st_response_data \<Rightarrow>
   (nat \<times> iotex_st_response_data) option" where
  "curl_write_callback malloc realloc ptr res =
     (let new_len = length ptr in
      case (case rdata res of
              Null \<Rightarrow> (case malloc new_len of Null \<Rightarrow> Inl res | Ptr m \<Rightarrow> Inr m)
            | Ptr old \<Rightarrow> (case realloc old (rlen res + new_len) of
                  Null \<Rightarrow> Inl (free_response_data res) | Ptr m \<Rightarrow> Inr m)) of
        Inl res \<Rightarrow> Some (0, res)
      | Inr m \<Rightarrow> do {
          m \<leftarrow> mem_blit m (rlen res) ptr;
          Some (new_len, \<lparr> rdata = Ptr m, rlen = rlen res + new_len \<rparr>)
        })"

record curl_options =
  opt_post :: bool
  opt_url :: string
  opt_cainfo :: "string ptr"
  opt_capath :: "string ptr"
  opt_verifypeer :: int
  opt_verifyhost :: int

text \<open>The transfers made so far, and what libcurl does with the next one.\<close>

type_synonym transfers = "curl_options list"

type_synonym curl = "transfers \<Rightarrow> curl_options \<Rightarrow> string list \<times> bool"

text \<open>The options that a request sets.\<close>

abbreviation request_options :: "iotex_st_config \<Rightarrow> string \<Rightarrow> bool \<Rightarrow> curl_options" where
  "request_options g request is_post \<equiv> \<lparr> opt_post = is_post, opt_url = request, opt_cainfo = cert_file g, opt_capath = cert_dir g,
     opt_verifypeer = verify_cert g, opt_verifyhost = verify_host g \<rparr>"

text \<open>\<open>curl_easy_perform\<close>: the chunks go to the callback until one is refused.\<close>

fun deliver ::
  "(nat \<Rightarrow> string ptr) \<Rightarrow> (string \<Rightarrow> nat \<Rightarrow> string ptr) \<Rightarrow> string list \<Rightarrow> bool \<Rightarrow> iotex_st_response_data \<Rightarrow>
   (bool \<times> iotex_st_response_data) option" where
  "deliver malloc realloc [] ok res = Some (ok, res)"
| "deliver malloc realloc (chunk # chunks) ok res = do {
     (n, res) \<leftarrow> curl_write_callback malloc realloc chunk res;
     if n \<noteq> length chunk then Some (False, res)
     else deliver malloc realloc chunks ok res
   }"

text \<open>
  The result is the value returned, the response buffer, the received data that is still
  allocated when the function returns, and the transfers made.
\<close>

definition req_basic_request ::
  "(nat \<Rightarrow> string ptr) \<Rightarrow> (string \<Rightarrow> nat \<Rightarrow> string ptr) \<Rightarrow> bool \<Rightarrow> curl \<Rightarrow> iotex_st_config \<Rightarrow>
   string \<Rightarrow> string \<Rightarrow> nat \<Rightarrow> bool \<Rightarrow> transfers \<Rightarrow> (int \<times> string \<times> iotex_st_response_data \<times> transfers) option" where
  "req_basic_request malloc realloc easy_init perform g request response response_max_sz is_post sent =
     (let res = \<lparr> rdata = Null, rlen = 0 \<rparr> in
      if \<not> easy_init then Some (-1, response, res, sent)
      else do {
        let curl = \<lparr> opt_post = is_post, opt_url = request, opt_cainfo = cert_file g, opt_capath = cert_dir g,
                     opt_verifypeer = verify_cert g, opt_verifyhost = verify_host g \<rparr>;
        let (chunks, ok) = perform sent curl;
        let sent = sent @ [curl];
        (ok, res) \<leftarrow> deliver malloc realloc chunks ok res;
        if \<not> ok then Some (-1, response, res, sent)
        else if rlen res + 1 > response_max_sz then Some (-1, response, free_response_data res, sent)
        else do {
          bytes \<leftarrow> (case rdata res of Null \<Rightarrow> Some [] | Ptr m \<Rightarrow> mem_read m 0 (rlen res));
          response \<leftarrow> mem_blit response 0 bytes;
          response \<leftarrow> mem_put response (rlen res) NUL;
          Some (0, response, free_response_data res, sent)
        }
      })"

definition req_get_request ::
  "(nat \<Rightarrow> string ptr) \<Rightarrow> (string \<Rightarrow> nat \<Rightarrow> string ptr) \<Rightarrow> bool \<Rightarrow> curl \<Rightarrow> iotex_st_config \<Rightarrow>
   string \<Rightarrow> string \<Rightarrow> nat \<Rightarrow> transfers \<Rightarrow> (int \<times> string \<times> iotex_st_response_data \<times> transfers) option" where
  "req_get_request malloc realloc easy_init perform g request response response_max_sz sent =
     req_basic_request malloc realloc easy_init perform g request response response_max_sz False sent"

definition req_post_request ::
  "(nat \<Rightarrow> string ptr) \<Rightarrow> (string \<Rightarrow> nat \<Rightarrow> string ptr) \<Rightarrow> bool \<Rightarrow> curl \<Rightarrow> iotex_st_config \<Rightarrow>
   string \<Rightarrow> string \<Rightarrow> nat \<Rightarrow> transfers \<Rightarrow> (int \<times> string \<times> iotex_st_response_data \<times> transfers) option" where
  "req_post_request malloc realloc easy_init perform g request response response_max_sz sent =
     req_basic_request malloc realloc easy_init perform g request response response_max_sz True sent"

section \<open>Specification\<close>

definition base_url :: "iotex_st_config \<Rightarrow> string" where
  "base_url g = ''https://pharos.iotex.io/v'' @ dec_signed (sint (ver g)) @ ''/''"

definition request_conf :: "iotex_em_request \<Rightarrow> iotex_st_request_conf option" where
  "request_conf request = List.find (\<lambda>conf. conf_req conf = request) g_req_configs"

text \<open>The URL of a request: the base, the path segments, and the formatted arguments.\<close>

definition request_path :: "string list \<Rightarrow> string" where
  "request_path segments = concat (map (\<lambda>p. p @ ''/'') segments)"

definition full_url :: "iotex_st_config \<Rightarrow> iotex_st_request_conf \<Rightarrow> c_arg list \<Rightarrow> string option" where
  "full_url g conf ap = (case args_fmt conf of
      Null \<Rightarrow> Some (butlast (base_url g @ request_path (conf_paths conf)))
    | Ptr fmt \<Rightarrow> map_option (\<lambda>s. base_url g @ request_path (conf_paths conf) @ s) (c_format fmt ap))"


lemma dec_digits_no_NUL: "NUL \<notin> set (dec_digits n)"
  using dec_digits_digits [of NUL n] by (auto simp: is_digit_def)

lemma base_url_no_NUL: "NUL \<notin> set (base_url g)"
  by (simp add: base_url_def dec_signed_def dec_digits_no_NUL)

lemma base_url_nonempty [simp]: "base_url g \<noteq> []"
  by (simp add: base_url_def)

lemma c_format_base: "c_format IOTEX_EMB_BASE_URL [A_uint (ver g)] = Some (base_url g)"
  by (simp add: IOTEX_EMB_BASE_URL_def base_url_def)

lemma c_format_no_NUL:
  "c_format fmt args = Some s \<Longrightarrow> NUL \<notin> set fmt \<Longrightarrow> \<forall>t. A_str t \<in> set args \<longrightarrow> NUL \<notin> set t \<Longrightarrow> NUL \<notin> set s"
proof (induction fmt args arbitrary: s rule: c_format.induct)
  case (3 c d fmt args)
  then show ?case
    by (auto simp: dec_digits_no_NUL dec_signed_def split: if_splits list.splits c_arg.splits)
qed (auto split: if_splits)

lemma table_facts:
  assumes "request_conf request = Some conf"
  shows "conf_paths conf \<noteq> [] \<and> NUL \<notin> set (request_path (conf_paths conf)) \<and>
    (\<forall>fmt. args_fmt conf = Ptr fmt \<longrightarrow> NUL \<notin> set fmt)"
  using assms by (cases request) (auto simp: request_conf_def g_req_configs_def request_path_def)

text \<open>The buffer while the URL is built: what is done, and NULs up to the stated size.\<close>

abbreviation url_state :: "string \<Rightarrow> nat \<Rightarrow> string \<Rightarrow> string" where
  "url_state d n rest \<equiv> d @ replicate (n - length d) NUL @ rest"

lemma url_state_put:
  assumes "length d + length s \<le> n"
  shows "mem_blit (url_state d n rest) (length d) s = Some (url_state (d @ s) n rest)"
proof -
  have "drop (length s) (replicate (n - length d) NUL @ rest) = replicate (n - length d - length s) NUL @ rest"
    using assms by simp
  then show ?thesis using assms by (simp add: patch_def)
qed

lemma snprintf_url_state:
  assumes "c_format fmt args = Some s" "length d < n"
  shows "snprintf (url_state d n rest) (length d) (n - length d) fmt args =
    Some (url_state (d @ take (n - length d - 1) s) n rest)"
proof (cases "length s < n - length d")
  case True
  then have "url_state (d @ s @ [NUL]) n rest = url_state (d @ s) n rest"
    by (simp add: replicate_Suc [symmetric] Suc_diff_Suc del: replicate_Suc)
  then show ?thesis
    using assms True url_state_put [of d "s @ [NUL]" n rest] by (simp add: snprintf_def)
next
  case False
  let ?s = "take (n - length d - 1) s"
  have "n - length (d @ ?s) = 1" using assms False by simp
  then have "url_state (d @ ?s @ [NUL]) n rest = url_state (d @ ?s) n rest" by simp
  then show ?thesis
    using assms url_state_put [of d "?s @ [NUL]" n rest] by (simp add: snprintf_def)
qed

lemma c_str_url_state:
  assumes "NUL \<notin> set d" "length d < n"
  shows "c_str (url_state d n rest) = Some d"
proof -
  have "replicate (n - length d) NUL = NUL # replicate (n - length d - 1) NUL"
    using assms by (cases "n - length d") auto
  then show ?thesis using c_str_append_NUL [OF assms(1)] by simp
qed

lemma compose_paths_eq:
  "length d < n \<Longrightarrow>
    (if length (d @ request_path segments) < n \<or> segments = []
     then compose_paths segments (url_state d n rest) (length d) n =
       Some (Inr (url_state (d @ request_path segments) n rest, length (d @ request_path segments)))
     else \<exists>url. compose_paths segments (url_state d n rest) (length d) n = Some (Inl url))"
proof (induction segments arbitrary: d)
  case (Cons p ps)
  show ?case
  proof (cases "length d + length p + 1 < n")
    case True
    have "mem_blit (url_state d n rest) (length d) p = Some (url_state (d @ p) n rest)"
      using url_state_put [of d p n rest] True by simp
    moreover have "mem_put (url_state (d @ p) n rest) (length d + length p) CHR ''/'' = Some (url_state (d @ p @ ''/'') n rest)"
      using url_state_put [of "d @ p" "''/''" n rest] True
      by (simp add: mem_blit_def mem_put_patch split: if_splits)
    ultimately show ?thesis
      using True Cons.IH [of "d @ p @ ''/''"] by (auto simp: request_path_def ac_simps split: if_splits)
  qed (auto simp: request_path_def)
qed (simp add: request_path_def)

lemma req_compose_url_cases:
  assumes conf: "request_conf request = Some conf" and n: "0 < n" "length url = n + length rest" "drop n url = rest"
    and full: "full_url g conf ap = Some s" and args: "\<forall>t. A_str t \<in> set ap \<longrightarrow> NUL \<notin> set t"
  shows "if length (base_url g @ request_path (conf_paths conf)) < n
    then req_compose_url g url n request ap = Some (True, url_state (take (n - 1) s) n rest)
    else \<exists>url'. req_compose_url g url n request ap = Some (False, url')"
proof -
  let ?b = "take (n - 1) (base_url g)" and ?p = "request_path (conf_paths conf)"
  note t = table_facts [OF conf]
  have memset: "mem_blit url 0 (replicate n NUL) = Some (url_state [] n rest)"
    using n by (simp add: patch_def)
  have base: "snprintf (url_state [] n rest) 0 n IOTEX_EMB_BASE_URL [A_uint (ver g)] = Some (url_state ?b n rest)"
    using snprintf_url_state [OF c_format_base, where d = "[]" and n = n and rest = rest] n by simp
  have len: "c_str (url_state ?b n rest) = Some ?b"
    using n base_url_no_NUL [of g] by (intro c_str_url_state) (auto dest: in_set_takeD)
  have p: "request_path (conf_paths conf) \<noteq> []" using t by (cases "conf_paths conf") (auto simp: request_path_def)
  show ?thesis
  proof (cases "length (base_url g @ ?p) < n")
    case True
    then have b: "?b = base_url g" by simp
    have paths: "compose_paths (conf_paths conf) (url_state ?b n rest) (length ?b) n =
        Some (Inr (url_state (base_url g @ ?p) n rest, length (base_url g @ ?p)))"
      using compose_paths_eq [of "base_url g" n "conf_paths conf" rest] True by (simp add: b)
    show ?thesis
    proof (cases "args_fmt conf")
      case Null
      let ?d = "base_url g @ ?p"
      have s: "s = butlast ?d" using full Null by (simp add: full_url_def)
      have d: "?d = s @ [last ?d]" unfolding s using p by (intro append_butlast_last_id [symmetric]) simp
      have l: "length ?d = length s + 1" using p by (cases ?p rule: rev_cases) (simp_all add: s)
      have "mem_put (url_state ?d n rest) (length ?d - 1) NUL = Some (url_state s n rest)"
        using True l by (subst d) (simp add: mem_put_def list_update_append replicate_Suc [symmetric] Suc_diff_Suc del: replicate_Suc)
      then show ?thesis
        using True Null memset base len paths l conf
        by (simp add: req_compose_url_def request_conf_def)
    next
      case (Ptr fmt)
      then obtain a where a: "c_format fmt ap = Some a" "s = base_url g @ ?p @ a"
        using full by (auto simp: full_url_def)
      have "snprintf (url_state (base_url g @ ?p) n rest) (length (base_url g @ ?p)) (n - length (base_url g @ ?p)) fmt ap =
          Some (url_state (take (n - 1) s) n rest)"
        using snprintf_url_state [OF a(1) True, of rest] True a(2) by simp
      then show ?thesis
        using True Ptr memset base len paths conf
        by (simp add: req_compose_url_def request_conf_def)
    qed
  next
    case False
    have "\<not> length (?b @ ?p) < n"
    proof (cases "length (base_url g) < n")
      case True
      then show ?thesis using False by simp
    next
      case False
      then show ?thesis using p by (cases ?p) auto
    qed
    then have long: "\<not> (length (?b @ ?p) < n \<or> conf_paths conf = [])" using t by blast
    have "length ?b < n" using n by simp
    from compose_paths_eq [OF this, of "conf_paths conf" rest]
    obtain u where "compose_paths (conf_paths conf) (url_state ?b n rest) (length ?b) n = Some (Inl u)"
      unfolding if_not_P [OF long] by blast
    then show ?thesis
      using False memset base len conf by (simp add: req_compose_url_def request_conf_def)
  qed
qed


section \<open>Receiving\<close>

text \<open>The received data is the concatenation of the chunks handed over so far.\<close>

definition holds :: "iotex_st_response_data \<Rightarrow> string \<Rightarrow> bool" where
  "holds res s \<longleftrightarrow> (case rdata res of Null \<Rightarrow> s = [] \<and> rlen res = 0 | Ptr m \<Rightarrow> m = s \<and> rlen res = length s)"

definition alloc_ok :: "(nat \<Rightarrow> string ptr) \<Rightarrow> (string \<Rightarrow> nat \<Rightarrow> string ptr) \<Rightarrow> bool" where
  "alloc_ok malloc realloc \<longleftrightarrow>
     (\<forall>n m. malloc n = Ptr m \<longrightarrow> length m = n) \<and>
     (\<forall>old n m. realloc old n = Ptr m \<longrightarrow> length m = n \<and> take (length old) m = take n old)"

text \<open>Whether every allocation that the chunks \<open>cs\<close> ask for is granted, when \<open>s\<close> has been received before.\<close>

fun granted :: "(nat \<Rightarrow> string ptr) \<Rightarrow> (string \<Rightarrow> nat \<Rightarrow> string ptr) \<Rightarrow> string \<Rightarrow> string list \<Rightarrow> bool" where
  "granted malloc realloc s [] \<longleftrightarrow> True"
| "granted malloc realloc s (c # cs) \<longleftrightarrow>
     (if s = [] then malloc (length c) \<noteq> Null else realloc s (length s + length c) \<noteq> Null) \<and> granted malloc realloc (s @ c) cs"

lemma curl_write_callback_exact:
  assumes "alloc_ok malloc realloc" and "holds res s" "rdata res = Null \<longleftrightarrow> s = []" and c: "chunk \<noteq> []"
  shows "if (if s = [] then malloc (length chunk) \<noteq> Null else realloc s (length s + length chunk) \<noteq> Null)
    then \<exists>res'. curl_write_callback malloc realloc chunk res = Some (length chunk, res') \<and> holds res' (s @ chunk) \<and> rdata res' \<noteq> Null
    else \<exists>res'. curl_write_callback malloc realloc chunk res = Some (0, res') \<and> rdata res' = Null"
proof (cases "rdata res")
  case Null
  then have s: "s = []" "rlen res = 0" using assms by (simp_all add: holds_def)
  show ?thesis
  proof (cases "malloc (length chunk)")
    case (Ptr m)
    then have "length m = length chunk" using assms by (simp add: alloc_ok_def)
    then show ?thesis using Null Ptr s by (simp add: curl_write_callback_def holds_def patch_def Let_def)
  qed (simp add: curl_write_callback_def Null Let_def s)
next
  case (Ptr old)
  then have s: "old = s" "rlen res = length s" "s \<noteq> []" using assms by (simp_all add: holds_def)
  show ?thesis
  proof (cases "realloc s (length s + length chunk)")
    case r: (Ptr m)
    then have "length m = length s + length chunk" "take (length s) m = s" using assms by (auto simp: alloc_ok_def)
    then show ?thesis using Ptr r s by (simp add: curl_write_callback_def holds_def patch_def Let_def)
  qed (simp add: curl_write_callback_def Ptr s free_response_data_def Let_def)
qed

lemma deliver_exact:
  assumes "alloc_ok malloc realloc"
  shows "holds res s \<Longrightarrow> (rdata res = Null \<longleftrightarrow> s = []) \<Longrightarrow> [] \<notin> set chunks \<Longrightarrow>
    if granted malloc realloc s chunks
    then \<exists>res'. deliver malloc realloc chunks ok res = Some (ok, res') \<and> holds res' (s @ concat chunks) \<and> (rdata res' = Null \<longleftrightarrow> s @ concat chunks = [])
    else \<exists>res'. deliver malloc realloc chunks ok res = Some (False, res') \<and> rdata res' = Null"
proof (induction chunks arbitrary: res s)
  case (Cons c cs)
  have c: "c \<noteq> []" using Cons.prems by auto
  note cb = curl_write_callback_exact [OF assms Cons.prems(1,2) c]
  show ?case
  proof (cases "if s = [] then malloc (length c) \<noteq> Null else realloc s (length s + length c) \<noteq> Null")
    case True
    then obtain res' where w: "curl_write_callback malloc realloc c res = Some (length c, res')" "holds res' (s @ c)" "rdata res' \<noteq> Null"
      using cb [unfolded if_P [OF True]] by blast
    have "granted malloc realloc s (c # cs) = granted malloc realloc (s @ c) cs" using True by simp
    then show ?thesis using Cons.IH [OF w(2)] w(1,3) c Cons.prems(3) by (cases "granted malloc realloc (s @ c) cs") auto
  next
    case False
    then obtain res' where w: "curl_write_callback malloc realloc c res = Some (0, res')" "rdata res' = Null" using cb [unfolded if_not_P [OF False]] by blast
    have "\<not> granted malloc realloc s (c # cs)" using False by simp
    then show ?thesis using w c by simp
  qed
qed simp

lemma req_basic_request_cases:
  assumes alloc: "alloc_ok malloc realloc" and max: "response_max_sz \<le> length response"
    and p: "perform sent (request_options g request is_post) = (chunks, ok)" and c: "[] \<notin> set chunks" "NUL \<notin> set (concat chunks)"
  shows "if \<not> easy_init
    then req_basic_request malloc realloc easy_init perform g request response response_max_sz is_post sent =
      Some (- 1, response, \<lparr> rdata = Null, rlen = 0 \<rparr>, sent)
    else \<exists>r response' res. req_basic_request malloc realloc easy_init perform g request response response_max_sz is_post sent =
        Some (r, response', res, sent @ [request_options g request is_post]) \<and>
      (if ok \<and> granted malloc realloc [] chunks \<and> length (concat chunks) < response_max_sz
       then r = 0 \<and> c_str response' = Some (concat chunks) \<and> length response' = length response \<and>
         drop (length (concat chunks) + 1) response' = drop (length (concat chunks) + 1) response
       else r = - 1 \<and> response' = response) \<and>
      rdata res = (if \<not> ok \<and> granted malloc realloc [] chunks \<and> chunks \<noteq> [] then Ptr (concat chunks) else Null)"
proof (cases easy_init)
  case True
  let ?s = "concat chunks" and ?res = "\<lparr> rdata = Null, rlen = 0 \<rparr>"
  have h0: "holds ?res []" "rdata ?res = Null \<longleftrightarrow> [] = []" by (simp_all add: holds_def)
  note d = deliver_exact [OF alloc h0 c(1), of ok, unfolded append_Nil]
  have ne: "concat chunks = [] \<longleftrightarrow> chunks = []" using c(1) by (cases chunks) auto
  show ?thesis
  proof (cases "granted malloc realloc [] chunks")
    case False
    then obtain res' where "deliver malloc realloc chunks ok ?res = Some (False, res')" "rdata res' = Null" using d by auto
    then show ?thesis using True False p by (simp add: req_basic_request_def)
  next
    case g: True
    then obtain res' where r: "deliver malloc realloc chunks ok ?res = Some (ok, res')" "holds res' ?s" "rdata res' = Null \<longleftrightarrow> ?s = []" using d by auto
    have l: "rlen res' = length ?s" using r(2) by (auto simp: holds_def split: ptr.splits)
    have dat: "rdata res' = (if chunks = [] then Null else Ptr ?s)" using r(2,3) ne by (auto simp: holds_def split: ptr.splits)
    have bytes: "(case rdata res' of Null \<Rightarrow> Some [] | Ptr m \<Rightarrow> mem_read m 0 (rlen res')) = Some ?s"
      using r(2) by (auto simp: holds_def split: ptr.splits)
    have free: "rdata (free_response_data res') = Null" by (simp add: free_response_data_def)
    consider "\<not> ok" | "ok" "\<not> length ?s < response_max_sz" | "ok" "length ?s < response_max_sz" by blast
    then show ?thesis
    proof cases
      case 1
      then show ?thesis using True g p r(1) dat by (simp add: req_basic_request_def)
    next
      case 2
      then show ?thesis using True g p r(1) l free by (simp add: req_basic_request_def)
    next
      case 3
      have "patch (patch response 0 ?s) (length ?s) [NUL] = patch response 0 (?s @ [NUL])"
        using 3 max by (intro patch_append) simp_all
      moreover have "c_str (patch response 0 (?s @ [NUL])) = Some ?s"
        using c_str_append_NUL [OF c(2)] by (simp add: patch_def)
      moreover have "drop (length ?s + 1) (patch response 0 (?s @ [NUL])) = drop (length ?s + 1) response"
        using 3 max by (intro drop_patch) simp_all
      moreover have "length (patch response 0 (?s @ [NUL])) = length response" using 3 max by (intro length_patch) simp
      ultimately show ?thesis
        using True g p r(1) l bytes free 3 max by (simp add: req_basic_request_def mem_put_patch)
    qed
  qed
qed (simp add: req_basic_request_def Let_def)

text \<open>A successful transfer whose data fits the buffer.\<close>

lemma granted_total: "\<forall>n. malloc n \<noteq> Null \<Longrightarrow> \<forall>old n. realloc old n \<noteq> Null \<Longrightarrow> granted malloc realloc s chunks"
  by (induction chunks arbitrary: s) simp_all

lemma req_basic_request_ok:
  assumes alloc: "alloc_ok malloc realloc" "\<forall>n. malloc n \<noteq> Null" "\<forall>old n. realloc old n \<noteq> Null"
    and p: "perform sent (request_options g request is_post) = (chunks, True)"
    and s: "[] \<notin> set chunks" "concat chunks = s" "NUL \<notin> set s" "length s < max_sz" "max_sz \<le> length response"
  shows "\<exists>response' res. req_basic_request malloc realloc True perform g request response max_sz is_post sent =
      Some (0, response', res, sent @ [request_options g request is_post]) \<and> c_str response' = Some s"
  using req_basic_request_cases [where perform = perform and sent = sent and g = g and request = request and easy_init = True,
      OF alloc(1) s(5) p s(1) s(3) [folded s(2)]] granted_total [OF alloc(2,3)] s by auto

section \<open>Properties\<close>

text \<open>C33: Every request either gets its whole address and path into the buffer, and then the buffer holds the
  full URL cut to what fits into it, as a C string, or it is refused with \<open>NULL\<close>; the code behind the
  stated size is not touched, and the URL is accepted although it is cut.\<close>

theorem req_compose_url_result:
  assumes "request_conf request = Some conf" and "0 < n" "n \<le> length url"
    and "full_url g conf ap = Some s" and "\<forall>t. A_str t \<in> set ap \<longrightarrow> NUL \<notin> set t"
  shows "if length (base_url g @ request_path (conf_paths conf)) < n
    then \<exists>url'. req_compose_url g url n request ap = Some (True, url') \<and> c_str url' = Some (take (n - 1) s)
      \<and> length url' = length url \<and> drop n url' = drop n url
    else \<exists>url'. req_compose_url g url n request ap = Some (False, url')"
proof (cases "length (base_url g @ request_path (conf_paths conf)) < n")
  case True
  have s: "NUL \<notin> set s"
  proof (cases "args_fmt conf")
    case Null
    then show ?thesis using assms table_facts [of request conf] base_url_no_NUL [of g]
      by (auto simp: full_url_def dest!: in_set_butlastD)
  next
    case (Ptr fmt)
    then show ?thesis using assms table_facts [of request conf] base_url_no_NUL [of g] c_format_no_NUL [of fmt ap]
      by (auto simp: full_url_def)
  qed
  have "c_str (url_state (take (n - 1) s) n (drop n url)) = Some (take (n - 1) s)"
    using s assms(2) by (intro c_str_url_state) (auto dest: in_set_takeD)
  then show ?thesis
    using req_compose_url_cases [of request conf n url "drop n url" g ap s] assms True by simp
next
  case False
  then show ?thesis
    using req_compose_url_cases [of request conf n url "drop n url" g ap s] assms by simp
qed

theorem req_compose_url_result_witness:
  "\<exists>url'. req_compose_url (clear_config\<lparr> ver := 1 \<rparr>) (replicate 80 NUL) 80 REQ_GET_ACTIONS_BY_ADDR
      [A_str ''io1'', A_uint 0, A_uint 10] = Some (True, url') \<and>
    c_str url' = Some ''https://pharos.iotex.io/v1/actions/addr/io1?start=0&count=10''"
proof -
  let ?conf = "\<lparr> conf_req = REQ_GET_ACTIONS_BY_ADDR, conf_paths = [''actions'', ''addr''], args_fmt = Ptr ''%s?start=%u&count=%u'' \<rparr>"
  have c: "request_conf REQ_GET_ACTIONS_BY_ADDR = Some ?conf" by (simp add: request_conf_def g_req_configs_def)
  have b: "base_url (clear_config\<lparr> ver := 1 \<rparr>) = ''https://pharos.iotex.io/v1/''"
    by code_simp
  have f: "full_url (clear_config\<lparr> ver := 1 \<rparr>) ?conf [A_str ''io1'', A_uint 0, A_uint 10] =
      Some ''https://pharos.iotex.io/v1/actions/addr/io1?start=0&count=10''"
    unfolding full_url_def b by code_simp
  show ?thesis
    using req_compose_url_result [OF c _ _ f, of 80 "replicate 80 NUL"] unfolding b by (simp add: request_path_def) blast
qed

text \<open>C34: A request whose answer comes in non-empty chunks without NUL makes exactly one transfer, with the request's URL and the certificate settings of the
  configuration, and none if libcurl cannot be initialised. It returns 0 if the transfer succeeds, every allocation that the chunks ask for is granted, and the
  data with its NUL fits the stated size of the buffer; then the buffer starts with the concatenated chunks as a C string, and what lies behind is left as it was. In every
  other case it returns -1 and leaves the buffer alone. The received data has been freed on return, unless the transfer failed after
  delivering all its chunks: then it is leaked.\<close>

theorem req_basic_request_result:
  assumes alloc: "alloc_ok malloc realloc" and max: "response_max_sz \<le> length response"
    and p: "perform sent (request_options g request is_post) = (chunks, ok)" and c: "[] \<notin> set chunks" "NUL \<notin> set (concat chunks)"
  shows "if \<not> easy_init
    then req_basic_request malloc realloc easy_init perform g request response response_max_sz is_post sent =
      Some (- 1, response, \<lparr> rdata = Null, rlen = 0 \<rparr>, sent)
    else \<exists>r response' res. req_basic_request malloc realloc easy_init perform g request response response_max_sz is_post sent =
        Some (r, response', res, sent @ [request_options g request is_post]) \<and>
      (if ok \<and> granted malloc realloc [] chunks \<and> length (concat chunks) < response_max_sz
       then r = 0 \<and> c_str response' = Some (concat chunks) \<and> length response' = length response \<and>
         drop (length (concat chunks) + 1) response' = drop (length (concat chunks) + 1) response
       else r = - 1 \<and> response' = response) \<and>
      rdata res = (if \<not> ok \<and> granted malloc realloc [] chunks \<and> chunks \<noteq> [] then Ptr (concat chunks) else Null)"
  by (rule req_basic_request_cases [where perform = perform and sent = sent and g = g and request = request, OF assms])

definition plain_malloc :: "nat \<Rightarrow> string ptr" where "plain_malloc n = Ptr (replicate n NUL)"

definition plain_realloc :: "string \<Rightarrow> nat \<Rightarrow> string ptr" where
  "plain_realloc old n = Ptr (take n old @ replicate (n - length old) NUL)"

lemma alloc_ok_plain: "alloc_ok plain_malloc plain_realloc"
proof -
  have "take (length old) (take n old @ replicate (n - length old) NUL) = take n old" for old n
    by (cases "n \<le> length old") simp_all
  then show ?thesis by (auto simp: alloc_ok_def plain_malloc_def plain_realloc_def)
qed

theorem req_basic_request_result_witness:
  "\<exists>response' res. req_basic_request plain_malloc plain_realloc True (\<lambda>_ _. ([''ab'', ''c''], True)) clear_config ''u'' (replicate 5 CHR ''.'') 5 False []
      = Some (0, response', res, [request_options clear_config ''u'' False]) \<and>
    c_str response' = Some ''abc'' \<and> drop 4 response' = ''.'' \<and> rdata res = Null"
  using req_basic_request_result [OF alloc_ok_plain, where response_max_sz = 5 and response = "replicate 5 CHR ''.''" and sent = "[]" and g = clear_config
      and request = "''u''" and is_post = False and perform = "\<lambda>_ _. ([''ab'', ''c''], True)" and chunks = "[''ab'', ''c'']" and ok = True and easy_init = True]
  by (auto simp: plain_malloc_def plain_realloc_def simp flip: numeral_2_eq_2)

text \<open>The leak: a transfer that fails after its data has arrived.\<close>

lemma req_basic_request_leak:
  "\<exists>response' res. req_basic_request plain_malloc plain_realloc True (\<lambda>_ _. ([''ab'', ''c''], False)) clear_config ''u'' (replicate 5 CHR ''.'') 5 False []
      = Some (- 1, response', res, [request_options clear_config ''u'' False]) \<and> rdata res = Ptr ''abc''"
  using req_basic_request_cases [OF alloc_ok_plain, where response_max_sz = 5 and response = "replicate 5 CHR ''.''" and sent = "[]" and g = clear_config
      and request = "''u''" and is_post = False and perform = "\<lambda>_ _. ([''ab'', ''c''], False)" and chunks = "[''ab'', ''c'']" and ok = False and easy_init = True]
  by (auto simp: plain_malloc_def plain_realloc_def)

end
