(* ===== verification/Jsmn.thy ===== *)
theory Jsmn
  imports Emb_Prelude
begin

text \<open>
  \<open>src/jsmn.h\<close>: the JSON tokenizer, as the parser of responses uses it: with a token array, without
  parent links, in non-strict mode. The text is the memory object \<open>js\<close> and the stated length
  \<open>len\<close>; the token array is a list whose length is \<open>num_tokens\<close>. Positions are natural numbers: the
  text is shorter than \<open>2 ^ 31\<close>.
\<close>

datatype jsmntype_t = JSMN_UNDEFINED | JSMN_OBJECT | JSMN_ARRAY | JSMN_STRING | JSMN_PRIMITIVE

definition JSMN_ERROR_NOMEM :: int where "JSMN_ERROR_NOMEM = -1"
definition JSMN_ERROR_INVAL :: int where "JSMN_ERROR_INVAL = -2"
definition JSMN_ERROR_PART :: int where "JSMN_ERROR_PART = -3"

lemmas jsmn_errors = JSMN_ERROR_NOMEM_def JSMN_ERROR_INVAL_def JSMN_ERROR_PART_def

record jsmntok_t =
  tok_type :: jsmntype_t
  tok_start :: int
  tok_end :: int
  tok_size :: int

record jsmn_parser =
  pos :: nat
  toknext :: nat
  toksuper :: int

definition jsmn_init :: jsmn_parser where
  "jsmn_init = \<lparr> pos = 0, toknext = 0, toksuper = -1 \<rparr>"

text \<open>The index of the fresh token, and the state after taking it.\<close>

definition jsmn_alloc_token :: "jsmn_parser \<Rightarrow> jsmntok_t list \<Rightarrow> (nat \<times> jsmn_parser \<times> jsmntok_t list) option" where
  "jsmn_alloc_token parser tokens =
     (if length tokens \<le> toknext parser then None
      else let i = toknext parser in
        Some (i, parser\<lparr> toknext := i + 1 \<rparr>,
          tokens[i := (tokens ! i)\<lparr> tok_start := -1, tok_end := -1, tok_size := 0 \<rparr>]))"

definition jsmn_fill_token :: "jsmntype_t \<Rightarrow> nat \<Rightarrow> nat \<Rightarrow> jsmntok_t" where
  "jsmn_fill_token ty start e = \<lparr> tok_type = ty, tok_start = int start, tok_end = int e, tok_size = 0 \<rparr>"

section \<open>Primitives and strings\<close>

definition is_blank :: "char \<Rightarrow> bool" where
  "is_blank c \<longleftrightarrow> code c = 9 \<or> code c = 13 \<or> code c = 10 \<or> code c = 32"

definition ends_primitive :: "char \<Rightarrow> bool" where
  "ends_primitive c \<longleftrightarrow> c = CHR '':'' \<or> is_blank c \<or> c = CHR '','' \<or> c = CHR '']'' \<or> c = CHR ''}''"

text \<open>The scan of a primitive: an error, or the position of the character that ends it.\<close>

function scan_primitive :: "string \<Rightarrow> nat \<Rightarrow> nat \<Rightarrow> (int + nat) option" where
  "scan_primitive js len p =
     (if p < len then do {
        c \<leftarrow> mem_get js p;
        if c = NUL \<or> ends_primitive c then Some (Inr p)
        else if code c < 32 \<or> 127 \<le> code c then Some (Inl JSMN_ERROR_INVAL)
        else scan_primitive js len (p + 1)
      } else Some (Inr p))"
  by pat_completeness auto

termination scan_primitive
  by (relation "measure (\<lambda>(_, len, p). len - p)") auto

declare scan_primitive.simps [simp del]

definition jsmn_parse_primitive ::
  "jsmn_parser \<Rightarrow> string \<Rightarrow> nat \<Rightarrow> jsmntok_t list \<Rightarrow> (int \<times> jsmn_parser \<times> jsmntok_t list) option" where
  "jsmn_parse_primitive parser js len tokens = do {
     let start = pos parser;
     r \<leftarrow> scan_primitive js len start;
     case r of
       Inl e \<Rightarrow> Some (e, parser, tokens)
     | Inr p \<Rightarrow>
         (case jsmn_alloc_token parser tokens of
            None \<Rightarrow> Some (JSMN_ERROR_NOMEM, parser, tokens)
          | Some (i, parser, tokens) \<Rightarrow>
              Some (0, parser\<lparr> pos := p - 1 \<rparr>, tokens[i := jsmn_fill_token JSMN_PRIMITIVE start p]))
   }"

definition is_hex_digit :: "char \<Rightarrow> bool" where
  "is_hex_digit c \<longleftrightarrow> (48 \<le> code c \<and> code c \<le> 57) \<or> (65 \<le> code c \<and> code c \<le> 70) \<or> (97 \<le> code c \<and> code c \<le> 102)"

text \<open>The loop over the four digits of \<open>\uXXXX\<close>, \<open>n\<close> of them left.\<close>

fun scan_hex :: "string \<Rightarrow> nat \<Rightarrow> nat \<Rightarrow> nat \<Rightarrow> (int + nat) option" where
  "scan_hex js len p 0 = Some (Inr p)"
| "scan_hex js len p (Suc n) =
     (if p < len then do {
        c \<leftarrow> mem_get js p;
        if c = NUL then Some (Inr p)
        else if \<not> is_hex_digit c then Some (Inl JSMN_ERROR_INVAL)
        else scan_hex js len (p + 1) n
      } else Some (Inr p))"

lemma scan_hex_ge: "scan_hex js len p n = Some (Inr q) \<Longrightarrow> p \<le> q"
  by (induction js len p n rule: scan_hex.induct)
    (fastforce simp: bind_eq_Some_conv split: if_splits)+

definition is_escape :: "char \<Rightarrow> bool" where
  "is_escape d \<longleftrightarrow> d \<in> {CHR 0x22, CHR ''/'', CHR 0x5C, CHR ''b'', CHR ''f'', CHR ''r'', CHR ''n'', CHR ''t''}"

text \<open>The scan of a string from behind its opening quote: an error, or the position of the closing one.\<close>

function scan_string :: "string \<Rightarrow> nat \<Rightarrow> nat \<Rightarrow> (int + nat) option" where
  "scan_string js len p =
     (if p < len then do {
        c \<leftarrow> mem_get js p;
        if c = NUL then Some (Inl JSMN_ERROR_PART)
        else if c = CHR 0x22 then Some (Inr p)
        else if c = CHR 0x5C \<and> p + 1 < len then do {
          d \<leftarrow> mem_get js (p + 1);
          if is_escape d
          then scan_string js len (p + 2)
          else if d = CHR ''u'' then do {
            r \<leftarrow> scan_hex js len (p + 2) 4;
            case r of
              Inl e \<Rightarrow> Some (Inl e)
            | Inr q \<Rightarrow> scan_string js len q
          }
          else Some (Inl JSMN_ERROR_INVAL)
        }
        else scan_string js len (p + 1)
      } else Some (Inl JSMN_ERROR_PART))"
  by pat_completeness auto

termination scan_string
  by (relation "measure (\<lambda>(_, len, p). len - p)") (auto dest!: scan_hex_ge)

declare scan_string.simps [simp del]

definition jsmn_parse_string ::
  "jsmn_parser \<Rightarrow> string \<Rightarrow> nat \<Rightarrow> jsmntok_t list \<Rightarrow> (int \<times> jsmn_parser \<times> jsmntok_t list) option" where
  "jsmn_parse_string parser js len tokens = do {
     let start = pos parser;
     r \<leftarrow> scan_string js len (start + 1);
     case r of
       Inl e \<Rightarrow> Some (e, parser, tokens)
     | Inr p \<Rightarrow>
         (case jsmn_alloc_token parser tokens of
            None \<Rightarrow> Some (JSMN_ERROR_NOMEM, parser, tokens)
          | Some (i, parser, tokens) \<Rightarrow>
              Some (0, parser\<lparr> pos := p \<rparr>, tokens[i := jsmn_fill_token JSMN_STRING (start + 1) p]))
   }"

section \<open>The parser loop\<close>

definition is_open :: "jsmntok_t \<Rightarrow> bool" where
  "is_open token \<longleftrightarrow> tok_start token \<noteq> -1 \<and> tok_end token = -1"

text \<open>The backward searches: the last index below \<open>n\<close> whose token satisfies \<open>P\<close>.\<close>

fun search_back :: "(jsmntok_t \<Rightarrow> bool) \<Rightarrow> jsmntok_t list \<Rightarrow> nat \<Rightarrow> nat option option" where
  "search_back P tokens 0 = Some None"
| "search_back P tokens (Suc i) = do {
     t \<leftarrow> mem_get tokens i;
     if P t then Some (Some i) else search_back P tokens i
   }"

text \<open>\<open>tokens[parser->toksuper].size++\<close>, where there is a superior token.\<close>

definition count_child :: "jsmn_parser \<Rightarrow> jsmntok_t list \<Rightarrow> jsmntok_t list option" where
  "count_child parser tokens =
     (if toksuper parser = -1 then Some tokens
      else do {
        t \<leftarrow> mem_get tokens (nat (toksuper parser));
        mem_put tokens (nat (toksuper parser)) (t\<lparr> tok_size := tok_size t + 1 \<rparr>)
      })"

definition open_bracket ::
  "jsmntype_t \<Rightarrow> jsmn_parser \<Rightarrow> jsmntok_t list \<Rightarrow> (int + jsmn_parser \<times> jsmntok_t list) option" where
  "open_bracket ty parser tokens =
     (case jsmn_alloc_token parser tokens of
        None \<Rightarrow> Some (Inl JSMN_ERROR_NOMEM)
      | Some (i, parser, tokens) \<Rightarrow> do {
          tokens \<leftarrow> count_child parser tokens;
          let tokens = tokens[i := (tokens ! i)\<lparr> tok_type := ty, tok_start := int (pos parser) \<rparr>];
          Some (Inr (parser\<lparr> toksuper := int (toknext parser) - 1 \<rparr>, tokens))
        })"

text \<open>After closing token \<open>i\<close>, the next search starts at \<open>i\<close> itself, which is no longer open.\<close>

definition close_bracket ::
  "jsmntype_t \<Rightarrow> jsmn_parser \<Rightarrow> jsmntok_t list \<Rightarrow> (int + jsmn_parser \<times> jsmntok_t list) option" where
  "close_bracket ty parser tokens = do {
     found \<leftarrow> search_back is_open tokens (toknext parser);
     case found of
       None \<Rightarrow> Some (Inl JSMN_ERROR_INVAL)
     | Some i \<Rightarrow>
         if tok_type (tokens ! i) \<noteq> ty then Some (Inl JSMN_ERROR_INVAL)
         else do {
           let tokens = tokens[i := (tokens ! i)\<lparr> tok_end := int (pos parser) + 1 \<rparr>];
           super \<leftarrow> search_back is_open tokens (i + 1);
           Some (Inr (parser\<lparr> toksuper := (case super of None \<Rightarrow> -1 | Some k \<Rightarrow> int k) \<rparr>, tokens))
         }
   }"

text \<open>A comma ends a value: the superior token is again the innermost open array or object.\<close>

definition is_container :: "jsmntok_t \<Rightarrow> bool" where
  "is_container t \<longleftrightarrow> tok_type t = JSMN_ARRAY \<or> tok_type t = JSMN_OBJECT"

definition comma :: "jsmn_parser \<Rightarrow> jsmntok_t list \<Rightarrow> jsmn_parser option" where
  "comma parser tokens =
     (if toksuper parser = -1 then Some parser
      else do {
        t \<leftarrow> mem_get tokens (nat (toksuper parser));
        if is_container t then Some parser
        else do {
          found \<leftarrow> search_back (\<lambda>t. is_container t \<and> is_open t) tokens (toknext parser);
          Some (case found of None \<Rightarrow> parser | Some i \<Rightarrow> parser\<lparr> toksuper := int i \<rparr>)
        }
      })"

text \<open>One round of the loop: \<open>Inl r\<close> returns \<open>r\<close>.\<close>

definition jsmn_step ::
  "string \<Rightarrow> nat \<Rightarrow> char \<Rightarrow> jsmn_parser \<Rightarrow> jsmntok_t list \<Rightarrow> nat \<Rightarrow> (int + jsmn_parser \<times> jsmntok_t list \<times> nat) option" where
  "jsmn_step js len c parser tokens count =
     (if c = CHR ''{'' \<or> c = CHR ''['' then do {
        r \<leftarrow> open_bracket (if c = CHR ''{'' then JSMN_OBJECT else JSMN_ARRAY) parser tokens;
        Some (map_sum id (\<lambda>(parser, tokens). (parser, tokens, count + 1)) r)
      }
      else if c = CHR ''}'' \<or> c = CHR '']'' then do {
        r \<leftarrow> close_bracket (if c = CHR ''}'' then JSMN_OBJECT else JSMN_ARRAY) parser tokens;
        Some (map_sum id (\<lambda>(parser, tokens). (parser, tokens, count)) r)
      }
      else if is_blank c then Some (Inr (parser, tokens, count))
      else if c = CHR '':'' then Some (Inr (parser\<lparr> toksuper := int (toknext parser) - 1 \<rparr>, tokens, count))
      else if c = CHR '','' then do {
        parser \<leftarrow> comma parser tokens;
        Some (Inr (parser, tokens, count))
      }
      else do {
        (r, parser, tokens) \<leftarrow>
          (if c = CHR 0x22 then jsmn_parse_string parser js len tokens
           else jsmn_parse_primitive parser js len tokens);
        if r < 0 then Some (Inl r)
        else do {
          tokens \<leftarrow> count_child parser tokens;
          Some (Inr (parser, tokens, count + 1))
        }
      })"

text \<open>The ways a scan goes on or ends, for proofs about its result.\<close>

lemma scan_string_cases:
  assumes "scan_string js len p = Some r"
  shows "r = Inl JSMN_ERROR_PART \<or> r = Inl JSMN_ERROR_INVAL
    \<or> r = Inr p \<and> p < len \<and> p < length js \<and> js ! p = CHR 0x22
    \<or> p < len \<and> scan_string js len (p + 1) = Some r
    \<or> p + 1 < len \<and> scan_string js len (p + 2) = Some r
    \<or> (\<exists>q. p + 1 < len \<and> scan_hex js len (p + 2) 4 = Some (Inr q) \<and> scan_string js len q = Some r)
    \<or> (\<exists>e. scan_hex js len (p + 2) 4 = Some (Inl e) \<and> r = Inl e)"
  using assms unfolding scan_string.simps [of js len p]
  by (auto simp: bind_eq_Some_conv mem_get_def simp del: scan_hex.simps split: if_splits sum.splits, metis sumE)

lemma scan_string_Inr:
  "scan_string js len p = Some (Inr q) \<Longrightarrow> p \<le> q \<and> q < len \<and> q < length js \<and> js ! q = CHR 0x22"
proof (induction "len - p" arbitrary: p rule: less_induct)
  case less
  then show ?case
    using scan_string_cases [OF less.prems] scan_hex_ge [of js len "p + 2" 4]
    by (auto simp del: scan_hex.simps dest!: less.hyps [rotated])
qed


lemma scan_primitive_Inr:
  "scan_primitive js len p = Some (Inr q) \<Longrightarrow> p \<le> q \<and> (p \<le> len \<longrightarrow> q \<le> len)"
proof (induction js len p rule: scan_primitive.induct)
  case (1 js len p)
  show ?case
  proof (cases "p < len")
    case True
    then obtain c where c: "mem_get js p = Some c" using "1.prems" by (auto simp: scan_primitive.simps [of js len p] bind_eq_Some_conv)
    show ?thesis
    proof (cases "c = NUL \<or> ends_primitive c \<or> code c < 32 \<or> 127 \<le> code c")
      case True
      then show ?thesis
        using \<open>p < len\<close> c "1.prems" by (auto simp: scan_primitive.simps [of js len p] split: if_splits)
    next
      case False
      then have "scan_primitive js len (p + 1) = Some (Inr q)"
        using \<open>p < len\<close> c "1.prems" by (simp add: scan_primitive.simps [of js len p])
      then show ?thesis using "1.IH" [OF \<open>p < len\<close> c] False \<open>p < len\<close> by auto
    qed
  qed (use "1.prems" in \<open>auto simp: scan_primitive.simps [of js len p]\<close>)
qed

lemma scan_primitive_progress:
  "scan_primitive js len p = Some (Inr q) \<Longrightarrow> p < len \<Longrightarrow> mem_get js p = Some c \<Longrightarrow> c \<noteq> NUL \<Longrightarrow> \<not> ends_primitive c \<Longrightarrow>
    p < q"
  using scan_primitive_Inr [of js len "p + 1" q]
  by (subst (asm) scan_primitive.simps) (auto split: if_splits)

text \<open>What the two token parsers may do.\<close>

lemma jsmn_alloc_token_Some:
  assumes "jsmn_alloc_token parser tokens = Some (i, parser', tokens')"
  shows "i = toknext parser \<and> i < length tokens \<and> parser' = parser\<lparr> toknext := i + 1 \<rparr> \<and>
    tokens' = tokens[i := (tokens ! i)\<lparr> tok_start := -1, tok_end := -1, tok_size := 0 \<rparr>]"
  using assms by (auto simp: jsmn_alloc_token_def Let_def split: if_splits)

lemma map_sum_Inr: "map_sum id f y = Inr z \<longleftrightarrow> (\<exists>a. y = Inr a \<and> f a = z)"
  by (cases y) auto

lemma map_sum_Inl: "map_sum id f y = Inl z \<longleftrightarrow> y = Inl z"
  by (cases y) auto

lemma scan_hex_Inl: "scan_hex js len p n = Some (Inl e) \<Longrightarrow> e < 0"
  by (induction js len p n rule: scan_hex.induct)
    (auto simp: bind_eq_Some_conv jsmn_errors split: if_splits)

lemma scan_string_Inl: "scan_string js len p = Some (Inl e) \<Longrightarrow> e < 0"
proof (induction "len - p" arbitrary: p rule: less_induct)
  case less
  then show ?case
    using scan_string_cases [OF less.prems] scan_hex_ge [of js len "p + 2" 4] scan_hex_Inl [of js len "p + 2" 4]
    by (auto simp: jsmn_errors simp del: scan_hex.simps dest!: less.hyps [rotated])
qed

lemma scan_primitive_Inl: "scan_primitive js len p = Some (Inl e) \<Longrightarrow> e < 0"
proof (induction js len p rule: scan_primitive.induct)
  case (1 js len p)
  then show ?case
    by (subst (asm) (2) scan_primitive.simps) (auto simp: bind_eq_Some_conv jsmn_errors split: if_splits)
qed

lemma jsmn_parse_string_cases:
  assumes "jsmn_parse_string parser js len tokens = Some (r, parser', tokens')"
  shows "r < 0 \<and> parser' = parser \<and> tokens' = tokens \<or>
    (\<exists>q. r = 0 \<and> scan_string js len (pos parser + 1) = Some (Inr q) \<and> toknext parser < length tokens \<and>
      parser' = parser\<lparr> toknext := toknext parser + 1, pos := q \<rparr> \<and>
      tokens' = tokens[toknext parser := jsmn_fill_token JSMN_STRING (pos parser + 1) q])"
proof -
  obtain s where s: "scan_string js len (pos parser + 1) = Some s"
    using assms by (auto simp: jsmn_parse_string_def Let_def bind_eq_Some_conv)
  show ?thesis
  proof (cases s)
    case (Inl e)
    then show ?thesis using assms s scan_string_Inl [of js len _ e] by (auto simp: jsmn_parse_string_def)
  next
    case (Inr q)
    then show ?thesis
      using assms s by (auto simp: jsmn_parse_string_def jsmn_errors split: option.splits dest!: jsmn_alloc_token_Some)
  qed
qed


lemma jsmn_parse_primitive_cases:
  assumes "jsmn_parse_primitive parser js len tokens = Some (r, parser', tokens')"
  shows "r < 0 \<and> parser' = parser \<and> tokens' = tokens \<or>
    (\<exists>q. r = 0 \<and> scan_primitive js len (pos parser) = Some (Inr q) \<and> toknext parser < length tokens \<and>
      parser' = parser\<lparr> toknext := toknext parser + 1, pos := q - 1 \<rparr> \<and>
      tokens' = tokens[toknext parser := jsmn_fill_token JSMN_PRIMITIVE (pos parser) q])"
proof -
  obtain s where s: "scan_primitive js len (pos parser) = Some s"
    using assms by (auto simp: jsmn_parse_primitive_def Let_def bind_eq_Some_conv)
  show ?thesis
  proof (cases s)
    case (Inl e)
    then show ?thesis using assms s scan_primitive_Inl [of js len _ e] by (auto simp: jsmn_parse_primitive_def)
  next
    case (Inr q)
    then show ?thesis
      using assms s by (auto simp: jsmn_parse_primitive_def jsmn_errors split: option.splits dest!: jsmn_alloc_token_Some)
  qed
qed

lemma close_bracket_Inr:
  assumes "close_bracket ty parser tokens = Some (Inr (p, t))"
  shows "\<exists>i super. search_back is_open tokens (toknext parser) = Some (Some i) \<and> tok_type (tokens ! i) = ty \<and>
    t = tokens[i := (tokens ! i)\<lparr> tok_end := int (pos parser) + 1 \<rparr>] \<and> search_back is_open t (i + 1) = Some super \<and>
    p = parser\<lparr> toksuper := (case super of None \<Rightarrow> -1 | Some k \<Rightarrow> int k) \<rparr>"
proof -
  obtain found where f: "search_back is_open tokens (toknext parser) = Some found"
    using assms by (cases "search_back is_open tokens (toknext parser)") (simp_all add: close_bracket_def)
  show ?thesis
  proof (cases found)
    case (Some i)
    let ?t = "tokens[i := (tokens ! i)\<lparr> tok_end := int (pos parser) + 1 \<rparr>]"
    have ty: "tok_type (tokens ! i) = ty"
      using assms f Some by (simp add: close_bracket_def del: search_back.simps split: if_split_asm)
    obtain super where "search_back is_open ?t (i + 1) = Some super"
      using assms f Some ty by (cases "search_back is_open ?t (i + 1)") (simp_all add: close_bracket_def Let_def del: search_back.simps)
    then show ?thesis
      using assms f Some ty by (auto simp: close_bracket_def Let_def simp del: search_back.simps)
  qed (use assms f in \<open>simp add: close_bracket_def\<close>)
qed

text \<open>The position never goes back, so the loop ends.\<close>

lemma jsmn_step_pos:
  assumes step: "jsmn_step js len c parser tokens count = Some (Inr (parser', tokens', count'))"
    and c: "pos parser < len" "mem_get js (pos parser) = Some c" "c \<noteq> NUL"
  shows "pos parser \<le> pos parser'"
proof -
  have s: "pos parser \<le> pos p" if "jsmn_parse_string parser js len tokens = Some (r, p, t)" for r p t
    using jsmn_parse_string_cases [OF that] by (auto dest: scan_string_Inr)
  have pr: "pos parser \<le> pos p"
    if "jsmn_parse_primitive parser js len tokens = Some (r, p, t)" "\<not> ends_primitive c" for r p t
    using jsmn_parse_primitive_cases [OF that(1)] scan_primitive_progress [OF _ c that(2)] by fastforce
  have open_pos: "pos p = pos parser" if "open_bracket ty parser tokens = Some (Inr (p, t))" for ty p t
    using that by (auto simp: open_bracket_def Let_def bind_eq_Some_conv split: option.split_asm dest!: jsmn_alloc_token_Some)
  have close_pos: "pos p = pos parser" if "close_bracket ty parser tokens = Some (Inr (p, t))" for ty p t
    using close_bracket_Inr [OF that] by auto
  have comma_pos: "pos p = pos parser" if "comma parser tokens = Some p" for p
    using that by (auto simp: comma_def bind_eq_Some_conv simp del: search_back.simps split: option.split_asm if_split_asm)
  consider (op) "c = CHR ''{'' \<or> c = CHR ''[''" | (cl) "c = CHR ''}'' \<or> c = CHR '']''" | (bl) "is_blank c"
    | (co) "c = CHR '':''" | (cm) "c = CHR '',''" | (st) "c = CHR 0x22"
    | (pm) "\<not> (c = CHR ''{'' \<or> c = CHR ''['')" "\<not> (c = CHR ''}'' \<or> c = CHR '']'')" "\<not> is_blank c" "c \<noteq> CHR '':''" "c \<noteq> CHR '',''" "c \<noteq> CHR 0x22"
    by blast
  then show ?thesis
  proof cases
    case op
    then show ?thesis
      using step open_pos [of _ parser' tokens']
      by (auto simp: jsmn_step_def bind_eq_Some_conv map_sum_Inr)
  next
    case cl
    then show ?thesis
      using step close_pos [of _ parser' tokens']
      by (auto simp: jsmn_step_def bind_eq_Some_conv map_sum_Inr)
  next
    case bl
    then have "c \<noteq> CHR ''{''" "c \<noteq> CHR ''[''" "c \<noteq> CHR ''}''" "c \<noteq> CHR '']''" by (auto simp: is_blank_def)
    then show ?thesis using bl step by (simp add: jsmn_step_def)
  next
    case co
    then show ?thesis using step by (auto simp: jsmn_step_def is_blank_def)
  next
    case cm
    then show ?thesis using step comma_pos by (auto simp: jsmn_step_def is_blank_def bind_eq_Some_conv)
  next
    case st
    then show ?thesis using step s by (auto simp: jsmn_step_def is_blank_def bind_eq_Some_conv split: if_split_asm)
  next
    case pm
    then have "\<not> ends_primitive c" by (auto simp: ends_primitive_def)
    with pm show ?thesis using step pr by (auto simp: jsmn_step_def bind_eq_Some_conv split: if_split_asm)
  qed
qed


text \<open>The loop: \<open>Inl\<close> carries the value returned from inside it.\<close>

function jsmn_loop ::
  "string \<Rightarrow> nat \<Rightarrow> jsmn_parser \<Rightarrow> jsmntok_t list \<Rightarrow> nat \<Rightarrow> (int + jsmn_parser \<times> jsmntok_t list \<times> nat) option" where
  "jsmn_loop js len parser tokens count =
     (if pos parser < len then do {
        c \<leftarrow> mem_get js (pos parser);
        if c = NUL then Some (Inr (parser, tokens, count))
        else do {
          r \<leftarrow> jsmn_step js len c parser tokens count;
          case r of
            Inl e \<Rightarrow> Some (Inl e)
          | Inr (parser, tokens, count) \<Rightarrow> jsmn_loop js len (parser\<lparr> pos := pos parser + 1 \<rparr>) tokens count
        }
      } else Some (Inr (parser, tokens, count)))"
  by pat_completeness auto

lemma jsmn_loop_progress:
  "pos parser < len \<Longrightarrow> mem_get js (pos parser) = Some c \<Longrightarrow> c \<noteq> NUL \<Longrightarrow>
    jsmn_step js len c parser tokens count = Some (Inr (p, t, n)) \<Longrightarrow> len - Suc (pos p) < len - pos parser"
  using jsmn_step_pos [of js len c parser tokens count p t n] by simp

termination jsmn_loop
  by (relation "measure (\<lambda>(_, len, parser, _). len - pos parser)") (auto intro!: jsmn_loop_progress)

declare jsmn_loop.simps [simp del]

text \<open>\<open>jsmn_parse\<close>: the value returned and the tokens; a bracket left open makes the text partial.\<close>

definition jsmn_parse ::
  "jsmn_parser \<Rightarrow> string \<Rightarrow> nat \<Rightarrow> jsmntok_t list \<Rightarrow> (int \<times> jsmntok_t list) option" where
  "jsmn_parse parser js len tokens = do {
     r \<leftarrow> jsmn_loop js len parser tokens (toknext parser);
     case r of
       Inl e \<Rightarrow> Some (e, tokens)
     | Inr (parser, tokens, count) \<Rightarrow> do {
         found \<leftarrow> search_back is_open tokens (toknext parser);
         Some (case found of None \<Rightarrow> int count | Some _ \<Rightarrow> JSMN_ERROR_PART, tokens)
       }
   }"

section \<open>The invariant of the parser\<close>

text \<open>What a token says about the text, once it is closed and while its container is open.\<close>

definition char_at :: "string \<Rightarrow> int \<Rightarrow> char \<Rightarrow> bool" where
  "char_at js i c \<longleftrightarrow> 0 \<le> i \<and> nat i < length js \<and> js ! nat i = c"

definition closed_tok :: "string \<Rightarrow> nat \<Rightarrow> jsmntok_t \<Rightarrow> bool" where
  "closed_tok js len t \<longleftrightarrow> 0 \<le> tok_start t \<and> tok_start t \<le> tok_end t \<and> tok_end t \<le> int len \<and>
     (case tok_type t of
        JSMN_UNDEFINED \<Rightarrow> False
      | JSMN_OBJECT \<Rightarrow> char_at js (tok_start t) CHR ''{'' \<and> char_at js (tok_end t - 1) CHR ''}''
      | JSMN_ARRAY \<Rightarrow> char_at js (tok_start t) CHR ''['' \<and> char_at js (tok_end t - 1) CHR '']''
      | JSMN_STRING \<Rightarrow> char_at js (tok_start t - 1) CHR 0x22 \<and> char_at js (tok_end t) CHR 0x22
      | JSMN_PRIMITIVE \<Rightarrow> tok_start t < tok_end t)"

definition open_tok :: "string \<Rightarrow> nat \<Rightarrow> jsmntok_t \<Rightarrow> bool" where
  "open_tok js p t \<longleftrightarrow> is_open t \<and> 0 \<le> tok_start t \<and> tok_start t \<le> int p \<and>
     (tok_type t = JSMN_OBJECT \<and> char_at js (tok_start t) CHR ''{'' \<or>
      tok_type t = JSMN_ARRAY \<and> char_at js (tok_start t) CHR ''['')"

definition parser_inv :: "string \<Rightarrow> nat \<Rightarrow> jsmn_parser \<Rightarrow> jsmntok_t list \<Rightarrow> nat \<Rightarrow> nat \<Rightarrow> bool" where
  "parser_inv js len parser tokens n count \<longleftrightarrow>
     length tokens = n \<and> toknext parser \<le> n \<and> count = toknext parser \<and>
     -1 \<le> toksuper parser \<and> toksuper parser < int (toknext parser) \<and>
     (\<forall>i < toknext parser. closed_tok js len (tokens ! i) \<or> open_tok js (pos parser) (tokens ! i))"

lemma closed_not_open: "closed_tok js len t \<Longrightarrow> \<not> is_open t"
  by (auto simp: closed_tok_def is_open_def)

lemma size_irrelevant [simp]:
  "closed_tok js len (t\<lparr> tok_size := k \<rparr>) = closed_tok js len t"
  "open_tok js p (t\<lparr> tok_size := k \<rparr>) = open_tok js p t"
  by (cases "tok_type t"; simp add: closed_tok_def) (simp add: open_tok_def is_open_def)

lemma open_tok_mono: "open_tok js p t \<Longrightarrow> p \<le> q \<Longrightarrow> open_tok js q t"
  by (auto simp: open_tok_def)

lemma search_back_total:
  "n \<le> length tokens \<Longrightarrow>
    \<exists>found. search_back P tokens n = Some found \<and>
      (case found of None \<Rightarrow> \<forall>i < n. \<not> P (tokens ! i)
       | Some i \<Rightarrow> i < n \<and> P (tokens ! i) \<and> (\<forall>j. i < j \<and> j < n \<longrightarrow> \<not> P (tokens ! j)))"
proof (induction n)
  case (Suc n)
  then show ?case
    by (cases "P (tokens ! n)") (auto simp: less_Suc_eq split: option.splits)
qed simp

lemma count_child_inv:
  assumes "parser_inv js len parser tokens n count"
  shows "\<exists>tokens'. count_child parser tokens = Some tokens' \<and> parser_inv js len parser tokens' n count \<and>
    (\<forall>i < n. \<exists>k. tokens' ! i = (tokens ! i)\<lparr> tok_size := k \<rparr>)"
proof (cases "toksuper parser = -1")
  case True
  have "\<exists>k. t = t\<lparr> tok_size := k \<rparr>" for t :: jsmntok_t
    by (rule exI [of _ "tok_size t"]) simp
  then show ?thesis using assms True by (simp add: count_child_def) 
next
  case False
  let ?i = "nat (toksuper parser)"
  have i: "?i < toknext parser" "?i < length tokens" using assms False by (auto simp: parser_inv_def)
  have "\<exists>k. tokens[?i := (tokens ! ?i)\<lparr> tok_size := m \<rparr>] ! j = (tokens ! j)\<lparr> tok_size := k \<rparr>" if "j < n" for m j
    using i by (cases "j = ?i") (auto intro: exI [of _ m] exI [of _ "tok_size (tokens ! j)"])
  moreover have "parser_inv js len parser (tokens[?i := (tokens ! ?i)\<lparr> tok_size := m \<rparr>]) n count" for m
    using assms by (auto simp: parser_inv_def nth_list_update split: if_splits)
  ultimately show ?thesis using i False by (simp add: count_child_def mem_put_def)
qed


lemma alloc_count_inv:
  assumes inv: "parser_inv js len parser tokens n count" and room: "toknext parser < n"
    and t: "closed_tok js len t \<or> open_tok js (pos parser) t" and p: "pos parser \<le> p"
  shows "parser_inv js len (parser\<lparr> toknext := toknext parser + 1, pos := p \<rparr>) (tokens[toknext parser := t]) n (count + 1)"
  using assms by (auto simp: parser_inv_def nth_list_update less_Suc_eq dest: open_tok_mono split: if_splits)

lemma open_bracket_inv:
  assumes inv: "parser_inv js len parser tokens n count" and c: "pos parser < length js" "js ! pos parser = c"
    and ty: "ty = JSMN_OBJECT \<and> c = CHR ''{'' \<or> ty = JSMN_ARRAY \<and> c = CHR ''[''"
  shows "\<exists>r. open_bracket ty parser tokens = Some r \<and>
    (case r of Inl e \<Rightarrow> e < 0 | Inr (p, t) \<Rightarrow> pos p = pos parser \<and> parser_inv js len p t n (count + 1))"
proof (cases "toknext parser < n")
  case False
  then show ?thesis using inv by (simp add: open_bracket_def jsmn_alloc_token_def parser_inv_def jsmn_errors)
next
  case True
  let ?i = "toknext parser" and ?p = "parser\<lparr> toknext := toknext parser + 1 \<rparr>"
  let ?t0 = "(tokens ! ?i)\<lparr> tok_start := -1, tok_end := -1, tok_size := 0 \<rparr>"
  have alloc: "jsmn_alloc_token parser tokens = Some (?i, ?p, tokens[?i := ?t0])"
    using True inv by (simp add: jsmn_alloc_token_def parser_inv_def Let_def)
  have inv0: "parser_inv js len parser (tokens[?i := ?t0]) n count"
    using inv by (simp add: parser_inv_def nth_list_update)
  then obtain t where t: "count_child parser (tokens[?i := ?t0]) = Some t" "parser_inv js len parser t n count"
    "\<forall>i < n. \<exists>k. t ! i = (tokens[?i := ?t0] ! i)\<lparr> tok_size := k \<rparr>"
    using count_child_inv by blast
  have cc: "count_child ?p = count_child parser" by (simp add: count_child_def fun_eq_iff)
  obtain k where k: "t ! ?i = ?t0\<lparr> tok_size := k \<rparr>"
    using t(3) True inv by (auto simp: parser_inv_def)
  let ?new = "(t ! ?i)\<lparr> tok_type := ty, tok_start := int (pos parser) \<rparr>"
  have new: "open_tok js (pos parser) ?new"
    using ty c by (auto simp: k open_tok_def is_open_def char_at_def)
  have "parser_inv js len (?p\<lparr> toksuper := int ?i \<rparr>) (t[?i := ?new]) n (count + 1)"
    using t(2) True new by (auto simp: parser_inv_def nth_list_update less_Suc_eq)
  then show ?thesis using alloc t(1) cc by (simp add: open_bracket_def)
qed

lemma close_bracket_inv:
  assumes inv: "parser_inv js len parser tokens n count" and c: "pos parser < len" "len \<le> length js" "js ! pos parser = c"
    and ty: "ty = JSMN_OBJECT \<and> c = CHR ''}'' \<or> ty = JSMN_ARRAY \<and> c = CHR '']''"
  shows "\<exists>r. close_bracket ty parser tokens = Some r \<and>
    (case r of Inl e \<Rightarrow> e < 0 | Inr (p, t) \<Rightarrow> pos p = pos parser \<and> parser_inv js len p t n count)"
proof -
  have tn: "toknext parser \<le> length tokens" using inv by (simp add: parser_inv_def)
  obtain found where f: "search_back is_open tokens (toknext parser) = Some found"
    "case found of None \<Rightarrow> True | Some i \<Rightarrow> i < toknext parser \<and> is_open (tokens ! i)"
    using search_back_total [OF tn, of is_open] by (auto split: option.splits)
  show ?thesis
  proof (cases found)
    case None
    then show ?thesis using f by (simp add: close_bracket_def jsmn_errors)
  next
    case (Some i)
    show ?thesis
    proof (cases "tok_type (tokens ! i) = ty")
      case False
      then show ?thesis using f Some by (simp add: close_bracket_def jsmn_errors)
    next
      case True
      have i: "i < toknext parser" "i < n" "open_tok js (pos parser) (tokens ! i)"
        using f Some inv closed_not_open by (auto simp: parser_inv_def)
      let ?new = "(tokens ! i)\<lparr> tok_end := int (pos parser) + 1 \<rparr>"
      let ?t = "tokens[i := ?new]"
      have "closed_tok js len ?new"
        using i(3) True ty c by (auto simp: closed_tok_def open_tok_def char_at_def)
      then have inv': "parser_inv js len parser ?t n count"
        using inv i by (auto simp: parser_inv_def nth_list_update)
      have "i + 1 \<le> length ?t" using i inv by (simp add: parser_inv_def)
      then obtain super where s: "search_back is_open ?t (i + 1) = Some super"
        "case super of None \<Rightarrow> True | Some k \<Rightarrow> k < i + 1"
        using search_back_total [of "i + 1" ?t is_open] by (auto simp del: search_back.simps split: option.splits)
      have "parser_inv js len (parser\<lparr> toksuper := (case super of None \<Rightarrow> -1 | Some k \<Rightarrow> int k) \<rparr>) ?t n count"
        using inv' s(2) i(1) by (auto simp: parser_inv_def split: option.splits)
      then show ?thesis
        using f(1) Some True s(1) by (simp add: close_bracket_def Let_def del: search_back.simps)
    qed
  qed
qed

lemma comma_inv:
  assumes inv: "parser_inv js len parser tokens n count"
  shows "\<exists>p. comma parser tokens = Some p \<and> pos p = pos parser \<and> parser_inv js len p tokens n count"
proof (cases "toksuper parser = -1")
  case False
  then have i: "nat (toksuper parser) < length tokens" using inv by (auto simp: parser_inv_def)
  have tn: "toknext parser \<le> length tokens" using inv by (simp add: parser_inv_def)
  obtain found where f: "search_back (\<lambda>t. is_container t \<and> is_open t) tokens (toknext parser) = Some found"
    "case found of None \<Rightarrow> True | Some i \<Rightarrow> i < toknext parser"
    using search_back_total [OF tn, of "\<lambda>t. is_container t \<and> is_open t"] by (auto split: option.splits)
  then show ?thesis using inv False i by (auto simp: comma_def parser_inv_def split: option.splits)
qed (use inv in \<open>simp add: comma_def\<close>)

lemma scan_hex_total: "len \<le> length js \<Longrightarrow> scan_hex js len p n \<noteq> None"
  by (induction js len p n rule: scan_hex.induct) auto

lemma scan_string_total: "len \<le> length js \<Longrightarrow> scan_string js len p \<noteq> None"
proof (induction "len - p" arbitrary: p rule: less_induct)
  case less
  have ih: "scan_string js len q \<noteq> None" if "p < q" "p < len" for q
    using less.hyps [of q] less.prems that by simp
  obtain h where h: "scan_hex js len (p + 2) 4 = Some h" using scan_hex_total [OF less.prems] by blast
  show ?case
    using less.prems ih [of "p + 1"] ih [of "p + 2"] ih [of "projr h"] h scan_hex_ge [of js len "p + 2" 4]
    by (subst scan_string.simps) (auto simp del: scan_hex.simps split: sum.split)
qed

lemma scan_primitive_total: "len \<le> length js \<Longrightarrow> scan_primitive js len p \<noteq> None"
proof (induction "len - p" arbitrary: p rule: less_induct)
  case less
  then show ?case
    using less.hyps [of "p + 1"] by (subst scan_primitive.simps) auto
qed


text \<open>A string or a primitive: the token it makes, and its being counted as a child.\<close>

lemma token_inv:
  assumes inv: "parser_inv js len parser tokens n count" and len: "len \<le> length js"
    and c: "pos parser < len" "js ! pos parser = c" "c \<noteq> NUL" "\<not> ends_primitive c"
  shows "\<exists>r p t. (if c = CHR 0x22 then jsmn_parse_string parser js len tokens else jsmn_parse_primitive parser js len tokens) =
      Some (r, p, t) \<and> (r < 0 \<or> parser_inv js len p t n (count + 1))"
proof (cases "c = CHR 0x22")
  case True
  obtain s where s: "scan_string js len (pos parser + 1) = Some s" using scan_string_total [OF len] by blast
  have "jsmn_parse_string parser js len tokens \<noteq> None"
    using s by (auto simp: jsmn_parse_string_def Let_def split: sum.split option.split)
  then obtain r p t where r: "jsmn_parse_string parser js len tokens = Some (r, p, t)" by auto
  have "parser_inv js len p t n (count + 1)" if "\<not> r < 0"
  proof -
    from that jsmn_parse_string_cases [OF r] obtain q where q: "scan_string js len (pos parser + 1) = Some (Inr q)"
      "toknext parser < length tokens" "p = parser\<lparr> toknext := toknext parser + 1, pos := q \<rparr>"
      "t = tokens[toknext parser := jsmn_fill_token JSMN_STRING (pos parser + 1) q]" by auto
    note sc = scan_string_Inr [OF q(1)]
    have "closed_tok js len (jsmn_fill_token JSMN_STRING (pos parser + 1) q)"
      using sc c len True by (auto simp: closed_tok_def jsmn_fill_token_def char_at_def)
    then show ?thesis using alloc_count_inv [OF inv, of _ q] q sc inv by (simp add: parser_inv_def)
  qed
  then show ?thesis using True r by auto
next
  case False
  obtain s where s: "scan_primitive js len (pos parser) = Some s" using scan_primitive_total [OF len] by blast
  have "jsmn_parse_primitive parser js len tokens \<noteq> None"
    using s by (auto simp: jsmn_parse_primitive_def Let_def split: sum.split option.split)
  then obtain r p t where r: "jsmn_parse_primitive parser js len tokens = Some (r, p, t)" by auto
  have "parser_inv js len p t n (count + 1)" if "\<not> r < 0"
  proof -
    from that jsmn_parse_primitive_cases [OF r] obtain q where q: "scan_primitive js len (pos parser) = Some (Inr q)"
      "toknext parser < length tokens" "p = parser\<lparr> toknext := toknext parser + 1, pos := q - 1 \<rparr>"
      "t = tokens[toknext parser := jsmn_fill_token JSMN_PRIMITIVE (pos parser) q]" by auto
    have "pos parser < q" using scan_primitive_progress [OF q(1) c(1) _ c(3,4)] c len by simp
    moreover have "q \<le> len" using scan_primitive_Inr [OF q(1)] c by simp
    ultimately have "closed_tok js len (jsmn_fill_token JSMN_PRIMITIVE (pos parser) q)" "pos parser \<le> q - 1"
      by (auto simp: closed_tok_def jsmn_fill_token_def)
    then show ?thesis using alloc_count_inv [OF inv, of _ "q - 1"] q inv by (simp add: parser_inv_def)
  qed
  then show ?thesis using False r by auto
qed

lemma jsmn_step_inv:
  assumes inv: "parser_inv js len parser tokens n count" and len: "len \<le> length js"
    and c: "pos parser < len" "js ! pos parser = c" "c \<noteq> NUL"
  shows "\<exists>r. jsmn_step js len c parser tokens count = Some r \<and>
    (case r of Inl e \<Rightarrow> e < 0 | Inr (p, t, k) \<Rightarrow> parser_inv js len p t n k)"
proof -
  have cj: "pos parser < length js" using c len by simp
  consider (op) "c = CHR ''{'' \<or> c = CHR ''[''" | (cl) "c = CHR ''}'' \<or> c = CHR '']''" | (bl) "is_blank c"
    | (co) "c = CHR '':''" | (cm) "c = CHR '',''"
    | (tk) "\<not> (c = CHR ''{'' \<or> c = CHR ''['')" "\<not> (c = CHR ''}'' \<or> c = CHR '']'')" "\<not> is_blank c" "c \<noteq> CHR '':''" "c \<noteq> CHR '',''"
    by blast
  then show ?thesis
  proof cases
    case op
    then obtain r where "open_bracket (if c = CHR ''{'' then JSMN_OBJECT else JSMN_ARRAY) parser tokens = Some r"
      "case r of Inl e \<Rightarrow> e < 0 | Inr (p, t) \<Rightarrow> pos p = pos parser \<and> parser_inv js len p t n (count + 1)"
      using open_bracket_inv [OF inv cj c(2), of "if c = CHR ''{'' then JSMN_OBJECT else JSMN_ARRAY"] by auto
    then show ?thesis using op by (auto simp: jsmn_step_def split: sum.splits prod.splits)
  next
    case cl
    then obtain r where "close_bracket (if c = CHR ''}'' then JSMN_OBJECT else JSMN_ARRAY) parser tokens = Some r"
      "case r of Inl e \<Rightarrow> e < 0 | Inr (p, t) \<Rightarrow> pos p = pos parser \<and> parser_inv js len p t n count"
      using close_bracket_inv [OF inv c(1) len c(2), of "if c = CHR ''}'' then JSMN_OBJECT else JSMN_ARRAY"] by auto
    then show ?thesis using cl by (auto simp: jsmn_step_def split: sum.splits prod.splits)
  next
    case bl
    then have "c \<noteq> CHR ''{''" "c \<noteq> CHR ''[''" "c \<noteq> CHR ''}''" "c \<noteq> CHR '']''" by (auto simp: is_blank_def)
    then show ?thesis using bl inv by (simp add: jsmn_step_def)
  next
    case co
    have "parser_inv js len (parser\<lparr> toksuper := int (toknext parser) - 1 \<rparr>) tokens n count"
      using inv by (simp add: parser_inv_def)
    then show ?thesis using co by (simp add: jsmn_step_def is_blank_def)
  next
    case cm
    then show ?thesis using comma_inv [OF inv] by (auto simp: jsmn_step_def is_blank_def)
  next
    case tk
    then have "\<not> ends_primitive c" by (auto simp: ends_primitive_def)
    then obtain r p t where r: "(if c = CHR 0x22 then jsmn_parse_string parser js len tokens else jsmn_parse_primitive parser js len tokens) =
        Some (r, p, t)" "r < 0 \<or> parser_inv js len p t n (count + 1)"
      using token_inv [OF inv len c] by blast
    show ?thesis
    proof (cases "r < 0")
      case True
      then show ?thesis using tk r(1) by (simp add: jsmn_step_def del: split_paired_Ex)
    next
      case False
      then obtain t' where "count_child p t = Some t'" "parser_inv js len p t' n (count + 1)"
        using count_child_inv r(2) by blast
      then show ?thesis using tk r(1) False by (simp add: jsmn_step_def)
    qed
  qed
qed

lemma parser_inv_advance: "parser_inv js len parser tokens n count \<Longrightarrow> parser_inv js len (parser\<lparr> pos := pos parser + 1 \<rparr>) tokens n count"
  using open_tok_mono [of js "pos parser" _ "pos parser + 1"] by (auto simp: parser_inv_def)

lemma jsmn_loop_inv:
  assumes "parser_inv js len parser tokens n count" and len: "len \<le> length js"
  shows "\<exists>r. jsmn_loop js len parser tokens count = Some r \<and>
    (case r of Inl e \<Rightarrow> e < 0 | Inr (p, t, k) \<Rightarrow> parser_inv js len p t n k)"
  using assms(1)
proof (induction "len - pos parser" arbitrary: parser tokens count rule: less_induct)
  case less
  show ?case
  proof (cases "pos parser < len \<and> js ! pos parser \<noteq> NUL")
    case False
    then show ?thesis
      using less.prems len by (subst jsmn_loop.simps) auto
  next
    case True
    then have c: "pos parser < len" "js ! pos parser \<noteq> NUL" "mem_get js (pos parser) = Some (js ! pos parser)" using len by auto
    obtain r where r: "jsmn_step js len (js ! pos parser) parser tokens count = Some r"
      "case r of Inl e \<Rightarrow> e < 0 | Inr (p, t, k) \<Rightarrow> parser_inv js len p t n k"
      using jsmn_step_inv [OF less.prems len c(1) refl c(2)] by blast
    show ?thesis
    proof (cases r)
      case (Inl e)
      then show ?thesis using r c by (subst jsmn_loop.simps) simp
    next
      case (Inr x)
      obtain p t k where x: "x = (p, t, k)" by (cases x)
      have "len - pos (p\<lparr> pos := pos p + 1 \<rparr>) < len - pos parser"
        using jsmn_loop_progress [OF c(1,3,2), of tokens count p t k] r(1) Inr x by simp
      from less.hyps [OF this] have "\<exists>r. jsmn_loop js len (p\<lparr> pos := pos p + 1 \<rparr>) t k = Some r \<and>
          (case r of Inl e \<Rightarrow> e < 0 | Inr (p, t, k) \<Rightarrow> parser_inv js len p t n k)"
        using r(2) Inr x parser_inv_advance by simp
      then show ?thesis using r(1) Inr x c by (subst jsmn_loop.simps) simp
    qed
  qed
qed

section \<open>Properties\<close>

text \<open>C27: Tokenizing any text into any token array stays inside the text and the array, and ends. It gives a negative
  error code, or the number of tokens found, at most the size of the array; and then each of these tokens is closed
  and marks a range of the text that has the shape of its type: brackets of the right kind at its ends, quotes around
  it, or at least one character. The positions are unbounded here; they are those of the code for texts below 2 to the 31 characters.\<close>

theorem jsmn_parse_tokens:
  assumes "len \<le> length js"
  shows "\<exists>r tokens'. jsmn_parse jsmn_init js len tokens = Some (r, tokens') \<and>
    (r < 0 \<or> r \<le> int (length tokens) \<and> length tokens' = length tokens \<and> (\<forall>i < nat r. closed_tok js len (tokens' ! i)))"
proof -
  have "parser_inv js len jsmn_init tokens (length tokens) 0"
    by (simp add: parser_inv_def jsmn_init_def)
  then obtain r where r: "jsmn_loop js len jsmn_init tokens 0 = Some r"
    "case r of Inl e \<Rightarrow> e < 0 | Inr (p, t, k) \<Rightarrow> parser_inv js len p t (length tokens) k"
    using jsmn_loop_inv [OF _ assms] by blast
  have n: "toknext jsmn_init = 0" by (simp add: jsmn_init_def)
  show ?thesis
  proof (cases r)
    case (Inl e)
    then show ?thesis using r n by (simp add: jsmn_parse_def)
  next
    case (Inr x)
    obtain p t k where x: "x = (p, t, k)" by (cases x)
    have inv: "parser_inv js len p t (length tokens) k" using r Inr x by simp
    then have "toknext p \<le> length t" by (simp add: parser_inv_def)
    from search_back_total [OF this, of is_open] obtain found where f: "search_back is_open t (toknext p) = Some found"
      "case found of None \<Rightarrow> \<forall>i < toknext p. \<not> is_open (t ! i) | Some i \<Rightarrow> True"
      by (auto split: option.splits)
    show ?thesis
    proof (cases found)
      case None
      then have "\<forall>i < k. closed_tok js len (t ! i)" using inv f by (auto simp: parser_inv_def open_tok_def)
      then show ?thesis using r Inr x f(1) None n inv by (simp add: jsmn_parse_def parser_inv_def)
    next
      case (Some i)
      then show ?thesis using r Inr x f(1) n by (simp add: jsmn_parse_def jsmn_errors)
    qed
  qed
qed


definition no_token :: jsmntok_t where
  "no_token = \<lparr> tok_type = JSMN_UNDEFINED, tok_start = 0, tok_end = 0, tok_size = 0 \<rparr>"

text \<open>The text \<open>{"a":[1]}\<close>.\<close>

definition sample_json :: string where
  "sample_json = [CHR ''{'', CHR 0x22, CHR ''a'', CHR 0x22, CHR '':'', CHR ''['', CHR ''1'', CHR '']'', CHR ''}'']"

theorem jsmn_parse_tokens_witness:
  "\<exists>tokens'. jsmn_parse jsmn_init sample_json 9 (replicate 4 no_token) = Some (4, tokens') \<and>
    closed_tok sample_json 9 (tokens' ! 0) \<and> closed_tok sample_json 9 (tokens' ! 3)"
proof -
  have v: "fst (the (jsmn_parse jsmn_init sample_json 9 (replicate 4 no_token))) = 4" by code_simp
  have "9 \<le> length sample_json" by (simp add: sample_json_def)
  from jsmn_parse_tokens [OF this, of "replicate 4 no_token"] v show ?thesis by auto
qed

end
