(* ===== verification/Rule.thy ===== *)
theory Rule
  imports Emb_Prelude
begin

text \<open>
  The parse rules of \<open>src/parse.h\<close> and their binding to data, \<open>src/rule.c\<close>. A rule array is the list
  of its rules before the terminating entry. The objects that rules write to are cells of a store;
  a location is a variable, an element of an array, or a field of a structure.
\<close>

section \<open>Data\<close>

datatype loc = Var string | Elem loc nat | Member loc string

text \<open>\<open>C_double s\<close> is the double that \<open>atof\<close> makes of the text \<open>s\<close>.\<close>

datatype cell = C_str string | C_u128 u128 | C_double string | C_i32 int | C_i64 int | C_u32 u32 | C_size nat

type_synonym store = "loc \<Rightarrow> cell option"

datatype json_datatype = JSON_TYPE_UNDEFINED | JSON_TYPE_STR | JSON_TYPE_TIME | JSON_TYPE_ARRAY
  | JSON_TYPE_DOUBLE | JSON_TYPE_OBJECT | JSON_TYPE_NUMBER | JSON_TYPE_BOOLEAN | JSON_TYPE_NUMBER32
  | JSON_TYPE_NUMBER64

text \<open>The callbacks that \<open>array_element_bind\<close> points to.\<close>

datatype element_bind = Rule_Action_Info_Bind | Rule_Validator_Bind

text \<open>The members \<open>type\<close> and \<open>value\<close> are \<open>rtype\<close> and \<open>rule_value\<close>; the rest keep their names.\<close>

datatype json_parse_rule = Rule
  (key: "string ptr") (rtype: json_datatype) (sub: "json_parse_rule list ptr") (rule_value: "loc ptr") (value_len: nat)
  (array_element_type: json_datatype) (single_array_element_size: nat) (array_element_bind: "element_bind ptr")
  (array_actual_size: "loc ptr")

text \<open>An initialiser that stops after some members sets the others to zero.\<close>

abbreviation plain_rule :: "string \<Rightarrow> json_datatype \<Rightarrow> json_parse_rule list ptr \<Rightarrow> loc ptr \<Rightarrow> nat \<Rightarrow> json_parse_rule" where
  "plain_rule k ty s v n \<equiv> Rule (Ptr k) ty s v n JSON_TYPE_UNDEFINED 0 Null Null"

section \<open>Finding and binding\<close>

text \<open>\<open>strncmp (rule->key, key, strlen (key)) == 0\<close>.\<close>

definition key_matches :: "string \<Rightarrow> string \<Rightarrow> bool" where
  "key_matches rule_key k \<longleftrightarrow> take (length k) rule_key = k"

text \<open>The position of the rule found.\<close>

fun find_rule_from :: "json_parse_rule list \<Rightarrow> string \<Rightarrow> nat \<Rightarrow> nat option" where
  "find_rule_from [] k i = None"
| "find_rule_from (rule # rules) k i =
     (case key rule of
        Null \<Rightarrow> None
      | Ptr rk \<Rightarrow> if key_matches rk k then Some i else find_rule_from rules k (i + 1))"

definition find_rule_by_key :: "json_parse_rule list ptr \<Rightarrow> string ptr \<Rightarrow> nat option" where
  "find_rule_by_key rule k =
     (case (rule, k) of (Ptr rules, Ptr k) \<Rightarrow> find_rule_from rules k 0 | _ \<Rightarrow> None)"

definition find_sub_rule_by_key :: "json_parse_rule list ptr \<Rightarrow> string ptr \<Rightarrow> json_parse_rule list ptr" where
  "find_sub_rule_by_key rule k =
     (case (rule, find_rule_by_key rule k) of
        (Ptr rules, Some i) \<Rightarrow> sub (rules ! i)
      | _ \<Rightarrow> Null)"

type_synonym st_rule_data_bind = "string \<times> loc \<times> nat"

definition set_value :: "loc \<Rightarrow> nat \<Rightarrow> json_parse_rule \<Rightarrow> json_parse_rule" where
  "set_value data sz rule = (case rule of Rule k ty s v n ety esz b act \<Rightarrow> Rule k ty s (Ptr data) sz ety esz b act)"

definition set_sub :: "json_parse_rule list \<Rightarrow> json_parse_rule \<Rightarrow> json_parse_rule" where
  "set_sub s' rule = (case rule of Rule k ty s v n ety esz b act \<Rightarrow> Rule k ty (Ptr s') v n ety esz b act)"

fun bind_rule_and_data :: "json_parse_rule list \<Rightarrow> st_rule_data_bind list \<Rightarrow> json_parse_rule list" where
  "bind_rule_and_data rules [] = rules"
| "bind_rule_and_data rules ((k, data, sz) # binds) =
     (case find_rule_by_key (Ptr rules) (Ptr k) of
        None \<Rightarrow> bind_rule_and_data rules binds
      | Some i \<Rightarrow> bind_rule_and_data (rules[i := set_value data sz (rules ! i)]) binds)"

text \<open>The sub-array a key leads to, replaced: binding it in place changes it for its owner.\<close>

definition put_sub_rules :: "json_parse_rule list \<Rightarrow> string \<Rightarrow> json_parse_rule list \<Rightarrow> json_parse_rule list" where
  "put_sub_rules rules k s =
     (case find_rule_by_key (Ptr rules) (Ptr k) of
        None \<Rightarrow> rules
      | Some i \<Rightarrow> rules[i := set_sub s (rules ! i)])"

definition IOTEX_EMB_LIMIT_ACCOUNT_LEN :: nat where "IOTEX_EMB_LIMIT_ACCOUNT_LEN = 42"
definition IOTEX_EMB_LIMIT_TIME_LEN :: nat where "IOTEX_EMB_LIMIT_TIME_LEN = 21"
definition IOTEX_EMB_LIMIT_HASH_LEN :: nat where "IOTEX_EMB_LIMIT_HASH_LEN = 65"
definition IOTEX_EMB_LIMIT_KEY_LEN :: nat where "IOTEX_EMB_LIMIT_KEY_LEN = 89"
definition IOTEX_EMB_LIMIT_ID_LEN :: nat where "IOTEX_EMB_LIMIT_ID_LEN = 16"

lemmas limits = IOTEX_EMB_LIMIT_ACCOUNT_LEN_def IOTEX_EMB_LIMIT_TIME_LEN_def IOTEX_EMB_LIMIT_HASH_LEN_def
  IOTEX_EMB_LIMIT_KEY_LEN_def IOTEX_EMB_LIMIT_ID_LEN_def

definition action_info_binds :: "loc \<Rightarrow> st_rule_data_bind list" where
  "action_info_binds e =
     [(''actHash'', Member e ''actHash'', IOTEX_EMB_LIMIT_HASH_LEN),
      (''blkHash'', Member e ''blkHash'', IOTEX_EMB_LIMIT_HASH_LEN),
      (''blkHeight'', Member e ''blkHeight'', 0),
      (''sender'', Member e ''sender'', IOTEX_EMB_LIMIT_ACCOUNT_LEN),
      (''gasFee'', Member e ''gasFee'', 0),
      (''timestamp'', Member e ''timestamp'', IOTEX_EMB_LIMIT_TIME_LEN)]"

definition action_binds :: "loc \<Rightarrow> st_rule_data_bind list" where
  "action_binds e =
     (let action = Member e ''action'' in
     [(''senderPubKey'', Member action ''senderPubKey'', IOTEX_EMB_LIMIT_KEY_LEN),
      (''signature'', Member action ''signature'', IOTEX_EMB_LIMIT_KEY_LEN)])"

definition action_core_binds :: "loc \<Rightarrow> st_rule_data_bind list" where
  "action_core_binds e =
     (let core = Member (Member e ''action'') ''core'' in
     [(''nonce'', Member core ''nonce'', 0),
      (''version'', Member core ''version'', 0),
      (''gasLimit'', Member core ''gasLimit'', 0),
      (''gasPrice'', Member core ''gasPrice'', 0)])"

definition core_transfer_binds :: "loc \<Rightarrow> st_rule_data_bind list" where
  "core_transfer_binds e =
     (let transfer = Member (Member (Member e ''action'') ''core'') ''transfer'' in
     [(''amount'', Member transfer ''amount'', 0),
      (''recipient'', Member transfer ''recipient'', IOTEX_EMB_LIMIT_ACCOUNT_LEN)])"

text \<open>The value returned, and the rule chain as it is afterwards.\<close>

definition rule_action_info_bind :: "json_parse_rule list ptr \<Rightarrow> loc ptr \<Rightarrow> int \<times> json_parse_rule list ptr" where
  "rule_action_info_bind rule_chain element =
     (case (rule_chain, element) of
        (Ptr chain, Ptr e) \<Rightarrow>
          let action_rule = find_sub_rule_by_key rule_chain (Ptr ''action'');
              action_core_rule = find_sub_rule_by_key action_rule (Ptr ''core'');
              core_transfer_rule = find_sub_rule_by_key action_core_rule (Ptr ''transfer'')
          in (case (action_rule, action_core_rule, core_transfer_rule) of
                (Ptr action, Ptr core, Ptr transfer) \<Rightarrow>
                  let chain = bind_rule_and_data chain (action_info_binds e);
                      action = bind_rule_and_data action (action_binds e);
                      core = bind_rule_and_data core (action_core_binds e);
                      transfer = bind_rule_and_data transfer (core_transfer_binds e)
                  in (0, Ptr (put_sub_rules chain ''action''
                         (put_sub_rules action ''core'' (put_sub_rules core ''transfer'' transfer))))
              | _ \<Rightarrow> (-1, rule_chain))
      | _ \<Rightarrow> (-1, rule_chain))"

definition validator_binds :: "loc \<Rightarrow> st_rule_data_bind list" where
  "validator_binds e = [(''id'', Member e ''id'', IOTEX_EMB_LIMIT_ID_LEN), (''status'', Member e ''status'', 0)]"

definition validator_details_binds :: "loc \<Rightarrow> st_rule_data_bind list" where
  "validator_details_binds e =
     (let details = Member e ''details'' in
     [(''locktime'', Member details ''locktime'', 0), (''minimum_amount'', Member details ''minimum_amount'', 0)])"

text \<open>The address of \<open>reward\<close> is the address of its only member.\<close>

definition validator_reward_binds :: "loc \<Rightarrow> st_rule_data_bind list" where
  "validator_reward_binds e = [(''annual'', Member (Member (Member e ''details'') ''reward'') ''annual'', 0)]"

definition rule_validator_bind :: "json_parse_rule list ptr \<Rightarrow> loc ptr \<Rightarrow> int \<times> json_parse_rule list ptr" where
  "rule_validator_bind rule_chain element =
     (case (rule_chain, element) of
        (Ptr chain, Ptr e) \<Rightarrow>
          let details_rule = find_sub_rule_by_key rule_chain (Ptr ''details'');
              details_reward_rule = find_sub_rule_by_key details_rule (Ptr ''reward'')
          in (case (details_rule, details_reward_rule) of
                (Ptr details, Ptr reward) \<Rightarrow>
                  let chain = bind_rule_and_data chain (validator_binds e);
                      details = bind_rule_and_data details (validator_details_binds e);
                      reward = bind_rule_and_data reward (validator_reward_binds e)
                  in (0, Ptr (put_sub_rules chain ''details'' (put_sub_rules details ''reward'' reward)))
              | _ \<Rightarrow> (-1, rule_chain))
      | _ \<Rightarrow> (-1, rule_chain))"

text \<open>The call through the function pointer.\<close>

definition run_bind :: "element_bind \<Rightarrow> json_parse_rule list ptr \<Rightarrow> loc ptr \<Rightarrow> int \<times> json_parse_rule list ptr" where
  "run_bind b rule_chain element = (case b of
      Rule_Action_Info_Bind \<Rightarrow> rule_action_info_bind rule_chain element
    | Rule_Validator_Bind \<Rightarrow> rule_validator_bind rule_chain element)"

section \<open>What finding and binding do\<close>

definition has_key :: "string \<Rightarrow> json_parse_rule \<Rightarrow> bool" where
  "has_key k rule \<longleftrightarrow> (case key rule of Null \<Rightarrow> False | Ptr rk \<Rightarrow> key_matches rk k)"

fun find_index :: "('a \<Rightarrow> bool) \<Rightarrow> 'a list \<Rightarrow> nat option" where
  "find_index P [] = None"
| "find_index P (x # xs) = (if P x then Some 0 else map_option Suc (find_index P xs))"

lemma find_index_Some: "find_index P xs = Some j \<Longrightarrow> j < length xs \<and> P (xs ! j) \<and> (\<forall>m < j. \<not> P (xs ! m))"
  by (induction xs arbitrary: j) (auto simp: nth_Cons less_Suc_eq_0_disj split: if_splits)

lemma find_index_None: "find_index P xs = None \<longleftrightarrow> (\<forall>x \<in> set xs. \<not> P x)"
  by (induction xs) auto

lemma find_rule_from_eq:
  "list_all (\<lambda>r. key r \<noteq> Null) rules \<Longrightarrow> find_rule_from rules k i = map_option ((+) i) (find_index (has_key k) rules)"
proof (induction rules arbitrary: i)
  case (Cons r rules)
  then obtain rk where "key r = Ptr rk" by (cases "key r") auto
  then have "find_rule_from (r # rules) k i = (if has_key k r then Some i else find_rule_from rules k (Suc i))"
    by (simp add: has_key_def)
  then show ?case using Cons by (cases "find_index (has_key k) rules") simp_all
qed simp

text \<open>The rule table for one action, with its leaves bound to the fields of an element, or unbound.\<close>

definition leaf :: "loc ptr \<Rightarrow> string \<Rightarrow> json_datatype \<Rightarrow> string list \<Rightarrow> nat \<Rightarrow> json_parse_rule" where
  "leaf p k ty path n = (case p of
      Null \<Rightarrow> plain_rule k ty Null Null 0
    | Ptr e \<Rightarrow> plain_rule k ty Null (Ptr (fold (\<lambda>f l. Member l f) path e)) n)"

definition core_transfer_table :: "loc ptr \<Rightarrow> json_parse_rule list" where
  "core_transfer_table p =
     [leaf p ''amount'' JSON_TYPE_NUMBER [''action'', ''core'', ''transfer'', ''amount''] 0,
      leaf p ''recipient'' JSON_TYPE_STR [''action'', ''core'', ''transfer'', ''recipient''] IOTEX_EMB_LIMIT_ACCOUNT_LEN]"

definition action_core_table :: "loc ptr \<Rightarrow> json_parse_rule list \<Rightarrow> json_parse_rule list" where
  "action_core_table p transfer =
     [leaf p ''nonce'' JSON_TYPE_NUMBER [''action'', ''core'', ''nonce''] 0,
      leaf p ''version'' JSON_TYPE_NUMBER [''action'', ''core'', ''version''] 0,
      leaf p ''gasLimit'' JSON_TYPE_NUMBER [''action'', ''core'', ''gasLimit''] 0,
      leaf p ''gasPrice'' JSON_TYPE_NUMBER [''action'', ''core'', ''gasPrice''] 0,
      plain_rule ''transfer'' JSON_TYPE_OBJECT (Ptr transfer) Null 0]"

definition action_table :: "loc ptr \<Rightarrow> json_parse_rule list \<Rightarrow> json_parse_rule list" where
  "action_table p core =
     [leaf p ''signature'' JSON_TYPE_STR [''action'', ''signature''] IOTEX_EMB_LIMIT_KEY_LEN,
      leaf p ''senderPubKey'' JSON_TYPE_STR [''action'', ''senderPubKey''] IOTEX_EMB_LIMIT_KEY_LEN,
      plain_rule ''core'' JSON_TYPE_OBJECT (Ptr core) Null 0]"

definition info_table :: "loc ptr \<Rightarrow> json_parse_rule list \<Rightarrow> json_parse_rule list" where
  "info_table p action =
     [plain_rule ''action'' JSON_TYPE_OBJECT (Ptr action) Null 0,
      leaf p ''actHash'' JSON_TYPE_STR [''actHash''] IOTEX_EMB_LIMIT_HASH_LEN,
      leaf p ''blkHash'' JSON_TYPE_STR [''blkHash''] IOTEX_EMB_LIMIT_HASH_LEN,
      leaf p ''blkHeight'' JSON_TYPE_NUMBER [''blkHeight''] 0,
      leaf p ''sender'' JSON_TYPE_STR [''sender''] IOTEX_EMB_LIMIT_ACCOUNT_LEN,
      leaf p ''gasFee'' JSON_TYPE_NUMBER [''gasFee''] 0,
      leaf p ''timestamp'' JSON_TYPE_STR [''timestamp''] IOTEX_EMB_LIMIT_TIME_LEN]"

definition action_info_table :: "loc ptr \<Rightarrow> json_parse_rule list" where
  "action_info_table p = info_table p (action_table p (action_core_table p (core_transfer_table p)))"

definition reward_table :: "loc ptr \<Rightarrow> json_parse_rule list" where
  "reward_table p = [leaf p ''annual'' JSON_TYPE_NUMBER [''details'', ''reward'', ''annual''] 0]"

definition details_table :: "loc ptr \<Rightarrow> json_parse_rule list \<Rightarrow> json_parse_rule list" where
  "details_table p reward =
     [leaf p ''locktime'' JSON_TYPE_NUMBER [''details'', ''locktime''] 0,
      leaf p ''minimum_amount'' JSON_TYPE_NUMBER [''details'', ''minimum_amount''] 0,
      plain_rule ''reward'' JSON_TYPE_OBJECT (Ptr reward) Null 0]"

definition validator_top_table :: "loc ptr \<Rightarrow> json_parse_rule list \<Rightarrow> json_parse_rule list" where
  "validator_top_table p details =
     [leaf p ''id'' JSON_TYPE_STR [''id''] IOTEX_EMB_LIMIT_ID_LEN,
      leaf p ''status'' JSON_TYPE_BOOLEAN [''status''] 0,
      plain_rule ''details'' JSON_TYPE_OBJECT (Ptr details) Null 0]"

definition validator_table :: "loc ptr \<Rightarrow> json_parse_rule list" where
  "validator_table p = validator_top_table p (details_table p (reward_table p))"

lemma leaf_facts [simp]:
  "key (leaf p k ty path n) = Ptr k"
  "set_value d m (leaf p k ty path n) = plain_rule k ty Null (Ptr d) m"
  by (simp_all add: leaf_def set_value_def split: ptr.splits)

lemmas binding_simps = find_rule_by_key_def find_sub_rule_by_key_def put_sub_rules_def set_sub_def key_matches_def Let_def
  numeral_eq_Suc

lemma find_in_tables:
  "find_sub_rule_by_key (Ptr (info_table p s)) (Ptr ''action'') = Ptr s"
  "find_sub_rule_by_key (Ptr (action_table p s)) (Ptr ''core'') = Ptr s"
  "find_sub_rule_by_key (Ptr (action_core_table p s)) (Ptr ''transfer'') = Ptr s"
  "find_sub_rule_by_key (Ptr (validator_top_table p s)) (Ptr ''details'') = Ptr s"
  "find_sub_rule_by_key (Ptr (details_table p s)) (Ptr ''reward'') = Ptr s"
  by (simp_all add: binding_simps info_table_def action_table_def action_core_table_def validator_top_table_def
      details_table_def)

lemma put_in_tables:
  "put_sub_rules (info_table p s) ''action'' s' = info_table p s'"
  "put_sub_rules (action_table p s) ''core'' s' = action_table p s'"
  "put_sub_rules (action_core_table p s) ''transfer'' s' = action_core_table p s'"
  "put_sub_rules (validator_top_table p s) ''details'' s' = validator_top_table p s'"
  "put_sub_rules (details_table p s) ''reward'' s' = details_table p s'"
  by (simp_all add: binding_simps info_table_def action_table_def action_core_table_def validator_top_table_def
      details_table_def)

lemma bind_tables:
  "bind_rule_and_data (core_transfer_table p) (core_transfer_binds e) = core_transfer_table (Ptr e)"
  "bind_rule_and_data (action_core_table p s) (action_core_binds e) = action_core_table (Ptr e) s"
  "bind_rule_and_data (action_table p s) (action_binds e) = action_table (Ptr e) s"
  "bind_rule_and_data (reward_table p) (validator_reward_binds e) = reward_table (Ptr e)"
  "bind_rule_and_data (details_table p s) (validator_details_binds e) = details_table (Ptr e) s"
  "bind_rule_and_data (validator_top_table p s) (validator_binds e) = validator_top_table (Ptr e) s"
  by (simp_all add: binding_simps core_transfer_table_def core_transfer_binds_def action_core_table_def action_core_binds_def
      action_table_def action_binds_def reward_table_def validator_reward_binds_def details_table_def validator_details_binds_def
      validator_top_table_def validator_binds_def) (simp_all add: leaf_def)

lemma bind_info_table:
  "bind_rule_and_data (info_table p s) (action_info_binds e) = info_table (Ptr e) s"
  by (simp add: binding_simps info_table_def action_info_binds_def) (simp add: leaf_def)

section \<open>Properties\<close>

text \<open>The rule found for a key is the first one of which the key is a prefix; no rule is found exactly when
  there is none.\<close>

theorem find_rule_by_key_result:
  assumes "list_all (\<lambda>r. key r \<noteq> Null) rules"
  shows "case find_rule_by_key (Ptr rules) (Ptr k) of
      None \<Rightarrow> \<forall>r \<in> set rules. \<not> has_key k r
    | Some j \<Rightarrow> j < length rules \<and> has_key k (rules ! j) \<and> (\<forall>m < j. \<not> has_key k (rules ! m))"
  using find_rule_from_eq [OF assms, of k 0] find_index_Some [of "has_key k" rules] find_index_None [of "has_key k" rules]
  by (auto simp: find_rule_by_key_def option.map_ident split: option.splits)

theorem find_rule_by_key_result_witness:
  "find_rule_by_key (Ptr (action_info_table Null)) (Ptr ''act'') = Some 0 \<and> has_key ''act'' (action_info_table Null ! 0)"
proof -
  have f: "find_rule_by_key (Ptr (action_info_table Null)) (Ptr ''act'') = Some 0"
    by (simp add: find_rule_by_key_def action_info_table_def info_table_def key_matches_def)
  show ?thesis
    using find_rule_by_key_result [of "action_info_table Null" "''act''"] f by (simp add: action_info_table_def info_table_def)
qed

text \<open>Binding an action element, or a validator element, to its rule table makes every leaf of the table write
  to its own field of that element, with the size of that field, whatever element the table was bound to
  before.\<close>

theorem rule_bind_result:
  "rule_action_info_bind (Ptr (action_info_table p)) (Ptr e) = (0, Ptr (action_info_table (Ptr e))) \<and>
   rule_validator_bind (Ptr (validator_table p)) (Ptr e) = (0, Ptr (validator_table (Ptr e)))"
  by (simp add: rule_action_info_bind_def rule_validator_bind_def action_info_table_def validator_table_def Let_def
      find_in_tables put_in_tables bind_tables bind_info_table)

end
