(* ===== verification/Parse.thy ===== *)
theory Parse
  imports Rule Jsmn U128
begin

text \<open>
  \<open>src/parse.c\<close>: storing the values of a tokenized JSON text through the parse rules. A pointer into
  the token array is an index; reading a token outside the array is \<open>None\<close>. Rule arrays are nested,
  and an object is parsed with the rules of one level less: the functions for objects and arrays take
  the parser of nested objects as the argument \<open>rec\<close>, and \<open>json_parse_object\<close> closes the recursion
  over the number of levels, \<open>levels\<close> of the rules being enough. The temporary copies that \<open>strndup\<close>
  makes are assumed to be allocated.
\<close>

section \<open>Values of the C library\<close>

fun dec_prefix :: "string \<Rightarrow> nat \<Rightarrow> nat" where
  "dec_prefix [] v = v"
| "dec_prefix (c # s) v = (if is_digit c then dec_prefix s (v * 10 + digit_val c) else v)"

definition is_space :: "char \<Rightarrow> bool" where
  "is_space c \<longleftrightarrow> code c = 32 \<or> (9 \<le> code c \<and> code c \<le> 13)"

text \<open>The number \<open>atoi\<close> and \<open>atoll\<close> read: blanks, a sign, digits. It is undefined if it is out of range.\<close>

definition c_number :: "string \<Rightarrow> int" where
  "c_number s =
     (case dropWhile is_space s of
        [] \<Rightarrow> 0
      | c # r \<Rightarrow>
          if c = CHR ''-'' then - int (dec_prefix r 0)
          else if c = CHR ''+'' then int (dec_prefix r 0)
          else int (dec_prefix (c # r) 0))"

definition atoi :: "string \<Rightarrow> int option" where
  "atoi s = (let v = c_number s in if - (2 ^ 31) \<le> v \<and> v < 2 ^ 31 then Some v else None)"

definition atoll :: "string \<Rightarrow> int option" where
  "atoll s = (let v = c_number s in if - (2 ^ 63) \<le> v \<and> v < 2 ^ 63 then Some v else None)"

text \<open>The text of a token; \<open>strndup\<close> ends it at a NUL.\<close>

definition tok_text :: "string \<Rightarrow> jsmntok_t \<Rightarrow> string option" where
  "tok_text js t =
     (if tok_start t < 0 \<or> tok_end t < tok_start t then None
      else mem_read js (nat (tok_start t)) (nat (tok_end t - tok_start t)))"

definition c_strndup :: "string \<Rightarrow> jsmntok_t \<Rightarrow> string option" where
  "c_strndup js t = map_option (takeWhile (\<lambda>c. c \<noteq> NUL)) (tok_text js t)"

section \<open>Storing a value\<close>

definition put_cell :: "store \<Rightarrow> loc \<Rightarrow> cell \<Rightarrow> store option" where
  "put_cell st l c = (if st l = None then None else Some (st(l \<mapsto> c)))"

text \<open>\<open>memset\<close> of the whole buffer, then \<open>memcpy\<close> of at most \<open>value_len\<close> characters.\<close>

definition put_string :: "store \<Rightarrow> loc \<Rightarrow> nat \<Rightarrow> string \<Rightarrow> store option" where
  "put_string st l n s =
     (case st l of
        Some (C_str m) \<Rightarrow> do {
          m \<leftarrow> mem_blit m 0 (replicate n NUL);
          m \<leftarrow> mem_blit m 0 (take n s);
          Some (st(l \<mapsto> C_str m))
        }
      | _ \<Rightarrow> None)"

definition jsoneq :: "string \<Rightarrow> jsmntok_t \<Rightarrow> string \<Rightarrow> bool option" where
  "jsoneq js t s =
     (if tok_type t = JSMN_STRING \<and> int (length s) = tok_end t - tok_start t
      then map_option (\<lambda>w. w = s) (tok_text js t)
      else Some False)"

text \<open>
  The cases of the \<open>switch\<close> that store one value: \<open>Some (True, st)\<close> if it is stored. The second token
  is read in these cases only.
\<close>

definition store_value :: "string \<Rightarrow> jsmntok_t \<Rightarrow> json_parse_rule \<Rightarrow> store \<Rightarrow> (bool \<times> store) option" where
  "store_value js t1 rule st =
     (let str_or_prim = tok_type t1 = JSMN_STRING \<or> tok_type t1 = JSMN_PRIMITIVE in
      case (rtype rule, rule_value rule) of
        (_, Null) \<Rightarrow> Some (False, st)
      | (ty, Ptr l) \<Rightarrow>
          if ty = JSON_TYPE_TIME \<or> ty = JSON_TYPE_STR then
            (if tok_type t1 = JSMN_STRING \<and> value_len rule \<noteq> 0 then do {
               s \<leftarrow> tok_text js t1;
               st \<leftarrow> put_string st l (value_len rule) s;
               Some (True, st)
             } else Some (False, st))
          else if ty = JSON_TYPE_DOUBLE then
            (if tok_type t1 = JSMN_PRIMITIVE then do {
               s \<leftarrow> c_strndup js t1;
               st \<leftarrow> put_cell st l (C_double s);
               Some (True, st)
             } else Some (False, st))
          else if ty = JSON_TYPE_NUMBER then
            (if str_or_prim then do {
               s \<leftarrow> c_strndup js t1;
               st \<leftarrow> put_cell st l (C_u128 (str2u128 s));
               Some (True, st)
             } else Some (False, st))
          else if ty = JSON_TYPE_NUMBER32 then
            (if str_or_prim then do {
               s \<leftarrow> c_strndup js t1;
               v \<leftarrow> atoi s;
               st \<leftarrow> put_cell st l (C_i32 v);
               Some (True, st)
             } else Some (False, st))
          else if ty = JSON_TYPE_NUMBER64 then
            (if str_or_prim then do {
               s \<leftarrow> c_strndup js t1;
               v \<leftarrow> atoll s;
               st \<leftarrow> put_cell st l (C_i64 v);
               Some (True, st)
             } else Some (False, st))
          else if ty = JSON_TYPE_BOOLEAN then
            (if str_or_prim then do {
               boolean_head \<leftarrow> (if tok_start t1 < 0 then None else mem_get js (nat (tok_start t1)));
               st \<leftarrow> put_cell st l
                 (C_u32 (if tok_type t1 = JSMN_PRIMITIVE \<and> boolean_head = CHR ''t'' then 1 else 0));
               Some (True, st)
             } else Some (False, st))
          else Some (False, st))"

section \<open>Arrays\<close>

type_synonym object_parser = "nat \<Rightarrow> int \<Rightarrow> json_parse_rule list \<Rightarrow> store \<Rightarrow> (int \<times> store) option"

text \<open>Division of \<open>int\<close> in C, towards zero.\<close>

definition c_div :: "int \<Rightarrow> int \<Rightarrow> int" where
  "c_div a b = sgn a * sgn b * (\<bar>a\<bar> div \<bar>b\<bar>)"

text \<open>
  The loop over the elements, from number \<open>i\<close> on, at token \<open>t\<close>: the value returned from inside it
  (\<open>Inl\<close>) or the number of processed tokens.
\<close>

function array_loop ::
  "object_parser \<Rightarrow> nat \<Rightarrow> int \<Rightarrow> element_bind \<Rightarrow> json_parse_rule list \<Rightarrow> loc \<Rightarrow> nat \<Rightarrow> int \<Rightarrow> nat \<Rightarrow> int \<Rightarrow> store \<Rightarrow>
   ((int + int) \<times> store) option" where
  "array_loop rec t single b sub_rules arr n array_sz i processed st =
     (if int i < array_sz \<and> i < n then
        (case run_bind b (Ptr sub_rules) (Ptr (Elem arr i)) of
           (r, Null) \<Rightarrow> None
         | (r, Ptr sub_rules) \<Rightarrow>
             if r \<noteq> 0 then Some (Inl (-1), st)
             else do {
               (ret, st) \<leftarrow> rec (t + 1) single sub_rules st;
               if ret = -1 then Some (Inl (-1), st)
               else array_loop rec (nat (int t + ret + 1)) single b sub_rules arr n array_sz (i + 1) (processed + ret + 1) st
             })
      else Some (Inr processed, st))"
  by pat_completeness auto

termination array_loop
  by (relation "measure (\<lambda>(_, _, _, _, _, _, n, _, i, _). n - i)") auto

declare array_loop.simps [simp del]

text \<open>The division by the number of elements comes first: an empty array is undefined behaviour.\<close>

definition json_parse_array ::
  "object_parser \<Rightarrow> jsmntok_t list \<Rightarrow> nat \<Rightarrow> int \<Rightarrow> json_parse_rule \<Rightarrow> int \<Rightarrow> store \<Rightarrow> (int \<times> store) option" where
  "json_parse_array rec tokens t tok_count rule array_sz st =
     (if array_sz = 0 then None
      else do {
        let single_element_tok_size = c_div tok_count array_sz;
        tok \<leftarrow> mem_get tokens t;
        if tok_type tok \<noteq> JSMN_OBJECT then Some (-1, st)
        else if array_element_type rule \<noteq> JSON_TYPE_OBJECT then Some (-1, st)
        else (case (sub rule, array_element_bind rule) of
            (Ptr sub_rules, Ptr b) \<Rightarrow>
              if single_array_element_size rule = 0 then Some (-1, st)
              else do {
                arr \<leftarrow> (case rule_value rule of Null \<Rightarrow> None | Ptr l \<Rightarrow> Some l);
                (r, st) \<leftarrow> array_loop rec t single_element_tok_size b sub_rules arr (value_len rule) array_sz 0 0 st;
                case r of
                  Inl e \<Rightarrow> Some (e, st)
                | Inr processed \<Rightarrow>
                    (case array_actual_size rule of
                       Null \<Rightarrow> Some (processed, st)
                     | Ptr l \<Rightarrow> do {
                         st \<leftarrow> put_cell st l (C_size (nat array_sz));
                         Some (processed, st)
                       })
              }
          | _ \<Rightarrow> Some (-1, st))
      })"

section \<open>Objects\<close>

text \<open>
  The state of the loop over the tokens: the counter \<open>i\<close>, the token \<open>t\<close>, the number of processed
  tokens, and the store. The pointer and the counter move together when a nested value is parsed.
\<close>

record obj_state =
  cnt :: nat
  cur_tok :: nat
  processed_tok :: int
  objs :: store

definition skip_nested :: "int \<Rightarrow> store \<Rightarrow> obj_state \<Rightarrow> obj_state" where
  "skip_nested ret st s =
     s\<lparr> cnt := nat (int (cnt s) + ret + 1), cur_tok := nat (int (cur_tok s) + ret + 1),
        processed_tok := processed_tok s + ret + 2, objs := st \<rparr>"

text \<open>One rule against the current token: \<open>Inl\<close> returns from \<open>json_parse_object\<close>.\<close>

definition apply_rule ::
  "object_parser \<Rightarrow> string \<Rightarrow> jsmntok_t list \<Rightarrow> int \<Rightarrow> json_parse_rule \<Rightarrow> obj_state \<Rightarrow> ((int \<times> store) + obj_state) option" where
  "apply_rule rec js tokens tok_count rule s =
     (if rtype rule = JSON_TYPE_UNDEFINED then Some (Inr s)
      else do {
        t1 \<leftarrow> mem_get tokens (cur_tok s + 1);
        let rest = tok_count - int (cnt s) - 2;
        if rtype rule = JSON_TYPE_ARRAY then
          (if tok_type t1 = JSMN_ARRAY \<and> rule_value rule \<noteq> Null \<and> value_len rule \<noteq> 0 then do {
             (ret, st) \<leftarrow> json_parse_array rec tokens (cur_tok s + 2) rest rule (tok_size t1) (objs s);
             if ret < 0 then Some (Inl (ret, st)) else Some (Inr (skip_nested ret st s))
           } else Some (Inr s))
        else if rtype rule = JSON_TYPE_OBJECT then
          (case sub rule of
             Ptr sub_rules \<Rightarrow>
               if tok_type t1 = JSMN_OBJECT then do {
                 (ret, st) \<leftarrow> rec (cur_tok s + 2) rest sub_rules (objs s);
                 if ret < 0 then Some (Inl (ret, st)) else Some (Inr (skip_nested ret st s))
               } else Some (Inr s)
           | Null \<Rightarrow> Some (Inr s))
        else do {
          (stored, st) \<leftarrow> store_value js t1 rule (objs s);
          Some (Inr (if stored then s\<lparr> processed_tok := processed_tok s + 2, objs := st \<rparr> else s))
        }
      })"

text \<open>The inner loop: every rule is tried, on the token that is current when its turn comes.\<close>

fun rules_loop ::
  "object_parser \<Rightarrow> string \<Rightarrow> jsmntok_t list \<Rightarrow> int \<Rightarrow> json_parse_rule list \<Rightarrow> obj_state \<Rightarrow> ((int \<times> store) + obj_state) option" where
  "rules_loop rec js tokens tok_count [] s = Some (Inr s)"
| "rules_loop rec js tokens tok_count (rule # rules) s =
     (case key rule of
        Null \<Rightarrow> Some (Inr s)
      | Ptr k \<Rightarrow> do {
          tok \<leftarrow> mem_get tokens (cur_tok s);
          eq \<leftarrow> jsoneq js tok k;
          if \<not> eq then rules_loop rec js tokens tok_count rules s
          else do {
            r \<leftarrow> apply_rule rec js tokens tok_count rule s;
            case r of
              Inl x \<Rightarrow> Some (Inl x)
            | Inr s \<Rightarrow> rules_loop rec js tokens tok_count rules s
          }
        })"

lemma apply_rule_cnt:
  assumes "apply_rule rec js tokens tok_count rule s = Some (Inr s')"
  shows "cnt s \<le> cnt s'"
proof -
  have "cnt s \<le> cnt (skip_nested ret st s)" if "\<not> ret < 0" for ret st
    using that by (simp add: skip_nested_def nat_le_iff le_nat_iff)
  then show ?thesis
    using assms
    by (auto simp: apply_rule_def bind_eq_Some_conv Let_def split: if_split_asm ptr.split_asm)
qed

lemma rules_loop_cnt: "rules_loop rec js tokens tok_count rules s = Some (Inr s') \<Longrightarrow> cnt s \<le> cnt s'"
proof (induction rules arbitrary: s)
  case (Cons rule rules)
  show ?case
  proof (cases "key rule")
    case (Ptr k)
    obtain tok e where "mem_get tokens (cur_tok s) = Some tok" "jsoneq js tok k = Some e"
      using Cons.prems Ptr by (auto simp: bind_eq_Some_conv)
    note h = this
    show ?thesis
    proof (cases e)
      case False
      then show ?thesis using Cons Ptr h by simp
    next
      case True
      then obtain r where r: "apply_rule rec js tokens tok_count rule s = Some r"
        using Cons.prems Ptr h by (auto simp: bind_eq_Some_conv)
      then obtain s1 where "r = Inr s1" using Cons.prems Ptr h True by (cases r) auto
      then have "rules_loop rec js tokens tok_count rules s1 = Some (Inr s')" "cnt s \<le> cnt s1"
        using Cons.prems Ptr h True r apply_rule_cnt by auto
      then show ?thesis using Cons.IH [of s1] by simp
    qed
  qed (use Cons.prems in simp)
qed simp

text \<open>\<open>while (i < tok_count)\<close> compares a \<open>size_t\<close> with an \<open>int\<close>: a negative count is converted to a huge one.\<close>

definition count_limit :: "int \<Rightarrow> nat" where
  "count_limit tok_count = nat (tok_count mod 2 ^ 64)"

function object_loop ::
  "object_parser \<Rightarrow> string \<Rightarrow> jsmntok_t list \<Rightarrow> int \<Rightarrow> json_parse_rule list \<Rightarrow> obj_state \<Rightarrow> (int \<times> store) option" where
  "object_loop rec js tokens tok_count rules s =
     (if cnt s < count_limit tok_count then do {
        r \<leftarrow> rules_loop rec js tokens tok_count rules s;
        case r of
          Inl (ret, st) \<Rightarrow> Some (ret, st)
        | Inr s \<Rightarrow> object_loop rec js tokens tok_count rules (s\<lparr> cnt := cnt s + 1, cur_tok := cur_tok s + 1 \<rparr>)
      }
      else Some (processed_tok s, objs s))"
  by pat_completeness auto

termination object_loop
  by (relation "measure (\<lambda>(_, _, _, tok_count, _, s). count_limit tok_count - cnt s)")
    (auto dest!: rules_loop_cnt)

declare object_loop.simps [simp del]

fun json_parse_object :: "nat \<Rightarrow> string \<Rightarrow> jsmntok_t list \<Rightarrow> object_parser" where
  "json_parse_object 0 js tokens t tok_count rules st = None"
| "json_parse_object (Suc n) js tokens t tok_count rules st =
     object_loop (json_parse_object n js tokens) js tokens tok_count rules
       \<lparr> cnt = 0, cur_tok = t, processed_tok = 0, objs = st \<rparr>"

text \<open>How deep rule arrays are nested.\<close>

fun levels :: "json_parse_rule list \<Rightarrow> nat" where
  "levels [] = 1"
| "levels (Rule k ty s v n ety esz b act # rules) =
     (case s of Null \<Rightarrow> levels rules | Ptr subs \<Rightarrow> max (Suc (levels subs)) (levels rules))"

section \<open>Responses\<close>

text \<open>\<open>calloc\<close> gives zeroed tokens, or fails.\<close>

definition zero_rule :: json_parse_rule where
  "zero_rule = Rule Null JSON_TYPE_UNDEFINED Null Null 0 JSON_TYPE_UNDEFINED 0 Null Null"

definition json_parse_response ::
  "(nat \<Rightarrow> bool) \<Rightarrow> string \<Rightarrow> json_parse_rule list \<Rightarrow> store \<Rightarrow> (int \<times> store) option" where
  "json_parse_response calloc response rules st = do {
     len \<leftarrow> map_option length (c_str response);
     let token_sz = len div 4;
     if \<not> calloc token_sz then Some (-1, st)
     else do {
       (tok_total, token) \<leftarrow> jsmn_parse jsmn_init response len (replicate token_sz no_token);
       if tok_total < 0 then Some (-1, st)
       else if tok_total < 1 then Some (-1, st)
       else do {
         tok0 \<leftarrow> mem_get token 0;
         if tok_type tok0 = JSMN_OBJECT then do {
           (processed, st) \<leftarrow> json_parse_object (levels rules) response token 0 (tok_total - 1) rules st;
           Some (if processed \<noteq> tok_total - 1 then -1 else 0, st)
         }
         else if tok_type tok0 = JSMN_ARRAY then do {
           let rule = (case rules of [] \<Rightarrow> zero_rule | rule # _ \<Rightarrow> rule);
           (processed, st) \<leftarrow>
             json_parse_array (json_parse_object (levels rules) response token) token 1 (tok_total - 1) rule (tok_size tok0) st;
           Some (if processed \<noteq> tok_total - 1 then -1 else 0, st)
         }
         else Some (-1, st)
       }
     }
   }"


lemma levels_pos: "0 < levels rules"
  by (induction rules rule: levels.induct) (auto split: ptr.split)

section \<open>Flat objects\<close>

text \<open>A scalar rule stores a value and leaves the counters alone.\<close>

definition scalar_rule :: "json_parse_rule \<Rightarrow> bool" where
  "scalar_rule rule \<longleftrightarrow> key rule \<noteq> Null \<and> rtype rule \<notin> {JSON_TYPE_UNDEFINED, JSON_TYPE_ARRAY, JSON_TYPE_OBJECT}"

definition rule_key :: "json_parse_rule \<Rightarrow> string" where
  "rule_key rule = (case key rule of Null \<Rightarrow> [] | Ptr k \<Rightarrow> k)"

definition text_rule :: "json_parse_rule \<Rightarrow> bool" where
  "text_rule rule \<longleftrightarrow> rtype rule = JSON_TYPE_STR \<or> rtype rule = JSON_TYPE_TIME"

text \<open>
  What is to be stored, without tokens: a field is a name, whether the value stands in quotes, and the value's text.
  \<open>json_cell\<close> is the cell that a value becomes, \<open>None\<close> if the type of the rule does not take it: text needs quotes and is cut to the
  size of the buffer or filled up with NUL, doubles must not have quotes, and a boolean in quotes is false.
\<close>

type_synonym field = "string \<times> bool \<times> string"

definition text_cell :: "nat \<Rightarrow> bool \<Rightarrow> string \<Rightarrow> cell \<Rightarrow> cell option" where
  "text_cell n quoted s old = (case old of
      C_str m \<Rightarrow> if quoted \<and> n \<noteq> 0 then Some (C_str (take n s @ replicate (n - length s) NUL @ drop n m)) else None
    | _ \<Rightarrow> None)"

fun json_cell :: "json_datatype \<Rightarrow> nat \<Rightarrow> bool \<Rightarrow> string \<Rightarrow> cell \<Rightarrow> cell option" where
  "json_cell JSON_TYPE_STR n quoted s old = text_cell n quoted s old"
| "json_cell JSON_TYPE_TIME n quoted s old = text_cell n quoted s old"
| "json_cell JSON_TYPE_DOUBLE n quoted s old = (if quoted then None else Some (C_double s))"
| "json_cell JSON_TYPE_NUMBER n quoted s old = Some (C_u128 (str2u128 s))"
| "json_cell JSON_TYPE_NUMBER32 n quoted s old = Some (C_i32 (c_number s))"
| "json_cell JSON_TYPE_NUMBER64 n quoted s old = Some (C_i64 (c_number s))"
| "json_cell JSON_TYPE_BOOLEAN n quoted s old = Some (C_u32 (if \<not> quoted \<and> hd s = CHR ''t'' then 1 else 0))"
| "json_cell _ n quoted s old = None"

text \<open>The number of tokens a field accounts for, and the store: a field without a rule, without a target or of a wrong type counts nothing.\<close>

fun store_field :: "json_parse_rule list \<Rightarrow> field \<Rightarrow> store \<Rightarrow> nat \<times> store" where
  "store_field rules (name, quoted, s) st =
     (case List.find (\<lambda>r. rule_key r = name) rules of
        None \<Rightarrow> (0, st)
      | Some r \<Rightarrow> (case rule_value r of
          Null \<Rightarrow> (0, st)
        | Ptr l \<Rightarrow> (case st l of
            None \<Rightarrow> (0, st)
          | Some old \<Rightarrow> (case json_cell (rtype r) (value_len r) quoted s old of
              None \<Rightarrow> (0, st)
            | Some c \<Rightarrow> (2, st(l \<mapsto> c))))))"

fun store_fields :: "json_parse_rule list \<Rightarrow> field list \<Rightarrow> store \<Rightarrow> nat \<times> store" where
  "store_fields rules [] st = (0, st)"
| "store_fields rules (f # fs) st = (let (n, st) = store_field rules f st; (k, st) = store_fields rules fs st in (n + k, st))"

text \<open>The targets of the rules exist, those of text rules are buffers of the stated size, and no target is shared by a text rule and another.\<close>

definition targets_ok :: "json_parse_rule list \<Rightarrow> store \<Rightarrow> bool" where
  "targets_ok rules st \<longleftrightarrow> (\<forall>r \<in> set rules. \<forall>l. rule_value r = Ptr l \<longrightarrow>
     st l \<noteq> None \<and> (text_rule r \<longrightarrow> (\<exists>m. st l = Some (C_str m) \<and> value_len r \<le> length m)) \<and>
     (\<forall>r' \<in> set rules. rule_value r' = Ptr l \<longrightarrow> text_rule r' = text_rule r))"

text \<open>A value is C text, is not also a key, and is in range where it is stored as a number of 32 or 64 bits.\<close>

fun field_ok :: "json_parse_rule list \<Rightarrow> field \<Rightarrow> bool" where
  "field_ok rules (name, quoted, s) \<longleftrightarrow> NUL \<notin> set s \<and> (if quoted then s \<notin> rule_key ` set rules else s \<noteq> []) \<and>
     (case List.find (\<lambda>r. rule_key r = name) rules of
        None \<Rightarrow> True
      | Some r \<Rightarrow> (rtype r = JSON_TYPE_NUMBER32 \<longrightarrow> - (2 ^ 31) \<le> c_number s \<and> c_number s < 2 ^ 31) \<and>
          (rtype r = JSON_TYPE_NUMBER64 \<longrightarrow> - (2 ^ 63) \<le> c_number s \<and> c_number s < 2 ^ 63))"

text \<open>A token stands for a string or for a primitive with the given text, which is followed by another character.\<close>

definition tok_is :: "string \<Rightarrow> jsmntok_t \<Rightarrow> bool \<Rightarrow> string \<Rightarrow> bool" where
  "tok_is js t quoted s \<longleftrightarrow>
     tok_type t = (if quoted then JSMN_STRING else JSMN_PRIMITIVE) \<and> tok_text js t = Some s \<and> tok_end t < int (length js)"

definition field_toks :: "string \<Rightarrow> jsmntok_t \<times> jsmntok_t \<Rightarrow> field \<Rightarrow> bool" where
  "field_toks js = (\<lambda>(k, v) (name, quoted, s). tok_is js k True name \<and> tok_is js v quoted s)"

lemma tok_is_key: "tok_is js t True w \<Longrightarrow> jsoneq js t k = Some (w = k)"
  by (auto simp: tok_is_def jsoneq_def tok_text_def mem_read_def split: if_splits)

lemma tok_is_prim: "tok_is js t False w \<Longrightarrow> jsoneq js t k = Some False"
  by (simp add: tok_is_def jsoneq_def)

lemma tok_is_head:
  assumes "tok_is js t quoted s"
  shows "0 \<le> tok_start t \<and> (\<exists>c. mem_get js (nat (tok_start t)) = Some c \<and> (s \<noteq> [] \<longrightarrow> c = hd s))"
proof -
  have t: "tok_start t \<ge> 0" "tok_start t \<le> tok_end t" "tok_end t < int (length js)"
      "s = take (nat (tok_end t - tok_start t)) (drop (nat (tok_start t)) js)"
    using assms by (auto simp: tok_is_def tok_text_def mem_read_def split: if_splits)
  have l: "nat (tok_start t) < length js" using t by linarith
  have "hd s = js ! nat (tok_start t)" if "s \<noteq> []"
  proof -
    have "nat (tok_end t - tok_start t) \<noteq> 0" using that unfolding t(4) by (intro notI) simp
    then show ?thesis unfolding t(4) using l by (simp add: hd_drop_conv_nth take_eq_Nil hd_take)
  qed
  then show ?thesis using t(1) l by (simp add: mem_get_def)
qed

lemma put_string_text:
  assumes "st l = Some (C_str m)" "n \<le> length m"
  shows "put_string st l n s = Some (st(l \<mapsto> C_str (take n s @ replicate (n - length s) NUL @ drop n m)))"
proof -
  have "mem_blit m 0 (replicate n NUL) = Some (replicate n NUL @ drop n m)" using assms(2) by (simp add: mem_blit_patch patch_def)
  moreover have "mem_blit (replicate n NUL @ drop n m) 0 (take n s) = Some (take n s @ replicate (n - length s) NUL @ drop n m)"
    using assms(2) by (simp add: mem_blit_patch patch_def min_def)
  ultimately show ?thesis using assms(1) by (simp add: put_string_def)
qed

text \<open>One value through one rule.\<close>

lemma store_value_cell:
  assumes r: "scalar_rule r" and v: "tok_is js t quoted s" "NUL \<notin> set s" "\<not> quoted \<longrightarrow> s \<noteq> []"
    and n: "rtype r = JSON_TYPE_NUMBER32 \<longrightarrow> - (2 ^ 31) \<le> c_number s \<and> c_number s < 2 ^ 31"
      "rtype r = JSON_TYPE_NUMBER64 \<longrightarrow> - (2 ^ 63) \<le> c_number s \<and> c_number s < 2 ^ 63"
    and l: "rule_value r = Ptr l" "st l = Some old" "text_rule r \<longrightarrow> (\<exists>m. old = C_str m \<and> value_len r \<le> length m)"
  shows "store_value js t r st = Some (case json_cell (rtype r) (value_len r) quoted s old of None \<Rightarrow> (False, st) | Some c \<Rightarrow> (True, st(l \<mapsto> c)))"
proof -
  have ty: "tok_type t = (if quoted then JSMN_STRING else JSMN_PRIMITIVE)" and tx: "tok_text js t = Some s" using v(1) by (simp_all add: tok_is_def)
  have dup: "c_strndup js t = Some s" using tx v(2) by (simp add: c_strndup_def takeWhile_eq_all_conv) metis
  obtain c where c: "0 \<le> tok_start t" "mem_get js (nat (tok_start t)) = Some c" "\<not> quoted \<longrightarrow> c = hd s" using tok_is_head [OF v(1)] v(3) by blast
  have neg: "\<not> tok_start t < 0" using c(1) by simp
  have put: "put_cell st l x = Some (st(l \<mapsto> x))" for x using l(2) by (simp add: put_cell_def)
  show ?thesis
  proof (cases "text_rule r")
    case True
    then obtain m where m: "old = C_str m" "value_len r \<le> length m" using l(3) by blast
    have "put_string st l (value_len r) s = Some (st(l \<mapsto> C_str (take (value_len r) s @ replicate (value_len r - length s) NUL @ drop (value_len r) m)))"
      using put_string_text l(2) m by blast
    moreover have "json_cell (rtype r) (value_len r) quoted s old = text_cell (value_len r) quoted s old" using True by (auto simp: text_rule_def)
    ultimately show ?thesis using True l(1) ty tx m(1) by (auto simp: store_value_def text_rule_def text_cell_def)
  next
    case False
    have "rtype r \<in> {JSON_TYPE_DOUBLE, JSON_TYPE_NUMBER, JSON_TYPE_NUMBER32, JSON_TYPE_NUMBER64, JSON_TYPE_BOOLEAN}"
      using False r by (cases "rtype r") (simp_all add: text_rule_def scalar_rule_def)
    then show ?thesis using n l(1) ty dup put c neg by (auto simp: store_value_def atoi_def atoll_def Let_def)
  qed
qed

lemma rules_loop_none:
  assumes "list_all scalar_rule rules" and "mem_get tokens (cur_tok s) = Some t" and "\<forall>r \<in> set rules. jsoneq js t (rule_key r) = Some False"
  shows "rules_loop rec js tokens c rules s = Some (Inr s)"
  using assms by (induction rules) (auto simp: scalar_rule_def rule_key_def split: ptr.split_asm)

lemma rules_loop_key:
  assumes "list_all scalar_rule rules" and "distinct (map rule_key rules)"
    and t: "mem_get tokens (cur_tok s) = Some k" "mem_get tokens (cur_tok s + 1) = Some v" and k: "tok_is js k True name"
    and v: "\<And>r. r \<in> set rules \<Longrightarrow> rule_key r = name \<Longrightarrow> store_value js v r (objs s) = Some (val r)"
  shows "rules_loop rec js tokens c rules s = Some (Inr (case List.find (\<lambda>r. rule_key r = name) rules of
      None \<Rightarrow> s | Some r \<Rightarrow> if fst (val r) then s\<lparr> processed_tok := processed_tok s + 2, objs := snd (val r) \<rparr> else s))"
  using assms(1,2) v
proof (induction rules)
  case (Cons r rules)
  then obtain rk where rk: "key r = Ptr rk" "rule_key r = rk" by (auto simp: scalar_rule_def rule_key_def split: ptr.split_asm)
  show ?case
  proof (cases "rk = name")
    case True
    let ?s = "if fst (val r) then s\<lparr> processed_tok := processed_tok s + 2, objs := snd (val r) \<rparr> else s"
    have "store_value js v r (objs s) = Some (val r)" using Cons.prems(3) True rk(2) by simp
    then have "apply_rule rec js tokens c r s = Some (Inr ?s)"
      using Cons.prems(1) t(2) by (cases "val r") (simp add: apply_rule_def scalar_rule_def)
    moreover have "\<forall>r' \<in> set rules. jsoneq js k (rule_key r') = Some False"
      using Cons.prems(2) True rk(2) tok_is_key [OF k] by auto
    then have "rules_loop rec js tokens c rules ?s = Some (Inr ?s)"
      using Cons.prems(1) t(1) by (intro rules_loop_none [where t = k]) simp_all
    ultimately show ?thesis using rk True t(1) tok_is_key [OF k] by simp
  next
    case False
    then show ?thesis using Cons rk t(1) tok_is_key [OF k] by simp
  qed
qed simp

lemma targets_okD:
  assumes "targets_ok rules st" "r \<in> set rules" "rule_value r = Ptr l"
  obtains old where "st l = Some old" "text_rule r \<longrightarrow> (\<exists>m. old = C_str m \<and> value_len r \<le> length m)"
    "\<And>r'. r' \<in> set rules \<Longrightarrow> rule_value r' = Ptr l \<Longrightarrow> text_rule r' = text_rule r"
proof -
  have t: "st l \<noteq> None" "text_rule r \<longrightarrow> (\<exists>m. st l = Some (C_str m) \<and> value_len r \<le> length m)"
      "\<And>r'. r' \<in> set rules \<Longrightarrow> rule_value r' = Ptr l \<Longrightarrow> text_rule r' = text_rule r"
    using assms unfolding targets_ok_def by blast+
  obtain old where o: "st l = Some old" using t(1) by blast
  show thesis using that [OF o] t(2,3) unfolding o by blast
qed

lemma targets_ok_store:
  assumes "targets_ok rules st" shows "targets_ok rules (snd (store_field rules f st))"
proof -
  obtain name quoted s where f: "f = (name, quoted, s)" by (cases f)
  show ?thesis
  proof (cases "snd (store_field rules f st) = st")
    case False
    then obtain r l old c where r: "List.find (\<lambda>r. rule_key r = name) rules = Some r" "rule_value r = Ptr l" "st l = Some old"
        "json_cell (rtype r) (value_len r) quoted s old = Some c" "snd (store_field rules f st) = st(l \<mapsto> c)"
      by (auto simp: f split: option.splits ptr.splits)
    have mem: "r \<in> set rules" using r(1) by (auto simp: find_Some_iff)
    have len: "\<exists>m'. c = C_str m' \<and> length m' = length m" if "text_rule r" "old = C_str m" "value_len r \<le> length m" for m
      using r(4) that by (auto simp: text_rule_def text_cell_def split: if_splits)
    show ?thesis unfolding r(5) targets_ok_def
    proof (intro ballI allI impI conjI)
      fix r1 l1 assume a: "r1 \<in> set rules" "rule_value r1 = Ptr l1"
      then have o: "st l1 \<noteq> None" "text_rule r1 \<longrightarrow> (\<exists>m. st l1 = Some (C_str m) \<and> value_len r1 \<le> length m)"
          "\<forall>r' \<in> set rules. rule_value r' = Ptr l1 \<longrightarrow> text_rule r' = text_rule r1"
        using assms unfolding targets_ok_def by blast+
      show "(st(l \<mapsto> c)) l1 \<noteq> None" using o(1) by simp
      show "text_rule r' = text_rule r1" if "r' \<in> set rules" "rule_value r' = Ptr l1" for r' using o(3) that by blast
      show "\<exists>m. (st(l \<mapsto> c)) l1 = Some (C_str m) \<and> value_len r1 \<le> length m" if tr1: "text_rule r1"
      proof (cases "l1 = l")
        case True
        then have tr: "text_rule r" using o(3) mem r(2) tr1 by blast
        obtain m where m: "st l = Some (C_str m)" "value_len r1 \<le> length m" using o(2) tr1 True by blast
        have "value_len r \<le> length m" using targets_okD [OF assms mem r(2)] tr m(1) by (metis cell.inject(1) option.inject)
        then show ?thesis using len [OF tr, of m] m r(3) True by auto
      qed (use o(2) that in simp)
    qed
  qed (use assms in simp)
qed

text \<open>One field, at its key.\<close>

lemma rules_loop_field:
  assumes rules: "list_all scalar_rule rules" "distinct (map rule_key rules)" and st: "targets_ok rules (objs s)"
    and t: "mem_get tokens (cur_tok s) = Some k" "mem_get tokens (cur_tok s + 1) = Some v" and f: "field_toks js (k, v) f" "field_ok rules f"
  shows "rules_loop rec js tokens c rules s = Some (Inr
    (s\<lparr> processed_tok := processed_tok s + int (fst (store_field rules f (objs s))), objs := snd (store_field rules f (objs s)) \<rparr>))"
proof -
  obtain name quoted w where fe: "f = (name, quoted, w)" by (cases f)
  have k: "tok_is js k True name" and v: "tok_is js v quoted w" using f(1) by (simp_all add: fe field_toks_def)
  have w: "NUL \<notin> set w" "\<not> quoted \<longrightarrow> w \<noteq> []" using f(2) by (auto simp: fe split: if_splits)
  let ?val = "\<lambda>r. case rule_value r of Null \<Rightarrow> (False, objs s) | Ptr l \<Rightarrow> (case objs s l of None \<Rightarrow> (False, objs s)
      | Some old \<Rightarrow> (case json_cell (rtype r) (value_len r) quoted w old of None \<Rightarrow> (False, objs s) | Some c \<Rightarrow> (True, (objs s)(l \<mapsto> c))))"
  have found: "List.find (\<lambda>r. rule_key r = name) rules = Some r" if "r \<in> set rules" "rule_key r = name" for r
    using that rules(2) by (induction rules) auto
  have val: "store_value js v r (objs s) = Some (?val r)" if r: "r \<in> set rules" "rule_key r = name" for r
  proof (cases "rule_value r")
    case Null
    then show ?thesis by (simp add: store_value_def)
  next
    case (Ptr l)
    obtain old where old: "objs s l = Some old" "text_rule r \<longrightarrow> (\<exists>m. old = C_str m \<and> value_len r \<le> length m)"
      by (rule targets_okD [OF st r(1) Ptr])
    have "scalar_rule r" using rules(1) r(1) by (simp add: list_all_iff)
    moreover have "rtype r = JSON_TYPE_NUMBER32 \<longrightarrow> - (2 ^ 31) \<le> c_number w \<and> c_number w < 2 ^ 31"
        "rtype r = JSON_TYPE_NUMBER64 \<longrightarrow> - (2 ^ 63) \<le> c_number w \<and> c_number w < 2 ^ 63"
      using f(2) found [OF r] by (simp_all add: fe)
    ultimately have "store_value js v r (objs s) = Some (case json_cell (rtype r) (value_len r) quoted w old of
        None \<Rightarrow> (False, objs s) | Some c \<Rightarrow> (True, (objs s)(l \<mapsto> c)))"
      using v w Ptr old by (intro store_value_cell)
    then show ?thesis using Ptr old(1) by simp
  qed
  show ?thesis
    using rules_loop_key [where val = ?val, OF rules t k val, of rec c] by (simp add: fe split: option.split ptr.split)
qed

lemma value_no_key:
  assumes "tok_is js v quoted w" "quoted \<longrightarrow> w \<notin> rule_key ` set rules"
  shows "\<forall>r \<in> set rules. jsoneq js v (rule_key r) = Some False"
proof (cases quoted)
  case True
  then have "tok_is js v True w" using assms(1) by simp
  then show ?thesis using tok_is_key assms(2) True by fastforce
next
  case False
  then have "tok_is js v False w" using assms(1) by simp
  then show ?thesis using tok_is_prim by blast
qed

lemma object_loop_fields:
  assumes rules: "list_all scalar_rule rules" "distinct (map rule_key rules)"
  shows "list_all2 (field_toks js) kvs items \<Longrightarrow> list_all (field_ok rules) items \<Longrightarrow> targets_ok rules (objs s) \<Longrightarrow>
    tokens = pre @ tk # concat (map (\<lambda>(k, v). [k, v]) kvs) @ rest \<Longrightarrow> \<forall>r \<in> set rules. jsoneq js tk (rule_key r) = Some False \<Longrightarrow>
    cur_tok s = length pre \<Longrightarrow> count_limit c = cnt s + 2 * length kvs \<Longrightarrow>
    object_loop rec js tokens c rules s =
      Some (processed_tok s + int (fst (store_fields rules items (objs s))), snd (store_fields rules items (objs s)))"
proof (induction kvs items arbitrary: pre tk s rule: list_all2_induct)
  case Nil
  then show ?case by (simp add: object_loop.simps)
next
  case (Cons kv kvs f fs)
  obtain k v where kv: "kv = (k, v)" by (cases kv)
  let ?n = "fst (store_field rules f (objs s))" and ?st = "snd (store_field rules f (objs s))"
  let ?s1 = "s\<lparr> cnt := cnt s + 1, cur_tok := cur_tok s + 1 \<rparr>"
  let ?s2 = "s\<lparr> processed_tok := processed_tok s + int ?n, objs := ?st, cnt := cnt s + 2, cur_tok := cur_tok s + 2 \<rparr>"
  have toks: "mem_get tokens (length pre) = Some tk" "mem_get tokens (length pre + 1) = Some k" "mem_get tokens (length pre + 2) = Some v"
    by (simp_all add: Cons.prems(3) kv mem_get_def nth_append)
  have one: "rules_loop rec js tokens c rules s = Some (Inr s)"
    using rules(1) Cons.prems(4,5) toks(1) by (intro rules_loop_none [where t = tk]) auto
  have two: "rules_loop rec js tokens c rules ?s1 = Some (Inr (?s1\<lparr> processed_tok := processed_tok s + int ?n, objs := ?st \<rparr>))"
    using rules_loop_field [OF rules, of ?s1 tokens k v js f rec c] Cons.prems(1,2,5) Cons.hyps(1) toks kv by simp
  have nk: "\<forall>r \<in> set rules. jsoneq js v (rule_key r) = Some False"
  proof -
    obtain name quoted w where fe: "f = (name, quoted, w)" by (cases f)
    show ?thesis using Cons.hyps(1) Cons.prems(1) by (intro value_no_key [where quoted = quoted and w = w]) (auto simp: fe kv field_toks_def)
  qed
  have "object_loop rec js tokens c rules ?s2 =
      Some (processed_tok ?s2 + int (fst (store_fields rules fs (objs ?s2))), snd (store_fields rules fs (objs ?s2)))"
    using Cons.prems kv nk targets_ok_store [OF Cons.prems(2), of f] by (intro Cons.IH [where pre = "pre @ [tk, k]" and tk = v]) auto
  then have "object_loop rec js tokens c rules ?s1 =
      Some (processed_tok s + int ?n + int (fst (store_fields rules fs ?st)), snd (store_fields rules fs ?st))"
    using two Cons.prems(6) by (subst object_loop.simps) simp
  then show ?case
    using one Cons.prems(6) by (subst object_loop.simps) (simp add: case_prod_beta Let_def)
qed

lemma flat_object:
  assumes "list_all scalar_rule rules" and "distinct (map rule_key rules)" and "targets_ok rules st"
    and "list_all2 (field_toks js) kvs items" and "list_all (field_ok rules) items"
    and "tok_type tk = JSMN_OBJECT" and "2 * length items < 2 ^ 31"
  shows "json_parse_object (Suc n) js (tk # concat (map (\<lambda>(k, v). [k, v]) kvs) @ rest) 0 (2 * int (length items)) rules st =
    (let (processed, st') = store_fields rules items st in Some (int processed, st'))"
proof -
  have "length kvs = length items" using assms(4) by (rule list_all2_lengthD)
  then have "count_limit (2 * int (length items)) = 2 * length kvs" using assms(7) by (simp add: count_limit_def)
  moreover have "\<forall>r \<in> set rules. jsoneq js tk (rule_key r) = Some False" using assms(6) by (simp add: jsoneq_def)
  ultimately show ?thesis
    using object_loop_fields [OF assms(1,2,4,5), where pre = "[]" and tk = tk and rest = rest and
        c = "2 * int (length items)" and s = "\<lparr> cnt = 0, cur_tok = 0, processed_tok = 0, objs = st \<rparr>"] assms(3)
    by (simp add: case_prod_beta)
qed

section \<open>Properties\<close>

text \<open>C28: A flat object, whose values are strings and primitives, is parsed by scalar rules with distinct keys field by field: each value becomes the cell
  that the type of its key's rule makes of the value's text, and two tokens are counted for it; a field without a rule, whose rule has no target, or whose value has
  the wrong type for it, changes nothing and counts nothing. Required is that no string value is also a key, that a text's target is a buffer of the stated size
  and no other rule's target is this buffer, and that numbers are in range of the type they are stored with.\<close>

theorem json_parse_object_flat:
  assumes "list_all scalar_rule rules" and "distinct (map rule_key rules)" and "targets_ok rules st"
    and "list_all2 (field_toks js) kvs items" and "list_all (field_ok rules) items"
    and "tok_type tk = JSMN_OBJECT" and "2 * length items < 2 ^ 31"
  shows "json_parse_object (Suc n) js (tk # concat (map (\<lambda>(k, v). [k, v]) kvs) @ rest) 0 (2 * int (length items)) rules st =
    (let (processed, st') = store_fields rules items st in Some (int processed, st'))"
  by (rule flat_object [OF assms])

definition q :: char where "q = CHR 0x22"

text \<open>The text \<open>{"n":1234,"s":"abcde","u":1}\<close> in a buffer, two rules for it, and its fields.\<close>

definition flat_json :: string where
  "flat_json = [CHR ''{'', q, CHR ''n'', q, CHR '':''] @ ''1234'' @ [CHR '','', q, CHR ''s'', q, CHR '':'', q] @ ''abcde'' @
     [q, CHR '','', q, CHR ''u'', q, CHR '':'', CHR ''1'', CHR ''}'', NUL]"

definition flat_rules :: "json_parse_rule list" where
  "flat_rules = [plain_rule ''n'' JSON_TYPE_NUMBER64 Null (Ptr (Var ''n'')) 0, plain_rule ''s'' JSON_TYPE_STR Null (Ptr (Var ''s'')) 4]"

definition flat_fields :: "field list" where
  "flat_fields = [(''n'', False, ''1234''), (''s'', True, ''abcde''), (''u'', False, ''1'')]"

definition flat_store :: store where
  "flat_store l = (if l = Var ''n'' then Some (C_i64 0) else if l = Var ''s'' then Some (C_str ''xxxxx'') else None)"

definition mk_tok :: "jsmntype_t \<Rightarrow> int \<Rightarrow> int \<Rightarrow> int \<Rightarrow> jsmntok_t" where
  "mk_tok ty a b n = \<lparr> tok_type = ty, tok_start = a, tok_end = b, tok_size = n \<rparr>"

definition flat_toks :: "(jsmntok_t \<times> jsmntok_t) list" where
  "flat_toks = [(mk_tok JSMN_STRING 2 3 1, mk_tok JSMN_PRIMITIVE 5 9 0), (mk_tok JSMN_STRING 11 12 1, mk_tok JSMN_STRING 15 20 0),
     (mk_tok JSMN_STRING 23 24 1, mk_tok JSMN_PRIMITIVE 26 27 0)]"

lemma flat_facts:
  "list_all scalar_rule flat_rules" "distinct (map rule_key flat_rules)" "targets_ok flat_rules flat_store"
  "list_all2 (field_toks flat_json) flat_toks flat_fields" "list_all (field_ok flat_rules) flat_fields" "2 * length flat_fields < 2 ^ 31" "length flat_fields = 3"
  "store_fields flat_rules flat_fields flat_store = (4, flat_store(Var ''n'' \<mapsto> C_i64 1234, Var ''s'' \<mapsto> C_str ''abcdx''))"
proof -
  have n: "c_number ''1234'' = 1234" by code_simp
  show "list_all scalar_rule flat_rules" "distinct (map rule_key flat_rules)" "targets_ok flat_rules flat_store" "2 * length flat_fields < 2 ^ 31" "length flat_fields = 3"
    by (auto simp: flat_rules_def scalar_rule_def rule_key_def targets_ok_def flat_store_def text_rule_def flat_fields_def)
  show "list_all (field_ok flat_rules) flat_fields" by (simp add: flat_rules_def flat_fields_def rule_key_def n)
  show "store_fields flat_rules flat_fields flat_store = (4, flat_store(Var ''n'' \<mapsto> C_i64 1234, Var ''s'' \<mapsto> C_str ''abcdx''))"
    by (simp add: flat_rules_def flat_fields_def rule_key_def flat_store_def n text_cell_def)
  show "list_all2 (field_toks flat_json) flat_toks flat_fields"
    unfolding flat_toks_def flat_fields_def field_toks_def tok_is_def list.rel_inject prod.case by (intro conjI) code_simp+
qed

theorem json_parse_object_flat_witness:
  "json_parse_object 1 flat_json (mk_tok JSMN_OBJECT 0 28 3 # concat (map (\<lambda>(k, v). [k, v]) flat_toks)) 0 6 flat_rules flat_store =
    Some (4, flat_store(Var ''n'' \<mapsto> C_i64 1234, Var ''s'' \<mapsto> C_str ''abcdx''))"
  using json_parse_object_flat [OF flat_facts(1-5), of "mk_tok JSMN_OBJECT 0 28 3" 0 "[]"] flat_facts(6-8) by (simp add: mk_tok_def)




text \<open>
  The text \<open>{"n":12,"s":"ab"}\<close> has five tokens, but the room for tokens is a quarter of the length, four: it is refused, whatever the rules.
\<close>

definition dense_json :: string where
  "dense_json = [CHR ''{'', q, CHR ''n'', q, CHR '':''] @ ''12'' @ [CHR '','', q, CHR ''s'', q, CHR '':'', q] @ ''ab'' @ [q, CHR ''}'', NUL]"

lemma json_parse_response_dense: "json_parse_response calloc dense_json rules st = Some (- 1, st)"
proof -
  have c: "map_option length (c_str dense_json) = Some 17" by code_simp
  have j: "map_option (\<lambda>(r, _). r < 0) (jsmn_parse jsmn_init dense_json 17 (replicate 4 no_token)) = Some True" by code_simp
  then obtain r toks where "jsmn_parse jsmn_init dense_json 17 (replicate 4 no_token) = Some (r, toks)" "r < 0" by auto
  then show ?thesis unfolding json_parse_response_def c by simp
qed

text \<open>The text \<open>{"accountMeta":{}}\<close>, in a buffer.\<close>

definition empty_object_json :: string where
  "empty_object_json = [CHR ''{'', q] @ ''accountMeta'' @ [q, CHR '':'', CHR ''{'', CHR ''}'', CHR ''}'', NUL]"

text \<open>An object that is empty and last makes the parser of the nested object count down from -1, which is a huge
  count: for every table of sub-rules it reads past the end of the token array.\<close>

theorem json_parse_empty_object:
  assumes "calloc 4" and "key r \<noteq> Null"
  shows "json_parse_response calloc empty_object_json [plain_rule ''accountMeta'' JSON_TYPE_OBJECT (Ptr (r # rs)) v n] st = None"
proof -
  let ?tok = "[\<lparr> tok_type = JSMN_OBJECT, tok_start = 0, tok_end = 18, tok_size = 1 \<rparr>,
      \<lparr> tok_type = JSMN_STRING, tok_start = 2, tok_end = 13, tok_size = 1 \<rparr>,
      \<lparr> tok_type = JSMN_OBJECT, tok_start = 15, tok_end = 17, tok_size = 0 \<rparr>, no_token]"
  let ?rules = "[plain_rule ''accountMeta'' JSON_TYPE_OBJECT (Ptr (r # rs)) v n]"
  obtain k where k: "key r = Ptr k" using assms(2) by (cases "key r") auto
  have c: "map_option length (c_str empty_object_json) = Some 18" by code_simp
  have j: "jsmn_parse jsmn_init empty_object_json 18 (replicate 4 no_token) = Some (3, ?tok)" by code_simp
  have t: "tok_text empty_object_json (?tok ! 1) = Some ''accountMeta''" by code_simp
  have none: "rules_loop rec empty_object_json ?tok c (r # rs) \<lparr> cnt = i, cur_tok = 4, processed_tok = p, objs = st \<rparr> = None" for rec c i p
    by (simp add: k mem_get_def)
  have skip: "rules_loop rec empty_object_json ?tok c rules \<lparr> cnt = i, cur_tok = 3, processed_tok = p, objs = st \<rparr>
      = Some (Inr \<lparr> cnt = i, cur_tok = 3, processed_tok = p, objs = st \<rparr>)" for rec c i p rules
    by (induction rules) (simp_all add: mem_get_def jsoneq_def no_token_def numeral_eq_Suc split: ptr.split)
  have inner: "json_parse_object (Suc m) empty_object_json ?tok 3 (-1) (r # rs) st = None" for m
  proof -
    have lim: "count_limit (-1) = 2 ^ 64 - 1" by (simp add: count_limit_def)
    have "object_loop rec empty_object_json ?tok (-1) (r # rs) \<lparr> cnt = 1, cur_tok = 4, processed_tok = 0, objs = st \<rparr> = None" for rec
      by (subst object_loop.simps) (simp only: none lim, simp)
    then show ?thesis
      by (simp only: json_parse_object.simps) (subst object_loop.simps, simp only: skip lim, simp)
  qed
  have outer: "json_parse_object (Suc (Suc m)) empty_object_json ?tok 0 2 ?rules st = None" for m
  proof -
    let ?rec = "json_parse_object (Suc m) empty_object_json ?tok"
    let ?s = "\<lparr> cnt = 0, cur_tok = 0, processed_tok = 0, objs = st \<rparr>"
    let ?s1 = "\<lparr> cnt = 1, cur_tok = 1, processed_tok = 0, objs = st \<rparr>"
    have "rules_loop ?rec empty_object_json ?tok 2 ?rules ?s = Some (Inr ?s)"
      by (simp add: jsoneq_def)
    moreover have "jsoneq empty_object_json (?tok ! 1) ''accountMeta'' = Some True"
      unfolding jsoneq_def t by simp
    then have "rules_loop ?rec empty_object_json ?tok 2 ?rules ?s1 = None"
      using inner [of m] by (simp add: apply_rule_def numeral_eq_Suc [of "num.Bit0 num.One"] numeral_eq_Suc [of "num.Bit1 num.One"])
    moreover have "count_limit 2 = 2" by (simp add: count_limit_def)
    ultimately have "object_loop ?rec empty_object_json ?tok 2 ?rules ?s1 = None"
      by (subst object_loop.simps) simp
    then show ?thesis
      using \<open>rules_loop ?rec empty_object_json ?tok 2 ?rules ?s = Some (Inr ?s)\<close> \<open>count_limit 2 = 2\<close>
      by (simp only: json_parse_object.simps) (subst object_loop.simps, simp)
  qed
  obtain m where m: "levels (r # rs) = Suc m" using levels_pos [of "r # rs"] by (cases "levels (r # rs)") auto
  then have "levels ?rules = Suc (Suc m)" by simp
  then have o: "json_parse_object (levels ?rules) empty_object_json ?tok 0 2 ?rules st = None" by (simp only: outer)
  show ?thesis
    unfolding json_parse_response_def c
    by (simp add: assms(1) j o del: levels.simps json_parse_object.simps)
qed


theorem json_parse_empty_object_witness:
  "json_parse_response (\<lambda>_. True) empty_object_json
     [plain_rule ''accountMeta'' JSON_TYPE_OBJECT (Ptr [plain_rule ''nonce'' JSON_TYPE_NUMBER Null (Ptr (Var ''nonce'')) 0]) Null 0]
     (\<lambda>_. Some (C_u128 0)) = None"
  by (rule json_parse_empty_object) simp_all

text \<open>The text \<open>{"actionInfo":[]}\<close>, in a buffer.\<close>

definition empty_array_json :: string where
  "empty_array_json = [CHR ''{'', q] @ ''actionInfo'' @ [q, CHR '':'', CHR ''['', CHR '']'', CHR ''}'', NUL]"

text \<open>An empty array makes the array parser divide by zero, before any of its checks.\<close>

theorem json_parse_empty_array:
  assumes "calloc 4" and "0 < n"
  shows "json_parse_response calloc empty_array_json [Rule (Ptr ''actionInfo'') JSON_TYPE_ARRAY s (Ptr l) n ety esz b act] st = None"
proof -
  let ?tok = "[\<lparr> tok_type = JSMN_OBJECT, tok_start = 0, tok_end = 17, tok_size = 1 \<rparr>,
      \<lparr> tok_type = JSMN_STRING, tok_start = 2, tok_end = 12, tok_size = 1 \<rparr>,
      \<lparr> tok_type = JSMN_ARRAY, tok_start = 14, tok_end = 16, tok_size = 0 \<rparr>, no_token]"
  let ?rules = "[Rule (Ptr ''actionInfo'') JSON_TYPE_ARRAY s (Ptr l) n ety esz b act]"
  have c: "map_option length (c_str empty_array_json) = Some 17" by code_simp
  have j: "jsmn_parse jsmn_init empty_array_json 17 (replicate 4 no_token) = Some (3, ?tok)" by code_simp
  have t: "tok_text empty_array_json (?tok ! 1) = Some ''actionInfo''" by code_simp
  have lim: "count_limit 2 = 2" by (simp add: count_limit_def)
  have o: "json_parse_object m empty_array_json ?tok 0 2 ?rules st = None" for m
  proof (cases m)
    case (Suc k)
    let ?rec = "json_parse_object k empty_array_json ?tok"
    let ?s = "\<lparr> cnt = 0, cur_tok = 0, processed_tok = 0, objs = st \<rparr>"
    let ?s1 = "\<lparr> cnt = 1, cur_tok = 1, processed_tok = 0, objs = st \<rparr>"
    have one: "rules_loop ?rec empty_array_json ?tok 2 ?rules ?s = Some (Inr ?s)"
      by (simp add: jsoneq_def)
    have "jsoneq empty_array_json (?tok ! 1) ''actionInfo'' = Some True"
      unfolding jsoneq_def t by simp
    then have "rules_loop ?rec empty_array_json ?tok 2 ?rules ?s1 = None"
      using assms(2) by (simp add: apply_rule_def json_parse_array_def numeral_eq_Suc [of "num.Bit0 num.One"])
    then have "object_loop ?rec empty_array_json ?tok 2 ?rules ?s1 = None"
      using lim by (subst object_loop.simps) simp
    then show ?thesis
      using one lim Suc by (simp only: json_parse_object.simps) (subst object_loop.simps, simp)
  qed simp
  show ?thesis
    unfolding json_parse_response_def c
    by (simp add: assms(1) j o del: levels.simps json_parse_object.simps)
qed

theorem json_parse_empty_array_witness:
  "json_parse_response (\<lambda>_. True) empty_array_json
     [Rule (Ptr ''actionInfo'') JSON_TYPE_ARRAY (Ptr (action_info_table Null)) (Ptr (Var ''actions'')) 1 JSON_TYPE_OBJECT 1
        (Ptr Rule_Action_Info_Bind) Null] Map.empty = None"
  by (rule json_parse_empty_array) simp_all

end
