(* ===== verification/Response.thy ===== *)
theory Response
  imports Request Parse Pb_Proto
begin

text \<open>
  \<open>src/response.c\<close>: sending a request and storing the parsed response. What lies outside of the
  library, the allocator, libcurl and the signer, is the record \<open>environment\<close>; buffers on the stack
  that the code leaves uninitialised start with arbitrary contents, for which zeros stand.
\<close>

record environment =
  env_big :: bool
  env_malloc :: "nat \<Rightarrow> string ptr"
  env_realloc :: "string \<Rightarrow> nat \<Rightarrow> string ptr"
  env_calloc :: "nat \<Rightarrow> bool"
  env_easy_init :: bool
  env_perform :: curl
  env_public_key :: "byte list \<Rightarrow> byte list option"
  env_signature :: "byte list \<Rightarrow> byte list \<Rightarrow> (int \<times> byte list) option"

definition IOTEX_EMB_MAX_URL_LEN :: nat where "IOTEX_EMB_MAX_URL_LEN = 256"
definition IOTEX_EMB_MAX_ACB_LEN :: nat where "IOTEX_EMB_MAX_ACB_LEN = 1024"
definition IOTEX_EBM_MAX_RES_LEN :: nat where "IOTEX_EBM_MAX_RES_LEN = 32 * 1024"

lemmas buffer_sizes = IOTEX_EMB_MAX_URL_LEN_def IOTEX_EMB_MAX_ACB_LEN_def IOTEX_EBM_MAX_RES_LEN_def

definition res_get_data ::
  "environment \<Rightarrow> iotex_st_config \<Rightarrow> string \<Rightarrow> json_parse_rule list \<Rightarrow> store \<Rightarrow> transfers \<Rightarrow> (int \<times> store \<times> transfers) option" where
  "res_get_data env g request rules st sent =
     (case env_malloc env IOTEX_EBM_MAX_RES_LEN of
        Null \<Rightarrow> Some (- err IOTEX_E_MEM, st, sent)
      | Ptr response \<Rightarrow> do {
          (r, response, _, sent) \<leftarrow> req_get_request (env_malloc env) (env_realloc env) (env_easy_init env) (env_perform env) g
            request response IOTEX_EBM_MAX_RES_LEN sent;
          if r \<noteq> 0 then Some (- err IOTEX_E_REQUEST, st, sent)
          else do {
            (r, st) \<leftarrow> json_parse_response (env_calloc env) response rules st;
            if r \<noteq> 0 then Some (- err IOTEX_E_PARSE, st, sent) else Some (0, st, sent)
          }
        })"

text \<open>The action behind the \<open>void\<close> pointer; the identifier must fit it.\<close>

datatype action = Transfer iotex_st_transfer | Execution iotex_st_execution

text \<open>\<open>*error_desc\<close>, where the pointer is not null.\<close>

definition SET_ERROR_DESC :: "string \<Rightarrow> string ptr ptr \<Rightarrow> string ptr ptr" where
  "SET_ERROR_DESC error desc = (case desc of Null \<Rightarrow> Null | Ptr _ \<Rightarrow> Ptr (Ptr error))"

definition CLR_ERROR_DESC :: "string ptr ptr \<Rightarrow> string ptr ptr" where
  "CLR_ERROR_DESC desc = (case desc of Null \<Rightarrow> Null | Ptr _ \<Rightarrow> Ptr Null)"

text \<open>The bytes of the action: \<open>Inl\<close> for an unsupported identifier.\<close>

definition gen_action_bytes ::
  "environment \<Rightarrow> action \<Rightarrow> byte \<Rightarrow> byte list \<Rightarrow> (unit + int \<times> byte list) option" where
  "gen_action_bytes env act action_id action_bytes =
     (if action_id = ACT_TRANSFER then
        (case act of
           Transfer tx \<Rightarrow> map_option Inr (proto_gen_tx_action (env_public_key env) (env_signature env) (env_big env) tx
             action_bytes (length action_bytes))
         | _ \<Rightarrow> None)
      else if action_id = ACT_EXECUTION then
        (case act of
           Execution ex \<Rightarrow> map_option Inr (proto_gen_ex_action (env_public_key env) (env_signature env) (env_big env) ex
             action_bytes (length action_bytes))
         | _ \<Rightarrow> None)
      else Some (Inl ()))"

definition hash_rule :: "loc \<Rightarrow> nat \<Rightarrow> json_parse_rule list" where
  "hash_rule hash hash_max = [plain_rule ''actionHash'' JSON_TYPE_STR Null (Ptr hash) hash_max]"

definition res_get_hash ::
  "environment \<Rightarrow> iotex_st_config \<Rightarrow> action \<Rightarrow> byte \<Rightarrow> loc \<Rightarrow> nat \<Rightarrow> string ptr ptr \<Rightarrow> store \<Rightarrow> transfers \<Rightarrow>
   (int \<times> store \<times> string ptr ptr \<times> transfers) option" where
  "res_get_hash env g act action_id hash hash_max error_desc st sent = do {
     gen \<leftarrow> gen_action_bytes env act action_id (replicate IOTEX_EMB_MAX_ACB_LEN 0);
     case gen of
       Inl _ \<Rightarrow> Some (- err IOTEX_E_UNSUPPORT, st, SET_ERROR_DESC ''Unsupported action'' error_desc, sent)
     | Inr (action_bytes_len, action_bytes) \<Rightarrow>
         if action_bytes_len \<le> 0 then Some (- err IOTEX_E_PBPACK, st, error_desc, sent)
         else do {
           (r, action_bytes_str) \<leftarrow> signer_hex2str action_bytes (nat action_bytes_len)
             (replicate (IOTEX_EMB_MAX_ACB_LEN * 2) NUL) (IOTEX_EMB_MAX_ACB_LEN * 2);
           if r < 0 then Some (- err IOTEX_E_HEX2STR, st, error_desc, sent)
           else do {
             arg \<leftarrow> c_str action_bytes_str;
             (ok, request) \<leftarrow> req_compose_url g (replicate (IOTEX_EMB_MAX_URL_LEN + IOTEX_EMB_MAX_ACB_LEN * 2) NUL)
               (IOTEX_EMB_MAX_URL_LEN + IOTEX_EMB_MAX_ACB_LEN * 2) REQ_SEND_SIGNED_ACTION_BYTES [A_str arg];
             if \<not> ok then Some (- err IOTEX_E_URL, st, error_desc, sent)
             else case env_malloc env IOTEX_EBM_MAX_RES_LEN of
               Null \<Rightarrow> Some (- err IOTEX_E_MEM, st, error_desc, sent)
             | Ptr response \<Rightarrow> do {
                 url \<leftarrow> c_str request;
                 (r, response, _, sent) \<leftarrow> req_post_request (env_malloc env) (env_realloc env) (env_easy_init env) (env_perform env) g
                   url response IOTEX_EBM_MAX_RES_LEN sent;
                 if r \<noteq> 0 then Some (- err IOTEX_E_REQUEST, st, error_desc, sent)
                 else do {
                   (r, st) \<leftarrow> json_parse_response (env_calloc env) response (hash_rule hash hash_max) st;
                   if r \<noteq> 0 then Some (- err IOTEX_E_RESPONSE, st, CLR_ERROR_DESC error_desc, sent)
                   else Some (0, st, CLR_ERROR_DESC error_desc, sent)
                 }
               }
           }
         }
   }"

section \<open>Actions\<close>

definition core_transfer_rule :: "json_parse_rule list" where
  "core_transfer_rule =
     [plain_rule ''amount'' JSON_TYPE_NUMBER Null Null 0,
      plain_rule ''recipient'' JSON_TYPE_STR Null Null 0]"

definition action_core_rule :: "json_parse_rule list" where
  "action_core_rule =
     [plain_rule ''nonce'' JSON_TYPE_NUMBER Null Null 0,
      plain_rule ''version'' JSON_TYPE_NUMBER Null Null 0,
      plain_rule ''gasLimit'' JSON_TYPE_NUMBER Null Null 0,
      plain_rule ''gasPrice'' JSON_TYPE_NUMBER Null Null 0,
      plain_rule ''transfer'' JSON_TYPE_OBJECT (Ptr core_transfer_rule) Null 0]"

definition action_rule :: "json_parse_rule list" where
  "action_rule =
     [plain_rule ''signature'' JSON_TYPE_STR Null Null 0,
      plain_rule ''senderPubKey'' JSON_TYPE_STR Null Null 0,
      plain_rule ''core'' JSON_TYPE_OBJECT (Ptr action_core_rule) Null 0]"

definition action_info_rule :: "json_parse_rule list" where
  "action_info_rule =
     [plain_rule ''action'' JSON_TYPE_OBJECT (Ptr action_rule) Null 0,
      plain_rule ''actHash'' JSON_TYPE_STR Null Null 0,
      plain_rule ''blkHash'' JSON_TYPE_STR Null Null 0,
      plain_rule ''blkHeight'' JSON_TYPE_NUMBER Null Null 0,
      plain_rule ''sender'' JSON_TYPE_STR Null Null 0,
      plain_rule ''gasFee'' JSON_TYPE_NUMBER Null Null 0,
      plain_rule ''timestamp'' JSON_TYPE_STR Null Null 0]"

text \<open>The local variable \<open>actual_size\<close> is a cell of the store while the response is parsed.\<close>

definition actual_size_loc :: loc where "actual_size_loc = Var ''res_get_actions.actual_size''"

text \<open>A \<open>sizeof\<close> that is only compared with zero.\<close>

definition sizeof_struct :: nat where "sizeof_struct = 1"

definition top_rule :: "loc \<Rightarrow> nat \<Rightarrow> json_parse_rule list" where
  "top_rule actions max_sz =
     [plain_rule ''total'' JSON_TYPE_NUMBER32 Null (Ptr actual_size_loc) 0,
      Rule (Ptr ''actionInfo'') JSON_TYPE_ARRAY (Ptr action_info_rule) (Ptr actions) max_sz JSON_TYPE_OBJECT sizeof_struct
        (Ptr Rule_Action_Info_Bind) Null]"

definition res_get_actions ::
  "environment \<Rightarrow> iotex_st_config \<Rightarrow> string \<Rightarrow> loc \<Rightarrow> nat \<Rightarrow> store \<Rightarrow> transfers \<Rightarrow> (int \<times> store \<times> transfers) option" where
  "res_get_actions env g request actions max_sz st sent = do {
     (ret, st', sent) \<leftarrow> res_get_data env g request (top_rule actions max_sz) (st(actual_size_loc \<mapsto> C_i32 0)) sent;
     if ret \<noteq> 0 then Some (ret, st'(actual_size_loc := st actual_size_loc), sent)
     else case st' actual_size_loc of
       Some (C_i32 actual_sz) \<Rightarrow> Some (actual_sz, st'(actual_size_loc := st actual_size_loc), sent)
     | _ \<Rightarrow> None
   }"

definition CONTRACT_DATA_LEN :: nat where "CONTRACT_DATA_LEN = 2048"

definition contract_rules :: "loc \<Rightarrow> json_parse_rule list" where
  "contract_rules contract_data =
     [plain_rule ''data'' JSON_TYPE_STR Null (Ptr (Member contract_data ''data'')) CONTRACT_DATA_LEN]"

definition res_get_contract_data ::
  "environment \<Rightarrow> iotex_st_config \<Rightarrow> string \<Rightarrow> loc \<Rightarrow> store \<Rightarrow> transfers \<Rightarrow> (int \<times> store \<times> transfers) option" where
  "res_get_contract_data env g request contract_data st sent = res_get_data env g request (contract_rules contract_data) st sent"


section \<open>Sending an action\<close>

lemma action_info_rule_table: "action_info_rule = action_info_table Null"
  by (simp add: action_info_rule_def action_info_table_def info_table_def action_rule_def action_table_def
      action_core_rule_def action_core_table_def core_transfer_rule_def core_transfer_table_def leaf_def)

definition hex_text :: "byte list \<Rightarrow> string" where
  "hex_text bs = concat (map hex_pair bs)"

definition action_url :: "iotex_st_config \<Rightarrow> byte list \<Rightarrow> string" where
  "action_url g bs = base_url g @ ''actionbytes/'' @ hex_text bs"

lemma hex_pair_no_NUL: "NUL \<notin> set (hex_pair b)"
proof -
  have all: "\<forall>i \<in> set [0..<16]. hexmap ! i \<noteq> NUL" by (simp add: upt_rec hexmap_def)
  then have "hexmap ! i \<noteq> NUL" if "i < 16" for i using that by simp
  from this [OF nibble_high [of b]] this [OF nibble_low [of b]] show ?thesis by (auto simp: hex_pair_def hex_digit_def)
qed

lemma hex_text_no_NUL: "NUL \<notin> set (hex_text bs)"
  using hex_pair_no_NUL by (induction bs) (auto simp: hex_text_def)

lemma length_hex_text [simp]: "length (hex_text bs) = 2 * length bs"
  by (simp add: hex_text_def)

lemma length_dec_signed: "length (dec_signed (sint (v :: u32))) \<le> 11"
proof -
  have "- sint v \<le> 2 ^ 31" "sint v \<le> 2 ^ 31"
    using sint_range_size [of v] by (simp_all add: word_size)
  from this [THEN nat_mono] have "nat (- sint v) < 10 ^ 10" "nat (sint v) < 10 ^ 10" by simp_all
  then show ?thesis
    using length_dec_digits [of "nat (- sint v)" 10] length_dec_digits [of "nat (sint v)" 10]
    by (simp add: dec_signed_def)
qed

lemma length_base_url: "length (base_url g) \<le> 37"
  using length_dec_signed [of "ver g"] by (simp add: base_url_def)

lemma compose_action_url:
  assumes "length bs < 1024"
  shows "\<exists>buf. req_compose_url g (replicate 2304 NUL) 2304 REQ_SEND_SIGNED_ACTION_BYTES [A_str (hex_text bs)] = Some (True, buf) \<and>
    c_str buf = Some (action_url g bs)"
proof -
  let ?conf = "\<lparr> conf_req = REQ_SEND_SIGNED_ACTION_BYTES, conf_paths = [''actionbytes''], args_fmt = Ptr ''%s'' \<rparr>"
  have conf: "request_conf REQ_SEND_SIGNED_ACTION_BYTES = Some ?conf" by (simp add: request_conf_def g_req_configs_def)
  have full: "full_url g ?conf [A_str (hex_text bs)] = Some (action_url g bs)"
    by (simp add: full_url_def request_path_def action_url_def)
  have fits: "length (action_url g bs) < 2304" "length (base_url g @ request_path (conf_paths ?conf)) < 2304"
    using length_base_url [of g] assms by (simp_all add: action_url_def request_path_def)
  have "req_compose_url g (replicate 2304 NUL) 2304 REQ_SEND_SIGNED_ACTION_BYTES [A_str (hex_text bs)] =
      Some (True, url_state (take (2304 - 1) (action_url g bs)) 2304 [])"
    using req_compose_url_cases [OF conf, of 2304 "replicate 2304 NUL" "[]" g "[A_str (hex_text bs)]" "action_url g bs"]
      full fits hex_text_no_NUL by simp
  moreover have "take (2304 - 1) (action_url g bs) = action_url g bs" using fits by simp
  moreover have "NUL \<notin> set (action_url g bs)"
    using base_url_no_NUL [of g] hex_text_no_NUL [of bs] by (simp add: action_url_def)
  then have "c_str (url_state (action_url g bs) 2304 []) = Some (action_url g bs)"
    using fits by (intro c_str_url_state) simp_all
  ultimately show ?thesis by simp
qed

lemma hex_arg:
  assumes "0 < n" "n < 1024" "length buf = 1024"
  shows "\<exists>m. signer_hex2str buf n (replicate 2048 NUL) 2048 = Some (int (2 * n), m) \<and> c_str m = Some (hex_text (take n buf))"
proof -
  let ?h = "hex_text (take n buf)"
  have l: "length ?h = 2 * n" using assms by simp
  have "signer_hex2str buf n (replicate 2048 NUL) 2048 = Some (int (2 * n), patch (replicate 2048 NUL) 0 ?h)"
    using assms hex2str_loop_eq [of 0 "take n buf" "replicate 2048 NUL"]
    by (simp add: signer_hex2str_def hex_text_def)
  moreover have "patch (replicate 2048 NUL) 0 ?h = ?h @ NUL # replicate (2047 - 2 * n) NUL"
  proof -
    have "replicate (2048 - 2 * n) NUL = NUL # replicate (2047 - 2 * n) NUL"
      using assms by (cases "2048 - 2 * n") (auto simp: replicate_Suc [symmetric] simp del: replicate_Suc intro: arg_cong)
    then show ?thesis using assms by (simp add: patch_def min_absorb2)
  qed
  ultimately show ?thesis using c_str_append_NUL [OF hex_text_no_NUL] by auto
qed

lemma res_get_hash_ok:
  assumes gen: "gen_action_bytes env act action_id (replicate 1024 0) = Some (Inr (int n, buf))" "0 < n" "n < 1024" "length buf = 1024"
    and alloc: "alloc_ok (env_malloc env) (env_realloc env)" "\<forall>n. env_malloc env n \<noteq> Null" "\<forall>old n. env_realloc env old n \<noteq> Null"
    and net: "env_easy_init env"
      "env_perform env sent (request_options g (action_url g (take n buf)) True) = (chunks, True)"
    and s: "[] \<notin> set chunks" "concat chunks = s" "NUL \<notin> set s" "length s < 32768"
  shows "\<exists>response. c_str response = Some s \<and>
    res_get_hash env g act action_id hash hash_max desc st sent =
      map_option (\<lambda>(r, st'). (if r \<noteq> 0 then - err IOTEX_E_RESPONSE else 0, st', CLR_ERROR_DESC desc, sent @ [request_options g (action_url g (take n buf)) True]))
        (json_parse_response (env_calloc env) response (hash_rule hash hash_max) st)"
proof -
  obtain r0 where r0: "env_malloc env 32768 = Ptr r0" "length r0 = 32768"
    using alloc(1,2) by (cases "env_malloc env 32768") (auto simp: alloc_ok_def)
  obtain m where m: "signer_hex2str buf n (replicate 2048 NUL) 2048 = Some (int (2 * n), m)" "c_str m = Some (hex_text (take n buf))"
    using hex_arg [OF gen(2-4)] by blast
  obtain u where u: "req_compose_url g (replicate 2304 NUL) 2304 REQ_SEND_SIGNED_ACTION_BYTES [A_str (hex_text (take n buf))] = Some (True, u)"
    "c_str u = Some (action_url g (take n buf))"
    using compose_action_url [of "take n buf" g] gen by auto
  obtain response res where q: "req_basic_request (env_malloc env) (env_realloc env) True (env_perform env) g (action_url g (take n buf)) r0 32768 True sent
      = Some (0, response, res, sent @ [request_options g (action_url g (take n buf)) True])" "c_str response = Some s"
    using req_basic_request_ok [OF alloc, where perform = "env_perform env" and sent = sent and is_post = True and g = g
        and request = "action_url g (take n buf)" and chunks = chunks and s = s and max_sz = 32768 and response = r0]
      net(2) s r0 by auto
  show ?thesis
  proof (intro exI conjI)
    show "c_str response = Some s" by (rule q(2))
    show "res_get_hash env g act action_id hash hash_max desc st sent =
      map_option (\<lambda>(r, st'). (if r \<noteq> 0 then - err IOTEX_E_RESPONSE else 0, st', CLR_ERROR_DESC desc, sent @ [request_options g (action_url g (take n buf)) True]))
        (json_parse_response (env_calloc env) response (hash_rule hash hash_max) st)"
      using gen m u q(1) r0 net(1)
      by (cases "json_parse_response (env_calloc env) response (hash_rule hash hash_max) st")
        (auto simp: res_get_hash_def buffer_sizes req_post_request_def)
  qed
qed


text \<open>The value returned by \<open>res_get_data\<close>.\<close>

lemma json_parse_response_value: "json_parse_response calloc response rules st = Some (r, st') \<Longrightarrow> r = 0 \<or> r = -1"
  by (auto simp: json_parse_response_def Let_def bind_eq_Some_conv split: if_split_asm prod.split_asm)

lemma res_get_data_ok:
  assumes alloc: "alloc_ok (env_malloc env) (env_realloc env)" "\<forall>n. env_malloc env n \<noteq> Null" "\<forall>old n. env_realloc env old n \<noteq> Null"
    and net: "env_easy_init env"
      "env_perform env sent (request_options g (request) False) = (chunks, True)"
    and s: "[] \<notin> set chunks" "concat chunks = s" "NUL \<notin> set s" "length s < 32768"
  shows "\<exists>response. c_str response = Some s \<and>
    res_get_data env g request rules st sent =
      map_option (\<lambda>(r, st'). (if r \<noteq> 0 then - err IOTEX_E_PARSE else 0, st', sent @ [request_options g request False])) (json_parse_response (env_calloc env) response rules st)"
proof -
  obtain r0 where r0: "env_malloc env 32768 = Ptr r0" "length r0 = 32768"
    using alloc(1,2) by (cases "env_malloc env 32768") (auto simp: alloc_ok_def)
  obtain response res where q: "req_basic_request (env_malloc env) (env_realloc env) True (env_perform env) g request r0 32768 False sent
      = Some (0, response, res, sent @ [request_options g request False])" "c_str response = Some s"
    using req_basic_request_ok [OF alloc, where perform = "env_perform env" and sent = sent and is_post = False and g = g
        and request = request and chunks = chunks and s = s and max_sz = 32768 and response = r0]
      net(2) s r0 by auto
  show ?thesis
  proof (intro exI conjI)
    show "c_str response = Some s" by (rule q(2))
    show "res_get_data env g request rules st sent =
      map_option (\<lambda>(r, st'). (if r \<noteq> 0 then - err IOTEX_E_PARSE else 0, st', sent @ [request_options g request False])) (json_parse_response (env_calloc env) response rules st)"
      using q(1) r0 net(1)
      by (cases "json_parse_response (env_calloc env) response rules st")
        (auto simp: res_get_data_def buffer_sizes req_get_request_def)
  qed
qed

lemma res_get_data_codes:
  "res_get_data env g request rules st sent = Some (r, st') \<Longrightarrow> r \<in> {0, - err IOTEX_E_MEM, - err IOTEX_E_REQUEST, - err IOTEX_E_PARSE}"
  by (auto simp: res_get_data_def bind_eq_Some_conv split: if_split_asm ptr.split_asm)

end
