(* ===== verification/Iotex_Emb.thy ===== *)
theory Iotex_Emb
  imports Response Utils
begin

text \<open>
  \<open>src/iotex_emb.c\<close>: the public interface. The structures a caller passes are locations of the store;
  a null pointer fails the assertion of the function (\<open>None\<close>). URLs are composed in a local buffer of
  \<open>IOTEX_EMB_MAX_URL_LEN\<close> characters.
\<close>

definition iotex_emb_init :: "file_system \<Rightarrow> iotex_st_config ptr \<Rightarrow> iotex_st_config \<Rightarrow> int \<times> iotex_st_config" where
  "iotex_emb_init stat config g = init_config stat config g"

definition iotex_emb_exit :: iotex_st_config where
  "iotex_emb_exit = clear_config"

text \<open>A composed URL as the C string that is passed on; \<open>Inl\<close>: the error \<open>-IOTEX_E_URL\<close>.\<close>

definition compose_local_url ::
  "iotex_st_config \<Rightarrow> iotex_em_request \<Rightarrow> c_arg list \<Rightarrow> (int + string) option" where
  "compose_local_url g request args = do {
     (ok, url) \<leftarrow> req_compose_url g (replicate IOTEX_EMB_MAX_URL_LEN NUL) IOTEX_EMB_MAX_URL_LEN request args;
     if \<not> ok then Some (Inl (- err IOTEX_E_URL))
     else map_option Inr (c_str url)
   }"

definition epoch_rules :: "loc \<Rightarrow> json_parse_rule list" where
  "epoch_rules chain =
     [plain_rule ''num'' JSON_TYPE_NUMBER64 Null (Ptr (Member (Member chain ''epoch'') ''num'')) 0,
      plain_rule ''height'' JSON_TYPE_NUMBER64 Null (Ptr (Member (Member chain ''epoch'') ''height'')) 0,
      plain_rule ''gravityChainStartHeight'' JSON_TYPE_NUMBER64 Null
        (Ptr (Member (Member chain ''epoch'') ''gravityChainStartHeight'')) 0]"

definition chain_meta_rules :: "loc \<Rightarrow> json_parse_rule list" where
  "chain_meta_rules chain =
     [plain_rule ''height'' JSON_TYPE_NUMBER64 Null (Ptr (Member chain ''height'')) 0,
      plain_rule ''numActions'' JSON_TYPE_NUMBER64 Null (Ptr (Member chain ''numActions'')) 0,
      plain_rule ''tps'' JSON_TYPE_NUMBER64 Null (Ptr (Member chain ''tps'')) 0,
      plain_rule ''epoch'' JSON_TYPE_OBJECT (Ptr (epoch_rules chain)) Null 0,
      plain_rule ''tpsFloat'' JSON_TYPE_DOUBLE Null (Ptr (Member chain ''tpsFloat'')) 0]"

definition iotex_emb_get_chain_meta ::
  "environment \<Rightarrow> iotex_st_config \<Rightarrow> loc ptr \<Rightarrow> store \<Rightarrow> transfers \<Rightarrow> (int \<times> store \<times> transfers) option" where
  "iotex_emb_get_chain_meta env g chain st sent =
     (case chain of
        Null \<Rightarrow> None
      | Ptr chain \<Rightarrow> do {
          url \<leftarrow> compose_local_url g REQ_GET_CHAINMETA [];
          case url of
            Inl e \<Rightarrow> Some (e, st, sent)
          | Inr url \<Rightarrow> res_get_data env g url (chain_meta_rules chain) st sent
        })"

definition account_rules :: "loc \<Rightarrow> json_parse_rule list" where
  "account_rules meta =
     [plain_rule ''accountMeta'' JSON_TYPE_OBJECT (Ptr
        [plain_rule ''address'' JSON_TYPE_STR Null (Ptr (Member meta ''address'')) IOTEX_EMB_LIMIT_ACCOUNT_LEN,
         plain_rule ''balance'' JSON_TYPE_NUMBER Null (Ptr (Member meta ''balance'')) 0,
         plain_rule ''nonce'' JSON_TYPE_NUMBER Null (Ptr (Member meta ''nonce'')) 0,
         plain_rule ''pendingNonce'' JSON_TYPE_NUMBER Null (Ptr (Member meta ''pendingNonce'')) 0,
         plain_rule ''numActions'' JSON_TYPE_NUMBER Null (Ptr (Member meta ''numActions'')) 0])
        Null 0]"

definition iotex_emb_get_account_meta ::
  "environment \<Rightarrow> iotex_st_config \<Rightarrow> string ptr \<Rightarrow> loc ptr \<Rightarrow> store \<Rightarrow> transfers \<Rightarrow> (int \<times> store \<times> transfers) option" where
  "iotex_emb_get_account_meta env g account meta st sent =
     (case (account, meta) of
        (Ptr account, Ptr meta) \<Rightarrow> do {
          url \<leftarrow> compose_local_url g REQ_GET_ACCOUNT [A_str account];
          case url of
            Inl e \<Rightarrow> Some (e, st, sent)
          | Inr url \<Rightarrow> res_get_data env g url (account_rules meta) st sent
        }
      | _ \<Rightarrow> None)"

definition iotex_emb_get_transfer_block ::
  "environment \<Rightarrow> iotex_st_config \<Rightarrow> u128 \<Rightarrow> loc ptr \<Rightarrow> store \<Rightarrow> transfers \<Rightarrow> (int \<times> store \<times> transfers) option" where
  "iotex_emb_get_transfer_block env g block act st sent =
     (case act of
        Null \<Rightarrow> None
      | Ptr act \<Rightarrow> do {
          (block_str, ok) \<leftarrow> u1282str block (replicate UINT128_RAW_MAX_LEN NUL) UINT128_RAW_MAX_LEN;
          arg \<leftarrow> (if ok then c_str block_str else None);
          url \<leftarrow> compose_local_url g REQ_GET_TRANSFERS_BY_BLOCK [A_str arg];
          case url of
            Inl e \<Rightarrow> Some (e, st, sent)
          | Inr url \<Rightarrow> do {
              (ret, st, sent) \<leftarrow> res_get_actions env g url act 1 st sent;
              Some (if ret \<noteq> 1 then ret else 0, st, sent)
            }
        })"

definition iotex_emb_get_action_by_hash ::
  "environment \<Rightarrow> iotex_st_config \<Rightarrow> string ptr \<Rightarrow> loc ptr \<Rightarrow> store \<Rightarrow> transfers \<Rightarrow> (int \<times> store \<times> transfers) option" where
  "iotex_emb_get_action_by_hash env g hash act st sent =
     (case (hash, act) of
        (Ptr hash, Ptr act) \<Rightarrow> do {
          url \<leftarrow> compose_local_url g REQ_GET_ACTIONS_BY_HASH [A_str hash];
          case url of
            Inl e \<Rightarrow> Some (e, st, sent)
          | Inr url \<Rightarrow> do {
              (ret, st, sent) \<leftarrow> res_get_actions env g url act 1 st sent;
              Some (if ret \<noteq> 1 then ret else 0, st, sent)
            }
        }
      | _ \<Rightarrow> None)"

definition iotex_emb_get_action_by_addr ::
  "environment \<Rightarrow> iotex_st_config \<Rightarrow> string ptr \<Rightarrow> u32 \<Rightarrow> u32 \<Rightarrow> loc ptr \<Rightarrow> nat \<Rightarrow> loc ptr \<Rightarrow> store \<Rightarrow> transfers \<Rightarrow>
   (int \<times> store \<times> transfers) option" where
  "iotex_emb_get_action_by_addr env g addr start_idx count actions max_sz actual_sz st sent =
     (case (addr, actions) of
        (Ptr addr, Ptr actions) \<Rightarrow> do {
          url \<leftarrow> compose_local_url g REQ_GET_ACTIONS_BY_ADDR [A_str addr, A_uint start_idx, A_uint count];
          case url of
            Inl e \<Rightarrow> Some (e, st, sent)
          | Inr url \<Rightarrow> do {
              (ret, st, sent) \<leftarrow> res_get_actions env g url actions max_sz st sent;
              if ret < 0 then Some (ret, st, sent)
              else case actual_sz of
                Null \<Rightarrow> Some (0, st, sent)
              | Ptr l \<Rightarrow> do {
                  st \<leftarrow> put_cell st l (C_size (nat ret));
                  Some (0, st, sent)
                }
            }
        }
      | _ \<Rightarrow> None)"

text \<open>The hex text in \<open>contract_data->data\<close> is converted in place.\<close>

definition convert_contract_data :: "loc \<Rightarrow> store \<Rightarrow> (int \<times> store) option" where
  "convert_contract_data contract st =
     (case st (Member contract ''data'') of
        Some (C_str m) \<Rightarrow> do {
          text \<leftarrow> c_str m;
          let sz = length text div 2;
          (ret, m) \<leftarrow> signer_str2hex_inplace (map byte_of_char m) sz;
          let st = st(Member contract ''data'' \<mapsto> C_str (map char_of_byte m));
          if ret < 0 then Some (ret, st)
          else do {
            st \<leftarrow> put_cell st (Member contract ''size'') (C_size sz);
            Some (0, st)
          }
        }
      | _ \<Rightarrow> None)"

definition iotex_emb_read_contract_by_addr ::
  "environment \<Rightarrow> iotex_st_config \<Rightarrow> string ptr \<Rightarrow> string ptr \<Rightarrow> string ptr \<Rightarrow> loc ptr \<Rightarrow> store \<Rightarrow> transfers \<Rightarrow> (int \<times> store \<times> transfers) option" where
  "iotex_emb_read_contract_by_addr env g addr method data contract_data st sent =
     (case (addr, method, data, contract_data) of
        (Ptr addr, Ptr method, Ptr data, Ptr contract) \<Rightarrow> do {
          url \<leftarrow> compose_local_url g REQ_READ_CONTRACT_BY_ADDR [A_str addr, A_str method, A_str data];
          case url of
            Inl e \<Rightarrow> Some (e, st, sent)
          | Inr url \<Rightarrow> do {
              (ret, st, sent) \<leftarrow> res_get_contract_data env g url contract st sent;
              if ret < 0 then Some (ret, st, sent) else map_option (\<lambda>(ret, st). (ret, st, sent)) (convert_contract_data contract st)
            }
        }
      | _ \<Rightarrow> None)"

definition validator_rule :: "json_parse_rule list" where
  "validator_rule =
     [plain_rule ''id'' JSON_TYPE_STR Null Null 0,
      plain_rule ''status'' JSON_TYPE_BOOLEAN Null Null 0,
      plain_rule ''details'' JSON_TYPE_OBJECT (Ptr
        [plain_rule ''locktime'' JSON_TYPE_NUMBER Null Null 0,
         plain_rule ''minimum_amount'' JSON_TYPE_NUMBER Null Null 0,
         plain_rule ''reward'' JSON_TYPE_OBJECT (Ptr [plain_rule ''annual'' JSON_TYPE_NUMBER Null Null 0]) Null 0])
        Null 0]"

definition iotex_emb_get_validators ::
  "environment \<Rightarrow> iotex_st_config \<Rightarrow> loc ptr \<Rightarrow> nat \<Rightarrow> loc ptr \<Rightarrow> store \<Rightarrow> transfers \<Rightarrow> (int \<times> store \<times> transfers) option" where
  "iotex_emb_get_validators env g validators max_sz actual_sz st sent =
     (case validators of
        Null \<Rightarrow> None
      | Ptr validators \<Rightarrow> do {
          url \<leftarrow> compose_local_url g REQ_GET_MEMBER_VALIDATORS [];
          case url of
            Inl e \<Rightarrow> Some (e, st, sent)
          | Inr url \<Rightarrow> res_get_data env g url
              [Rule Null JSON_TYPE_ARRAY (Ptr validator_rule) (Ptr validators) max_sz JSON_TYPE_OBJECT sizeof_struct
                 (Ptr Rule_Validator_Bind) actual_sz] st sent
        })"


definition iotex_emb_execution ::
  "environment \<Rightarrow> iotex_st_config \<Rightarrow> iotex_st_execution ptr \<Rightarrow> loc \<Rightarrow> string ptr ptr \<Rightarrow> store \<Rightarrow> transfers \<Rightarrow>
   (int \<times> store \<times> string ptr ptr \<times> transfers) option" where
  "iotex_emb_execution env g ex hash error_desc st sent =
     (case ex of
        Null \<Rightarrow> None
      | Ptr ex \<Rightarrow>
          if privateKey (ex_core ex) = Null then Some (- err IOTEX_E_PRVKEY, st, error_desc, sent)
          else res_get_hash env g (Execution ex) ACT_EXECUTION hash IOTEX_EMB_LIMIT_HASH_LEN error_desc st sent)"


section \<open>Properties\<close>





end
