(* ===== verification/Keccak.thy ===== *)
theory Keccak
  imports Emb_Prelude
begin

text \<open>
  \<open>src/crypto/sha3.c\<close>: the Keccak permutation and the hash context that is fed in chunks. The 25 lanes are a
  list; the buffer \<open>message\<close>, which the code reads as 64-bit integers and writes as characters, is its 192 bytes.
  \<open>big\<close> is the byte order of the host: the code takes the lanes of a block as host integers (\<open>le2me_64\<close> is the
  identity). The address of a message chunk is an argument, because aligned blocks are not copied.
  The second half states the permutation by the formulas of the standard, and the hash as a sponge over the padded
  message, and shows that the code computes them.
\<close>

record SHA3_CTX =
  ctx_hash :: "u64 list"
  ctx_message :: "byte list"
  ctx_rest :: u32
  ctx_block_size :: u32

definition ROTL64 :: "u64 \<Rightarrow> nat \<Rightarrow> u64" where
  "ROTL64 qword n = push_bit n qword XOR drop_bit (64 - n) qword"

definition IS_ALIGNED_64 :: "u64 \<Rightarrow> bool" where
  "IS_ALIGNED_64 p \<longleftrightarrow> 0 = (7 AND p)"

definition NumberOfRounds :: nat where "NumberOfRounds = 24"

definition keccak_round_constants :: "u64 list" where
  "keccak_round_constants =
     [0x0000000000000001, 0x0000000000008082, 0x800000000000808A, 0x8000000080008000,
      0x000000000000808B, 0x0000000080000001, 0x8000000080008081, 0x8000000000008009,
      0x000000000000008A, 0x0000000000000088, 0x0000000080008009, 0x000000008000000A,
      0x000000008000808B, 0x800000000000008B, 0x8000000000008089, 0x8000000000008003,
      0x8000000000008002, 0x8000000000000080, 0x000000000000800A, 0x800000008000000A,
      0x8000000080008081, 0x8000000000008080, 0x0000000080000001, 0x8000000080008008]"

definition ctx_zero :: SHA3_CTX where
  "ctx_zero = \<lparr> ctx_hash = replicate 25 0, ctx_message = replicate 192 0, ctx_rest = 0, ctx_block_size = 0 \<rparr>"

definition keccak_Init :: "u32 \<Rightarrow> SHA3_CTX option" where
  "keccak_Init bits =
     (let rate = 1600 - bits * 2; ctx = ctx_zero\<lparr> ctx_block_size := rate div 8 \<rparr>
      in if rate \<le> 1600 \<and> rate mod 64 = 0 then Some ctx else None)"

definition sha3_224_Init :: "SHA3_CTX option" where "sha3_224_Init = keccak_Init 224"
definition sha3_256_Init :: "SHA3_CTX option" where "sha3_256_Init = keccak_Init 256"
definition sha3_384_Init :: "SHA3_CTX option" where "sha3_384_Init = keccak_Init 384"
definition sha3_512_Init :: "SHA3_CTX option" where "sha3_512_Init = keccak_Init 512"

definition keccak_theta :: "u64 list \<Rightarrow> u64 list" where
  "keccak_theta A =
     (let C = map (\<lambda>x. A ! x XOR A ! (x + 5) XOR A ! (x + 10) XOR A ! (x + 15) XOR A ! (x + 20)) [0..<5];
          D = [ROTL64 (C ! 1) 1 XOR C ! 4, ROTL64 (C ! 2) 1 XOR C ! 0, ROTL64 (C ! 3) 1 XOR C ! 1,
               ROTL64 (C ! 4) 1 XOR C ! 2, ROTL64 (C ! 0) 1 XOR C ! 3]
      in fold (\<lambda>x A. A[x := A ! x XOR D ! x, x + 5 := A ! (x + 5) XOR D ! x, x + 10 := A ! (x + 10) XOR D ! x,
           x + 15 := A ! (x + 15) XOR D ! x, x + 20 := A ! (x + 20) XOR D ! x]) [0..<5] A)"

text \<open>The assignments \<open>A[i] = A[j]\<close> of \<open>keccak_pi\<close>, in order.\<close>

definition pi_moves :: "(nat \<times> nat) list" where
  "pi_moves = [(1, 6), (6, 9), (9, 22), (22, 14), (14, 20), (20, 2), (2, 12), (12, 13), (13, 19), (19, 23), (23, 15), (15, 4),
     (4, 24), (24, 21), (21, 8), (8, 16), (16, 5), (5, 3), (3, 18), (18, 17), (17, 11), (11, 7), (7, 10)]"

definition keccak_pi :: "u64 list \<Rightarrow> u64 list" where
  "keccak_pi A = (let A1 = A ! 1; A = fold (\<lambda>(i, j) A. A[i := A ! j]) pi_moves A in A[10 := A1])"

definition keccak_chi :: "u64 list \<Rightarrow> u64 list" where
  "keccak_chi A =
     fold (\<lambda>i A.
       let A0 = A ! (0 + i); A1 = A ! (1 + i);
           A = A[0 + i := A ! (0 + i) XOR (NOT A1 AND A ! (2 + i))];
           A = A[1 + i := A ! (1 + i) XOR (NOT (A ! (2 + i)) AND A ! (3 + i))];
           A = A[2 + i := A ! (2 + i) XOR (NOT (A ! (3 + i)) AND A ! (4 + i))];
           A = A[3 + i := A ! (3 + i) XOR (NOT (A ! (4 + i)) AND A0)]
       in A[4 + i := A ! (4 + i) XOR (NOT A0 AND A1)]) [0, 5, 10, 15, 20] A"

text \<open>The rotations of rho: entry \<open>i\<close> is the distance of \<open>state[i]\<close>, from \<open>state[1]\<close> to \<open>state[24]\<close>.\<close>

definition rho_rotations :: "(nat \<times> nat) list" where
  "rho_rotations = [(1, 1), (2, 62), (3, 28), (4, 27), (5, 36), (6, 44), (7, 6), (8, 55), (9, 20), (10, 3), (11, 10), (12, 43),
     (13, 25), (14, 39), (15, 41), (16, 45), (17, 15), (18, 21), (19, 8), (20, 18), (21, 2), (22, 61), (23, 56), (24, 14)]"

definition keccak_rho :: "u64 list \<Rightarrow> u64 list" where
  "keccak_rho state = fold (\<lambda>(i, n) state. state[i := ROTL64 (state ! i) n]) rho_rotations state"

definition sha3_round :: "nat \<Rightarrow> u64 list \<Rightarrow> u64 list" where
  "sha3_round round state =
     (let state = keccak_chi (keccak_pi (keccak_rho (keccak_theta state)))
      in state[0 := state ! 0 XOR keccak_round_constants ! round])"

definition sha3_permutation :: "u64 list \<Rightarrow> u64 list" where
  "sha3_permutation state = fold sha3_round [0..<NumberOfRounds] state"

text \<open>The lanes of a block are read one by one as host integers; a block that is too short for them is read beyond its
  end.\<close>

fun xor_lanes :: "bool \<Rightarrow> nat list \<Rightarrow> byte list \<Rightarrow> u64 list \<Rightarrow> u64 list option" where
  "xor_lanes big [] block hash = Some hash"
| "xor_lanes big (i # is) block hash = do {
     b \<leftarrow> mem_read block (8 * i) 8;
     xor_lanes big is block (hash[i := hash ! i XOR of_host_bytes big b])
   }"

definition sha3_process_block :: "bool \<Rightarrow> u64 list \<Rightarrow> byte list \<Rightarrow> nat \<Rightarrow> u64 list option" where
  "sha3_process_block big hash block block_size = do {
     hash \<leftarrow> xor_lanes big [0..<9] block hash;
     hash \<leftarrow> (if block_size > 72 then do {
         hash \<leftarrow> xor_lanes big [9..<13] block hash;
         if block_size > 104 then do {
           hash \<leftarrow> xor_lanes big [13..<17] block hash;
           if block_size > 136 then xor_lanes big [17] block hash else Some hash
         } else Some hash
       } else Some hash);
     Some (sha3_permutation hash)
   }"

definition SHA3_FINALIZED :: u32 where "SHA3_FINALIZED = 0x80000000"

text \<open>The loop over the whole blocks of a chunk, and the leftovers.\<close>

function absorb_blocks :: "bool \<Rightarrow> nat \<Rightarrow> u64 \<Rightarrow> byte list \<Rightarrow> SHA3_CTX \<Rightarrow> SHA3_CTX option" where
  "absorb_blocks big block_size addr msg ctx =
     (if block_size = 0 then None
      else if block_size \<le> length msg then do {
        message \<leftarrow> (if IS_ALIGNED_64 addr then Some (ctx_message ctx)
          else mem_blit (ctx_message ctx) 0 (take block_size msg));
        let block = (if IS_ALIGNED_64 addr then msg else message);
        hash \<leftarrow> sha3_process_block big (ctx_hash ctx) block block_size;
        absorb_blocks big block_size (addr + word_of_nat block_size) (drop block_size msg)
          (ctx\<lparr> ctx_message := message, ctx_hash := hash \<rparr>)
      }
      else do {
        message \<leftarrow> mem_blit (ctx_message ctx) 0 msg;
        Some (ctx\<lparr> ctx_message := message \<rparr>)
      })"
  by pat_completeness auto

termination absorb_blocks
  by (relation "measure (\<lambda>(_, _, _, msg, _). length msg)") auto

declare absorb_blocks.simps [simp del]

definition sha3_Update :: "bool \<Rightarrow> SHA3_CTX \<Rightarrow> u64 \<Rightarrow> byte list \<Rightarrow> SHA3_CTX option" where
  "sha3_Update big ctx addr msg =
     (let idx = unat (ctx_rest ctx); block_size = unat (ctx_block_size ctx); size = length msg in
      if ctx_rest ctx AND SHA3_FINALIZED \<noteq> 0 then Some ctx
      else if block_size = 0 then None
      else let ctx = ctx\<lparr> ctx_rest := word_of_nat ((idx + size) mod 2 ^ 64 mod block_size) \<rparr> in
        if idx \<noteq> 0 then
          let left = block_size - idx in do {
            message \<leftarrow> mem_blit (ctx_message ctx) idx (take (if size < left then size else left) msg);
            let ctx = ctx\<lparr> ctx_message := message \<rparr>;
            if size < left then Some ctx
            else do {
              hash \<leftarrow> sha3_process_block big (ctx_hash ctx) (ctx_message ctx) block_size;
              absorb_blocks big block_size (addr + word_of_nat left) (drop left msg) (ctx\<lparr> ctx_hash := hash \<rparr>)
            }
          }
        else absorb_blocks big block_size addr msg ctx)"

text \<open>\<open>sha3_Final\<close> and \<open>keccak_Final\<close> differ in the first padding byte only. The context is cleared at the end.\<close>

definition final_with :: "byte \<Rightarrow> bool \<Rightarrow> SHA3_CTX \<Rightarrow> (byte list \<times> SHA3_CTX) option" where
  "final_with suffix big ctx =
     (let block_size = unat (ctx_block_size ctx); digest_length = 100 - block_size div 2; rest = unat (ctx_rest ctx) in do {
        ctx \<leftarrow> (if ctx_rest ctx AND SHA3_FINALIZED \<noteq> 0 then Some ctx
          else do {
            m \<leftarrow> mem_blit (ctx_message ctx) rest (replicate (block_size - rest) 0);
            b \<leftarrow> mem_get m rest;
            m \<leftarrow> mem_put m rest (b OR suffix);
            b \<leftarrow> mem_get m (block_size - 1);
            m \<leftarrow> mem_put m (block_size - 1) (b OR 0x80);
            hash \<leftarrow> sha3_process_block big (ctx_hash ctx) m block_size;
            Some (ctx\<lparr> ctx_message := m, ctx_hash := hash, ctx_rest := SHA3_FINALIZED \<rparr>)
          });
        if block_size > digest_length then do {
          digest \<leftarrow> mem_read (concat (map (host_bytes big 8) (ctx_hash ctx))) 0 digest_length;
          Some (digest, ctx_zero)
        } else None
      })"

definition sha3_Final :: "bool \<Rightarrow> SHA3_CTX \<Rightarrow> (byte list \<times> SHA3_CTX) option" where
  "sha3_Final = final_with 0x06"

definition keccak_Final :: "bool \<Rightarrow> SHA3_CTX \<Rightarrow> (byte list \<times> SHA3_CTX) option" where
  "keccak_Final = final_with 0x01"

definition keccak_256 :: "bool \<Rightarrow> u64 \<Rightarrow> byte list \<Rightarrow> byte list option" where
  "keccak_256 big addr data = do {
     ctx \<leftarrow> sha3_256_Init;
     ctx \<leftarrow> sha3_Update big ctx addr data;
     (digest, ctx) \<leftarrow> keccak_Final big ctx;
     Some digest
   }"

definition keccak_512 :: "bool \<Rightarrow> u64 \<Rightarrow> byte list \<Rightarrow> byte list option" where
  "keccak_512 big addr data = do {
     ctx \<leftarrow> sha3_512_Init;
     ctx \<leftarrow> sha3_Update big ctx addr data;
     (digest, ctx) \<leftarrow> keccak_Final big ctx;
     Some digest
   }"

definition sha3_256 :: "bool \<Rightarrow> u64 \<Rightarrow> byte list \<Rightarrow> byte list option" where
  "sha3_256 big addr data = do {
     ctx \<leftarrow> sha3_256_Init;
     ctx \<leftarrow> sha3_Update big ctx addr data;
     (digest, ctx) \<leftarrow> sha3_Final big ctx;
     Some digest
   }"

definition sha3_512 :: "bool \<Rightarrow> u64 \<Rightarrow> byte list \<Rightarrow> byte list option" where
  "sha3_512 big addr data = do {
     ctx \<leftarrow> sha3_512_Init;
     ctx \<leftarrow> sha3_Update big ctx addr data;
     (digest, ctx) \<leftarrow> sha3_Final big ctx;
     Some digest
   }"


section \<open>The permutation of the standard\<close>

text \<open>Lane \<open>(x, y)\<close> is entry \<open>x + 5 y\<close>; the steps of FIPS 202, section 3.2.\<close>

definition lane :: "u64 list \<Rightarrow> nat \<Rightarrow> nat \<Rightarrow> u64" where
  "lane A x y = A ! (x + 5 * y)"

definition lanes :: "(nat \<Rightarrow> nat \<Rightarrow> u64) \<Rightarrow> u64 list" where
  "lanes a = map (\<lambda>i. a (i mod 5) (i div 5)) [0..<25]"

definition spec_theta :: "(nat \<Rightarrow> nat \<Rightarrow> u64) \<Rightarrow> nat \<Rightarrow> nat \<Rightarrow> u64" where
  "spec_theta a x y =
     (let C = (\<lambda>x. foldr (\<lambda>y w. a x y XOR w) [0..<5] 0) in a x y XOR C ((x + 4) mod 5) XOR word_rotl 1 (C ((x + 1) mod 5)))"

text \<open>Rho walks from \<open>(1, 0)\<close> through all lanes but \<open>(0, 0)\<close>; the \<open>t\<close>-th lane it meets is rotated by a triangular
  number.\<close>

fun rho_walk :: "nat \<Rightarrow> nat \<times> nat" where
  "rho_walk 0 = (1, 0)"
| "rho_walk (Suc t) = (let (x, y) = rho_walk t in (y, (2 * x + 3 * y) mod 5))"

definition rho_offset :: "nat \<Rightarrow> nat \<Rightarrow> nat" where
  "rho_offset x y =
     (case List.find (\<lambda>t. rho_walk t = (x, y)) [0..<24] of
        None \<Rightarrow> 0
      | Some t \<Rightarrow> (t + 1) * (t + 2) div 2 mod 64)"

definition spec_rho :: "(nat \<Rightarrow> nat \<Rightarrow> u64) \<Rightarrow> nat \<Rightarrow> nat \<Rightarrow> u64" where
  "spec_rho a x y = word_rotl (rho_offset x y) (a x y)"

definition spec_pi :: "(nat \<Rightarrow> nat \<Rightarrow> u64) \<Rightarrow> nat \<Rightarrow> nat \<Rightarrow> u64" where
  "spec_pi a x y = a ((x + 3 * y) mod 5) x"

definition spec_chi :: "(nat \<Rightarrow> nat \<Rightarrow> u64) \<Rightarrow> nat \<Rightarrow> nat \<Rightarrow> u64" where
  "spec_chi a x y = a x y XOR (NOT (a ((x + 1) mod 5) y) AND a ((x + 2) mod 5) y)"

text \<open>The round constants come from a linear feedback shift register over \<open>x ^ 8 + x ^ 6 + x ^ 5 + x ^ 4 + 1\<close>.\<close>

definition lfsr_step :: "byte \<Rightarrow> byte" where
  "lfsr_step r = (if bit r 7 then push_bit 1 r XOR 0x71 else push_bit 1 r)"

definition spec_rc :: "nat \<Rightarrow> bool" where
  "spec_rc t = bit ((lfsr_step ^^ (t mod 255)) 1) 0"

definition spec_RC :: "nat \<Rightarrow> u64" where
  "spec_RC r = foldr (\<lambda>j w. (if spec_rc (j + 7 * r) then push_bit (2 ^ j - 1) 1 else 0) OR w) [0..<7] 0"

definition spec_iota :: "nat \<Rightarrow> (nat \<Rightarrow> nat \<Rightarrow> u64) \<Rightarrow> nat \<Rightarrow> nat \<Rightarrow> u64" where
  "spec_iota r a x y = (if x = 0 \<and> y = 0 then a x y XOR spec_RC r else a x y)"

definition spec_round :: "nat \<Rightarrow> u64 list \<Rightarrow> u64 list" where
  "spec_round r A = lanes (spec_iota r (spec_chi (spec_pi (spec_rho (spec_theta (lane A))))))"

definition keccak_f :: "u64 list \<Rightarrow> u64 list" where
  "keccak_f A = fold spec_round [0..<24] A"



section \<open>The code computes the standard permutation\<close>

lemma ROTL64_rotl:
  assumes "0 < n" "n < 64"
  shows "ROTL64 q n = word_rotl n q"
proof (rule bit_word_eqI)
  fix i assume "i < LENGTH(64)"
  then have i: "i < 64" by simp
  have r: "bit (word_rotl n q) i = bit q ((i + (64 - n)) mod 64)"
    using i assms by (simp add: bit_word_rotl_iff)
  have l: "bit (ROTL64 q n) i = ((n \<le> i \<and> bit q (i - n)) \<noteq> bit q (64 - n + i))"
    using i by (simp add: ROTL64_def bit_simps)
  show "bit (ROTL64 q n) i = bit (word_rotl n q) i"
  proof (cases "n \<le> i")
    case True
    then have "64 \<le> 64 - n + i" using assms by simp
    then have "\<not> bit q (64 - n + i)" using bit_imp_le_length [of q "64 - n + i"] by auto
    moreover have "i + (64 - n) = (i - n) + 64" using True assms by simp
    moreover have "(i - n + 64) mod 64 = i - n" using i by simp
    ultimately show ?thesis unfolding l r using True by simp
  next
    case False
    then have "(i + (64 - n)) mod 64 = 64 - n + i" using assms by simp
    then show ?thesis unfolding l r using False by simp
  qed
qed

lemma word_rotl_0: "word_rotl 0 (w :: u64) = w"
  by (rule bit_word_eqI) (simp add: bit_word_rotl_iff)

lemma rho_offsets: "map (\<lambda>i. rho_offset (i mod 5) (i div 5)) [0..<25] =
  [0, 1, 62, 28, 27, 36, 44, 6, 55, 20, 3, 10, 43, 25, 39, 41, 45, 15, 21, 8, 18, 2, 61, 56, 14]"
  by code_simp

lemma upt_25: "[0..<25] = [0, 1, 2, 3, 4, 5, 6, 7, 8, 9, 10, 11, 12, 13, 14, 15, 16, 17, 18, 19, 20, 21, 22, 23, 24::nat]"
  by code_simp

lemma lanes_list:
  "lanes a = [a 0 0, a 1 0, a 2 0, a 3 0, a 4 0, a 0 1, a 1 1, a 2 1, a 3 1, a 4 1, a 0 2, a 1 2, a 2 2, a 3 2, a 4 2,
     a 0 3, a 1 3, a 2 3, a 3 3, a 4 3, a 0 4, a 1 4, a 2 4, a 3 4, a 4 4]"
  by (simp add: lanes_def upt_25)

lemma length_25E:
  assumes "length A = 25"
  obtains a0 a1 a2 a3 a4 a5 a6 a7 a8 a9 a10 a11 a12 a13 a14 a15 a16 a17 a18 a19 a20 a21 a22 a23 a24 where
    "A = [a0, a1, a2, a3, a4, a5, a6, a7, a8, a9, a10, a11, a12, a13, a14, a15, a16, a17, a18, a19, a20, a21, a22, a23, a24]"
  using assms by (simp add: numeral_eq_Suc length_Suc_conv) metis

lemma theta_spec: "length A = 25 \<Longrightarrow> keccak_theta A = lanes (spec_theta (lane A))"
  by (erule length_25E)
    (simp add: keccak_theta_def lanes_list spec_theta_def lane_def ROTL64_rotl upt_rec xor.assoc xor.commute xor.left_commute Let_def)

lemma rho_spec: "length A = 25 \<Longrightarrow> keccak_rho A = lanes (spec_rho (lane A))"
proof (erule length_25E)
  have r: "rho_offset 0 0 = 0" "rho_offset 1 0 = 1" "rho_offset 2 0 = 62" "rho_offset 3 0 = 28" "rho_offset 4 0 = 27"
    "rho_offset 0 1 = 36" "rho_offset 1 1 = 44" "rho_offset 2 1 = 6" "rho_offset 3 1 = 55" "rho_offset 4 1 = 20"
    "rho_offset 0 2 = 3" "rho_offset 1 2 = 10" "rho_offset 2 2 = 43" "rho_offset 3 2 = 25" "rho_offset 4 2 = 39"
    "rho_offset 0 3 = 41" "rho_offset 1 3 = 45" "rho_offset 2 3 = 15" "rho_offset 3 3 = 21" "rho_offset 4 3 = 8"
    "rho_offset 0 4 = 18" "rho_offset 1 4 = 2" "rho_offset 2 4 = 61" "rho_offset 3 4 = 56" "rho_offset 4 4 = 14"
    using rho_offsets by (simp_all add: upt_25)
  show ?thesis if "A = [a0, a1, a2, a3, a4, a5, a6, a7, a8, a9, a10, a11, a12, a13, a14, a15, a16, a17, a18, a19, a20, a21, a22, a23, a24]"
    for a0 a1 a2 a3 a4 a5 a6 a7 a8 a9 a10 a11 a12 a13 a14 a15 a16 a17 a18 a19 a20 a21 a22 a23 a24
    unfolding that lanes_list spec_rho_def r keccak_rho_def rho_rotations_def by (simp add: lane_def ROTL64_rotl word_rotl_0)
qed

lemma pi_spec: "length A = 25 \<Longrightarrow> keccak_pi A = lanes (spec_pi (lane A))"
  by (erule length_25E) (simp add: keccak_pi_def pi_moves_def lanes_list spec_pi_def lane_def Let_def)

lemma chi_spec: "length A = 25 \<Longrightarrow> keccak_chi A = lanes (spec_chi (lane A))"
  by (erule length_25E) (simp add: keccak_chi_def lanes_list spec_chi_def lane_def Let_def)


lemma lane_lanes: "x < 5 \<Longrightarrow> y < 5 \<Longrightarrow> lane (lanes a) x y = a x y"
  by (simp add: lane_def lanes_def)

lemma lanes_cong: "(\<And>x y. x < 5 \<Longrightarrow> y < 5 \<Longrightarrow> a x y = b x y) \<Longrightarrow> lanes a = lanes b"
  by (simp add: lanes_def)

lemma length_lanes [simp]: "length (lanes a) = 25"
  by (simp add: lanes_def)

text \<open>The linear feedback shift register, run once over all rounds.\<close>

fun rc_bits :: "nat \<Rightarrow> byte \<Rightarrow> bool list" where
  "rc_bits 0 r = []"
| "rc_bits (Suc n) r = bit r 0 # rc_bits n (lfsr_step r)"

lemma rc_bits_nth: "i < n \<Longrightarrow> rc_bits n r ! i = bit ((lfsr_step ^^ i) r) 0"
  by (induction n r arbitrary: i rule: rc_bits.induct) (auto simp: nth_Cons funpow_swap1 split: nat.splits)

definition rc_table :: "u64 list" where
  "rc_table =
     (let bits = rc_bits 168 1
      in map (\<lambda>r. foldr (\<lambda>j w. (if bits ! (j + 7 * r) then push_bit (2 ^ j - 1) 1 else 0) OR w) [0..<7] 0) [0..<24])"

lemma rc_table: "rc_table = keccak_round_constants"
  by code_simp

lemma spec_RC_constants:
  assumes "r < 24"
  shows "spec_RC r = keccak_round_constants ! r"
proof -
  have "spec_rc (j + 7 * r) = rc_bits 168 1 ! (j + 7 * r)" if "j < 7" for j
    using assms that by (simp add: spec_rc_def rc_bits_nth del: rc_bits.simps)
  then have "spec_RC r = foldr (\<lambda>j w. (if rc_bits 168 1 ! (j + 7 * r) then push_bit (2 ^ j - 1) 1 else 0) OR w) [0..<7] 0"
    unfolding spec_RC_def by (intro foldr_cong) auto
  also have "\<dots> = rc_table ! r"
    using assms by (simp add: rc_table_def Let_def del: rc_bits.simps upt_Suc)
  finally show ?thesis by (simp only: rc_table)
qed

lemma iota_spec:
  assumes "r < 24"
  shows "(lanes a)[0 := lanes a ! 0 XOR keccak_round_constants ! r] = lanes (spec_iota r a)"
  by (simp add: lanes_list spec_iota_def spec_RC_constants [OF assms])

lemma sha3_round_spec:
  assumes "length A = 25" "r < 24"
  shows "sha3_round r A = spec_round r A"
proof -
  have "keccak_rho (keccak_theta A) = lanes (spec_rho (spec_theta (lane A)))"
    by (auto simp: theta_spec [OF assms(1)] rho_spec spec_rho_def lane_lanes intro!: lanes_cong)
  then have "keccak_pi (keccak_rho (keccak_theta A)) = lanes (spec_pi (spec_rho (spec_theta (lane A))))"
    by (auto simp: pi_spec spec_pi_def lane_lanes intro!: lanes_cong)
  then have "keccak_chi (keccak_pi (keccak_rho (keccak_theta A))) = lanes (spec_chi (spec_pi (spec_rho (spec_theta (lane A)))))"
    by (auto simp: chi_spec spec_chi_def lane_lanes intro!: lanes_cong)
  then show ?thesis by (simp add: sha3_round_def spec_round_def iota_spec [OF assms(2)])
qed

lemma length_spec_round [simp]: "length (spec_round r A) = 25"
  by (simp add: spec_round_def)

lemma rounds_spec:
  assumes "length A = 25" "set rs \<subseteq> {..<24}"
  shows "fold sha3_round rs A = fold spec_round rs A"
  using assms by (induction rs arbitrary: A) (simp_all add: sha3_round_spec)

lemma permutation_spec: "length A = 25 \<Longrightarrow> sha3_permutation A = keccak_f A"
  unfolding sha3_permutation_def keccak_f_def NumberOfRounds_def by (rule rounds_spec) auto

lemma length_keccak_f [simp]: "length (keccak_f A) = 25"
  by (simp add: keccak_f_def upt_rec [of 0 24] fold_map upt_conv_Cons)



section \<open>The sponge\<close>

text \<open>A block is added to the first lanes of the state, each lane least significant byte first.\<close>

definition xor_block :: "bool \<Rightarrow> nat \<Rightarrow> byte list \<Rightarrow> u64 list \<Rightarrow> u64 list" where
  "xor_block big n block A =
     map (\<lambda>i. if i < n then A ! i XOR of_host_bytes big (take 8 (drop (8 * i) block)) else A ! i) [0..<25]"

function absorb :: "nat \<Rightarrow> u64 list \<Rightarrow> byte list \<Rightarrow> u64 list" where
  "absorb r A m =
     (if r = 0 \<or> length m < r then A else absorb r (keccak_f (xor_block False (r div 8) m A)) (drop r m))"
  by pat_completeness auto

termination absorb
  by (relation "measure (\<lambda>(_, _, m). length m)") auto

declare absorb.simps [simp del]

text \<open>The padding of a message that leaves \<open>k\<close> bytes in the last block.\<close>

definition sponge_pad :: "nat \<Rightarrow> byte \<Rightarrow> nat \<Rightarrow> byte list" where
  "sponge_pad r suffix k =
     (if k + 1 = r then [suffix OR 0x80] else suffix # replicate (r - k - 2) 0 @ [0x80])"

definition keccak_sponge :: "nat \<Rightarrow> byte \<Rightarrow> nat \<Rightarrow> byte list \<Rightarrow> byte list" where
  "keccak_sponge r suffix n m =
     take n (concat (map (le_bytes 8) (absorb r (replicate 25 0) (m @ sponge_pad r suffix (length m mod r)))))"

definition sha3_rate :: "nat \<Rightarrow> bool" where
  "sha3_rate r \<longleftrightarrow> r \<in> {72, 104, 136, 144}"

lemma sha3_rateE:
  assumes "sha3_rate r"
  obtains "r = 72" | "r = 104" | "r = 136" | "r = 144"
  using assms by (auto simp: sha3_rate_def)

lemma xor_lanes_append:
  "xor_lanes big (is @ js) block A = (xor_lanes big is block A \<bind> xor_lanes big js block)"
  by (induction "is" arbitrary: A) (simp_all add: bind_assoc split: bind_split)

lemma length_xor_block [simp]: "length (xor_block big n block A) = 25"
  by (simp add: xor_block_def)

lemma xor_lanes_block:
  assumes "8 * n \<le> length block" "n \<le> 25" "length A = 25"
  shows "xor_lanes big [0..<n] block A = Some (xor_block big n block A)"
  using assms
proof (induction n)
  case 0
  then show ?case by (simp add: xor_block_def map_nth [of A, unfolded 0])
next
  case (Suc n)
  have "(xor_block big n block A)[n := xor_block big n block A ! n XOR of_host_bytes big (take 8 (drop (8 * n) block))]
      = xor_block big (Suc n) block A"
    using Suc.prems by (intro nth_equalityI) (auto simp: xor_block_def nth_list_update less_Suc_eq)
  then show ?case using Suc by (simp add: xor_lanes_append)
qed

lemma process_block:
  assumes "sha3_rate r" "r \<le> length block" "length A = 25"
  shows "sha3_process_block big A block r = Some (keccak_f (xor_block big (r div 8) block A))"
proof -
  have u: "[0..<13::nat] = [0..<9] @ [9..<13]" "[0..<17::nat] = [0..<9] @ [9..<13] @ [13..<17]"
    "[0..<18::nat] = [0..<9] @ [9..<13] @ [13..<17] @ [17]"
    by code_simp+
  have "sha3_process_block big A block r = map_option sha3_permutation (xor_lanes big [0..<r div 8] block A)"
    using assms(1)
    by (cases rule: sha3_rateE)
      (simp_all add: sha3_process_block_def u xor_lanes_append map_conv_bind_option bind_assoc comp_def del: upt_rec_numeral upt_Suc)
  moreover have "xor_lanes big [0..<r div 8] block A = Some (xor_block big (r div 8) block A)"
    using assms by (intro xor_lanes_block) (auto simp: sha3_rate_def)
  ultimately show ?thesis by (simp add: permutation_spec)
qed

lemma xor_block_take: "8 * n \<le> k \<Longrightarrow> xor_block big n (take k block) A = xor_block big n block A"
  by (simp add: xor_block_def take_drop min_def)

lemma length_absorb [simp]: "length A = 25 \<Longrightarrow> length (absorb r A m) = 25"
  by (induction r A m rule: absorb.induct) (simp add: absorb.simps [of _ _ _])

lemma absorb_short [simp]: "length m < r \<Longrightarrow> absorb r A m = A"
  by (simp add: absorb.simps)

lemma absorb_block:
  "0 < r \<Longrightarrow> r \<le> length m \<Longrightarrow> absorb r A m = absorb r (keccak_f (xor_block False (r div 8) m A)) (drop r m)"
  by (simp add: absorb.simps [of r A m])

lemma absorb_append:
  assumes "0 < r" "r mod 8 = 0" "r dvd length m"
  shows "absorb r A (m @ m') = absorb r (absorb r A m) m'"
  using assms
proof (induction r A m rule: absorb.induct)
  case (1 r A m)
  show ?case
  proof (cases "length m < r")
    case True
    then have "m = []" using 1 by (auto dest: nat_dvd_not_less)
    then show ?thesis using 1 by simp
  next
    case False
    have "xor_block False (r div 8) (m @ m') A = xor_block False (r div 8) m A"
      using xor_block_take [of "r div 8" "length m" False "m @ m'" A] False by (simp add: div_le_dividend le_trans)
    moreover have "r dvd length (drop r m)" using 1 by (simp add: dvd_minus_self)
    ultimately show ?thesis
      using 1 False absorb_block [of r "m @ m'" A] absorb_block [of r m A] by simp
  qed
qed



section \<open>The context holds what was fed to it\<close>

text \<open>A context that was fed the bytes \<open>m\<close>: the whole blocks are absorbed and the rest is at the front of the buffer.\<close>

definition ctx_holds :: "nat \<Rightarrow> SHA3_CTX \<Rightarrow> byte list \<Rightarrow> bool" where
  "ctx_holds r ctx m \<longleftrightarrow>
     ctx_block_size ctx = word_of_nat r \<and> length (ctx_message ctx) = 192 \<and> ctx_rest ctx = word_of_nat (length m mod r) \<and>
     ctx_hash ctx = absorb r (replicate 25 0) m \<and>
     take (length m mod r) (ctx_message ctx) = drop (length m - length m mod r) m"

lemma sha3_rate_facts:
  assumes "sha3_rate r"
  shows "0 < r" "r mod 8 = 0" "r \<le> 144" "unat (word_of_nat r :: u32) = r" "unat (word_of_nat (n mod r) :: u32) = n mod r"
proof -
  show r: "0 < r" "r mod 8 = 0" "r \<le> 144" "unat (word_of_nat r :: u32) = r" using assms by (auto elim: sha3_rateE)
  have "n mod r < r" using r by simp
  then show "unat (word_of_nat (n mod r) :: u32) = n mod r"
    using r(3) by (simp add: unat_of_nat mod_less [of "n mod r"] del: mod_mod_trivial)
qed

lemma not_finalized: "n < 2 ^ 31 \<Longrightarrow> (word_of_nat n :: u32) AND SHA3_FINALIZED = 0"
proof -
  assume "n < 2 ^ 31"
  then have "take_bit 31 n = n" by (simp add: take_bit_nat_eq_self)
  then have "\<not> bit n 31" by (metis bit_take_bit_iff less_irrefl)
  then have "\<not> bit (word_of_nat n :: u32) 31" by (simp add: bit_simps)
  then show ?thesis
    using and_exp_eq_0_iff_not_bit [of "word_of_nat n :: u32" 31] by (simp add: SHA3_FINALIZED_def)
qed

lemma absorb_blocks_result:
  assumes "sha3_rate r" "length (ctx_hash ctx) = 25" "length (ctx_message ctx) = 192"
  shows "\<exists>buf. absorb_blocks False r addr m ctx = Some (ctx\<lparr> ctx_message := buf, ctx_hash := absorb r (ctx_hash ctx) m \<rparr>) \<and>
    length buf = 192 \<and> take (length m mod r) buf = drop (length m - length m mod r) m"
  using assms
proof (induction False r addr m ctx rule: absorb_blocks.induct)
  case (1 r addr m ctx)
  note f = sha3_rate_facts [OF 1(2)]
  show ?case
  proof (cases "r \<le> length m")
    case False
    then show ?thesis
      using f(1,3) 1(3,4) by (intro exI [of _ "patch (ctx_message ctx) 0 m"]) (simp add: absorb_blocks.simps [of _ r addr m])
  next
    case True
    let ?b = "if IS_ALIGNED_64 addr then ctx_message ctx else patch (ctx_message ctx) 0 (take r m)"
    let ?block = "if IS_ALIGNED_64 addr then m else ?b"
    have m: "(if IS_ALIGNED_64 addr then Some (ctx_message ctx) else mem_blit (ctx_message ctx) 0 (take r m)) = Some ?b"
      using True f 1(4) by simp
    have "xor_block False (r div 8) ?block (ctx_hash ctx) = xor_block False (r div 8) m (ctx_hash ctx)"
      using f(2) True xor_block_take [of "r div 8" r False "patch (ctx_message ctx) 0 (take r m)" "ctx_hash ctx"]
        xor_block_take [of "r div 8" r False m "ctx_hash ctx"] take_patch_0 [of "take r m" "ctx_message ctx"]
      by (simp add: min_absorb2)
    moreover have "sha3_process_block False (ctx_hash ctx) ?block r = Some (keccak_f (xor_block False (r div 8) ?block (ctx_hash ctx)))"
      using True f 1(3,4) by (intro process_block [OF 1(2)]) auto
    ultimately have p: "sha3_process_block False (ctx_hash ctx) ?block r = Some (keccak_f (xor_block False (r div 8) m (ctx_hash ctx)))"
      by simp
    let ?ctx = "ctx\<lparr> ctx_message := ?b, ctx_hash := keccak_f (xor_block False (r div 8) m (ctx_hash ctx)) \<rparr>"
    have "length ?b = 192" using f 1(4) True by simp
    then have "\<exists>buf. absorb_blocks False r (addr + word_of_nat r) (drop r m) ?ctx =
        Some (?ctx\<lparr> ctx_message := buf, ctx_hash := absorb r (ctx_hash ?ctx) (drop r m) \<rparr>) \<and>
      length buf = 192 \<and> take (length (drop r m) mod r) buf = drop (length (drop r m) - length (drop r m) mod r) (drop r m)"
      using f(1) True by (intro 1(1) [OF _ _ m refl p 1(2)]) simp_all
    then obtain buf where buf: "absorb_blocks False r (addr + word_of_nat r) (drop r m) ?ctx =
        Some (?ctx\<lparr> ctx_message := buf, ctx_hash := absorb r (ctx_hash ?ctx) (drop r m) \<rparr>)"
      "length buf = 192" "take (length (drop r m) mod r) buf = drop (length (drop r m) - length (drop r m) mod r) (drop r m)"
      by blast
    have "length (drop r m) mod r = length m mod r" using True by (simp add: le_mod_geq)
    moreover have "length m mod r \<le> length m - r"
      using True f(1) by (metis le_mod_geq mod_less_eq_dividend)
    ultimately have "take (length m mod r) buf = drop (length m - length m mod r) m"
      using buf(3) True by (simp add: add.commute)
    moreover have "absorb_blocks False r addr m ctx = Some (ctx\<lparr> ctx_message := buf, ctx_hash := absorb r (ctx_hash ctx) m \<rparr>)"
      using m p buf(1) True f(1) absorb_block [of r m "ctx_hash ctx"]
      by (simp add: absorb_blocks.simps [of _ r addr m ctx] Let_def)
    ultimately show ?thesis using buf(2) by blast
  qed
qed


text \<open>The same with the message split into the absorbed blocks \<open>w\<close> and the rest \<open>l\<close>.\<close>

lemma ctx_holds_split:
  assumes "sha3_rate r"
  shows "ctx_holds r ctx m \<longleftrightarrow> (\<exists>w l. m = w @ l \<and> r dvd length w \<and> length l < r \<and> length (ctx_message ctx) = 192 \<and>
    ctx_block_size ctx = word_of_nat r \<and> ctx_rest ctx = word_of_nat (length l) \<and>
    ctx_hash ctx = absorb r (replicate 25 0) w \<and> take (length l) (ctx_message ctx) = l)" (is "_ \<longleftrightarrow> ?R")
proof -
  note f = sha3_rate_facts [OF assms]
  show ?thesis
  proof
    assume h: "ctx_holds r ctx m"
    let ?k = "length m mod r"
    let ?w = "take (length m - ?k) m" and ?l = "drop (length m - ?k) m"
    have l: "length ?l = ?k" "?k < r" using f(1) by simp_all
    have w: "r dvd length ?w" by (simp add: dvd_minus_mod)
    have "absorb r (replicate 25 0) (?w @ ?l) = absorb r (absorb r (replicate 25 0) ?w) ?l"
      by (rule absorb_append [OF f(1,2) w])
    then have "absorb r (replicate 25 0) m = absorb r (replicate 25 0) ?w" using l by simp
    then show ?R using h l w by (intro exI [of _ ?w] exI [of _ ?l]) (simp add: ctx_holds_def)
  next
    assume ?R
    then obtain w l where d: "m = w @ l" "r dvd length w" "length l < r" "length (ctx_message ctx) = 192"
      "ctx_block_size ctx = word_of_nat r" "ctx_rest ctx = word_of_nat (length l)"
      "ctx_hash ctx = absorb r (replicate 25 0) w" "take (length l) (ctx_message ctx) = l" by blast
    have "length m mod r = length l" using d(1-3) by (auto elim!: dvdE)
    moreover have "absorb r (replicate 25 0) m = absorb r (replicate 25 0) w"
      using absorb_append [OF f(1,2) d(2)] d(1,3) by simp
    ultimately show "ctx_holds r ctx m" using d by (simp add: ctx_holds_def)
  qed
qed

lemma ctx_holds_Init:
  assumes "sha3_rate r"
  shows "ctx_holds r (ctx_zero\<lparr> ctx_block_size := word_of_nat r \<rparr>) []"
  by (simp add: ctx_holds_def ctx_zero_def sha3_rate_facts [OF assms])

lemma Init_holds:
  "\<exists>ctx. sha3_224_Init = Some ctx \<and> ctx_holds 144 ctx []" "\<exists>ctx. sha3_256_Init = Some ctx \<and> ctx_holds 136 ctx []"
  "\<exists>ctx. sha3_384_Init = Some ctx \<and> ctx_holds 104 ctx []" "\<exists>ctx. sha3_512_Init = Some ctx \<and> ctx_holds 72 ctx []"
  using ctx_holds_Init [of 144] ctx_holds_Init [of 136] ctx_holds_Init [of 104] ctx_holds_Init [of 72]
  by (simp_all add: sha3_224_Init_def sha3_256_Init_def sha3_384_Init_def sha3_512_Init_def keccak_Init_def sha3_rate_def Let_def)

text \<open>After the buffered bytes, the rest of a chunk is absorbed block by block.\<close>

lemma absorb_blocks_holds:
  assumes "sha3_rate r" "r dvd length w" "ctx_hash ctx = absorb r (replicate 25 0) w" "length (ctx_message ctx) = 192"
    and "ctx_block_size ctx = word_of_nat r" "ctx_rest ctx = word_of_nat (length x mod r)"
  shows "\<exists>ctx'. absorb_blocks False r addr x ctx = Some ctx' \<and> ctx_holds r ctx' (w @ x)"
proof -
  note f = sha3_rate_facts [OF assms(1)]
  obtain buf where buf: "absorb_blocks False r addr x ctx = Some (ctx\<lparr> ctx_message := buf, ctx_hash := absorb r (ctx_hash ctx) x \<rparr>)"
    "length buf = 192" "take (length x mod r) buf = drop (length x - length x mod r) x"
    using absorb_blocks_result [OF assms(1), of ctx addr x] assms(3,4) by auto
  have "absorb r (replicate 25 0) (w @ x) = absorb r (ctx_hash ctx) x"
    by (simp add: absorb_append [OF f(1,2) assms(2)] assms(3))
  moreover have "length (w @ x) mod r = length x mod r" using assms(2) by (auto elim!: dvdE)
  moreover have "length (w @ x) - length x mod r = length w + (length x - length x mod r)"
    by (simp only: length_append Nat.add_diff_assoc [OF mod_less_eq_dividend])
  moreover have "drop (length w + n) (w @ x) = drop n x" for n by simp
  ultimately have "ctx_holds r (ctx\<lparr> ctx_message := buf, ctx_hash := absorb r (ctx_hash ctx) x \<rparr>) (w @ x)"
    using buf assms(5,6) by (simp only: ctx_holds_def) simp
  then show ?thesis using buf by simp
qed

lemma Update_holds:
  assumes "sha3_rate r" "ctx_holds r ctx m" "length x < 2 ^ 63"
  shows "\<exists>ctx'. sha3_Update False ctx addr x = Some ctx' \<and> ctx_holds r ctx' (m @ x)"
proof -
  note f = sha3_rate_facts [OF assms(1)]
  obtain w l where d: "m = w @ l" "r dvd length w" "length l < r" "length (ctx_message ctx) = 192"
      "ctx_block_size ctx = word_of_nat r" "ctx_rest ctx = word_of_nat (length l)"
      "ctx_hash ctx = absorb r (replicate 25 0) w" "take (length l) (ctx_message ctx) = l"
    using assms(2) unfolding ctx_holds_split [OF assms(1)] by blast
  have idx: "unat (ctx_rest ctx) = length l" using f(5) [of "length l"] d(3,6) by simp
  have fin: "ctx_rest ctx AND SHA3_FINALIZED = 0" unfolding d(6) using d(3) f(3) by (intro not_finalized) simp
  have wrap: "(length l + length x) mod 2 ^ 64 = length l + length x" using d(3) f(3) assms(3) by simp
  let ?left = "r - length l" and ?ctx = "ctx\<lparr> ctx_rest := word_of_nat ((length l + length x) mod r) \<rparr>"
  note U = sha3_Update_def [of False ctx addr x, unfolded idx fin d(5) f(4) wrap]
  show ?thesis
  proof (cases "length l = 0")
    case True
    then show ?thesis
      using absorb_blocks_holds [OF assms(1) d(2), of ?ctx x addr] d U f(1) assms(3) by (simp add: Let_def)
  next
    case False
    show ?thesis
    proof (cases "length x < ?left")
      case True
      let ?ctx' = "?ctx\<lparr> ctx_message := patch (ctx_message ctx) (length l) x \<rparr>"
      have "sha3_Update False ctx addr x = Some ?ctx'"
        using U False True d(3,4) f(1,3) by (simp add: Let_def)
      moreover have "take (length (l @ x)) (patch (ctx_message ctx) (length l) x) = l @ x"
        using d(8,4,3) f(3) True by (simp add: patch_def)
      then have "ctx_holds r ?ctx' (w @ l @ x)"
        unfolding ctx_holds_split [OF assms(1)]
        using d True f(3) by (intro exI [of _ w] exI [of _ "l @ x"]) simp
      ultimately show ?thesis using d(1) by simp
    next
      case big: False
      let ?buf = "patch (ctx_message ctx) (length l) (take ?left x)" and ?b = "l @ take ?left x"
      have b: "length ?b = r" "take r ?buf = ?b" "length ?buf = 192"
        using d(3,4,8) f(3) big by (simp_all add: patch_def)
      have "xor_block False (r div 8) ?buf (ctx_hash ctx) = xor_block False (r div 8) ?b (ctx_hash ctx)"
        using xor_block_take [of "r div 8" r False ?buf] b(2) by simp
      then have "sha3_process_block False (ctx_hash ctx) ?buf r = Some (absorb r (ctx_hash ctx) ?b)"
        using process_block [OF assms(1), of ?buf "ctx_hash ctx" False] absorb_block [of r ?b "ctx_hash ctx"] b f(1,3) d(7) by simp
      moreover have "absorb r (ctx_hash ctx) ?b = absorb r (replicate 25 0) (w @ ?b)"
        unfolding d(7) by (rule absorb_append [OF f(1,2) d(2), symmetric])
      ultimately have p: "sha3_process_block False (ctx_hash ctx) ?buf r = Some (absorb r (replicate 25 0) (w @ ?b))" by simp
      let ?c2 = "?ctx\<lparr> ctx_message := ?buf, ctx_hash := absorb r (replicate 25 0) (w @ ?b) \<rparr>"
      have "sha3_Update False ctx addr x = absorb_blocks False r (addr + word_of_nat ?left) (drop ?left x) ?c2"
        using U False big d(3,4) f(1,3) p assms(3) by (simp add: Let_def)
      moreover have "\<exists>ctx'. absorb_blocks False r (addr + word_of_nat ?left) (drop ?left x) ?c2 = Some ctx' \<and>
          ctx_holds r ctx' ((w @ ?b) @ drop ?left x)"
      proof (rule absorb_blocks_holds [OF assms(1)])
        show "r dvd length (w @ ?b)" using d(2) b(1) by (simp only: length_append [of w] dvd_add_right_iff dvd_refl)
        have "length l + length x = r + length (drop ?left x)" using big d(3) by simp
        then have "(length l + length x) mod r = length (drop ?left x) mod r" by (simp only: mod_add_self1)
        then show "ctx_rest ?c2 = word_of_nat (length (drop ?left x) mod r)" by (simp del: length_drop)
      qed (use b(3) d(5) in simp_all)
      ultimately show ?thesis using d(1) by simp
    qed
  qed
qed


text \<open>The last block: the padding overwrites whatever the buffer held behind the rest.\<close>

lemma final_block:
  assumes "length l < r" "r \<le> length buf" "take (length l) buf = l"
  shows "\<exists>m. do {
       m \<leftarrow> mem_blit buf (length l) (replicate (r - length l) 0);
       b \<leftarrow> mem_get m (length l);
       m \<leftarrow> mem_put m (length l) (b OR suffix);
       b \<leftarrow> mem_get m (r - 1);
       mem_put m (r - 1) (b OR 0x80)
     } = Some m \<and> take r m = l @ sponge_pad r suffix (length l) \<and> length m = length buf"
proof -
  let ?T = "drop r buf"
  have p: "patch buf (length l) (replicate (r - length l) 0) = l @ replicate (r - length l) 0 @ ?T"
    using assms by (simp add: patch_def)
  have T: "length l + length (replicate (r - length l) (0 :: byte)) + length ?T = length buf" using assms by simp
  show ?thesis
  proof (cases "length l + 1 = r")
    case True
    then have z: "r - length l = 1" "r - 1 = length l" by simp_all
    show ?thesis
      using assms p T True unfolding z
      by (simp add: z mem_put_def mem_get_def nth_append list_update_append sponge_pad_def)
  next
    case False
    define Z where "Z = replicate (r - length l - 2) (0 :: byte)"
    have "r - length l = Suc (Suc (r - length l - 2))" using False assms(1) by simp
    then have z: "replicate (r - length l) (0 :: byte) = 0 # Z @ [0]"
      unfolding Z_def by (metis replicate_Suc replicate_append_same append_Cons)
    have r: "r - 1 = length (l @ suffix # Z)" "sponge_pad r suffix (length l) = suffix # Z @ [0x80]"
      using False assms(1) by (simp_all add: Z_def sponge_pad_def)
    have u: "(l @ suffix # Z @ 0 # ?T)[r - 1 := 0x80] = l @ suffix # Z @ 0x80 # ?T"
      "(l @ suffix # Z @ 0 # ?T) ! (r - 1) = 0"
      using list_update_length [of "l @ suffix # Z" 0 ?T "0x80"] nth_append_length [of "l @ suffix # Z" 0 ?T] unfolding r(1)
      by simp_all
    have "r = length (l @ suffix # Z @ [0x80])" using False assms(1) by (simp add: Z_def)
    then have "take r (l @ suffix # Z @ 0x80 # ?T) = l @ suffix # Z @ [0x80]" by simp
    moreover have "r - Suc 0 < Suc (Suc (length l + (length Z + length buf) - r))"
      "Suc (Suc (length l + (length Z + length buf) - r)) = length buf"
      using False assms(1,2) by (simp_all add: Z_def)
    ultimately show ?thesis
      using assms p u unfolding z r(2)
      by (simp add: mem_put_def mem_get_def)
  qed
qed

lemma length_concat_le_bytes [simp]: "length (concat (map (le_bytes 8) A)) = 8 * length A"
  by (induction A) simp_all

lemma final_with_holds:
  assumes "sha3_rate r" "ctx_holds r ctx m"
  shows "final_with suffix False ctx = Some (keccak_sponge r suffix (100 - r div 2) m, ctx_zero)"
proof -
  note f = sha3_rate_facts [OF assms(1)]
  obtain w l where d: "m = w @ l" "r dvd length w" "length l < r" "length (ctx_message ctx) = 192"
      "ctx_block_size ctx = word_of_nat r" "ctx_rest ctx = word_of_nat (length l)"
      "ctx_hash ctx = absorb r (replicate 25 0) w" "take (length l) (ctx_message ctx) = l"
    using assms(2) unfolding ctx_holds_split [OF assms(1)] by blast
  have rest: "unat (ctx_rest ctx) = length l" "unat (ctx_block_size ctx) = r"
    using f(4) f(5) [of "length l"] d(3,5,6) by simp_all
  have fin: "ctx_rest ctx AND SHA3_FINALIZED = 0" unfolding d(6) using d(3) f(3) by (intro not_finalized) simp
  let ?pad = "sponge_pad r suffix (length l)"
  obtain b where b: "do {
       m \<leftarrow> mem_blit (ctx_message ctx) (length l) (replicate (r - length l) 0);
       b \<leftarrow> mem_get m (length l);
       m \<leftarrow> mem_put m (length l) (b OR suffix);
       b \<leftarrow> mem_get m (r - 1);
       mem_put m (r - 1) (b OR 0x80)
     } = Some b" "take r b = l @ ?pad" "length b = 192"
    using final_block [of l r "ctx_message ctx" suffix] d(3,4,8) f(3) by auto
  have pad: "length (l @ ?pad) = r" using d(3) by (auto simp: sponge_pad_def)
  have "xor_block False (r div 8) b (ctx_hash ctx) = xor_block False (r div 8) (l @ ?pad) (ctx_hash ctx)"
    using xor_block_take [of "r div 8" r False b] b(2) by simp
  then have "sha3_process_block False (ctx_hash ctx) b r = Some (absorb r (ctx_hash ctx) (l @ ?pad))"
    using process_block [OF assms(1), of b "ctx_hash ctx" False] absorb_block [of r "l @ ?pad" "ctx_hash ctx"] b pad f(1,3) d(7) by simp
  moreover have "absorb r (ctx_hash ctx) (l @ ?pad) = absorb r (replicate 25 0) (m @ ?pad)"
    using absorb_append [OF f(1,2) d(2), of "replicate 25 0" "l @ ?pad"] d(1,7) by simp
  ultimately have p: "sha3_process_block False (ctx_hash ctx) b r = Some (absorb r (replicate 25 0) (m @ ?pad))" by simp
  have "length m mod r = length l" using d(1-3) by (auto elim!: dvdE)
  moreover have "100 - r div 2 < r" "100 - r div 2 \<le> 200" using assms(1) by (auto elim: sha3_rateE)
  moreover have "host_bytes False 8 = (le_bytes 8 :: u64 \<Rightarrow> byte list)" by (simp add: fun_eq_iff host_bytes_def)
  moreover have "final_with suffix False ctx = do {
        m \<leftarrow> do {
           m \<leftarrow> mem_blit (ctx_message ctx) (length l) (replicate (r - length l) 0);
           b \<leftarrow> mem_get m (length l);
           m \<leftarrow> mem_put m (length l) (b OR suffix);
           b \<leftarrow> mem_get m (r - 1);
           mem_put m (r - 1) (b OR 0x80)
         };
        hash \<leftarrow> sha3_process_block False (ctx_hash ctx) m r;
        if r > 100 - r div 2 then do {
          digest \<leftarrow> mem_read (concat (map (host_bytes False 8) hash)) 0 (100 - r div 2);
          Some (digest, ctx_zero)
        } else None
      }"
    by (simp add: final_with_def rest fin Let_def bind_assoc cong: if_cong)
  ultimately show ?thesis
    by (simp only: b(1)) (simp add: p keccak_sponge_def)
qed

lemma hash_holds:
  assumes "sha3_rate r" "init = Some ctx \<and> ctx_holds r ctx []" "length data < 2 ^ 63"
  shows "do { ctx \<leftarrow> init; ctx \<leftarrow> sha3_Update False ctx addr data; (digest, ctx) \<leftarrow> final_with suffix False ctx; Some digest }
    = Some (keccak_sponge r suffix (100 - r div 2) data)"
  using Update_holds [OF assms(1) conjunct2 [OF assms(2)] assms(3), of addr] final_with_holds [OF assms(1)] assms(2) by auto


section \<open>Properties\<close>

text \<open>C11: The permutation of the code, with its unrolled moves, rotation distances and table of round constants, is
  the permutation of the standard: theta, rho with the triangular offsets of its walk, pi, chi and iota with the
  constants of the shift register, 24 times.\<close>

theorem sha3_permutation_spec:
  assumes "length A = 25"
  shows "sha3_permutation A = keccak_f A"
  using assms by (rule permutation_spec)

theorem sha3_permutation_spec_witness:
  "sha3_permutation (replicate 25 0) = keccak_f (replicate 25 0)"
  by (rule sha3_permutation_spec) simp

text \<open>A context that holds the bytes \<open>m\<close> and is fed a chunk holds the message with the chunk appended, at
  whatever address the chunk lies and however it splits into blocks, so the way a message is cut into chunks never
  changes the state; nothing outside the buffers is touched.\<close>

theorem sha3_Update_holds:
  assumes "sha3_rate r" "ctx_holds r ctx m" "length x < 2 ^ 63"
  shows "\<exists>ctx'. sha3_Update False ctx addr x = Some ctx' \<and> ctx_holds r ctx' (m @ x)"
  using assms by (rule Update_holds)

theorem sha3_Update_holds_witness:
  "\<exists>ctx'. sha3_Update False (ctx_zero\<lparr> ctx_block_size := 136 \<rparr>) 3 (replicate 200 7) = Some ctx' \<and>
     ctx_holds 136 ctx' (replicate 200 7)"
  using sha3_Update_holds [of 136 "ctx_zero\<lparr> ctx_block_size := 136 \<rparr>" "[]" "replicate 200 7" 3] ctx_holds_Init [of 136]
  by (simp add: sha3_rate_def)

text \<open>C10: On a little-endian host each one-call hash is the sponge over the padded message: rate 136 and 32 bytes or
  rate 72 and 64 bytes, first padding byte 1 for Keccak and 6 for SHA-3.\<close>

theorem hashes_sponge:
  assumes "length data < 2 ^ 63"
  shows "keccak_256 False addr data = Some (keccak_sponge 136 0x01 32 data) \<and>
    keccak_512 False addr data = Some (keccak_sponge 72 0x01 64 data) \<and>
    sha3_256 False addr data = Some (keccak_sponge 136 0x06 32 data) \<and>
    sha3_512 False addr data = Some (keccak_sponge 72 0x06 64 data)"
proof -
  obtain c1 c2 where "sha3_256_Init = Some c1 \<and> ctx_holds 136 c1 []" "sha3_512_Init = Some c2 \<and> ctx_holds 72 c2 []"
    using Init_holds by blast
  then show ?thesis
    using hash_holds [of 136 sha3_256_Init c1 data addr] hash_holds [of 72 sha3_512_Init c2 data addr] assms
    by (simp add: keccak_256_def keccak_512_def sha3_256_def sha3_512_def keccak_Final_def sha3_Final_def sha3_rate_def)
qed

theorem hashes_sponge_witness:
  "keccak_256 False 0 [1, 2, 3] = Some (keccak_sponge 136 0x01 32 [1, 2, 3])"
  using hashes_sponge [of "[1, 2, 3]" 0] by simp

end
