(* ===== verification/Sha2.thy ===== *)
theory Sha2
  imports Emb_Prelude
begin

text \<open>
  \<open>src/crypto/sha2.c\<close>: SHA-1, SHA-256 and SHA-512. Each has a compression function, in a version with loops and
  in one with unrolled rounds (\<open>SHA2_UNROLL_TRANSFORM\<close>), and a context that collects the message into blocks.
  The three copies of the context code differ only in the sizes and the counter, which a record of parameters
  carries. \<open>big\<close> is the byte order of the host; the buffer is the memory of the array of words.
\<close>

section \<open>Logical functions and constants\<close>

definition SHR :: "nat \<Rightarrow> 'a::len word \<Rightarrow> 'a word" where
  "SHR b x = drop_bit b x"

definition ROTR32 :: "nat \<Rightarrow> u32 \<Rightarrow> u32" where
  "ROTR32 b x = drop_bit b x OR push_bit (32 - b) x"

definition ROTR64 :: "nat \<Rightarrow> u64 \<Rightarrow> u64" where
  "ROTR64 b x = drop_bit b x OR push_bit (64 - b) x"

definition ROTL32 :: "nat \<Rightarrow> u32 \<Rightarrow> u32" where
  "ROTL32 b x = push_bit b x OR drop_bit (32 - b) x"

definition Ch :: "'a::len word \<Rightarrow> 'a word \<Rightarrow> 'a word \<Rightarrow> 'a word" where
  "Ch x y z = (x AND y) XOR (NOT x AND z)"

definition Maj :: "'a::len word \<Rightarrow> 'a word \<Rightarrow> 'a word \<Rightarrow> 'a word" where
  "Maj x y z = (x AND y) XOR (x AND z) XOR (y AND z)"

definition Parity :: "'a::len word \<Rightarrow> 'a word \<Rightarrow> 'a word \<Rightarrow> 'a word" where
  "Parity x y z = x XOR y XOR z"

definition Sigma0_256 :: "u32 \<Rightarrow> u32" where "Sigma0_256 x = ROTR32 2 x XOR ROTR32 13 x XOR ROTR32 22 x"
definition Sigma1_256 :: "u32 \<Rightarrow> u32" where "Sigma1_256 x = ROTR32 6 x XOR ROTR32 11 x XOR ROTR32 25 x"
definition sigma0_256 :: "u32 \<Rightarrow> u32" where "sigma0_256 x = ROTR32 7 x XOR ROTR32 18 x XOR SHR 3 x"
definition sigma1_256 :: "u32 \<Rightarrow> u32" where "sigma1_256 x = ROTR32 17 x XOR ROTR32 19 x XOR SHR 10 x"
definition Sigma0_512 :: "u64 \<Rightarrow> u64" where "Sigma0_512 x = ROTR64 28 x XOR ROTR64 34 x XOR ROTR64 39 x"
definition Sigma1_512 :: "u64 \<Rightarrow> u64" where "Sigma1_512 x = ROTR64 14 x XOR ROTR64 18 x XOR ROTR64 41 x"
definition sigma0_512 :: "u64 \<Rightarrow> u64" where "sigma0_512 x = ROTR64 1 x XOR ROTR64 8 x XOR SHR 7 x"
definition sigma1_512 :: "u64 \<Rightarrow> u64" where "sigma1_512 x = ROTR64 19 x XOR ROTR64 61 x XOR SHR 6 x"

definition REVERSE32 :: "u32 \<Rightarrow> u32" where
  "REVERSE32 w =
     (let tmp = drop_bit 16 w OR push_bit 16 w
      in drop_bit 8 (tmp AND 0xff00ff00) OR push_bit 8 (tmp AND 0x00ff00ff))"

definition REVERSE64 :: "u64 \<Rightarrow> u64" where
  "REVERSE64 w =
     (let tmp = drop_bit 32 w OR push_bit 32 w;
          tmp = drop_bit 8 (tmp AND 0xff00ff00ff00ff00) OR push_bit 8 (tmp AND 0x00ff00ff00ff00ff)
      in drop_bit 16 (tmp AND 0xffff0000ffff0000) OR push_bit 16 (tmp AND 0x0000ffff0000ffff))"

definition K1_0_TO_19 :: u32 where "K1_0_TO_19 = 0x5a827999"
definition K1_20_TO_39 :: u32 where "K1_20_TO_39 = 0x6ed9eba1"
definition K1_40_TO_59 :: u32 where "K1_40_TO_59 = 0x8f1bbcdc"
definition K1_60_TO_79 :: u32 where "K1_60_TO_79 = 0xca62c1d6"

definition sha1_initial_hash_value :: "u32 list" where
  "sha1_initial_hash_value = [0x67452301, 0xefcdab89, 0x98badcfe, 0x10325476, 0xc3d2e1f0]"

definition K256 :: "u32 list" where
  "K256 = concat [
    [0x428a2f98, 0x71374491, 0xb5c0fbcf, 0xe9b5dba5], [0x3956c25b, 0x59f111f1, 0x923f82a4, 0xab1c5ed5],
    [0xd807aa98, 0x12835b01, 0x243185be, 0x550c7dc3], [0x72be5d74, 0x80deb1fe, 0x9bdc06a7, 0xc19bf174],
    [0xe49b69c1, 0xefbe4786, 0x0fc19dc6, 0x240ca1cc], [0x2de92c6f, 0x4a7484aa, 0x5cb0a9dc, 0x76f988da],
    [0x983e5152, 0xa831c66d, 0xb00327c8, 0xbf597fc7], [0xc6e00bf3, 0xd5a79147, 0x06ca6351, 0x14292967],
    [0x27b70a85, 0x2e1b2138, 0x4d2c6dfc, 0x53380d13], [0x650a7354, 0x766a0abb, 0x81c2c92e, 0x92722c85],
    [0xa2bfe8a1, 0xa81a664b, 0xc24b8b70, 0xc76c51a3], [0xd192e819, 0xd6990624, 0xf40e3585, 0x106aa070],
    [0x19a4c116, 0x1e376c08, 0x2748774c, 0x34b0bcb5], [0x391c0cb3, 0x4ed8aa4a, 0x5b9cca4f, 0x682e6ff3],
    [0x748f82ee, 0x78a5636f, 0x84c87814, 0x8cc70208], [0x90befffa, 0xa4506ceb, 0xbef9a3f7, 0xc67178f2]]"

definition sha256_initial_hash_value :: "u32 list" where
  "sha256_initial_hash_value = [
    0x6a09e667, 0xbb67ae85, 0x3c6ef372, 0xa54ff53a, 0x510e527f, 0x9b05688c, 0x1f83d9ab, 0x5be0cd19]"

definition K512 :: "u64 list" where
  "K512 = concat [
    [0x428a2f98d728ae22, 0x7137449123ef65cd], [0xb5c0fbcfec4d3b2f, 0xe9b5dba58189dbbc],
    [0x3956c25bf348b538, 0x59f111f1b605d019], [0x923f82a4af194f9b, 0xab1c5ed5da6d8118],
    [0xd807aa98a3030242, 0x12835b0145706fbe], [0x243185be4ee4b28c, 0x550c7dc3d5ffb4e2],
    [0x72be5d74f27b896f, 0x80deb1fe3b1696b1], [0x9bdc06a725c71235, 0xc19bf174cf692694],
    [0xe49b69c19ef14ad2, 0xefbe4786384f25e3], [0x0fc19dc68b8cd5b5, 0x240ca1cc77ac9c65],
    [0x2de92c6f592b0275, 0x4a7484aa6ea6e483], [0x5cb0a9dcbd41fbd4, 0x76f988da831153b5],
    [0x983e5152ee66dfab, 0xa831c66d2db43210], [0xb00327c898fb213f, 0xbf597fc7beef0ee4],
    [0xc6e00bf33da88fc2, 0xd5a79147930aa725], [0x06ca6351e003826f, 0x142929670a0e6e70],
    [0x27b70a8546d22ffc, 0x2e1b21385c26c926], [0x4d2c6dfc5ac42aed, 0x53380d139d95b3df],
    [0x650a73548baf63de, 0x766a0abb3c77b2a8], [0x81c2c92e47edaee6, 0x92722c851482353b],
    [0xa2bfe8a14cf10364, 0xa81a664bbc423001], [0xc24b8b70d0f89791, 0xc76c51a30654be30],
    [0xd192e819d6ef5218, 0xd69906245565a910], [0xf40e35855771202a, 0x106aa07032bbd1b8],
    [0x19a4c116b8d2d0c8, 0x1e376c085141ab53], [0x2748774cdf8eeb99, 0x34b0bcb5e19b48a8],
    [0x391c0cb3c5c95a63, 0x4ed8aa4ae3418acb], [0x5b9cca4f7763e373, 0x682e6ff3d6b2b8a3],
    [0x748f82ee5defb2fc, 0x78a5636f43172f60], [0x84c87814a1f0ab72, 0x8cc702081a6439ec],
    [0x90befffa23631e28, 0xa4506cebde82bde9], [0xbef9a3f7b2c67915, 0xc67178f2e372532b],
    [0xca273eceea26619c, 0xd186b8c721c0c207], [0xeada7dd6cde0eb1e, 0xf57d4f7fee6ed178],
    [0x06f067aa72176fba, 0x0a637dc5a2c898a6], [0x113f9804bef90dae, 0x1b710b35131c471b],
    [0x28db77f523047d84, 0x32caab7b40c72493], [0x3c9ebe0a15c9bebc, 0x431d67c49c100d4c],
    [0x4cc5d4becb3e42b6, 0x597f299cfc657e2a], [0x5fcb6fab3ad6faec, 0x6c44198c4a475817]]"

definition sha512_initial_hash_value :: "u64 list" where
  "sha512_initial_hash_value = [
    0x6a09e667f3bcc908, 0xbb67ae8584caa73b, 0x3c6ef372fe94f82b, 0xa54ff53a5f1d36f1,
    0x510e527fade682d1, 0x9b05688c2b3e6c1f, 0x1f83d9abfb41bd6b, 0x5be0cd19137e2179]"


section \<open>The compression function of SHA-1\<close>

text \<open>The registers \<open>a, \<dots>, e\<close>. The array \<open>W1\<close> is filled front to back by the first 16 rounds.\<close>

type_synonym regs1 = "u32 \<times> u32 \<times> u32 \<times> u32 \<times> u32"

definition round1 :: "(u32 \<Rightarrow> u32 \<Rightarrow> u32 \<Rightarrow> u32) \<Rightarrow> u32 \<Rightarrow> u32 \<Rightarrow> regs1 \<Rightarrow> regs1" where
  "round1 f k w = (\<lambda>(a, b, c, d, e). (ROTL32 5 a + f b c d + e + k + w, a, ROTL32 30 b, c, d))"

definition load1 :: "u32 list \<Rightarrow> nat \<Rightarrow> u32 list \<times> regs1 \<Rightarrow> u32 list \<times> regs1" where
  "load1 data j = (\<lambda>(W1, r). (W1 @ [data ! j], round1 Ch K1_0_TO_19 (data ! j) r))"

definition expand1 :: "(u32 \<Rightarrow> u32 \<Rightarrow> u32 \<Rightarrow> u32) \<Rightarrow> u32 \<Rightarrow> nat \<Rightarrow> u32 list \<times> regs1 \<Rightarrow> u32 list \<times> regs1" where
  "expand1 f k j = (\<lambda>(W1, r).
     let T1 = W1 ! ((j + 13) mod 16) XOR W1 ! ((j + 8) mod 16) XOR W1 ! ((j + 2) mod 16) XOR W1 ! (j mod 16);
         w = ROTL32 1 T1
     in (W1[j mod 16 := w], round1 f k w r))"

definition start1 :: "u32 list \<Rightarrow> regs1" where
  "start1 state_in = (state_in ! 0, state_in ! 1, state_in ! 2, state_in ! 3, state_in ! 4)"

definition finish1 :: "u32 list \<Rightarrow> u32 list \<times> regs1 \<Rightarrow> u32 list" where
  "finish1 state_in = (\<lambda>(W1, a, b, c, d, e).
     [state_in ! 0 + a, state_in ! 1 + b, state_in ! 2 + c, state_in ! 3 + d, state_in ! 4 + e])"

definition sha1_Transform :: "u32 list \<Rightarrow> u32 list \<Rightarrow> u32 list" where
  "sha1_Transform state_in data =
     (let s = fold (load1 data) [0..<16] ([], start1 state_in);
          s = fold (expand1 Ch K1_0_TO_19) [16..<20] s;
          s = fold (expand1 Parity K1_20_TO_39) [20..<40] s;
          s = fold (expand1 Maj K1_40_TO_59) [40..<60] s;
          s = fold (expand1 Parity K1_60_TO_79) [60..<80] s
      in finish1 state_in s)"

text \<open>
  The unrolled version: the macro of round \<open>j\<close> changes its arguments \<open>e\<close> and \<open>b\<close> in place, and the call of the next
  round names the registers one further. Five rounds bring the names back.
\<close>

definition ROUND1 :: "u32 list \<Rightarrow> nat \<Rightarrow> u32 list \<Rightarrow> u32 \<Rightarrow> u32 \<Rightarrow> u32 \<Rightarrow> u32 \<Rightarrow> u32 \<Rightarrow> u32 list \<times> u32 \<times> u32" where
  "ROUND1 data j W1 a b c d e =
     (let (W1, w) = (if j < 16 then (W1 @ [data ! j], data ! j)
            else let T1 = W1 ! ((j + 13) mod 16) XOR W1 ! ((j + 8) mod 16) XOR W1 ! ((j + 2) mod 16) XOR W1 ! (j mod 16)
              in (W1[j mod 16 := ROTL32 1 T1], ROTL32 1 T1));
          (f, k) = (if j < 20 then (Ch, K1_0_TO_19) else if j < 40 then (Parity, K1_20_TO_39)
            else if j < 60 then (Maj, K1_40_TO_59) else (Parity, K1_60_TO_79))
      in (W1, ROTL32 5 a + f b c d + e + k + w, ROTL32 30 b))"

definition five_rounds1 :: "u32 list \<Rightarrow> nat \<Rightarrow> u32 list \<times> regs1 \<Rightarrow> u32 list \<times> regs1" where
  "five_rounds1 data j = (\<lambda>(W1, a, b, c, d, e).
     let (W1, e, b) = ROUND1 data j W1 a b c d e;
         (W1, d, a) = ROUND1 data (j + 1) W1 e a b c d;
         (W1, c, e) = ROUND1 data (j + 2) W1 d e a b c;
         (W1, b, d) = ROUND1 data (j + 3) W1 c d e a b;
         (W1, a, c) = ROUND1 data (j + 4) W1 b c d e a
     in (W1, a, b, c, d, e))"

definition sha1_Transform_unrolled :: "u32 list \<Rightarrow> u32 list \<Rightarrow> u32 list" where
  "sha1_Transform_unrolled state_in data =
     finish1 state_in (fold (five_rounds1 data) (map (\<lambda>i. 5 * i) [0..<16]) ([], start1 state_in))"

section \<open>The compression functions of SHA-256 and SHA-512\<close>

text \<open>They differ in the width, the constants and the rotations.\<close>

type_synonym 'w regs2 = "'w \<times> 'w \<times> 'w \<times> 'w \<times> 'w \<times> 'w \<times> 'w \<times> 'w"

record 'w sha2_fns =
  Sigma0 :: "'w \<Rightarrow> 'w"
  Sigma1 :: "'w \<Rightarrow> 'w"
  sigma0 :: "'w \<Rightarrow> 'w"
  sigma1 :: "'w \<Rightarrow> 'w"
  round_const :: "'w list"

definition fns256 :: "u32 sha2_fns" where
  "fns256 = \<lparr> Sigma0 = Sigma0_256, Sigma1 = Sigma1_256, sigma0 = sigma0_256, sigma1 = sigma1_256, round_const = K256 \<rparr>"

definition fns512 :: "u64 sha2_fns" where
  "fns512 = \<lparr> Sigma0 = Sigma0_512, Sigma1 = Sigma1_512, sigma0 = sigma0_512, sigma1 = sigma1_512, round_const = K512 \<rparr>"

definition round2 :: "'a::len word sha2_fns \<Rightarrow> nat \<Rightarrow> 'a word \<Rightarrow> 'a word regs2 \<Rightarrow> 'a word regs2" where
  "round2 F j w = (\<lambda>(a, b, c, d, e, f, g, h).
     let T1 = h + Sigma1 F e + Ch e f g + round_const F ! j + w; T2 = Sigma0 F a + Maj a b c
     in (T1 + T2, a, b, c, d + T1, e, f, g))"

definition load2 :: "'a::len word sha2_fns \<Rightarrow> 'a word list \<Rightarrow> nat \<Rightarrow> 'a word list \<times> 'a word regs2 \<Rightarrow> 'a word list \<times> 'a word regs2" where
  "load2 F data j = (\<lambda>(W, r). (W @ [data ! j], round2 F j (data ! j) r))"

definition expanded2 :: "'a::len word sha2_fns \<Rightarrow> nat \<Rightarrow> 'a word list \<Rightarrow> 'a word" where
  "expanded2 F j W =
     (let s0 = sigma0 F (W ! ((j + 1) mod 16)); s1 = sigma1 F (W ! ((j + 14) mod 16))
      in W ! (j mod 16) + (s1 + W ! ((j + 9) mod 16) + s0))"

definition expand2 :: "'a::len word sha2_fns \<Rightarrow> nat \<Rightarrow> 'a word list \<times> 'a word regs2 \<Rightarrow> 'a word list \<times> 'a word regs2" where
  "expand2 F j = (\<lambda>(W, r). let w = expanded2 F j W in (W[j mod 16 := w], round2 F j w r))"

definition start2 :: "'a::len word list \<Rightarrow> 'a word regs2" where
  "start2 s = (s ! 0, s ! 1, s ! 2, s ! 3, s ! 4, s ! 5, s ! 6, s ! 7)"

definition finish2 :: "'a::len word list \<Rightarrow> 'a word list \<times> 'a word regs2 \<Rightarrow> 'a word list" where
  "finish2 s = (\<lambda>(W, a, b, c, d, e, f, g, h).
     [s ! 0 + a, s ! 1 + b, s ! 2 + c, s ! 3 + d, s ! 4 + e, s ! 5 + f, s ! 6 + g, s ! 7 + h])"

definition sha256_Transform :: "u32 list \<Rightarrow> u32 list \<Rightarrow> u32 list" where
  "sha256_Transform state_in data =
     finish2 state_in (fold (expand2 fns256) [16..<64] (fold (load2 fns256 data) [0..<16] ([], start2 state_in)))"

definition sha512_Transform :: "u64 list \<Rightarrow> u64 list \<Rightarrow> u64 list" where
  "sha512_Transform state_in data =
     finish2 state_in (fold (expand2 fns512) [16..<80] (fold (load2 fns512 data) [0..<16] ([], start2 state_in)))"

text \<open>The unrolled versions; eight rounds bring the names of the registers back.\<close>

definition ROUND2 ::
  "'a::len word sha2_fns \<Rightarrow> 'a word list \<Rightarrow> nat \<Rightarrow> 'a word list \<Rightarrow> 'a word \<Rightarrow> 'a word \<Rightarrow> 'a word \<Rightarrow> 'a word \<Rightarrow> 'a word \<Rightarrow>
   'a word \<Rightarrow> 'a word \<Rightarrow> 'a word \<Rightarrow> 'a word list \<times> 'a word \<times> 'a word" where
  "ROUND2 F data j W a b c d e f g h =
     (let (W, w) = (if j < 16 then (W @ [data ! j], data ! j)
            else let w = expanded2 F j W in (W[j mod 16 := w], w));
          T1 = h + Sigma1 F e + Ch e f g + round_const F ! j + w
      in (W, d + T1, T1 + Sigma0 F a + Maj a b c))"

definition eight_rounds2 ::
  "'a::len word sha2_fns \<Rightarrow> 'a word list \<Rightarrow> nat \<Rightarrow> 'a word list \<times> 'a word regs2 \<Rightarrow> 'a word list \<times> 'a word regs2" where
  "eight_rounds2 F data j = (\<lambda>(W, a, b, c, d, e, f, g, h).
     let (W, d, h) = ROUND2 F data j W a b c d e f g h;
         (W, c, g) = ROUND2 F data (j + 1) W h a b c d e f g;
         (W, b, f) = ROUND2 F data (j + 2) W g h a b c d e f;
         (W, a, e) = ROUND2 F data (j + 3) W f g h a b c d e;
         (W, h, d) = ROUND2 F data (j + 4) W e f g h a b c d;
         (W, g, c) = ROUND2 F data (j + 5) W d e f g h a b c;
         (W, f, b) = ROUND2 F data (j + 6) W c d e f g h a b;
         (W, e, a) = ROUND2 F data (j + 7) W b c d e f g h a
     in (W, a, b, c, d, e, f, g, h))"

definition sha256_Transform_unrolled :: "u32 list \<Rightarrow> u32 list \<Rightarrow> u32 list" where
  "sha256_Transform_unrolled state_in data =
     finish2 state_in (fold (eight_rounds2 fns256 data) (map (\<lambda>i. 8 * i) [0..<8]) ([], start2 state_in))"

definition sha512_Transform_unrolled :: "u64 list \<Rightarrow> u64 list \<Rightarrow> u64 list" where
  "sha512_Transform_unrolled state_in data =
     finish2 state_in (fold (eight_rounds2 fns512 data) (map (\<lambda>i. 8 * i) [0..<10]) ([], start2 state_in))"

section \<open>Contexts\<close>

record ('w, 'c) sha_ctx =
  sha_state :: "'w list"
  sha_bitcount :: 'c
  sha_buffer :: "byte list"

type_synonym SHA1_CTX = "(u32, u64) sha_ctx"
type_synonym SHA256_CTX = "(u32, u64) sha_ctx"
type_synonym SHA512_CTX = "(u64, u64 \<times> u64) sha_ctx"

text \<open>
  What the three copies of the code differ in: the bytes of a word and of a block, the initial value, the
  compression, the byte reversal, the counter (its start, adding a number of bits, the bytes used in the buffer, and
  the two words it is stored as at the end) and the digest length.
\<close>

record ('w, 'c) sha_alg =
  word_len :: nat
  block_len :: nat
  initial_hash :: "'w list"
  transform :: "'w list \<Rightarrow> 'w list \<Rightarrow> 'w list"
  reverse_word :: "'w \<Rightarrow> 'w"
  count_zero :: 'c
  count_add :: "'c \<Rightarrow> u64 \<Rightarrow> 'c"
  count_used :: "'c \<Rightarrow> nat"
  count_words :: "'c \<Rightarrow> 'w \<times> 'w"
  digest_len :: nat

definition sha1_alg :: "(u32, u64) sha_alg" where
  "sha1_alg = \<lparr> word_len = 4, block_len = 64, initial_hash = sha1_initial_hash_value, transform = sha1_Transform,
     reverse_word = REVERSE32, count_zero = 0, count_add = (+), count_used = (\<lambda>c. unat (drop_bit 3 c) mod 64),
     count_words = (\<lambda>c. (ucast (drop_bit 32 c), ucast (c AND 0xffffffff))), digest_len = 20 \<rparr>"

definition sha256_alg :: "(u32, u64) sha_alg" where
  "sha256_alg = \<lparr> word_len = 4, block_len = 64, initial_hash = sha256_initial_hash_value, transform = sha256_Transform,
     reverse_word = REVERSE32, count_zero = 0, count_add = (+), count_used = (\<lambda>c. unat (drop_bit 3 c) mod 64),
     count_words = (\<lambda>c. (ucast (drop_bit 32 c), ucast (c AND 0xffffffff))), digest_len = 32 \<rparr>"

text \<open>The counter of SHA-512 is \<open>bitcount[0]\<close>, the low word, and \<open>bitcount[1]\<close>.\<close>

definition ADDINC128 :: "u64 \<times> u64 \<Rightarrow> u64 \<Rightarrow> u64 \<times> u64" where
  "ADDINC128 = (\<lambda>(w0, w1) n. let w0 = w0 + n in (w0, if w0 < n then w1 + 1 else w1))"

definition sha512_alg :: "(u64, u64 \<times> u64) sha_alg" where
  "sha512_alg = \<lparr> word_len = 8, block_len = 128, initial_hash = sha512_initial_hash_value, transform = sha512_Transform,
     reverse_word = REVERSE64, count_zero = (0, 0), count_add = ADDINC128, count_used = (\<lambda>(c, _). unat (drop_bit 3 c) mod 128),
     count_words = (\<lambda>(c0, c1). (c1, c0)), digest_len = 64 \<rparr>"

text \<open>On a little-endian host the first \<open>n\<close> words of the buffer are reversed in place before they are used.\<close>

definition get_word :: "('a::len word, 'c) sha_alg \<Rightarrow> bool \<Rightarrow> byte list \<Rightarrow> nat \<Rightarrow> 'a word" where
  "get_word A big buffer j = of_host_bytes big (take (word_len A) (drop (word_len A * j) buffer))"

definition put_word :: "('a::len word, 'c) sha_alg \<Rightarrow> bool \<Rightarrow> nat \<Rightarrow> 'a word \<Rightarrow> byte list \<Rightarrow> byte list" where
  "put_word A big j w buffer = patch buffer (word_len A * j) (host_bytes big (word_len A) w)"

definition to_host_order :: "('a::len word, 'c) sha_alg \<Rightarrow> bool \<Rightarrow> nat \<Rightarrow> byte list \<Rightarrow> byte list" where
  "to_host_order A big n buffer =
     (if big then buffer else fold (\<lambda>j b. put_word A big j (reverse_word A (get_word A big b j)) b) [0..<n] buffer)"

definition process_buffer :: "('a::len word, 'c) sha_alg \<Rightarrow> bool \<Rightarrow> ('a word, 'c) sha_ctx \<Rightarrow> ('a word, 'c) sha_ctx" where
  "process_buffer A big ctx =
     ctx\<lparr> sha_state := transform A (sha_state ctx) (map (get_word A big (sha_buffer ctx)) [0..<16]) \<rparr>"

definition sha_Init :: "('w, 'c) sha_alg \<Rightarrow> ('w, 'c) sha_ctx" where
  "sha_Init A = \<lparr> sha_state = initial_hash A, sha_bitcount = count_zero A, sha_buffer = replicate (block_len A) 0 \<rparr>"

definition add_bytes :: "('w, 'c) sha_alg \<Rightarrow> nat \<Rightarrow> ('w, 'c) sha_ctx \<Rightarrow> ('w, 'c) sha_ctx" where
  "add_bytes A n ctx = ctx\<lparr> sha_bitcount := count_add A (sha_bitcount ctx) (push_bit 3 (word_of_nat n)) \<rparr>"

text \<open>The loop over the complete blocks of the data, and the leftovers.\<close>

function sha_blocks ::
  "('a::len word, 'c) sha_alg \<Rightarrow> bool \<Rightarrow> byte list \<Rightarrow> ('a word, 'c) sha_ctx \<Rightarrow> ('a word, 'c) sha_ctx option" where
  "sha_blocks A big data ctx =
     (if block_len A = 0 then None
      else if block_len A \<le> length data then do {
        buffer \<leftarrow> mem_blit (sha_buffer ctx) 0 (take (block_len A) data);
        let ctx = process_buffer A big (ctx\<lparr> sha_buffer := to_host_order A big 16 buffer \<rparr>);
        sha_blocks A big (drop (block_len A) data) (add_bytes A (block_len A) ctx)
      }
      else if length data > 0 then do {
        buffer \<leftarrow> mem_blit (sha_buffer ctx) 0 data;
        Some (add_bytes A (length data) (ctx\<lparr> sha_buffer := buffer \<rparr>))
      }
      else Some ctx)"
  by pat_completeness auto

termination sha_blocks
  by (relation "measure (\<lambda>(_, _, data, _). length data)") auto

declare sha_blocks.simps [simp del]

definition sha_Update ::
  "('a::len word, 'c) sha_alg \<Rightarrow> bool \<Rightarrow> ('a word, 'c) sha_ctx \<Rightarrow> byte list \<Rightarrow> ('a word, 'c) sha_ctx option" where
  "sha_Update A big ctx data =
     (if length data = 0 then Some ctx
      else let usedspace = count_used A (sha_bitcount ctx) in
        if usedspace > 0 then
          let freespace = block_len A - usedspace in
            if length data \<ge> freespace then do {
              buffer \<leftarrow> mem_blit (sha_buffer ctx) usedspace (take freespace data);
              let ctx = add_bytes A freespace (ctx\<lparr> sha_buffer := buffer \<rparr>);
              let ctx = process_buffer A big (ctx\<lparr> sha_buffer := to_host_order A big 16 (sha_buffer ctx) \<rparr>);
              sha_blocks A big (drop freespace data) ctx
            }
            else do {
              buffer \<leftarrow> mem_blit (sha_buffer ctx) usedspace data;
              Some (add_bytes A (length data) (ctx\<lparr> sha_buffer := buffer \<rparr>))
            }
        else sha_blocks A big data ctx)"

definition sha_cleared :: "('a::len word, 'c) sha_alg \<Rightarrow> ('a word, 'c) sha_ctx" where
  "sha_cleared A = \<lparr> sha_state = replicate (length (initial_hash A)) 0, sha_bitcount = count_zero A,
     sha_buffer = replicate (block_len A) 0 \<rparr>"

text \<open>Padding, the last one or two compressions, and the state as bytes; \<open>short\<close> is the length of a block
  without the counter.\<close>

definition sha_Last :: "('a::len word, 'c) sha_alg \<Rightarrow> bool \<Rightarrow> ('a word, 'c) sha_ctx \<Rightarrow> ('a word, 'c) sha_ctx option" where
  "sha_Last A big ctx =
     (let usedspace = count_used A (sha_bitcount ctx); short = block_len A - 2 * word_len A in do {
        buffer \<leftarrow> mem_put (sha_buffer ctx) usedspace 0x80;
        let usedspace = usedspace + 1;
        (ctx, usedspace) \<leftarrow> (if usedspace > short then do {
            buffer \<leftarrow> mem_blit buffer usedspace (replicate (block_len A - usedspace) 0);
            Some (process_buffer A big (ctx\<lparr> sha_buffer := to_host_order A big 16 buffer \<rparr>), 0)
          } else Some (ctx\<lparr> sha_buffer := buffer \<rparr>, usedspace));
        buffer \<leftarrow> mem_blit (sha_buffer ctx) usedspace (replicate (short - usedspace) 0);
        let buffer = to_host_order A big 14 buffer;
        let (w14, w15) = count_words A (sha_bitcount ctx);
        let buffer = put_word A big 15 w15 (put_word A big 14 w14 buffer);
        Some (process_buffer A big (ctx\<lparr> sha_buffer := buffer \<rparr>))
      })"

definition state_bytes :: "('a::len word, 'c) sha_alg \<Rightarrow> bool \<Rightarrow> 'a word list \<Rightarrow> byte list" where
  "state_bytes A big s =
     concat (map (\<lambda>w. host_bytes big (word_len A) (if big then w else reverse_word A w)) s)"

definition sha_Final ::
  "('a::len word, 'c) sha_alg \<Rightarrow> bool \<Rightarrow> ('a word, 'c) sha_ctx \<Rightarrow> byte list ptr \<Rightarrow>
   (byte list ptr \<times> ('a word, 'c) sha_ctx) option" where
  "sha_Final A big ctx digest =
     (case digest of
        Null \<Rightarrow> Some (Null, sha_cleared A)
      | Ptr d \<Rightarrow> do {
          ctx \<leftarrow> sha_Last A big ctx;
          bytes \<leftarrow> mem_read (state_bytes A big (sha_state ctx)) 0 (digest_len A);
          d \<leftarrow> mem_blit d 0 bytes;
          Some (Ptr d, sha_cleared A)
        })"


text \<open>The hexadecimal text of the digest; the pointer returned is that of the terminating NUL.\<close>

definition sha2_hex_digits :: string where
  "sha2_hex_digits = ''0123456789abcdef''"

definition hex_chars :: "byte \<Rightarrow> string" where
  "hex_chars d = [sha2_hex_digits ! unat (drop_bit 4 (d AND 0xf0)), sha2_hex_digits ! unat (d AND 0x0f)]"

definition sha_End ::
  "('a::len word, 'c) sha_alg \<Rightarrow> bool \<Rightarrow> ('a word, 'c) sha_ctx \<Rightarrow> string ptr \<Rightarrow>
   (nat ptr \<times> string ptr \<times> ('a word, 'c) sha_ctx) option" where
  "sha_End A big ctx buffer =
     (case buffer of
        Null \<Rightarrow> Some (Null, Null, sha_cleared A)
      | Ptr buf \<Rightarrow> do {
          (digest, ctx) \<leftarrow> sha_Final A big ctx (Ptr (replicate (digest_len A) 0));
          case digest of
            Null \<Rightarrow> None
          | Ptr d \<Rightarrow> do {
              let text = concat (map hex_chars d);
              buf \<leftarrow> mem_blit buf 0 (text @ [NUL]);
              Some (Ptr (length text), Ptr buf, ctx)
            }
        })"

section \<open>The interface\<close>

definition sha1_Init :: SHA1_CTX where
  "sha1_Init = sha_Init sha1_alg"

definition sha1_Update :: "bool \<Rightarrow> SHA1_CTX \<Rightarrow> byte list \<Rightarrow> SHA1_CTX option" where
  "sha1_Update = sha_Update sha1_alg"

definition sha1_Final :: "bool \<Rightarrow> SHA1_CTX \<Rightarrow> byte list ptr \<Rightarrow> (byte list ptr \<times> SHA1_CTX) option" where
  "sha1_Final = sha_Final sha1_alg"

definition sha1_End :: "bool \<Rightarrow> SHA1_CTX \<Rightarrow> string ptr \<Rightarrow> (nat ptr \<times> string ptr \<times> SHA1_CTX) option" where
  "sha1_End = sha_End sha1_alg"

definition sha1_Raw :: "bool \<Rightarrow> byte list \<Rightarrow> byte list ptr \<Rightarrow> byte list ptr option" where
  "sha1_Raw big data digest = do {
     ctx \<leftarrow> sha1_Update big sha1_Init data;
     (digest, ctx) \<leftarrow> sha1_Final big ctx digest;
     Some digest
   }"

definition sha1_Data :: "bool \<Rightarrow> byte list \<Rightarrow> string ptr \<Rightarrow> (nat ptr \<times> string ptr) option" where
  "sha1_Data big data digest = do {
     ctx \<leftarrow> sha1_Update big sha1_Init data;
     (r, digest, ctx) \<leftarrow> sha1_End big ctx digest;
     Some (r, digest)
   }"

definition sha256_Init :: SHA256_CTX where
  "sha256_Init = sha_Init sha256_alg"

definition sha256_Update :: "bool \<Rightarrow> SHA256_CTX \<Rightarrow> byte list \<Rightarrow> SHA256_CTX option" where
  "sha256_Update = sha_Update sha256_alg"

definition sha256_Final :: "bool \<Rightarrow> SHA256_CTX \<Rightarrow> byte list ptr \<Rightarrow> (byte list ptr \<times> SHA256_CTX) option" where
  "sha256_Final = sha_Final sha256_alg"

definition sha256_End :: "bool \<Rightarrow> SHA256_CTX \<Rightarrow> string ptr \<Rightarrow> (nat ptr \<times> string ptr \<times> SHA256_CTX) option" where
  "sha256_End = sha_End sha256_alg"

definition sha256_Raw :: "bool \<Rightarrow> byte list \<Rightarrow> byte list ptr \<Rightarrow> byte list ptr option" where
  "sha256_Raw big data digest = do {
     ctx \<leftarrow> sha256_Update big sha256_Init data;
     (digest, ctx) \<leftarrow> sha256_Final big ctx digest;
     Some digest
   }"

definition sha256_Data :: "bool \<Rightarrow> byte list \<Rightarrow> string ptr \<Rightarrow> (nat ptr \<times> string ptr) option" where
  "sha256_Data big data digest = do {
     ctx \<leftarrow> sha256_Update big sha256_Init data;
     (r, digest, ctx) \<leftarrow> sha256_End big ctx digest;
     Some (r, digest)
   }"

definition sha512_Init :: SHA512_CTX where
  "sha512_Init = sha_Init sha512_alg"

definition sha512_Update :: "bool \<Rightarrow> SHA512_CTX \<Rightarrow> byte list \<Rightarrow> SHA512_CTX option" where
  "sha512_Update = sha_Update sha512_alg"

definition sha512_Final :: "bool \<Rightarrow> SHA512_CTX \<Rightarrow> byte list ptr \<Rightarrow> (byte list ptr \<times> SHA512_CTX) option" where
  "sha512_Final = sha_Final sha512_alg"

definition sha512_End :: "bool \<Rightarrow> SHA512_CTX \<Rightarrow> string ptr \<Rightarrow> (nat ptr \<times> string ptr \<times> SHA512_CTX) option" where
  "sha512_End = sha_End sha512_alg"

definition sha512_Raw :: "bool \<Rightarrow> byte list \<Rightarrow> byte list ptr \<Rightarrow> byte list ptr option" where
  "sha512_Raw big data digest = do {
     ctx \<leftarrow> sha512_Update big sha512_Init data;
     (digest, ctx) \<leftarrow> sha512_Final big ctx digest;
     Some digest
   }"

definition sha512_Data :: "bool \<Rightarrow> byte list \<Rightarrow> string ptr \<Rightarrow> (nat ptr \<times> string ptr) option" where
  "sha512_Data big data digest = do {
     ctx \<leftarrow> sha512_Update big sha512_Init data;
     (r, digest, ctx) \<leftarrow> sha512_End big ctx digest;
     Some (r, digest)
   }"

end
