(* ===== verification/Sha2_Spec.thy ===== *)
theory Sha2_Spec
  imports Sha2
begin

text \<open>
  The hash functions of FIPS 180-4, and the proofs that \<open>src/crypto/sha2.c\<close> computes them: the constants, the
  compression functions in both versions, and the digests however the message is cut into pieces.
\<close>

section \<open>The message schedule and the rounds\<close>

text \<open>The first \<open>n\<close> words of the schedule.\<close>

fun schedule :: "(nat \<Rightarrow> 'a list \<Rightarrow> 'a) \<Rightarrow> 'a list \<Rightarrow> nat \<Rightarrow> 'a list" where
  "schedule ext data 0 = []"
| "schedule ext data (Suc t) = (let W = schedule ext data t in W @ [if t < 16 then data ! t else ext t W])"

definition schedule_word :: "(nat \<Rightarrow> 'a list \<Rightarrow> 'a) \<Rightarrow> 'a list \<Rightarrow> nat \<Rightarrow> 'a" where
  "schedule_word ext data t = schedule ext data (Suc t) ! t"

lemma length_schedule [simp]: "length (schedule ext data n) = n"
  by (induction n) (simp_all add: Let_def)

lemma nth_schedule: "t < n \<Longrightarrow> schedule ext data n ! t = schedule_word ext data t"
proof (induction n)
  case (Suc n)
  then show ?case
    by (cases "t = n") (simp_all add: schedule_word_def Let_def nth_append)
qed simp

lemma schedule_word_eq: "schedule_word ext data t = (if t < 16 then data ! t else ext t (schedule ext data t))"
  by (simp add: schedule_word_def Let_def nth_append)

text \<open>A circular buffer of 16 words holds the last 16 words of the schedule.\<close>

definition ring :: "(nat \<Rightarrow> 'a list \<Rightarrow> 'a) \<Rightarrow> 'a list \<Rightarrow> nat \<Rightarrow> 'a list \<Rightarrow> bool" where
  "ring ext data j W \<longleftrightarrow> length W = 16 \<and> (\<forall>i. j \<le> i + 16 \<and> i < j \<longrightarrow> W ! (i mod 16) = schedule_word ext data i)"

lemma ring_nth:
  assumes "ring ext data j W" "0 < k" "k \<le> 16" "16 \<le> j"
  shows "W ! ((j + (16 - k)) mod 16) = schedule ext data j ! (j - k)"
proof -
  have "(j + (16 - k)) mod 16 = (j - k + 16) mod 16" using assms by simp
  then have "(j + (16 - k)) mod 16 = (j - k) mod 16" by (simp only: mod_add_self2)
  then show ?thesis using assms by (simp add: ring_def nth_schedule)
qed

lemma ring_step:
  assumes "ring ext data j W" "16 \<le> j" "w = ext j (schedule ext data j)"
  shows "ring ext data (Suc j) (W[j mod 16 := w])"
  unfolding ring_def
proof (intro conjI allI impI)
  fix i assume i: "Suc j \<le> i + 16 \<and> i < Suc j"
  show "W[j mod 16 := w] ! (i mod 16) = schedule_word ext data i"
  proof (cases "i = j")
    case False
    then have "i mod 16 \<noteq> j mod 16"
      using i mod_eq_dvd_iff_nat [of i j 16] by (auto dest!: dvd_imp_le)
    then show ?thesis using assms(1) i False by (simp add: ring_def)
  qed (use assms in \<open>simp add: ring_def schedule_word_eq\<close>)
qed (use assms in \<open>simp add: ring_def\<close>)

lemma ring_16: "length data = 16 \<Longrightarrow> ring ext data 16 data"
  by (simp add: ring_def schedule_word_eq)

text \<open>Folding the words of the schedule into the registers.\<close>

definition fold_schedule :: "(nat \<Rightarrow> 'a list \<Rightarrow> 'a) \<Rightarrow> (nat \<Rightarrow> 'a \<Rightarrow> 'r \<Rightarrow> 'r) \<Rightarrow> 'a list \<Rightarrow> nat list \<Rightarrow> 'r \<Rightarrow> 'r" where
  "fold_schedule ext rnd data js r = fold (\<lambda>t. rnd t (schedule_word ext data t)) js r"

lemma load_fold:
  assumes "\<And>j W r. j < n \<Longrightarrow> load j (W, r) = (W @ [data ! j], rnd j (data ! j) r)" "n \<le> 16" "n \<le> length data"
  shows "fold load [0..<n] ([], r) = (take n data, fold_schedule ext rnd data [0..<n] r)"
  using assms
proof (induction n)
  case (Suc n)
  then show ?case by (simp add: fold_schedule_def take_Suc_conv_app_nth schedule_word_eq)
qed (simp add: fold_schedule_def)

lemma expand_fold:
  assumes "\<And>j W r. m \<le> j \<Longrightarrow> j < n \<Longrightarrow> ring ext data j W \<Longrightarrow>
      expand j (W, r) = (W[j mod 16 := ext j (schedule ext data j)], rnd j (ext j (schedule ext data j)) r)"
    and "16 \<le> m" "m \<le> n" "ring ext data m W"
  shows "\<exists>W'. fold expand [m..<n] (W, r) = (W', fold_schedule ext rnd data [m..<n] r) \<and> ring ext data n W'"
  using assms
proof (induction "n - m" arbitrary: m W r)
  case (Suc k)
  then have u: "[m..<n] = m # [Suc m..<n]" by (simp add: upt_conv_Cons)
  have "expand m (W, r) = (W[m mod 16 := ext m (schedule ext data m)], rnd m (ext m (schedule ext data m)) r)"
    using Suc.hyps(2) Suc.prems by simp
  moreover have "ring ext data (Suc m) (W[m mod 16 := ext m (schedule ext data m)])"
    using Suc.prems by (intro ring_step) simp_all
  ultimately show ?case
    using Suc.hyps(1) [of "Suc m" "W[m mod 16 := ext m (schedule ext data m)]" "rnd m (ext m (schedule ext data m)) r"] Suc.hyps(2) Suc.prems
    unfolding u by (simp add: fold_schedule_def schedule_word_eq)
qed (simp add: fold_schedule_def)


section \<open>The compression functions of the standard\<close>

lemma rotr_shifts:
  assumes "0 < b" "b < LENGTH('a)"
  shows "drop_bit b x OR push_bit (LENGTH('a) - b) x = word_rotr b (x :: 'a::len word)"
proof (rule bit_word_eqI)
  fix i assume i: "i < LENGTH('a)"
  have l: "bit (drop_bit b x OR push_bit (LENGTH('a) - b) x) i = (bit x (b + i) \<or> LENGTH('a) \<le> i + b \<and> bit x (i + b - LENGTH('a)))"
    using i assms by (auto simp: bit_simps)
  have r: "bit (word_rotr b x) i = bit x ((i + b) mod LENGTH('a))"
    using i assms by (simp add: bit_word_rotr_iff)
  show "bit (drop_bit b x OR push_bit (LENGTH('a) - b) x) i = bit (word_rotr b x) i"
  proof (cases "LENGTH('a) \<le> i + b")
    case True
    then have "\<not> bit x (b + i)" using bit_imp_le_length [of x "b + i"] by auto
    moreover have "(i + b) mod LENGTH('a) = i + b - LENGTH('a)" using True i assms by (simp add: mod_if)
    ultimately show ?thesis unfolding l r using True by simp
  qed (simp add: l r add.commute)
qed

lemma ROTR32_rotr: "0 < b \<Longrightarrow> b < 32 \<Longrightarrow> ROTR32 b x = word_rotr b x"
  using rotr_shifts [of b x] by (simp add: ROTR32_def)

lemma ROTR64_rotr: "0 < b \<Longrightarrow> b < 64 \<Longrightarrow> ROTR64 b x = word_rotr b x"
  using rotr_shifts [of b x] by (simp add: ROTR64_def)

lemma ROTL32_rotl: "0 < b \<Longrightarrow> b < 32 \<Longrightarrow> ROTL32 b x = word_rotr (32 - b) x"
  using rotr_shifts [of "32 - b" x] by (simp add: ROTL32_def or.commute)

text \<open>The functions of section 4.1 of the standard, and its computations 6.1.2, 6.2.2 and 6.4.2.\<close>

definition fips_f1 :: "nat \<Rightarrow> u32 \<Rightarrow> u32 \<Rightarrow> u32 \<Rightarrow> u32" where
  "fips_f1 t x y z =
     (if t \<le> 19 then (x AND y) XOR (NOT x AND z)
      else if 40 \<le> t \<and> t \<le> 59 then (x AND y) XOR (x AND z) XOR (y AND z)
      else x XOR y XOR z)"

definition fips_K1 :: "nat \<Rightarrow> u32" where
  "fips_K1 t = (if t \<le> 19 then 0x5a827999 else if t \<le> 39 then 0x6ed9eba1 else if t \<le> 59 then 0x8f1bbcdc else 0xca62c1d6)"

definition fips_round1 :: "nat \<Rightarrow> u32 \<Rightarrow> regs1 \<Rightarrow> regs1" where
  "fips_round1 t w = (\<lambda>(a, b, c, d, e). (word_rotl 5 a + fips_f1 t b c d + e + fips_K1 t + w, a, word_rotl 30 b, c, d))"

definition fips_ext1 :: "nat \<Rightarrow> u32 list \<Rightarrow> u32" where
  "fips_ext1 t W = word_rotl 1 (W ! (t - 3) XOR W ! (t - 8) XOR W ! (t - 14) XOR W ! (t - 16))"

definition fips_sha1 :: "u32 list \<Rightarrow> u32 list \<Rightarrow> u32 list" where
  "fips_sha1 H M =
     (let (a, b, c, d, e) = fold_schedule fips_ext1 fips_round1 M [0..<80] (start1 H) in map2 (+) H [a, b, c, d, e])"

definition fips_round2 ::
  "('a::len word \<Rightarrow> 'a word) \<Rightarrow> ('a word \<Rightarrow> 'a word) \<Rightarrow> 'a word list \<Rightarrow> nat \<Rightarrow> 'a word \<Rightarrow> 'a word regs2 \<Rightarrow> 'a word regs2" where
  "fips_round2 S0 S1 K t w = (\<lambda>(a, b, c, d, e, f, g, h).
     let T1 = h + S1 e + ((e AND f) XOR (NOT e AND g)) + K ! t + w;
         T2 = S0 a + ((a AND b) XOR (a AND c) XOR (b AND c))
     in (T1 + T2, a, b, c, d + T1, e, f, g))"

definition fips_ext2 :: "('a::len word \<Rightarrow> 'a word) \<Rightarrow> ('a word \<Rightarrow> 'a word) \<Rightarrow> nat \<Rightarrow> 'a word list \<Rightarrow> 'a word" where
  "fips_ext2 s0 s1 t W = s1 (W ! (t - 2)) + W ! (t - 7) + s0 (W ! (t - 15)) + W ! (t - 16)"

text \<open>Rotations or shifts by three amounts.\<close>

definition rot3 :: "nat \<Rightarrow> nat \<Rightarrow> nat \<Rightarrow> 'a::len word \<Rightarrow> 'a word" where
  "rot3 a b c x = word_rotr a x XOR word_rotr b x XOR word_rotr c x"

definition rot2shr :: "nat \<Rightarrow> nat \<Rightarrow> nat \<Rightarrow> 'a::len word \<Rightarrow> 'a word" where
  "rot2shr a b c x = word_rotr a x XOR word_rotr b x XOR drop_bit c x"

definition fips_sha256 :: "u32 list \<Rightarrow> u32 list \<Rightarrow> u32 list" where
  "fips_sha256 H M =
     (let (a, b, c, d, e, f, g, h) = fold_schedule (fips_ext2 (rot2shr 7 18 3) (rot2shr 17 19 10))
            (fips_round2 (rot3 2 13 22) (rot3 6 11 25) K256) M [0..<64] (start2 H)
      in map2 (+) H [a, b, c, d, e, f, g, h])"

definition fips_sha512 :: "u64 list \<Rightarrow> u64 list \<Rightarrow> u64 list" where
  "fips_sha512 H M =
     (let (a, b, c, d, e, f, g, h) = fold_schedule (fips_ext2 (rot2shr 1 8 7) (rot2shr 19 61 6))
            (fips_round2 (rot3 28 34 39) (rot3 14 18 41) K512) M [0..<80] (start2 H)
      in map2 (+) H [a, b, c, d, e, f, g, h])"

lemma fns256_rot:
  "Sigma0 fns256 = rot3 2 13 22" "Sigma1 fns256 = rot3 6 11 25" "sigma0 fns256 = rot2shr 7 18 3" "sigma1 fns256 = rot2shr 17 19 10"
  "round_const fns256 = K256"
  by (simp_all add: fns256_def fun_eq_iff rot3_def rot2shr_def Sigma0_256_def Sigma1_256_def sigma0_256_def sigma1_256_def
      ROTR32_rotr SHR_def)

lemma fns512_rot:
  "Sigma0 fns512 = rot3 28 34 39" "Sigma1 fns512 = rot3 14 18 41" "sigma0 fns512 = rot2shr 1 8 7" "sigma1 fns512 = rot2shr 19 61 6"
  "round_const fns512 = K512"
  by (simp_all add: fns512_def fun_eq_iff rot3_def rot2shr_def Sigma0_512_def Sigma1_512_def sigma0_512_def sigma1_512_def
      ROTR64_rotr SHR_def)

lemma round2_fips: "round2 F t w r = fips_round2 (Sigma0 F) (Sigma1 F) (round_const F) t w r"
  by (simp add: round2_def fips_round2_def Ch_def Maj_def split: prod.splits)

lemma rounds2_fips:
  fixes F :: "'a::len word sha2_fns"
  assumes "length data = 16" "16 \<le> n"
  defines "ext \<equiv> fips_ext2 (sigma0 F) (sigma1 F)" and "rnd \<equiv> fips_round2 (Sigma0 F) (Sigma1 F) (round_const F)"
  shows "\<exists>W. fold (expand2 F) [16..<n] (fold (load2 F data) [0..<16] ([], r)) = (W, fold_schedule ext rnd data [0..<n] r)"
proof -
  have l: "fold (load2 F data) [0..<16] ([], r) = (data, fold_schedule ext rnd data [0..<16] r)"
    using load_fold [of 16 "load2 F data" data rnd r ext] assms(1) by (simp add: load2_def round2_fips rnd_def del: upt_rec_numeral)
  have "expand2 F j (W, r) = (W[j mod 16 := ext j (schedule ext data j)], rnd j (ext j (schedule ext data j)) r)"
    if "16 \<le> j" "j < n" "ring ext data j W" for j W r
  proof -
    have "expanded2 F j W = ext j (schedule ext data j)"
      using ring_nth [OF that(3), of 15] ring_nth [OF that(3), of 2] ring_nth [OF that(3), of 7] ring_nth [OF that(3), of 16] that(1)
      by (simp add: expanded2_def ext_def fips_ext2_def Let_def ac_simps)
    then show ?thesis by (simp add: expand2_def round2_fips rnd_def Let_def)
  qed
  then obtain W where "fold (expand2 F) [16..<n] (data, fold_schedule ext rnd data [0..<16] r) =
      (W, fold_schedule ext rnd data [16..<n] (fold_schedule ext rnd data [0..<16] r))"
    using expand_fold [of 16 n ext data "expand2 F" rnd data] ring_16 [OF assms(1)] assms(2) by blast
  moreover have "[0..<n] = [0..<16] @ [16..<n]" using assms(2) upt_add_eq_append [of 0 16 "n - 16"] by simp
  ultimately show ?thesis unfolding l by (simp only: fold_schedule_def fold_append o_apply) blast
qed


lemma list_8:
  assumes "length s = 8"
  shows "s = [s ! 0, s ! 1, s ! 2, s ! 3, s ! 4, s ! 5, s ! 6, s ! 7]"
proof -
  have u: "[0..<8] = [0, 1, 2, 3, 4, 5, 6, 7 :: nat]" by code_simp
  show ?thesis using map_nth [of s, symmetric] unfolding assms u list.map .
qed

lemma finish2_map2:
  assumes "length s = 8"
  shows "finish2 s (W, a, b, c, d, e, f, g, h) = map2 (+) s [a, b, c, d, e, f, g, h]"
  unfolding finish2_def using arg_cong [where f = "\<lambda>x. map2 (+) x [a, b, c, d, e, f, g, h]", OF list_8 [OF assms]] by simp

lemma sha256_Transform_fips: "length H = 8 \<Longrightarrow> length M = 16 \<Longrightarrow> sha256_Transform H M = fips_sha256 H M"
  using rounds2_fips [of M 64 fns256 "start2 H"] finish2_map2 [of H]
  by (auto simp: sha256_Transform_def fips_sha256_def fns256_rot simp del: upt_rec_numeral split: prod.splits)

lemma sha512_Transform_fips: "length H = 8 \<Longrightarrow> length M = 16 \<Longrightarrow> sha512_Transform H M = fips_sha512 H M"
  using rounds2_fips [of M 80 fns512 "start2 H"] finish2_map2 [of H]
  by (auto simp: sha512_Transform_def fips_sha512_def fns512_rot simp del: upt_rec_numeral split: prod.splits)

lemma expand1_fips:
  assumes "16 \<le> m" "m \<le> n" "ring fips_ext1 data m W"
    and "\<And>j w r. m \<le> j \<Longrightarrow> j < n \<Longrightarrow> round1 f k w r = fips_round1 j w r"
  shows "\<exists>W'. fold (expand1 f k) [m..<n] (W, r) = (W', fold_schedule fips_ext1 fips_round1 data [m..<n] r) \<and> ring fips_ext1 data n W'"
proof (rule expand_fold [OF _ assms(1-3)])
  fix j W r assume j: "m \<le> j" "j < n" "ring fips_ext1 data j W"
  have "16 \<le> j" using j(1) assms(1) by simp
  then have "ROTL32 1 (W ! ((j + 13) mod 16) XOR W ! ((j + 8) mod 16) XOR W ! ((j + 2) mod 16) XOR W ! (j mod 16)) =
      fips_ext1 j (schedule fips_ext1 data j)"
    using ring_nth [OF j(3), of 3] ring_nth [OF j(3), of 8] ring_nth [OF j(3), of 14] ring_nth [OF j(3), of 16]
    by (simp add: fips_ext1_def ROTL32_rotl word_rotl_eq_word_rotr)
  then show "expand1 f k j (W, r) = (W[j mod 16 := fips_ext1 j (schedule fips_ext1 data j)],
      fips_round1 j (fips_ext1 j (schedule fips_ext1 data j)) r)"
    using assms(4) [OF j(1,2)] by (simp add: expand1_def Let_def)
qed

lemma round1_fips:
  "j < 20 \<Longrightarrow> round1 Ch K1_0_TO_19 w r = fips_round1 j w r"
  "20 \<le> j \<Longrightarrow> j < 40 \<Longrightarrow> round1 Parity K1_20_TO_39 w r = fips_round1 j w r"
  "40 \<le> j \<Longrightarrow> j < 60 \<Longrightarrow> round1 Maj K1_40_TO_59 w r = fips_round1 j w r"
  "60 \<le> j \<Longrightarrow> round1 Parity K1_60_TO_79 w r = fips_round1 j w r"
  by (auto simp: round1_def fips_round1_def fips_f1_def fips_K1_def ROTL32_rotl word_rotl_eq_word_rotr Ch_def Parity_def Maj_def
      K1_0_TO_19_def K1_20_TO_39_def K1_40_TO_59_def K1_60_TO_79_def split: prod.splits)

lemma fold_schedule_append:
  "i \<le> m \<Longrightarrow> m \<le> n \<Longrightarrow> fold_schedule ext rnd data [m..<n] (fold_schedule ext rnd data [i..<m] r) = fold_schedule ext rnd data [i..<n] r"
  using upt_add_eq_append [of i m "n - m"] by (simp add: fold_schedule_def)

lemma sha1_Transform_fips:
  assumes "length H = 5" "length M = 16"
  shows "sha1_Transform H M = fips_sha1 H M"
proof -
  let ?F = "fold_schedule fips_ext1 fips_round1 M" and ?r = "start1 H"
  have l: "fold (load1 M) [0..<16] ([], ?r) = (M, ?F [0..<16] ?r)"
    using load_fold [of 16 "load1 M" M fips_round1 ?r fips_ext1] assms(2)
    by (simp add: load1_def round1_fips del: upt_rec_numeral)
  obtain W1 where e1: "fold (expand1 Ch K1_0_TO_19) [16..<20] (M, ?F [0..<16] ?r) = (W1, ?F [0..<20] ?r)" "ring fips_ext1 M 20 W1"
    using expand1_fips [of 16 20 M M Ch K1_0_TO_19 "?F [0..<16] ?r"] ring_16 [OF assms(2)] round1_fips(1)
    by (auto simp: fold_schedule_append simp del: upt_rec_numeral)
  obtain W2 where e2: "fold (expand1 Parity K1_20_TO_39) [20..<40] (W1, ?F [0..<20] ?r) = (W2, ?F [0..<40] ?r)" "ring fips_ext1 M 40 W2"
    using expand1_fips [of 20 40 M W1 Parity K1_20_TO_39 "?F [0..<20] ?r"] e1(2) round1_fips(2)
    by (auto simp: fold_schedule_append simp del: upt_rec_numeral)
  obtain W3 where e3: "fold (expand1 Maj K1_40_TO_59) [40..<60] (W2, ?F [0..<40] ?r) = (W3, ?F [0..<60] ?r)" "ring fips_ext1 M 60 W3"
    using expand1_fips [of 40 60 M W2 Maj K1_40_TO_59 "?F [0..<40] ?r"] e2(2) round1_fips(3)
    by (auto simp: fold_schedule_append simp del: upt_rec_numeral)
  obtain W4 where e4: "fold (expand1 Parity K1_60_TO_79) [60..<80] (W3, ?F [0..<60] ?r) = (W4, ?F [0..<80] ?r)"
    using expand1_fips [of 60 80 M W3 Parity K1_60_TO_79 "?F [0..<60] ?r"] e3(2) round1_fips(4)
    by (auto simp: fold_schedule_append simp del: upt_rec_numeral)
  have "5 = Suc (Suc (Suc (Suc (Suc 0))))" by simp
  then obtain h0 h1 h2 h3 h4 where H: "H = [h0, h1, h2, h3, h4]" using assms(1) by (auto simp only: length_Suc_conv length_0_conv)
  have "finish1 H (W4, ?F [0..<80] ?r) = fips_sha1 H M"
    unfolding fips_sha1_def finish1_def H by (simp split: prod.splits)
  then show ?thesis unfolding sha1_Transform_def Let_def l e1(1) e2(1) e3(1) e4 .
qed


section \<open>The unrolled versions\<close>

lemma fold_groups:
  assumes "\<And>j s. many j s = fold step [j..<j + k] s"
  shows "fold many (map (\<lambda>i. k * i) [0..<n]) s = fold step [0..<k * n] s"
proof (induction n)
  case (Suc n)
  have "[0..<k * Suc n] = [0..<k * n] @ [k * n..<k * n + k]"
    using upt_add_eq_append [of 0 "k * n" k] by (simp add: add.commute)
  then show ?case using Suc assms by simp
qed simp

definition rolled1 :: "u32 list \<Rightarrow> nat \<Rightarrow> u32 list \<times> regs1 \<Rightarrow> u32 list \<times> regs1" where
  "rolled1 data j = (if j < 16 then load1 data j else if j < 20 then expand1 Ch K1_0_TO_19 j
     else if j < 40 then expand1 Parity K1_20_TO_39 j else if j < 60 then expand1 Maj K1_40_TO_59 j
     else expand1 Parity K1_60_TO_79 j)"

lemma ROUND1_rolled:
  "rolled1 data j (W, a, b, c, d, e) = (let (W, e, b) = ROUND1 data j W a b c d e in (W, e, a, b, c, d))"
  by (simp add: rolled1_def ROUND1_def load1_def expand1_def round1_def Let_def)

definition rolled2 :: "'a::len word sha2_fns \<Rightarrow> 'a word list \<Rightarrow> nat \<Rightarrow> 'a word list \<times> 'a word regs2 \<Rightarrow> 'a word list \<times> 'a word regs2" where
  "rolled2 F data j = (if j < 16 then load2 F data j else expand2 F j)"

lemma ROUND2_rolled:
  "rolled2 F data j (W, a, b, c, d, e, f, g, h) =
    (let (W, d, h) = ROUND2 F data j W a b c d e f g h in (W, h, a, b, c, d, e, f, g))"
  by (simp add: rolled2_def ROUND2_def load2_def expand2_def round2_def Let_def ac_simps)

lemma five_rolled: "five_rounds1 data j s = fold (rolled1 data) [j..<j + 5] s"
proof -
  have u: "[j..<j + 5] = [j, j + 1, j + 2, j + 3, j + 4]" by (simp add: upt_rec)
  obtain W a b c d e where s: "s = (W, a, b, c, d, e)" by (cases s) auto
  show ?thesis unfolding u s five_rounds1_def
    by (simp only: fold.simps o_apply id_apply ROUND1_rolled Let_def prod.case split_beta fst_conv snd_conv)
qed

lemma eight_rolled: "eight_rounds2 F data j s = fold (rolled2 F data) [j..<j + 8] s"
proof -
  have u: "[j..<j + 8] = [j, j + 1, j + 2, j + 3, j + 4, j + 5, j + 6, j + 7]" by (simp add: upt_rec)
  obtain W a b c d e f g h where s: "s = (W, a, b, c, d, e, f, g, h)" by (cases s) auto
  obtain W1 d' h' where r1: "ROUND2 F data j W a b c d e f g h = (W1, d', h')" by (cases "ROUND2 F data j W a b c d e f g h")
  obtain W2 c' g' where r2: "ROUND2 F data (j + 1) W1 h' a b c d' e f g = (W2, c', g')" by (cases "ROUND2 F data (j + 1) W1 h' a b c d' e f g")
  obtain W3 b' f' where r3: "ROUND2 F data (j + 2) W2 g' h' a b c' d' e f = (W3, b', f')" by (cases "ROUND2 F data (j + 2) W2 g' h' a b c' d' e f")
  obtain W4 a' e' where r4: "ROUND2 F data (j + 3) W3 f' g' h' a b' c' d' e = (W4, a', e')" by (cases "ROUND2 F data (j + 3) W3 f' g' h' a b' c' d' e")
  obtain W5 h'' d'' where r5: "ROUND2 F data (j + 4) W4 e' f' g' h' a' b' c' d' = (W5, h'', d'')" by (cases "ROUND2 F data (j + 4) W4 e' f' g' h' a' b' c' d'")
  obtain W6 g'' c'' where r6: "ROUND2 F data (j + 5) W5 d'' e' f' g' h'' a' b' c' = (W6, g'', c'')" by (cases "ROUND2 F data (j + 5) W5 d'' e' f' g' h'' a' b' c'")
  obtain W7 f'' b'' where r7: "ROUND2 F data (j + 6) W6 c'' d'' e' f' g'' h'' a' b' = (W7, f'', b'')" by (cases "ROUND2 F data (j + 6) W6 c'' d'' e' f' g'' h'' a' b'")
  obtain W8 e'' a'' where r8: "ROUND2 F data (j + 7) W7 b'' c'' d'' e' f'' g'' h'' a' = (W8, e'', a'')" by (cases "ROUND2 F data (j + 7) W7 b'' c'' d'' e' f'' g'' h'' a'")
  show ?thesis unfolding u s eight_rounds2_def
    by (simp only: fold.simps o_apply id_apply ROUND2_rolled r1 r2 r3 r4 r5 r6 r7 r8 Let_def prod.case)
qed

lemma upt_split: "i \<le> m \<Longrightarrow> m \<le> n \<Longrightarrow> [i..<n] = [i..<m] @ [m..<n]"
  using upt_add_eq_append [of i m "n - m"] by simp

lemma fold_upt_cong: "(\<And>j s. m \<le> j \<Longrightarrow> j < n \<Longrightarrow> f j s = g j s) \<Longrightarrow> fold f [m..<n] s = fold g [m..<n] s"
  by (intro fold_cong) (auto simp: fun_eq_iff)

lemma sha1_unrolled: "sha1_Transform_unrolled = sha1_Transform"
proof (intro ext)
  fix H M
  have "fold (rolled1 M) [0..<80] s = fold (expand1 Parity K1_60_TO_79) [60..<80] (fold (expand1 Maj K1_40_TO_59) [40..<60]
      (fold (expand1 Parity K1_20_TO_39) [20..<40] (fold (expand1 Ch K1_0_TO_19) [16..<20] (fold (load1 M) [0..<16] s))))" for s
  proof -
    have u: "[0..<80] = [0..<16] @ [16..<20] @ [20..<40] @ [40..<60] @ [60..<80 :: nat]"
      by (simp add: upt_split [symmetric] del: upt_rec_numeral)
    have "fold (rolled1 M) [0..<16] s = fold (load1 M) [0..<16] s"
      "fold (rolled1 M) [16..<20] s = fold (expand1 Ch K1_0_TO_19) [16..<20] s"
      "fold (rolled1 M) [20..<40] s = fold (expand1 Parity K1_20_TO_39) [20..<40] s"
      "fold (rolled1 M) [40..<60] s = fold (expand1 Maj K1_40_TO_59) [40..<60] s"
      "fold (rolled1 M) [60..<80] s = fold (expand1 Parity K1_60_TO_79) [60..<80] s" for s
      by (intro fold_upt_cong; simp add: rolled1_def)+
    then show ?thesis unfolding u fold_append o_apply by simp
  qed
  then show "sha1_Transform_unrolled H M = sha1_Transform H M"
    unfolding sha1_Transform_unrolled_def fold_groups [of "five_rounds1 M", OF five_rolled] sha1_Transform_def Let_def by simp
qed

lemma rolled2_fold:
  "16 \<le> n \<Longrightarrow> fold (rolled2 F M) [0..<n] s = fold (expand2 F) [16..<n] (fold (load2 F M) [0..<16] s)"
  using fold_upt_cong [of 0 16 "rolled2 F M" "load2 F M"] fold_upt_cong [of 16 n "rolled2 F M" "expand2 F"]
  by (simp add: upt_split [of 0 16 n] rolled2_def del: upt_rec_numeral)

lemma sha256_unrolled: "sha256_Transform_unrolled = sha256_Transform"
proof (intro ext)
  fix H M
  have "fold (eight_rounds2 fns256 M) (map (\<lambda>i. 8 * i) [0..<8]) s = fold (rolled2 fns256 M) [0..<64] s" for s
    using fold_groups [of "eight_rounds2 fns256 M", OF eight_rolled, of 8] by simp
  then show "sha256_Transform_unrolled H M = sha256_Transform H M"
    unfolding sha256_Transform_unrolled_def sha256_Transform_def by (simp add: rolled2_fold del: upt_rec_numeral)
qed

lemma sha512_unrolled: "sha512_Transform_unrolled = sha512_Transform"
proof (intro ext)
  fix H M
  have "fold (eight_rounds2 fns512 M) (map (\<lambda>i. 8 * i) [0..<10]) s = fold (rolled2 fns512 M) [0..<80] s" for s
    using fold_groups [of "eight_rounds2 fns512 M", OF eight_rolled, of 10] by simp
  then show "sha512_Transform_unrolled H M = sha512_Transform H M"
    unfolding sha512_Transform_unrolled_def sha512_Transform_def by (simp add: rolled2_fold del: upt_rec_numeral)
qed

text \<open>C15: The three compression functions, rolled and unrolled, are those of FIPS 180-4, on every state and block.\<close>

theorem sha2_transforms_fips:
  assumes "length H1 = 5" "length M1 = 16" "length H2 = 8" "length M2 = 16" "length H5 = 8" "length M5 = 16"
  shows "sha1_Transform H1 M1 = fips_sha1 H1 M1 \<and> sha1_Transform_unrolled H1 M1 = fips_sha1 H1 M1 \<and>
    sha256_Transform H2 M2 = fips_sha256 H2 M2 \<and> sha256_Transform_unrolled H2 M2 = fips_sha256 H2 M2 \<and>
    sha512_Transform H5 M5 = fips_sha512 H5 M5 \<and> sha512_Transform_unrolled H5 M5 = fips_sha512 H5 M5"
  using assms by (simp add: sha1_Transform_fips sha256_Transform_fips sha512_Transform_fips sha1_unrolled sha256_unrolled sha512_unrolled)

lemma sha2_transforms_fips_witness:
  "sha256_Transform_unrolled sha256_initial_hash_value (replicate 16 0) = fips_sha256 sha256_initial_hash_value (replicate 16 0)"
  using sha2_transforms_fips [of sha1_initial_hash_value "replicate 16 0" sha256_initial_hash_value "replicate 16 0"
      sha512_initial_hash_value "replicate 16 0"]
  by (simp add: sha1_initial_hash_value_def sha256_initial_hash_value_def sha512_initial_hash_value_def)

section \<open>The constants\<close>

text \<open>\<open>k\<close> is the first bits of the fractional part of the \<open>e\<close>-th root of \<open>p\<close>.\<close>

definition root_frac :: "nat \<Rightarrow> nat \<Rightarrow> 'a::len word \<Rightarrow> bool" where
  "root_frac e p k \<longleftrightarrow>
     (let n = length (takeWhile (\<lambda>r. r ^ e \<le> p) [1, 2, 3, 4, 5, 6, 7]) * 2 ^ LENGTH('a) + unat k
      in n ^ e \<le> p * 2 ^ (e * LENGTH('a)) \<and> p * 2 ^ (e * LENGTH('a)) < (n + 1) ^ e)"

definition primes80 :: "nat list" where
  "primes80 = [2, 3, 5, 7, 11, 13, 17, 19, 23, 29, 31, 37, 41, 43, 47, 53, 59, 61, 67, 71, 73, 79, 83, 89, 97, 101, 103, 107, 109, 113,
    127, 131, 137, 139, 149, 151, 157, 163, 167, 173, 179, 181, 191, 193, 197, 199, 211, 223, 227, 229, 233, 239, 241, 251, 257, 263,
    269, 271, 277, 281, 283, 293, 307, 311, 313, 317, 331, 337, 347, 349, 353, 359, 367, 373, 379, 383, 389, 397, 401, 409]"

lemma K256_roots: "list_all2 (root_frac 3) (take 64 primes80) K256"
  by (simp add: root_frac_def K256_def primes80_def)

lemma K512_roots: "list_all2 (root_frac 3) primes80 K512"
  by (simp add: root_frac_def K512_def primes80_def)

lemma initial_roots:
  "list_all2 (root_frac 2) (take 8 primes80) sha256_initial_hash_value"
  "list_all2 (root_frac 2) (take 8 primes80) sha512_initial_hash_value"
  by (simp_all add: root_frac_def sha256_initial_hash_value_def sha512_initial_hash_value_def primes80_def)

text \<open>The tables of constants are the standard's: the fractional parts of the cube roots of the first 64 and 80 primes, and of the square
  roots of the first eight for the initial values.\<close>

theorem sha2_constants:
  "list_all2 (root_frac 3) (take 64 primes80) K256 \<and> list_all2 (root_frac 3) primes80 K512 \<and>
   list_all2 (root_frac 2) (take 8 primes80) sha256_initial_hash_value \<and>
   list_all2 (root_frac 2) (take 8 primes80) sha512_initial_hash_value"
  using K256_roots K512_roots initial_roots by blast

end
