(* ===== verification/Sha2_Hash.thy ===== *)
theory Sha2_Hash
  imports Sha2_Spec Endian_Conv
begin

text \<open>
  The contexts of \<open>src/crypto/sha2.c\<close>. What the context code relies on in the three algorithms is the interface
  \<open>block_hash\<close>; the invariant ties a context to the message it has taken in, and the digest is that of the padded
  message, for both byte orders of the host.
\<close>

section \<open>The digest of the standard\<close>

text \<open>Compressing the complete blocks of a message.\<close>

function md_blocks :: "('s \<Rightarrow> byte list \<Rightarrow> 's) \<Rightarrow> nat \<Rightarrow> 's \<Rightarrow> byte list \<Rightarrow> 's" where
  "md_blocks f n s m = (if 0 < n \<and> n \<le> length m then md_blocks f n (f s (take n m)) (drop n m) else s)"
  by pat_completeness auto

termination md_blocks
  by (relation "measure (\<lambda>(_, _, _, m). length m)") auto

declare md_blocks.simps [simp del]

lemma md_blocks_short: "length m < n \<Longrightarrow> md_blocks f n s m = s"
  by (simp add: md_blocks.simps)

lemma md_blocks_step: "0 < n \<Longrightarrow> n \<le> length m \<Longrightarrow> md_blocks f n s m = md_blocks f n (f s (take n m)) (drop n m)"
  by (simp add: md_blocks.simps)

text \<open>Appending fills the open block or leaves it open.\<close>

definition open_block :: "nat \<Rightarrow> byte list \<Rightarrow> byte list" where
  "open_block n m = drop (length m - length m mod n) m"

lemma length_open_block [simp]: "length (open_block n m) = length m mod n"
  by (simp add: open_block_def)

lemma mod_add_small: "length m mod n + k < n \<Longrightarrow> (length m + k) mod n = length m mod n + (k :: nat)"
  by (metis mod_add_left_eq mod_less)

lemma mod_add_fill: "length m mod n + k = n \<Longrightarrow> (length m + k) mod n = (0 :: nat)"
  by (metis mod_add_left_eq mod_self)

lemma open_block_add: "length m mod n + length x < n \<Longrightarrow> open_block n (m @ x) = open_block n m @ x"
  by (simp add: open_block_def mod_add_small)

lemma open_block_fill: "length m mod n + length x = n \<Longrightarrow> open_block n (m @ x) = []"
  by (simp add: open_block_def mod_add_fill)

lemma open_block_drop: "0 < n \<Longrightarrow> n \<le> length m \<Longrightarrow> open_block n (drop n m) = open_block n m"
proof -
  assume a: "0 < n" "n \<le> length m"
  then have "(length m - n) mod n = length m mod n" by (metis mod_if not_less)
  moreover have "length m mod n < n" using a by simp
  moreover have "length m mod n \<le> length m - n" using calculation a by (metis mod_less_eq_dividend)
  ultimately show ?thesis using a by (simp add: open_block_def)
qed

lemma md_blocks_add: "length m mod n + length x < n \<Longrightarrow> md_blocks f n s (m @ x) = md_blocks f n s m"
proof (induction f n s m rule: md_blocks.induct)
  case (1 f n s m)
  show ?case
  proof (cases "n \<le> length m")
    case True
    then have "length (drop n m) mod n + length x < n" using 1(2) by (simp add: le_mod_geq)
    then show ?thesis using 1 True by (simp add: md_blocks_step)
  next
    case False
    then show ?thesis using 1 by (simp add: md_blocks_short)
  qed
qed

lemma md_blocks_fill:
  "0 < n \<Longrightarrow> length m mod n + length x = n \<Longrightarrow> md_blocks f n s (m @ x) = f (md_blocks f n s m) (open_block n m @ x)"
proof (induction f n s m rule: md_blocks.induct)
  case (1 f n s m)
  show ?case
  proof (cases "n \<le> length m")
    case True
    then have "length (drop n m) mod n + length x = n" using 1(3) by (simp add: le_mod_geq)
    then show ?thesis using 1 True by (simp add: md_blocks_step open_block_drop)
  next
    case False
    then show ?thesis using 1 by (simp add: md_blocks_short md_blocks_step [of n "m @ x"] open_block_def)
  qed
qed

definition md_pad :: "nat \<Rightarrow> nat \<Rightarrow> byte list \<Rightarrow> byte list" where
  "md_pad block len_bytes m =
     m @ 0x80 # replicate ((2 * block - 1 - len_bytes - length m mod block) mod block) 0 @ num_be len_bytes (8 * length m)"

definition word_of_be :: "byte list \<Rightarrow> 'a::len word" where
  "word_of_be bs = of_le_bytes (rev bs)"

definition be_bytes :: "nat \<Rightarrow> 'a::len word \<Rightarrow> byte list" where
  "be_bytes k w = rev (le_bytes k w)"

definition words_of_be :: "nat \<Rightarrow> byte list \<Rightarrow> 'a::len word list" where
  "words_of_be k block = map (\<lambda>j. word_of_be (take k (drop (k * j) block))) [0..<16]"

definition md_digest ::
  "('a::len word list \<Rightarrow> 'a word list \<Rightarrow> 'a word list) \<Rightarrow> 'a word list \<Rightarrow> nat \<Rightarrow> nat \<Rightarrow> byte list \<Rightarrow> byte list" where
  "md_digest compress H k n m =
     take n (concat (map (be_bytes k) (md_blocks (\<lambda>s b. compress s (words_of_be k b)) (16 * k) H (md_pad (16 * k) (2 * k) m))))"

text \<open>The invariant: the context has taken in the message \<open>m\<close>.\<close>

definition hashed :: "('a::len word, 'c) sha_alg \<Rightarrow> byte list \<Rightarrow> 'a word list" where
  "hashed A m = md_blocks (\<lambda>s b. transform A s (words_of_be (word_len A) b)) (block_len A) (initial_hash A) m"

definition sha_holds :: "('c \<Rightarrow> nat \<Rightarrow> bool) \<Rightarrow> ('a::len word, 'c) sha_alg \<Rightarrow> ('a word, 'c) sha_ctx \<Rightarrow> byte list \<Rightarrow> bool" where
  "sha_holds counts A ctx m \<longleftrightarrow>
     sha_state ctx = hashed A m \<and> counts (sha_bitcount ctx) (length m) \<and> length (sha_buffer ctx) = block_len A \<and>
     take (length m mod block_len A) (sha_buffer ctx) = open_block (block_len A) m"

lemma slice_take_append: "i + k \<le> n \<Longrightarrow> n \<le> length b \<Longrightarrow> take k (drop i (take n b @ c)) = take k (drop i b)"
  by (simp add: drop_take min_absorb1)

section \<open>The interface of an algorithm\<close>

locale block_hash =
  fixes A :: "('a::len word, 'c) sha_alg"
    and counts :: "'c \<Rightarrow> nat \<Rightarrow> bool"
  assumes word_bits: "LENGTH('a) = 8 * word_len A"
    and block_words: "block_len A = 16 * word_len A"
    and reverse_be: "length bs = word_len A \<Longrightarrow> reverse_word A (of_le_bytes bs) = of_le_bytes (rev bs)"
    and count_start: "counts (count_zero A) 0"
    and count_step: "counts c n \<Longrightarrow> k \<le> block_len A \<Longrightarrow> counts (count_add A c (push_bit 3 (word_of_nat k))) (n + k)"
    and count_mod: "counts c n \<Longrightarrow> count_used A c = n mod block_len A"
    and count_be: "counts c n \<Longrightarrow> count_words A c = (hi, lo) \<Longrightarrow>
      be_bytes (word_len A) hi @ be_bytes (word_len A) lo = num_be (2 * word_len A) (8 * n)"
    and transform_length: "length s = length (initial_hash A) \<Longrightarrow> length (transform A s M) = length (initial_hash A)"
    and digest_fits: "digest_len A \<le> word_len A * length (initial_hash A)"
begin

lemma word_pos: "0 < word_len A"
  using word_bits by (cases "word_len A") simp_all

lemma block_pos: "0 < block_len A"
  using word_pos block_words by simp

lemma chunk_bound:
  assumes "length b = block_len A" "j < 16"
  shows "word_len A * j + word_len A \<le> length b"
  using assms mult_le_mono2 [of "Suc j" 16 "word_len A"] by (simp add: block_words)

lemma chunk_length:
  assumes "length b = block_len A" "j < 16"
  shows "length (take (word_len A) (drop (word_len A * j) b)) = word_len A"
  using chunk_bound [OF assms] by simp

lemma host_bytes_word: "of_host_bytes big (host_bytes big (word_len A) w) = (w :: 'a word)"
  by (rule of_host_bytes_host_bytes) (simp add: word_bits)

lemma put_word_length: "length b = block_len A \<Longrightarrow> j < 16 \<Longrightarrow> length (put_word A big j w b) = block_len A"
  using chunk_bound [of b j] by (simp add: put_word_def)

lemma get_put_word:
  assumes "length b = block_len A" "i < 16" "j < 16"
  shows "get_word A big (put_word A big j w b) i = (if i = j then w else get_word A big b i)"
proof -
  let ?k = "word_len A"
  have l: "?k * j + ?k \<le> length b" "?k * i + ?k \<le> length b"
    by (rule chunk_bound [OF assms(1,3)], rule chunk_bound [OF assms(1,2)])
  show ?thesis
  proof (cases "i = j")
    case True
    then show ?thesis
      using take_drop_patch [of "?k * j" "host_bytes big ?k w" b] l(1) by (simp add: get_word_def put_word_def host_bytes_word)
  next
    case False
    then have "?k * i + ?k \<le> ?k * j \<or> ?k * j + ?k \<le> ?k * i"
      using mult_le_mono2 [of "Suc i" j ?k] mult_le_mono2 [of "Suc j" i ?k] by (cases "i < j") simp_all
    then have "take ?k (drop (?k * i) (patch b (?k * j) (host_bytes big ?k w))) = take ?k (drop (?k * i) b)"
      using l by (intro nth_equalityI) (auto simp: nth_patch_if)
    then show ?thesis using False by (simp add: get_word_def put_word_def)
  qed
qed

lemma to_host_order:
  assumes "length b = block_len A" "n \<le> 16"
  shows "length (to_host_order A big n b) = block_len A \<and> (\<forall>i < 16. get_word A big (to_host_order A big n b) i =
    (if i < n then word_of_be (take (word_len A) (drop (word_len A * i) b)) else get_word A big b i))"
proof (cases big)
  case True
  then show ?thesis using assms(1) by (simp add: to_host_order_def get_word_def word_of_be_def of_host_bytes_def)
next
  case False
  let ?step = "\<lambda>j b. put_word A big j (reverse_word A (get_word A big b j)) b"
  have r: "reverse_word A (get_word A big b i) = word_of_be (take (word_len A) (drop (word_len A * i) b))" if "i < 16" for i
    using False reverse_be chunk_length [OF assms(1) that] by (simp add: get_word_def of_host_bytes_def word_of_be_def)
  have "length (fold ?step [0..<n] b) = block_len A \<and> (\<forall>i < 16. get_word A big (fold ?step [0..<n] b) i =
      (if i < n then reverse_word A (get_word A big b i) else get_word A big b i))"
    using assms(2)
  proof (induction n)
    case (Suc n)
    let ?b = "fold ?step [0..<n] b"
    have ih: "length ?b = block_len A" "\<And>i. i < 16 \<Longrightarrow> get_word A big ?b i = (if i < n then reverse_word A (get_word A big b i) else get_word A big b i)"
      using Suc by auto
    show ?case using Suc.prems ih put_word_length [of ?b n] get_put_word [of ?b _ n] by (auto simp: less_Suc_eq)
  qed (simp add: assms(1))
  then show ?thesis using False r by (auto simp: to_host_order_def)
qed

lemma words_of_block:
  "length b = block_len A \<Longrightarrow> map (get_word A big (to_host_order A big 16 b)) [0..<16] = words_of_be (word_len A) b"
  using to_host_order [of b 16 big] by (simp add: words_of_be_def del: upt_rec_numeral)

lemma hashed_fill:
  "length m mod block_len A + length x = block_len A \<Longrightarrow>
   hashed A (m @ x) = transform A (hashed A m) (words_of_be (word_len A) (open_block (block_len A) m @ x))"
  by (simp add: hashed_def md_blocks_fill block_pos)

lemma hashed_add: "length m mod block_len A + length x < block_len A \<Longrightarrow> hashed A (m @ x) = hashed A m"
  by (simp add: hashed_def md_blocks_add)

text \<open>Filling the open block, and leaving it open.\<close>

lemma holds_fill:
  assumes "sha_holds counts A ctx m" "length m mod block_len A + length x = block_len A"
  shows "sha_holds counts A (add_bytes A (length x)
    (process_buffer A big (ctx\<lparr> sha_buffer := to_host_order A big 16 (patch (sha_buffer ctx) (length m mod block_len A) x) \<rparr>)))
    (m @ x)"
proof -
  let ?b = "patch (sha_buffer ctx) (length m mod block_len A) x"
  have b: "?b = open_block (block_len A) m @ x" using assms by (simp add: sha_holds_def patch_def)
  have l: "length ?b = block_len A" using assms by (simp add: sha_holds_def)
  have "length x \<le> block_len A" using assms(2) by simp
  then show ?thesis
    using assms words_of_block [OF l, of big] to_host_order [OF l, of 16 big] unfolding b
    by (simp add: sha_holds_def process_buffer_def add_bytes_def hashed_fill count_step mod_add_fill open_block_fill)
qed

lemma holds_add:
  assumes "sha_holds counts A ctx m" "length m mod block_len A + length x < block_len A"
  shows "sha_holds counts A (add_bytes A (length x) (ctx\<lparr> sha_buffer := patch (sha_buffer ctx) (length m mod block_len A) x \<rparr>)) (m @ x)"
  using assms
  by (simp add: sha_holds_def add_bytes_def hashed_add count_step mod_add_small open_block_add) (simp add: patch_def)

lemma holds_length: "sha_holds counts A ctx m \<Longrightarrow> length (sha_buffer ctx) = block_len A"
  by (simp add: sha_holds_def)

lemma holds_blocks:
  "sha_holds counts A ctx m \<Longrightarrow> length m mod block_len A = 0 \<Longrightarrow>
   \<exists>ctx'. sha_blocks A big x ctx = Some ctx' \<and> sha_holds counts A ctx' (m @ x)"
proof (induction x arbitrary: ctx m rule: length_induct)
  case (1 x)
  let ?n = "block_len A"
  consider "?n \<le> length x" | "x \<noteq> []" "length x < ?n" | "x = []" by fastforce
  then show ?case
  proof cases
    case 1
    then have l: "length m mod ?n + length (take ?n x) = ?n" "length (drop ?n x) < length x"
      using "1.prems" block_pos by simp_all
    let ?next = "add_bytes A ?n (process_buffer A big (ctx\<lparr> sha_buffer := to_host_order A big 16 (patch (sha_buffer ctx) 0 (take ?n x)) \<rparr>))"
    have z: "length (m @ take ?n x) mod ?n = 0" using mod_add_fill [OF l(1)] by simp
    have "sha_holds counts A ?next (m @ take ?n x)"
      using holds_fill [OF "1.prems"(1) l(1), of big] "1.prems"(2) 1 by (simp add: min_absorb2)
    from "1.IH" [rule_format, OF l(2) this z] obtain ctx' where
      "sha_blocks A big (drop ?n x) ?next = Some ctx'" "sha_holds counts A ctx' (m @ x)" by auto
    then show ?thesis using 1 block_pos holds_length [OF "1.prems"(1)] by (simp add: sha_blocks.simps [of A big x ctx])
  next
    case 2
    then show ?thesis
      using holds_add [OF "1.prems"(1), of x] "1.prems"(2) holds_length [OF "1.prems"(1)]
      by (simp add: sha_blocks.simps [of A big x ctx])
  next
    case 3
    then show ?thesis using "1.prems"(1) block_pos by (simp add: sha_blocks.simps)
  qed
qed

lemma word_of_be_bytes [simp]: "word_of_be (be_bytes (word_len A) w) = (w :: 'a word)"
  using host_bytes_word [of True w] by (simp add: word_of_be_def be_bytes_def of_host_bytes_def host_bytes_def)

text \<open>The last block: 14 words of the buffer and the counter.\<close>

lemma last_words:
  assumes "length b = block_len A"
  shows "map (get_word A big (put_word A big 15 lo (put_word A big 14 hi (to_host_order A big 14 b)))) [0..<16] =
    words_of_be (word_len A) (take (14 * word_len A) b @ be_bytes (word_len A) hi @ be_bytes (word_len A) lo)"
    (is "?l = words_of_be ?k ?b'")
proof (rule nth_equalityI)
  fix i
  assume "i < length ?l"
  then have i: "i < 16" by simp
  note t = to_host_order [OF assms, of 14 big, simplified]
  have l: "length b = 16 * ?k" using assms block_words by simp
  consider "i < 14" | "i = 14" | "i = 15" using i by linarith
  then have "get_word A big (put_word A big 15 lo (put_word A big 14 hi (to_host_order A big 14 b))) i =
    word_of_be (take ?k (drop (?k * i) ?b'))"
  proof cases
    case 1
    have "?k * i + ?k \<le> 14 * ?k" using mult_le_mono2 [of "Suc i" 14 ?k] 1 by simp
    then have "take ?k (drop (?k * i) ?b') = take ?k (drop (?k * i) b)" using l by (intro slice_take_append) simp_all
    then show ?thesis using 1 t by (simp add: get_put_word put_word_length)
  next
    case 2
    then have "take ?k (drop (?k * i) ?b') = be_bytes ?k hi" using l by (simp add: be_bytes_def mult.commute)
    then show ?thesis using 2 t by (simp add: get_put_word put_word_length)
  next
    case 3
    then have "take ?k (drop (?k * i) ?b') = be_bytes ?k lo" using l by (simp add: be_bytes_def mult.commute)
    then show ?thesis using 3 t by (simp add: get_put_word put_word_length)
  qed
  then show "?l ! i = words_of_be ?k ?b' ! i" using i by (simp add: words_of_be_def del: upt_rec_numeral)
qed (simp add: words_of_be_def)

text \<open>Padding and the last compressions give the digest of the padded message.\<close>

theorem holds_Last:
  assumes "sha_holds counts A ctx m"
  shows "\<exists>ctx'. sha_Last A big ctx = Some ctx' \<and> sha_state ctx' = hashed A (md_pad (block_len A) (2 * word_len A) m)"
proof -
  let ?k = "word_len A" and ?r = "length m mod block_len A" and ?rest = "open_block (block_len A) m"
  obtain hi lo where w: "count_words A (sha_bitcount ctx) = (hi, lo)" by fastforce
  have c: "be_bytes ?k hi @ be_bytes ?k lo = num_be (2 * ?k) (8 * length m)"
    using assms count_be [OF _ w] by (simp add: sha_holds_def)
  have u: "count_used A (sha_bitcount ctx) = ?r" using assms count_mod by (simp add: sha_holds_def)
  have n: "block_len A = 16 * ?k" "block_len A - 2 * ?k = 14 * ?k" using block_words by simp_all
  have r: "?r < 16 * ?k" using block_pos n(1) by (metis mod_less_divisor)
  have l: "length (sha_buffer ctx) = 16 * ?k" and b: "take ?r (sha_buffer ctx) = ?rest" and st: "sha_state ctx = hashed A m"
    using assms n by (simp_all add: sha_holds_def)
  show ?thesis
  proof (cases "?r + 1 \<le> 14 * ?k")
    case True
    let ?x = "0x80 # replicate (14 * ?k - 1 - ?r) (0 :: byte)"
    let ?b = "patch (sha_buffer ctx) ?r ?x"
    have "2 * block_len A - 1 - 2 * ?k - ?r = block_len A + (14 * ?k - 1 - ?r)" "14 * ?k - 1 - ?r < block_len A"
      using True n word_pos by simp_all
    then have p: "md_pad (block_len A) (2 * ?k) m = m @ ?x @ num_be (2 * ?k) (8 * length m)"
      by (simp add: md_pad_def)
    have "take (14 * ?k) ?b = take (14 * ?k) (?rest @ ?x)" using True l b by (simp add: patch_def take_Cons')
    then have "take (14 * ?k) ?b = ?rest @ ?x" using True by simp
    then have "map (get_word A big (put_word A big 15 lo (put_word A big 14 hi (to_host_order A big 14 ?b)))) [0..<16] =
        words_of_be ?k (?rest @ ?x @ num_be (2 * ?k) (8 * length m))"
      using last_words [of ?b big lo hi] True l n c by simp
    moreover have "hashed A (md_pad (block_len A) (2 * ?k) m) =
        transform A (hashed A m) (words_of_be ?k (?rest @ ?x @ num_be (2 * ?k) (8 * length m)))"
      unfolding p using True n by (intro hashed_fill) simp
    moreover have "sha_Last A big ctx = Some (process_buffer A big (ctx\<lparr> sha_buffer :=
        put_word A big 15 lo (put_word A big 14 hi (to_host_order A big 14 ?b)) \<rparr>))"
      using True l n w u by (simp add: sha_Last_def mem_simps Let_def)
    ultimately show ?thesis using st by (simp add: process_buffer_def del: upt_rec_numeral)
  next
    case False
    let ?x = "0x80 # replicate (16 * ?k - 1 - ?r) (0 :: byte)"
    let ?b = "patch (sha_buffer ctx) ?r ?x"
    let ?b' = "patch (to_host_order A big 16 ?b) 0 (replicate (14 * ?k) 0)"
    have "2 * block_len A - 1 - 2 * ?k - ?r = (16 * ?k - 1 - ?r) + 14 * ?k" "(16 * ?k - 1 - ?r) + 14 * ?k < block_len A"
      using False n r by simp_all
    then have p: "md_pad (block_len A) (2 * ?k) m = (m @ ?x) @ replicate (14 * ?k) 0 @ num_be (2 * ?k) (8 * length m)"
      by (simp add: md_pad_def replicate_add)
    have b1: "?b = ?rest @ ?x" "length ?b = block_len A" using r l b n by (simp_all add: patch_def)
    have f: "length m mod block_len A + length ?x = block_len A" using r n by simp
    have s1: "transform A (hashed A m) (map (get_word A big (to_host_order A big 16 ?b)) [0..<16]) = hashed A (m @ ?x)"
      using words_of_block [OF b1(2), of big] hashed_fill [OF f] b1(1) by simp
    have lb: "length (to_host_order A big 16 ?b) = 16 * ?k" using to_host_order [OF b1(2), of 16 big] n by simp
    then have "map (get_word A big (put_word A big 15 lo (put_word A big 14 hi (to_host_order A big 14 ?b')))) [0..<16] =
        words_of_be ?k (replicate (14 * ?k) 0 @ num_be (2 * ?k) (8 * length m))"
      using last_words [of ?b' big lo hi] n c by (simp add: patch_def)
    moreover have "hashed A (md_pad (block_len A) (2 * ?k) m) =
        transform A (hashed A (m @ ?x)) (words_of_be ?k (open_block (block_len A) (m @ ?x) @ replicate (14 * ?k) 0 @ num_be (2 * ?k) (8 * length m)))"
      unfolding p using n mod_add_fill [OF f] by (intro hashed_fill) simp
    moreover have "sha_Last A big ctx = Some (process_buffer A big (process_buffer A big (ctx\<lparr> sha_buffer := to_host_order A big 16 ?b \<rparr>)
        \<lparr> sha_buffer := put_word A big 15 lo (put_word A big 14 hi (to_host_order A big 14 ?b')) \<rparr>))"
      using False r l lb n w u by (simp add: sha_Last_def mem_simps process_buffer_def Let_def)
    ultimately show ?thesis using st s1 open_block_fill [OF f] by (simp add: process_buffer_def del: upt_rec_numeral)
  qed
qed

lemma process_add: "process_buffer A big (add_bytes A k ctx\<lparr> sha_buffer := b \<rparr>) = add_bytes A k (process_buffer A big (ctx\<lparr> sha_buffer := b \<rparr>))"
  by (simp add: process_buffer_def add_bytes_def)

lemma length_hashed: "length (hashed A m) = length (initial_hash A)"
proof -
  have "length s = length (initial_hash A) \<Longrightarrow>
    length (md_blocks (\<lambda>s b. transform A s (words_of_be (word_len A) b)) n s m) = length (initial_hash A)" for n s
  proof (induction "\<lambda>s b. transform A s (words_of_be (word_len A) b)" n s m rule: md_blocks.induct)
    case (1 n s m)
    then show ?case by (subst md_blocks.simps) (simp add: transform_length)
  qed
  then show ?thesis by (simp add: hashed_def)
qed

lemma state_bytes: "state_bytes A big s = concat (map (be_bytes (word_len A)) s)"
proof -
  have "le_bytes (word_len A) (reverse_word A w) = rev (le_bytes (word_len A) w)" for w :: "'a word"
  proof -
    have "w = of_le_bytes (le_bytes (word_len A) w)" using host_bytes_word [of False w] by (simp add: of_host_bytes_def host_bytes_def)
    then have "reverse_word A w = of_le_bytes (rev (le_bytes (word_len A) w))" using reverse_be [of "le_bytes (word_len A) w"] by simp
    then show ?thesis using le_bytes_of_le_bytes [of "rev (le_bytes (word_len A) w)", where ?'a = 'a] word_bits by simp
  qed
  then show ?thesis by (cases big) (simp_all add: state_bytes_def host_bytes_def be_bytes_def [abs_def])
qed

lemma holds_Init: "sha_holds counts A (sha_Init A) []"
  by (simp add: sha_holds_def sha_Init_def hashed_def md_blocks_short block_pos count_start open_block_def)

theorem holds_Update:
  assumes "sha_holds counts A ctx m"
  shows "\<exists>ctx'. sha_Update A big ctx x = Some ctx' \<and> sha_holds counts A ctx' (m @ x)"
proof -
  let ?n = "block_len A" and ?r = "length m mod block_len A"
  have u: "count_used A (sha_bitcount ctx) = ?r" using assms count_mod by (simp add: sha_holds_def)
  have r: "?r < ?n" using block_pos by simp
  note l = holds_length [OF assms]
  consider "x = []" | "x \<noteq> []" "?r = 0" | "x \<noteq> []" "0 < ?r" "?n - ?r \<le> length x" | "x \<noteq> []" "0 < ?r" "length x < ?n - ?r"
    by fastforce
  then show ?thesis
  proof cases
    case 1
    then show ?thesis using assms by (simp add: sha_Update_def)
  next
    case 2
    then show ?thesis using holds_blocks [OF assms] u by (simp add: sha_Update_def)
  next
    case 3
    let ?x = "take (?n - ?r) x"
    have f: "?r + length ?x = ?n" using 3 r by simp
    obtain ctx' where "sha_blocks A big (drop (?n - ?r) x) (add_bytes A (length ?x) (process_buffer A big
        (ctx\<lparr> sha_buffer := to_host_order A big 16 (patch (sha_buffer ctx) ?r ?x) \<rparr>))) = Some ctx'"
      "sha_holds counts A ctx' ((m @ ?x) @ drop (?n - ?r) x)"
      using holds_blocks [OF holds_fill [OF assms f]] mod_add_fill [OF f] by (metis length_append)
    then show ?thesis using 3 r l f u by (simp add: sha_Update_def process_add) (simp add: add_bytes_def)
  next
    case 4
    then show ?thesis using holds_add [OF assms, of x] l u by (simp add: sha_Update_def)
  qed
qed


lemma concat_be_bytes: "length (concat (map (be_bytes k) (s :: 'a word list))) = k * length s"
  by (induction s) (simp_all add: be_bytes_def)

abbreviation result :: "byte list \<Rightarrow> byte list" where
  "result \<equiv> md_digest (transform A) (initial_hash A) (word_len A) (digest_len A)"

lemma result_hashed:
  "result m = take (digest_len A) (concat (map (be_bytes (word_len A)) (hashed A (md_pad (block_len A) (2 * word_len A) m))))"
  by (simp add: md_digest_def hashed_def block_words)

lemma length_result: "length (result m) = digest_len A"
  using digest_fits by (simp add: result_hashed concat_be_bytes length_hashed)

theorem holds_Final:
  assumes "sha_holds counts A ctx m" "digest_len A \<le> length d"
  shows "sha_Final A big ctx (Ptr d) = Some (Ptr (patch d 0 (result m)), sha_cleared A)"
proof -
  obtain ctx' where "sha_Last A big ctx = Some ctx'"
    "sha_state ctx' = hashed A (md_pad (block_len A) (2 * word_len A) m)" using holds_Last [OF assms(1)] by blast
  then show ?thesis using assms(2) digest_fits length_result [of m]
    by (simp add: sha_Final_def state_bytes concat_be_bytes length_hashed flip: result_hashed)
qed

theorem Updates:
  "\<exists>ctx. foldl (\<lambda>c x. c \<bind> (\<lambda>ctx. sha_Update A big ctx x)) (Some (sha_Init A)) xs = Some ctx \<and> sha_holds counts A ctx (concat xs)"
proof (induction xs rule: rev_induct)
  case Nil
  then show ?case using holds_Init by simp
next
  case (snoc x xs)
  then obtain ctx where "foldl (\<lambda>c x. c \<bind> (\<lambda>ctx. sha_Update A big ctx x)) (Some (sha_Init A)) xs = Some ctx"
    "sha_holds counts A ctx (concat xs)" by blast
  then show ?case using holds_Update by simp
qed

theorem Updates_Final:
  assumes "digest_len A \<le> length d"
  shows "foldl (\<lambda>c x. c \<bind> (\<lambda>ctx. sha_Update A big ctx x)) (Some (sha_Init A)) xs \<bind> (\<lambda>ctx. sha_Final A big ctx (Ptr d)) =
    Some (Ptr (patch d 0 (result (concat xs))), sha_cleared A)"
proof -
  obtain ctx where "foldl (\<lambda>c x. c \<bind> (\<lambda>ctx. sha_Update A big ctx x)) (Some (sha_Init A)) xs = Some ctx"
    "sha_holds counts A ctx (concat xs)" using Updates by blast
  then show ?thesis using holds_Final assms by simp
qed

theorem Data:
  assumes "2 * digest_len A < length buf"
  shows "sha_Update A big (sha_Init A) m \<bind> (\<lambda>ctx. sha_End A big ctx (Ptr buf) \<bind> (\<lambda>(r, d, ctx). Some (r, d))) =
    Some (Ptr (2 * digest_len A), Ptr (patch buf 0 (concat (map hex_chars (result m)) @ [NUL])))"
proof -
  obtain ctx where c: "sha_Update A big (sha_Init A) m = Some ctx" "sha_holds counts A ctx m"
    using holds_Update [OF holds_Init, of big m] by auto
  have "length (concat (map hex_chars bs)) = 2 * length bs" for bs by (induction bs) (simp_all add: hex_chars_def)
  moreover have "patch (replicate (digest_len A) 0) 0 (result m) = result m" using length_result [of m] by (simp add: patch_def)
  ultimately show ?thesis
    using c assms holds_Final [OF c(2), of "replicate (digest_len A) 0" big] length_result [of m]
    by (simp add: sha_End_def Let_def)
qed

theorem Raw:
  assumes "digest_len A \<le> length d"
  shows "sha_Update A big (sha_Init A) m \<bind> (\<lambda>ctx. sha_Final A big ctx (Ptr d) \<bind> (\<lambda>(d, ctx). Some d)) = Some (Ptr (patch d 0 (result m)))"
proof -
  obtain ctx where "sha_Update A big (sha_Init A) m = Some ctx" "sha_holds counts A ctx m"
    using holds_Update [OF holds_Init, of big m] by auto
  then show ?thesis using holds_Final assms by simp
qed

end

section \<open>The three algorithms\<close>

lemma REVERSE32_bytes: "le_bytes 4 (REVERSE32 v) = rev (le_bytes 4 v)"
  unfolding REVERSE32_def Let_def endian_masks
  by (simp add: le_bytes_def upt_rec) (intro conjI; rule bit_word_eqI; auto simp: bit_simps dest: bit_imp_le_length)

lemma REVERSE64_bytes: "le_bytes 8 (REVERSE64 v) = rev (le_bytes 8 v)"
  unfolding REVERSE64_def Let_def endian_masks
  by (simp add: le_bytes_def upt_rec) (intro conjI; rule bit_word_eqI; auto simp: bit_simps dest: bit_imp_le_length)

interpretation reverse32: byte_swap REVERSE32 4
  by unfold_locales (simp_all add: REVERSE32_bytes)

interpretation reverse64: byte_swap REVERSE64 8
  by unfold_locales (simp_all add: REVERSE64_bytes)

text \<open>The counters hold the number of bits, cut to their width.\<close>

definition bits64 :: "u64 \<Rightarrow> nat \<Rightarrow> bool" where
  "bits64 c n \<longleftrightarrow> c = word_of_nat (8 * n)"

definition bits128 :: "u64 \<times> u64 \<Rightarrow> nat \<Rightarrow> bool" where
  "bits128 c n \<longleftrightarrow> c = (word_of_nat (8 * n), word_of_nat (8 * n div 2 ^ 64))"

lemma push_bit_3: "push_bit 3 (word_of_nat k) = (word_of_nat (8 * k) :: u64)"
  by (simp add: push_bit_eq_mult)

lemma bits64_add: "bits64 c n \<Longrightarrow> bits64 (c + push_bit 3 (word_of_nat k)) (n + k)"
  by (simp add: bits64_def push_bit_3 add_mult_distrib2)

lemma used_bytes: "unat (drop_bit 3 (word_of_nat (8 * n) :: u64)) = n mod 2 ^ 61"
proof -
  have "8 * n mod 2 ^ 64 = 8 * (n mod 2 ^ 61)" by (simp add: mult_mod_right)
  then show ?thesis unfolding unat_drop_bit_eq by (simp add: drop_bit_eq_div unat_of_nat take_bit_eq_mod del: of_nat_mult)
qed

lemma be_bytes_num: "8 * k \<le> LENGTH('a) \<Longrightarrow> be_bytes k (word_of_nat n :: 'a::len word) = num_be k n"
  by (simp add: be_bytes_def num_be_def num_le_le_bytes)

lemma two_words_bytes:
  "be_bytes 4 (ucast (drop_bit 32 (word_of_nat n :: u64)) :: u32) @ be_bytes 4 (ucast (word_of_nat n AND 0xffffffff :: u64) :: u32) = num_be 8 n"
proof -
  have "ucast (drop_bit 32 (word_of_nat n :: u64)) = (word_of_nat (n div 2 ^ 32) :: u32)"
    unfolding drop_bit_eq_div [where n = 32 and a = n, symmetric]
    by (intro bit_word_eqI) (auto simp: bit_simps)
  moreover have "ucast (word_of_nat n AND mask 32 :: u64) = (word_of_nat n :: u32)"
    by (intro bit_word_eqI) (auto simp: bit_simps)
  ultimately show ?thesis
    using num_be_add [of 4 4 n] unfolding endian_masks by (simp add: be_bytes_num)
qed


lemma add_carry: "a + b < b \<longleftrightarrow> 2 ^ LENGTH('a) \<le> unat a + unat b" for a b :: "'a::len word"
proof (cases "2 ^ LENGTH('a) \<le> unat a + unat b")
  case True
  have l: "unat a < 2 ^ LENGTH('a)" "unat b < 2 ^ LENGTH('a)" by (rule unsigned_less)+
  then have "unat a + unat b - 2 ^ LENGTH('a) < 2 ^ LENGTH('a)" using True by linarith
  then have "unat (a + b) = unat a + unat b - 2 ^ LENGTH('a)" using True by (simp add: unat_word_ariths le_mod_geq)
  then have "unat (a + b) < unat b" using True l by linarith
  then show ?thesis using True by (simp add: word_less_nat_alt)
next
  case False
  then show ?thesis by (simp add: word_less_nat_alt unat_word_ariths)
qed

lemma div_add_carry: "b < M \<Longrightarrow> (a + b) div M = a div M + (if M \<le> a mod M + b then 1 else 0)" for a b M :: nat
proof -
  assume b: "b < M"
  then have "a mod M < M" by simp
  then have "a mod M + b - M < M" using b by linarith
  then have "(a mod M + b) div M = (if M \<le> a mod M + b then 1 else 0)" using b by (simp add: le_div_geq)
  then show ?thesis using b by (simp add: div_add1_eq [of a b M])
qed

lemma bits128_add:
  assumes "bits128 c n" "k \<le> 128"
  shows "bits128 (ADDINC128 c (push_bit 3 (word_of_nat k))) (n + k)"
proof -
  define M :: nat where "M = 2 ^ 64"
  let ?a = "word_of_nat (8 * n) :: u64" and ?b = "word_of_nat (8 * k) :: u64"
  have s: "?a + ?b = word_of_nat (8 * (n + k))" by (simp add: add_mult_distrib2)
  have b: "8 * k < M" using assms(2) by (simp add: M_def)
  then have "unat ?a = 8 * n mod M" "unat ?b = 8 * k"
    by (simp_all add: unat_of_nat take_bit_eq_mod M_def del: of_nat_mult)
  then have "?a + ?b < ?b \<longleftrightarrow> M \<le> 8 * n mod M + 8 * k" using add_carry [of ?a ?b] by (simp add: M_def del: of_nat_mult)
  then have "8 * (n + k) div M = 8 * n div M + (if ?a + ?b < ?b then 1 else 0)"
    using div_add_carry [OF b, of "8 * n"] by (simp only: add_mult_distrib2)
  then have "(if ?a + ?b < ?b then word_of_nat (8 * n div M) + 1 else word_of_nat (8 * n div M) :: u64) = word_of_nat (8 * (n + k) div M)"
    by (cases "?a + ?b < ?b") (simp_all only: of_nat_add of_nat_1 of_nat_0 add_0_right if_True if_False)
  moreover have "c = (?a, word_of_nat (8 * n div M))" using assms(1) unfolding bits128_def M_def .
  ultimately show ?thesis unfolding bits128_def push_bit_3 M_def [symmetric]
    by (simp only: ADDINC128_def s Let_def prod.case)
qed

interpretation sha1: block_hash sha1_alg bits64
proof
  fix bs :: "byte list" and c :: u64 and k n :: nat and hi lo :: u32 and s M :: "u32 list"
  show "LENGTH(32) = 8 * word_len sha1_alg" "block_len sha1_alg = 16 * word_len sha1_alg" "bits64 (count_zero sha1_alg) 0"
    "digest_len sha1_alg \<le> word_len sha1_alg * length (initial_hash sha1_alg)"
    by (simp_all add: sha1_alg_def bits64_def sha1_initial_hash_value_def)
  show "reverse_word sha1_alg (of_le_bytes bs) = of_le_bytes (rev bs)" if "length bs = word_len sha1_alg"
    using that reverse32.swap_eq by (simp add: sha1_alg_def)
  show "bits64 (count_add sha1_alg c (push_bit 3 (word_of_nat k))) (n + k)" if "bits64 c n" "k \<le> block_len sha1_alg"
    using that by (simp add: sha1_alg_def bits64_add)
  show "count_used sha1_alg c = n mod block_len sha1_alg" if "bits64 c n"
    using that by (simp add: sha1_alg_def bits64_def used_bytes mod_mod_cancel del: of_nat_mult)
  show "be_bytes (word_len sha1_alg) hi @ be_bytes (word_len sha1_alg) lo = num_be (2 * word_len sha1_alg) (8 * n)"
    if "bits64 c n" "count_words sha1_alg c = (hi, lo)"
    using that two_words_bytes [of "8 * n"] by (auto simp: sha1_alg_def bits64_def simp del: of_nat_mult)
  show "length (transform sha1_alg s M) = length (initial_hash sha1_alg)" if "length s = length (initial_hash sha1_alg)"
    by (simp add: sha1_alg_def sha1_Transform_def finish1_def sha1_initial_hash_value_def Let_def split: prod.split)
qed

interpretation sha256: block_hash sha256_alg bits64
proof
  fix bs :: "byte list" and c :: u64 and k n :: nat and hi lo :: u32 and s M :: "u32 list"
  show "LENGTH(32) = 8 * word_len sha256_alg" "block_len sha256_alg = 16 * word_len sha256_alg" "bits64 (count_zero sha256_alg) 0"
    "digest_len sha256_alg \<le> word_len sha256_alg * length (initial_hash sha256_alg)"
    by (simp_all add: sha256_alg_def bits64_def sha256_initial_hash_value_def)
  show "reverse_word sha256_alg (of_le_bytes bs) = of_le_bytes (rev bs)" if "length bs = word_len sha256_alg"
    using that reverse32.swap_eq by (simp add: sha256_alg_def)
  show "bits64 (count_add sha256_alg c (push_bit 3 (word_of_nat k))) (n + k)" if "bits64 c n" "k \<le> block_len sha256_alg"
    using that by (simp add: sha256_alg_def bits64_add)
  show "count_used sha256_alg c = n mod block_len sha256_alg" if "bits64 c n"
    using that by (simp add: sha256_alg_def bits64_def used_bytes mod_mod_cancel del: of_nat_mult)
  show "be_bytes (word_len sha256_alg) hi @ be_bytes (word_len sha256_alg) lo = num_be (2 * word_len sha256_alg) (8 * n)"
    if "bits64 c n" "count_words sha256_alg c = (hi, lo)"
    using that two_words_bytes [of "8 * n"] by (auto simp: sha256_alg_def bits64_def simp del: of_nat_mult)
  show "length (transform sha256_alg s M) = length (initial_hash sha256_alg)" if "length s = length (initial_hash sha256_alg)"
    by (simp add: sha256_alg_def sha256_Transform_def finish2_def sha256_initial_hash_value_def Let_def split: prod.split)
qed

interpretation sha512: block_hash sha512_alg bits128
proof
  fix bs :: "byte list" and c :: "u64 \<times> u64" and k n :: nat and hi lo :: u64 and s M :: "u64 list"
  show "LENGTH(64) = 8 * word_len sha512_alg" "block_len sha512_alg = 16 * word_len sha512_alg" "bits128 (count_zero sha512_alg) 0"
    "digest_len sha512_alg \<le> word_len sha512_alg * length (initial_hash sha512_alg)"
    by (simp_all add: sha512_alg_def bits128_def sha512_initial_hash_value_def)
  show "reverse_word sha512_alg (of_le_bytes bs) = of_le_bytes (rev bs)" if "length bs = word_len sha512_alg"
    using that reverse64.swap_eq by (simp add: sha512_alg_def)
  show "bits128 (count_add sha512_alg c (push_bit 3 (word_of_nat k))) (n + k)" if "bits128 c n" "k \<le> block_len sha512_alg"
    using that by (simp add: sha512_alg_def bits128_add)
  show "count_used sha512_alg c = n mod block_len sha512_alg" if "bits128 c n"
    using that by (simp add: sha512_alg_def bits128_def used_bytes mod_mod_cancel del: of_nat_mult)
  show "be_bytes (word_len sha512_alg) hi @ be_bytes (word_len sha512_alg) lo = num_be (2 * word_len sha512_alg) (8 * n)"
    if "bits128 c n" "count_words sha512_alg c = (hi, lo)"
    using that num_be_add [of 8 8 "8 * n"] by (auto simp: sha512_alg_def bits128_def be_bytes_num simp del: of_nat_mult)
  show "length (transform sha512_alg s M) = length (initial_hash sha512_alg)" if "length s = length (initial_hash sha512_alg)"
    by (simp add: sha512_alg_def sha512_Transform_def finish2_def sha512_initial_hash_value_def Let_def split: prod.split)
qed

section \<open>The digests\<close>

lemma md_blocks_cong:
  assumes "\<And>s b. length s = l \<Longrightarrow> f s b = g s b" "\<And>s b. length s = l \<Longrightarrow> length (f s b) = l"
  shows "length s = l \<Longrightarrow> md_blocks f n s m = md_blocks g n s m"
proof (induction m arbitrary: s rule: length_induct)
  case (1 m)
  show ?case
  proof (cases "0 < n \<and> n \<le> length m")
    case True
    then have "length (drop n m) < length m" unfolding length_drop by linarith
    then have "md_blocks f n (f s (take n m)) (drop n m) = md_blocks g n (g s (take n m)) (drop n m)"
      using 1 assms by (metis (no_types, lifting))
    then show ?thesis using True by (simp add: md_blocks_step)
  next
    case False
    then show ?thesis by (auto simp: md_blocks.simps [of f n s m] md_blocks.simps [of g n s m])
  qed
qed

lemma length_words_of_be [simp]: "length (words_of_be k b) = 16"
  by (simp add: words_of_be_def)

lemma md_digest_cong:
  assumes "\<And>H M. length H = l \<Longrightarrow> length M = 16 \<Longrightarrow> c H M = c' H M" "\<And>H M. length (c H M) = l" "length H = l"
  shows "md_digest c H = md_digest c' H"
proof (intro ext)
  fix k n m
  have "md_blocks (\<lambda>s b. c s (words_of_be k b)) (16 * k) H x = md_blocks (\<lambda>s b. c' s (words_of_be k b)) (16 * k) H x" for x
    by (rule md_blocks_cong [where l = l]) (rule assms length_words_of_be | assumption)+
  then show "md_digest c H k n m = md_digest c' H k n m" by (simp add: md_digest_def)
qed

lemma length_transforms:
  "length (sha1_Transform H1 M1) = 5" "length (sha256_Transform H2 M2) = 8" "length (sha512_Transform H3 M3) = 8"
  by (simp_all add: sha1_Transform_def finish1_def sha256_Transform_def sha512_Transform_def finish2_def Let_def split: prod.split)

lemma digest_fips:
  "md_digest sha1_Transform sha1_initial_hash_value = md_digest fips_sha1 sha1_initial_hash_value"
  "md_digest sha256_Transform sha256_initial_hash_value = md_digest fips_sha256 sha256_initial_hash_value"
  "md_digest sha512_Transform sha512_initial_hash_value = md_digest fips_sha512 sha512_initial_hash_value"
  by (rule md_digest_cong, erule (1) sha1_Transform_fips, rule length_transforms, simp add: sha1_initial_hash_value_def)
    (rule md_digest_cong, erule (1) sha256_Transform_fips, rule length_transforms, simp add: sha256_initial_hash_value_def,
     rule md_digest_cong, erule (1) sha512_Transform_fips, rule length_transforms, simp add: sha512_initial_hash_value_def)

lemma sha2_alg_simps:
  "transform sha1_alg = sha1_Transform" "transform sha256_alg = sha256_Transform" "transform sha512_alg = sha512_Transform"
  "initial_hash sha1_alg = sha1_initial_hash_value" "initial_hash sha256_alg = sha256_initial_hash_value"
  "initial_hash sha512_alg = sha512_initial_hash_value"
  "word_len sha1_alg = 4" "word_len sha256_alg = 4" "word_len sha512_alg = 8"
  "digest_len sha1_alg = 20" "digest_len sha256_alg = 32" "digest_len sha512_alg = 64"
  "block_len sha1_alg = 64" "block_len sha256_alg = 64" "block_len sha512_alg = 128"
  by (simp_all add: sha1_alg_def sha256_alg_def sha512_alg_def)

text \<open>The digests of the standard.\<close>

definition fips_SHA1 :: "byte list \<Rightarrow> byte list" where
  "fips_SHA1 = md_digest fips_sha1 sha1_initial_hash_value 4 20"

definition fips_SHA256 :: "byte list \<Rightarrow> byte list" where
  "fips_SHA256 = md_digest fips_sha256 sha256_initial_hash_value 4 32"

definition fips_SHA512 :: "byte list \<Rightarrow> byte list" where
  "fips_SHA512 = md_digest fips_sha512 sha512_initial_hash_value 8 64"

lemmas fips_SHA_result =
  sha1.length_result [unfolded sha2_alg_simps digest_fips, folded fips_SHA1_def]
  sha256.length_result [unfolded sha2_alg_simps digest_fips, folded fips_SHA256_def]
  sha512.length_result [unfolded sha2_alg_simps digest_fips, folded fips_SHA512_def]

text \<open>C14: \<open>sha1_Raw\<close>, \<open>sha256_Raw\<close> and \<open>sha512_Raw\<close> write the digest of FIPS 180-4 at the front of the caller's array, for every message, on
  hosts of both byte orders.\<close>

theorem sha2_raw_result:
  assumes "20 \<le> length d1" "32 \<le> length d2" "64 \<le> length d5"
  shows "sha1_Raw big m (Ptr d1) = Some (Ptr (patch d1 0 (fips_SHA1 m))) \<and>
    sha256_Raw big m (Ptr d2) = Some (Ptr (patch d2 0 (fips_SHA256 m))) \<and>
    sha512_Raw big m (Ptr d5) = Some (Ptr (patch d5 0 (fips_SHA512 m)))"
  using sha1.Raw [of d1 big m] sha256.Raw [of d2 big m] sha512.Raw [of d5 big m] assms
  by (simp add: sha2_alg_simps digest_fips fips_SHA1_def fips_SHA256_def fips_SHA512_def
      sha1_Raw_def sha1_Update_def sha1_Init_def sha1_Final_def sha256_Raw_def sha256_Update_def sha256_Init_def sha256_Final_def
      sha512_Raw_def sha512_Update_def sha512_Init_def sha512_Final_def)

lemma sha2_raw_result_witness:
  "sha1_Raw False [1, 2] (Ptr (replicate 20 0)) = Some (Ptr (patch (replicate 20 0) 0 (fips_SHA1 [1, 2]))) \<and>
   sha256_Raw False [1, 2] (Ptr (replicate 32 0)) = Some (Ptr (patch (replicate 32 0) 0 (fips_SHA256 [1, 2]))) \<and>
   sha512_Raw False [1, 2] (Ptr (replicate 64 0)) = Some (Ptr (patch (replicate 64 0) 0 (fips_SHA512 [1, 2])))"
  by (rule sha2_raw_result) simp_all

text \<open>C16: A message handed over in pieces has the digest of the whole message, whatever the pieces are, and the context is cleared.\<close>

theorem sha2_pieces_result:
  assumes "20 \<le> length d1" "32 \<le> length d2" "64 \<le> length d5"
  shows "foldl (\<lambda>c x. c \<bind> (\<lambda>ctx. sha1_Update big ctx x)) (Some sha1_Init) xs \<bind> (\<lambda>ctx. sha1_Final big ctx (Ptr d1)) =
      Some (Ptr (patch d1 0 (fips_SHA1 (concat xs))), sha_cleared sha1_alg) \<and>
    foldl (\<lambda>c x. c \<bind> (\<lambda>ctx. sha256_Update big ctx x)) (Some sha256_Init) xs \<bind> (\<lambda>ctx. sha256_Final big ctx (Ptr d2)) =
      Some (Ptr (patch d2 0 (fips_SHA256 (concat xs))), sha_cleared sha256_alg) \<and>
    foldl (\<lambda>c x. c \<bind> (\<lambda>ctx. sha512_Update big ctx x)) (Some sha512_Init) xs \<bind> (\<lambda>ctx. sha512_Final big ctx (Ptr d5)) =
      Some (Ptr (patch d5 0 (fips_SHA512 (concat xs))), sha_cleared sha512_alg)"
  using sha1.Updates_Final [of d1 big xs] sha256.Updates_Final [of d2 big xs] sha512.Updates_Final [of d5 big xs] assms
  by (simp add: sha2_alg_simps digest_fips fips_SHA1_def fips_SHA256_def fips_SHA512_def
      sha1_Update_def sha1_Init_def sha1_Final_def sha256_Update_def sha256_Init_def sha256_Final_def
      sha512_Update_def sha512_Init_def sha512_Final_def)

lemma sha2_pieces_result_witness:
  "foldl (\<lambda>c x. c \<bind> (\<lambda>ctx. sha256_Update True ctx x)) (Some sha256_Init) [[1], [], [2, 3]] \<bind> (\<lambda>ctx. sha256_Final True ctx (Ptr (replicate 32 0))) =
      Some (Ptr (patch (replicate 32 0) 0 (fips_SHA256 [1, 2, 3])), sha_cleared sha256_alg)"
  using sha2_pieces_result [of "replicate 20 0" "replicate 32 0" "replicate 64 0" True "[[1], [], [2, 3]]"] by simp

text \<open>\<open>sha1_Data\<close>, \<open>sha256_Data\<close> and \<open>sha512_Data\<close> write the digest as lower-case hexadecimal text with its NUL; the pointer they
  return is the address of that NUL, not of the text.\<close>

theorem sha2_data_result:
  assumes "40 < length b1" "64 < length b2" "128 < length b5"
  shows "sha1_Data big m (Ptr b1) = Some (Ptr 40, Ptr (patch b1 0 (concat (map hex_chars (fips_SHA1 m)) @ [NUL]))) \<and>
    sha256_Data big m (Ptr b2) = Some (Ptr 64, Ptr (patch b2 0 (concat (map hex_chars (fips_SHA256 m)) @ [NUL]))) \<and>
    sha512_Data big m (Ptr b5) = Some (Ptr 128, Ptr (patch b5 0 (concat (map hex_chars (fips_SHA512 m)) @ [NUL])))"
  using sha1.Data [of b1 big m] sha256.Data [of b2 big m] sha512.Data [of b5 big m] assms
  by (simp add: sha2_alg_simps digest_fips fips_SHA1_def fips_SHA256_def fips_SHA512_def
      sha1_Data_def sha1_Update_def sha1_Init_def sha1_End_def sha256_Data_def sha256_Update_def sha256_Init_def sha256_End_def
      sha512_Data_def sha512_Update_def sha512_Init_def sha512_End_def)

lemma sha2_data_result_witness:
  "fst (the (sha256_Data False [] (Ptr (replicate 65 NUL)))) = Ptr 64"
  using sha2_data_result [of "replicate 41 NUL" "replicate 65 NUL" "replicate 129 NUL" False "[]"] by simp

end
