(* ===== verification/Bignum.thy ===== *)
theory Bignum
  imports Emb_Prelude
begin

text \<open>
  \<open>src/crypto/bignum.c\<close>: numbers of nine 32-bit digits in base \<open>2 ^ 30\<close>, least significant first. A loop over
  the digits is a recursion over the list; the accumulators keep their C types, \<open>u32\<close> and \<open>u64\<close>. A failed
  \<open>assert\<close> is \<open>None\<close>. The operations that store into an argument return the new number.
\<close>

type_synonym bignum256 = "u32 list"

text \<open>The mask \<open>0x3FFFFFFF\<close> of a digit.\<close>

definition LIMB :: "'a::len word" where
  "LIMB = 0x3FFFFFFF"

section \<open>Reading and writing\<close>

definition read_be :: "byte list \<Rightarrow> nat \<Rightarrow> u32 option" where
  "read_be m off = do {
     d \<leftarrow> mem_read m off 4;
     Some (push_bit 24 (ucast (d ! 0)) OR push_bit 16 (ucast (d ! 1)) OR push_bit 8 (ucast (d ! 2)) OR ucast (d ! 3))
   }"

definition write_be :: "byte list \<Rightarrow> nat \<Rightarrow> u32 \<Rightarrow> byte list option" where
  "write_be m off x = mem_blit m off [ucast (drop_bit 24 x), ucast (drop_bit 16 x), ucast (drop_bit 8 x), ucast x]"

definition read_le :: "byte list \<Rightarrow> nat \<Rightarrow> u32 option" where
  "read_le m off = do {
     d \<leftarrow> mem_read m off 4;
     Some (push_bit 24 (ucast (d ! 3)) OR push_bit 16 (ucast (d ! 2)) OR push_bit 8 (ucast (d ! 1)) OR ucast (d ! 0))
   }"

definition write_le :: "byte list \<Rightarrow> nat \<Rightarrow> u32 \<Rightarrow> byte list option" where
  "write_le m off x = mem_blit m off [ucast x, ucast (drop_bit 8 x), ucast (drop_bit 16 x), ucast (drop_bit 24 x)]"

text \<open>The loops over the eight 32-bit words; \<open>rd i\<close> and \<open>wr i\<close> access word \<open>i\<close>, counted from the least and from
  the most significant end.\<close>

fun bn_read_loop :: "(nat \<Rightarrow> u32 option) \<Rightarrow> nat list \<Rightarrow> u32 \<Rightarrow> bignum256 option" where
  "bn_read_loop rd [] temp = Some [temp]"
| "bn_read_loop rd (i # is) temp = do {
     limb \<leftarrow> rd i;
     let temp = temp OR push_bit (2 * i) limb;
     rest \<leftarrow> bn_read_loop rd is (drop_bit (30 - 2 * i) limb);
     Some ((temp AND LIMB) # rest)
   }"

definition bn_read_be :: "byte list \<Rightarrow> bignum256 option" where
  "bn_read_be in_number = bn_read_loop (\<lambda>i. read_be in_number ((7 - i) * 4)) [0..<8] 0"

definition bn_read_le :: "byte list \<Rightarrow> bignum256 option" where
  "bn_read_le in_number = bn_read_loop (\<lambda>i. read_le in_number (i * 4)) [0..<8] 0"

fun bn_write_loop :: "(byte list \<Rightarrow> nat \<Rightarrow> u32 \<Rightarrow> byte list option) \<Rightarrow> bignum256 \<Rightarrow> nat list \<Rightarrow> u32 \<Rightarrow> byte list \<Rightarrow> byte list option" where
  "bn_write_loop wr a [] temp out = Some out"
| "bn_write_loop wr a (i # is) temp out = do {
     let limb = a ! (7 - i);
     let temp = push_bit (16 + 2 * i) temp OR drop_bit (14 - 2 * i) limb;
     out \<leftarrow> wr out i temp;
     bn_write_loop wr a is limb out
   }"

definition bn_write_be :: "bignum256 \<Rightarrow> byte list \<Rightarrow> nat \<Rightarrow> byte list option" where
  "bn_write_be in_number out off = bn_write_loop (\<lambda>out i. write_be out (off + i * 4)) in_number [0..<8] (in_number ! 8) out"

definition bn_write_le :: "bignum256 \<Rightarrow> byte list \<Rightarrow> nat \<Rightarrow> byte list option" where
  "bn_write_le in_number out off =
     bn_write_loop (\<lambda>out i. write_le out (off + (7 - i) * 4)) in_number [0..<8] (in_number ! 8) out"

definition bn_read_uint32 :: "u32 \<Rightarrow> bignum256" where
  "bn_read_uint32 n = [n AND LIMB, drop_bit 30 n, 0, 0, 0, 0, 0, 0, 0]"

definition bn_read_uint64 :: "u64 \<Rightarrow> bignum256" where
  "bn_read_uint64 n =
     (let v0 = ucast (n AND LIMB); n = drop_bit 30 n; v1 = ucast (n AND LIMB); n = drop_bit 30 n
      in [v0, v1, ucast n, 0, 0, 0, 0, 0, 0])"

definition bn_write_uint32 :: "bignum256 \<Rightarrow> u32" where
  "bn_write_uint32 a = a ! 0 OR push_bit 30 (a ! 1)"

definition bn_write_uint64 :: "bignum256 \<Rightarrow> u64" where
  "bn_write_uint64 a = push_bit 30 (push_bit 30 (ucast (a ! 2)) OR ucast (a ! 1)) OR ucast (a ! 0)"

section \<open>Tests, comparisons and bits\<close>

fun bit_len :: "nat \<Rightarrow> nat" where
  "bit_len n = (if n = 0 then 0 else Suc (bit_len (n div 2)))"

declare bit_len.simps [simp del]

text \<open>The search from digit 8 down; \<open>32 - __builtin_clz\<close> is the bit length.\<close>

fun bn_bitcount_loop :: "bignum256 \<Rightarrow> nat \<Rightarrow> nat" where
  "bn_bitcount_loop a 0 = 0"
| "bn_bitcount_loop a (Suc i) = (if a ! i \<noteq> 0 then i * 30 + bit_len (unat (a ! i)) else bn_bitcount_loop a i)"

definition bn_bitcount :: "bignum256 \<Rightarrow> nat" where
  "bn_bitcount a = bn_bitcount_loop a 9"

definition bn_zero :: bignum256 where "bn_zero = replicate 9 0"

definition bn_one :: bignum256 where "bn_one = 1 # replicate 8 0"

definition bn_is_zero :: "bignum256 \<Rightarrow> bool" where
  "bn_is_zero a \<longleftrightarrow> fold (\<lambda>x result. result OR x) a 0 = 0"

definition bn_is_even :: "bignum256 \<Rightarrow> bool" where
  "bn_is_even a \<longleftrightarrow> a ! 0 AND 1 = 0"

definition bn_is_odd :: "bignum256 \<Rightarrow> bool" where
  "bn_is_odd a \<longleftrightarrow> a ! 0 AND 1 = 1"

definition less_step :: "u32 \<times> u32 \<Rightarrow> u32 \<times> u32 \<Rightarrow> u32 \<times> u32" where
  "less_step = (\<lambda>(x, y) (res1, res2). (push_bit 1 res1 OR of_bool (x < y), push_bit 1 res2 OR of_bool (x > y)))"

definition bn_is_less :: "bignum256 \<Rightarrow> bignum256 \<Rightarrow> bool" where
  "bn_is_less a b = (let (res1, res2) = fold less_step (rev (zip a b)) (0, 0) in res1 > res2)"

definition bn_is_equal :: "bignum256 \<Rightarrow> bignum256 \<Rightarrow> bool" where
  "bn_is_equal a b \<longleftrightarrow> fold (\<lambda>(x, y) result. result OR (x XOR y)) (zip a b) 0 = 0"

definition bn_cmov :: "int \<Rightarrow> bignum256 \<Rightarrow> bignum256 \<Rightarrow> bignum256 option" where
  "bn_cmov cond truecase falsecase =
     (let tmask = - word_of_int cond :: u32; fmask = NOT tmask in
      if cond = 1 \<or> cond = 0 then Some (map2 (\<lambda>t f. (t AND tmask) OR (f AND fmask)) truecase falsecase) else None)"

text \<open>Digit \<open>i\<close> takes the top bit of the old digit \<open>i - 1\<close>, which is \<open>prev\<close>.\<close>

fun bn_lshift_loop :: "u32 \<Rightarrow> bignum256 \<Rightarrow> bignum256" where
  "bn_lshift_loop prev [] = []"
| "bn_lshift_loop prev (a # as) =
     ((push_bit 1 a AND LIMB) OR drop_bit 29 (prev AND 0x20000000)) # bn_lshift_loop a as"

definition bn_lshift :: "bignum256 \<Rightarrow> bignum256" where
  "bn_lshift a = bn_lshift_loop 0 a"

fun bn_rshift :: "bignum256 \<Rightarrow> bignum256" where
  "bn_rshift [] = []"
| "bn_rshift [a] = [drop_bit 1 a]"
| "bn_rshift (a # b # as) = (drop_bit 1 a OR push_bit 29 (b AND 1)) # bn_rshift (b # as)"

definition bn_setbit :: "bignum256 \<Rightarrow> byte \<Rightarrow> bignum256" where
  "bn_setbit a b = (let i = unat b div 30 in a[i := a ! i OR push_bit (unat b mod 30) 1])"

definition bn_clearbit :: "bignum256 \<Rightarrow> byte \<Rightarrow> bignum256" where
  "bn_clearbit a b = (let i = unat b div 30 in a[i := a ! i AND NOT (push_bit (unat b mod 30) 1)])"

definition bn_testbit :: "bignum256 \<Rightarrow> byte \<Rightarrow> u32" where
  "bn_testbit a b = a ! (unat b div 30) AND push_bit (unat b mod 30) 1"

definition bn_xor :: "bignum256 \<Rightarrow> bignum256 \<Rightarrow> bignum256" where
  "bn_xor b c = map2 (XOR) b c"

section \<open>Addition and subtraction\<close>

fun bn_add_loop :: "u32 \<Rightarrow> bignum256 \<Rightarrow> bignum256 \<Rightarrow> bignum256" where
  "bn_add_loop tmp (a # as) (b # bs) =
     (let tmp = tmp + (a + b) in (tmp AND LIMB) # bn_add_loop (drop_bit 30 tmp) as bs)"
| "bn_add_loop tmp _ _ = []"

definition bn_add :: "bignum256 \<Rightarrow> bignum256 \<Rightarrow> bignum256" where
  "bn_add a b = bn_add_loop 0 a b"

fun bn_addi_loop :: "u32 \<Rightarrow> bignum256 \<Rightarrow> bignum256" where
  "bn_addi_loop tmp [] = []"
| "bn_addi_loop tmp (a # as) = (let tmp = tmp + a in (tmp AND LIMB) # bn_addi_loop (drop_bit 30 tmp) as)"

definition bn_addi :: "bignum256 \<Rightarrow> u32 \<Rightarrow> bignum256" where
  "bn_addi a b = bn_addi_loop b a"

definition bn_normalize :: "bignum256 \<Rightarrow> bignum256" where
  "bn_normalize a = bn_addi a 0"

definition bn_subi :: "bignum256 \<Rightarrow> u32 \<Rightarrow> bignum256 \<Rightarrow> bignum256 option" where
  "bn_subi a b prime = (if b \<le> prime ! 0 then Some (bn_add (a[0 := a ! 0 - b]) prime) else None)"

fun bn_subtractmod_loop :: "u32 \<Rightarrow> bignum256 \<Rightarrow> bignum256 \<Rightarrow> bignum256 \<Rightarrow> bignum256" where
  "bn_subtractmod_loop temp (a # as) (b # bs) (p # ps) =
     (let temp = temp + (0x3FFFFFFF + a + 2 * p - b)
      in (temp AND LIMB) # bn_subtractmod_loop (drop_bit 30 temp) as bs ps)"
| "bn_subtractmod_loop temp _ _ _ = []"

definition bn_subtractmod :: "bignum256 \<Rightarrow> bignum256 \<Rightarrow> bignum256 \<Rightarrow> bignum256" where
  "bn_subtractmod a b prime = bn_subtractmod_loop 1 a b prime"

fun bn_subtract_loop :: "u32 \<Rightarrow> bignum256 \<Rightarrow> bignum256 \<Rightarrow> bignum256" where
  "bn_subtract_loop tmp (a # as) (b # bs) =
     (let tmp = tmp + (0x3FFFFFFF + a - b) in (tmp AND LIMB) # bn_subtract_loop (drop_bit 30 tmp) as bs)"
| "bn_subtract_loop tmp _ _ = []"

definition bn_subtract :: "bignum256 \<Rightarrow> bignum256 \<Rightarrow> bignum256" where
  "bn_subtract a b = bn_subtract_loop 1 a b"

section \<open>Reduction\<close>

text \<open>
  The rounds \<open>j = 1, 2, \<dots>\<close> of subtracting \<open>coef\<close> times the prime; when the digits of the prime are used up, only
  the carry goes on (the last round of \<open>bn_multiply_reduce_step\<close>).
\<close>

fun sub_coef_loop :: "u64 \<Rightarrow> u32 \<Rightarrow> u32 list \<Rightarrow> u32 list \<Rightarrow> u32 list" where
  "sub_coef_loop temp coef [] ps = []"
| "sub_coef_loop temp coef (w # ws) [] =
     (let temp = drop_bit 30 temp + (0x1FFFFFFF80000000 + ucast w)
      in ucast (temp AND LIMB) # sub_coef_loop temp coef ws [])"
| "sub_coef_loop temp coef (w # ws) (p # ps) =
     (let temp = drop_bit 30 temp + (0x1FFFFFFF80000000 + ucast w - ucast p * ucast coef)
      in ucast (temp AND LIMB) # sub_coef_loop temp coef ws ps)"

definition sub_coef :: "u32 \<Rightarrow> u32 list \<Rightarrow> u32 list \<Rightarrow> u32 list" where
  "sub_coef coef ws ps =
     (let temp = 0x2000000000000000 + ucast (hd ws) - ucast (hd ps) * ucast coef
      in ucast (temp AND LIMB) # sub_coef_loop temp coef (tl ws) (tl ps))"

definition bn_fast_mod :: "bignum256 \<Rightarrow> bignum256 \<Rightarrow> bignum256" where
  "bn_fast_mod x prime = sub_coef (drop_bit 16 (x ! 8)) x prime"

definition bn_mod :: "bignum256 \<Rightarrow> bignum256 \<Rightarrow> bignum256 option" where
  "bn_mod x prime = bn_cmov (of_bool (bn_is_less x prime)) x (bn_subtract x prime)"

definition bn_addmod :: "bignum256 \<Rightarrow> bignum256 \<Rightarrow> bignum256 \<Rightarrow> bignum256" where
  "bn_addmod a b prime = bn_fast_mod (map2 (+) a b) prime"

definition bn_mult_k :: "bignum256 \<Rightarrow> byte \<Rightarrow> bignum256 \<Rightarrow> bignum256" where
  "bn_mult_k x k prime = bn_fast_mod (map (\<lambda>d. ucast k * d) x) prime"

fun bn_mult_half_loop :: "u32 \<Rightarrow> u32 \<Rightarrow> bignum256 \<Rightarrow> bignum256 \<Rightarrow> bignum256" where
  "bn_mult_half_loop xodd tmp1 (x # xs) (p # ps) =
     (let tmp2 = x + (p AND xodd); tmp1 = tmp1 + push_bit 29 (tmp2 AND 1)
      in (tmp1 AND LIMB) # bn_mult_half_loop xodd (drop_bit 30 tmp1 + drop_bit 1 tmp2) xs ps)"
| "bn_mult_half_loop xodd tmp1 _ _ = [tmp1]"

definition bn_mult_half :: "bignum256 \<Rightarrow> bignum256 \<Rightarrow> bignum256" where
  "bn_mult_half x prime =
     (let xodd = - (x ! 0 AND 1)
      in bn_mult_half_loop xodd (drop_bit 1 (x ! 0 + (prime ! 0 AND xodd))) (tl x) (tl prime))"

section \<open>Multiplication\<close>

text \<open>The indices \<open>j\<close> of the products \<open>k[j] * x[i - j]\<close> in column \<open>i\<close>.\<close>

definition column :: "nat \<Rightarrow> nat list" where
  "column i = (if i < 9 then [0..<i + 1] else [i - 8..<9])"

fun bn_multiply_columns :: "bignum256 \<Rightarrow> bignum256 \<Rightarrow> nat list \<Rightarrow> u64 \<Rightarrow> u32 list" where
  "bn_multiply_columns k x [] temp = [ucast temp]"
| "bn_multiply_columns k x (i # is) temp =
     (let temp = fold (\<lambda>j temp. temp + ucast (k ! j) * ucast (x ! (i - j))) (column i) temp
      in ucast (temp AND LIMB) # bn_multiply_columns k x is (drop_bit 30 temp))"

definition bn_multiply_long :: "bignum256 \<Rightarrow> bignum256 \<Rightarrow> u32 list" where
  "bn_multiply_long k x = bn_multiply_columns k x [0..<17] 0"

definition bn_multiply_reduce_step :: "u32 list \<Rightarrow> bignum256 \<Rightarrow> nat \<Rightarrow> u32 list option" where
  "bn_multiply_reduce_step res prime i =
     (if \<not> (8 \<le> i \<and> i \<le> 16) then None
      else let coef = drop_bit 16 (res ! i) + push_bit 14 (res ! (i + 1)) in
        if \<not> coef < 0x80000000 then None
        else Some (patch res (i - 8) (sub_coef coef (take 10 (drop (i - 8) res)) prime)))"

fun bn_multiply_reduce_loop :: "bignum256 \<Rightarrow> nat list \<Rightarrow> u32 list \<Rightarrow> u32 list option" where
  "bn_multiply_reduce_loop prime [] res = Some res"
| "bn_multiply_reduce_loop prime (i # is) res = do {
     res \<leftarrow> bn_multiply_reduce_step res prime i;
     if res ! (i + 1) = 0 then bn_multiply_reduce_loop prime is res else None
   }"

definition bn_multiply_reduce :: "u32 list \<Rightarrow> bignum256 \<Rightarrow> bignum256 option" where
  "bn_multiply_reduce res prime = map_option (take 9) (bn_multiply_reduce_loop prime (rev [8..<17]) res)"

definition bn_multiply :: "bignum256 \<Rightarrow> bignum256 \<Rightarrow> bignum256 \<Rightarrow> bignum256 option" where
  "bn_multiply k x prime = bn_multiply_reduce (bn_multiply_long k x) prime"

text \<open>The bits of one digit of the exponent, least significant first; \<open>n\<close> of 30 are left.\<close>

fun bn_sqrt_bits :: "bignum256 \<Rightarrow> nat \<Rightarrow> nat \<Rightarrow> u32 \<Rightarrow> bignum256 \<Rightarrow> bignum256 \<Rightarrow> (bignum256 \<times> bignum256) option" where
  "bn_sqrt_bits prime i 0 limb x res = Some (x, res)"
| "bn_sqrt_bits prime i (Suc n) limb x res =
     (if i = 8 \<and> limb = 0 then Some (x, res)
      else do {
        res \<leftarrow> (if limb AND 1 \<noteq> 0 then bn_multiply x res prime else Some res);
        x \<leftarrow> bn_multiply x x prime;
        bn_sqrt_bits prime i n (drop_bit 1 limb) x res
      })"

fun bn_sqrt_loop :: "bignum256 \<Rightarrow> bignum256 \<Rightarrow> nat list \<Rightarrow> bignum256 \<Rightarrow> bignum256 \<Rightarrow> (bignum256 \<times> bignum256) option" where
  "bn_sqrt_loop prime p [] x res = Some (x, res)"
| "bn_sqrt_loop prime p (i # is) x res = do {
     (x, res) \<leftarrow> bn_sqrt_bits prime i 30 (p ! i) x res;
     bn_sqrt_loop prime p is x res
   }"

definition bn_sqrt :: "bignum256 \<Rightarrow> bignum256 \<Rightarrow> bignum256 option" where
  "bn_sqrt x prime = do {
     let p = bn_rshift (bn_rshift (bn_addi prime 1));
     (x, res) \<leftarrow> bn_sqrt_loop prime p [0..<9] x bn_one;
     bn_mod res prime
   }"

section \<open>Division by small numbers\<close>

text \<open>
  The digits from the most significant one down; \<open>2 ^ 30 = q * d + r\<close>. The quotient digits come out in the same
  order.
\<close>

fun bn_divmod_loop :: "u32 \<Rightarrow> u32 \<Rightarrow> u32 \<Rightarrow> u32 \<Rightarrow> u32 list \<Rightarrow> u32 list \<times> u32" where
  "bn_divmod_loop d q r rem [] = ([], rem)"
| "bn_divmod_loop d q r rem (a # as) =
     (let tmp = rem * r + a; (as, rem') = bn_divmod_loop d q r (tmp mod d) as in ((rem * q + tmp div d) # as, rem'))"

definition bn_divmod :: "u32 \<Rightarrow> u32 \<Rightarrow> u32 \<Rightarrow> bignum256 \<Rightarrow> bignum256 \<times> u32" where
  "bn_divmod d q r a =
     (let top = a ! 8; (as, rem) = bn_divmod_loop d q r (top mod d) (rev (take 8 a)) in (rev (top div d # as), rem))"

definition bn_divmod58 :: "bignum256 \<Rightarrow> bignum256 \<times> u32" where
  "bn_divmod58 = bn_divmod 58 18512790 4"

definition bn_divmod1000 :: "bignum256 \<Rightarrow> bignum256 \<times> u32" where
  "bn_divmod1000 = bn_divmod 1000 1073741 824"

fun bn_digitcount_loop :: "nat list \<Rightarrow> bignum256 \<Rightarrow> nat \<Rightarrow> nat" where
  "bn_digitcount_loop [] val digits = digits"
| "bn_digitcount_loop (i # is) val digits =
     (let (val, limb) = bn_divmod1000 val
      in bn_digitcount_loop is val
           (if limb \<ge> 100 then i + 3 else if limb \<ge> 10 then i + 2 else if limb \<ge> 1 then i + 1 else digits))"

definition bn_digitcount :: "bignum256 \<Rightarrow> nat" where
  "bn_digitcount a = bn_digitcount_loop (map (\<lambda>i. 3 * i) [0..<26]) a 1"


section \<open>The number a list of digits denotes\<close>

fun bn_val :: "bignum256 \<Rightarrow> nat" where
  "bn_val [] = 0"
| "bn_val (a # as) = unat a + 2 ^ 30 * bn_val as"

definition normal :: "bignum256 \<Rightarrow> bool" where
  "normal a \<longleftrightarrow> list_all (\<lambda>d. unat d < 2 ^ 30) a"

definition bignum :: "bignum256 \<Rightarrow> bool" where
  "bignum a \<longleftrightarrow> length a = 9 \<and> normal a"

lemma normal_simps [simp]: "normal []" "normal (a # as) \<longleftrightarrow> unat a < 2 ^ 30 \<and> normal as"
  by (simp_all add: normal_def)

lemma LIMB_mask: "(LIMB :: 'a::len word) = mask 30"
  by (simp add: LIMB_def mask_eq_exp_minus_1)

lemma unat_LIMB [simp]: "unat (w AND LIMB) = unat w mod 2 ^ 30"
  unfolding LIMB_mask take_bit_eq_mask [symmetric] by (simp only: unsigned_take_bit_eq) (simp only: take_bit_eq_mod)

lemma unat_drop_bit [simp]: "unat (drop_bit n w) = unat w div 2 ^ n"
  by (simp only: unsigned_drop_bit_eq) (simp add: drop_bit_eq_div take_bit_nat_eq_self)

lemma unat_ucast_LIMB [simp]: "unat (ucast (w AND LIMB) :: u32) = unat w mod 2 ^ 30"
proof -
  have "unat w mod 2 ^ 30 < 2 ^ 30" by simp
  then show ?thesis by (simp add: unsigned_ucast_eq take_bit_nat_eq_self)
qed

lemma bn_val_less: "normal a \<Longrightarrow> bn_val a < 2 ^ (30 * length a)"
proof (induction a)
  case (Cons d a)
  then have "unat d < 2 ^ 30" "bn_val a + 1 \<le> 2 ^ (30 * length a)" by simp_all
  then have "unat d + 2 ^ 30 * bn_val a < 2 ^ 30 * (bn_val a + 1)" by simp
  also have "\<dots> \<le> 2 ^ 30 * 2 ^ (30 * length a)" by (intro mult_left_mono) (use Cons in simp_all)
  finally show ?case by (simp add: power_add)
qed simp

text \<open>
  The loops that carry: digit by digit a value is added to the carry, 30 bits are stored and the rest is carried on.
  Every loop of the code whose accumulator does not overflow is such a chain of numbers.
\<close>

fun digits_val :: "nat list \<Rightarrow> nat" where
  "digits_val [] = 0"
| "digits_val (v # vs) = v + 2 ^ 30 * digits_val vs"

fun chain :: "nat \<Rightarrow> nat list \<Rightarrow> bignum256" where
  "chain c [] = []"
| "chain c (v # vs) = word_of_nat ((c + v) mod 2 ^ 30) # chain ((c + v) div 2 ^ 30) vs"

lemma unat_digit: "unat (word_of_nat (n mod 2 ^ 30) :: u32) = n mod 2 ^ 30"
proof -
  have "n mod 2 ^ 30 < 2 ^ 30" by simp
  then show ?thesis by (simp add: unat_of_nat)
qed

lemmas unat_digit' [simp] = unat_digit [simplified]

lemma length_chain [simp]: "length (chain c vs) = length vs"
  by (induction c vs rule: chain.induct) simp_all

lemma normal_chain [simp]: "normal (chain c vs)"
  by (induction c vs rule: chain.induct) (simp_all del: of_nat_mod)

lemma chain_val: "bn_val (chain c vs) = (c + digits_val vs) mod 2 ^ (30 * length vs)"
proof (induction c vs rule: chain.induct)
  case (2 c v vs)
  let ?n = "c + v" and ?m = "2 ^ (30 * length vs) :: nat"
  have "(?n + 2 ^ 30 * digits_val vs) mod (2 ^ 30 * ?m) =
      ?n mod 2 ^ 30 + 2 ^ 30 * ((?n div 2 ^ 30 + digits_val vs) mod ?m)"
    by (simp add: mod_mult2_eq add.commute)
  then show ?case using 2 by (simp add: power_add add.assoc)
qed simp


lemma unat_plus_small: "unat (a :: 'a::len word) + unat b < 2 ^ LENGTH('a) \<Longrightarrow> unat (a + b) = unat a + unat b"
  by (simp add: unat_plus_if_size word_size)

lemma digits_val_map2: "length a = length b \<Longrightarrow> digits_val (map2 (\<lambda>x y. unat x + unat y) a b) = bn_val a + bn_val b"
  by (induction a b rule: list_induct2) (simp_all add: algebra_simps)

lemma digits_val_map: "digits_val (map unat a) = bn_val a"
  by (induction a) simp_all


lemma limb_eq: "unat t = n \<Longrightarrow> (t :: u32) AND LIMB = word_of_nat (n mod 2 ^ 30)"
  by (rule word_unat_eq_iff [THEN iffD2]) simp

lemma limb64_eq: "unat t = n \<Longrightarrow> ucast ((t :: u64) AND LIMB) = (word_of_nat (n mod 2 ^ 30) :: u32)"
  by (rule word_unat_eq_iff [THEN iffD2]) simp

lemma bn_add_loop_chain:
  assumes "length a = length b" "normal a" "normal b" "unat tmp < 4"
  shows "bn_add_loop tmp a b = chain (unat tmp) (map2 (\<lambda>x y. unat x + unat y) a b)"
  using assms
proof (induction a b arbitrary: tmp rule: list_induct2)
  case (Cons x a y b)
  then have t: "unat (tmp + (x + y)) = unat tmp + (unat x + unat y)"
    by (simp add: unat_plus_small)
  moreover have "unat (drop_bit 30 (tmp + (x + y))) < 4" using Cons.prems by (simp add: t div_less_iff_less_mult)
  ultimately show ?case using Cons limb_eq [OF t] by (simp add: Let_def)
qed simp

lemma bn_add_val:
  assumes "bignum a" "bignum b"
  shows "bignum (bn_add a b)" "bn_val (bn_add a b) = (bn_val a + bn_val b) mod 2 ^ 270"
  using assms by (simp_all add: bignum_def bn_add_def bn_add_loop_chain chain_val digits_val_map2)

lemma bn_addi_loop_chain:
  assumes "normal a" "unat tmp + 2 ^ 30 \<le> 2 ^ 32"
  shows "bn_addi_loop tmp a = chain (unat tmp) (map unat a)"
  using assms
proof (induction a arbitrary: tmp)
  case (Cons x a)
  then have t: "unat (tmp + x) = unat tmp + unat x"
    by (intro unat_plus_small) simp
  moreover have "unat (drop_bit 30 (tmp + x)) < 5" using Cons.prems by (simp add: t div_less_iff_less_mult)
  then have "unat (drop_bit 30 (tmp + x)) + 2 ^ 30 \<le> 2 ^ 32" by simp
  ultimately show ?case using Cons limb_eq [OF t] by (simp add: Let_def)
qed simp

lemma bn_subtract_loop_chain:
  assumes "length a = length b" "normal a" "normal b" "unat tmp < 4"
  shows "bn_subtract_loop tmp a b = chain (unat tmp) (map2 (\<lambda>x y. 2 ^ 30 - 1 + unat x - unat y) a b)"
  using assms
proof (induction a b arbitrary: tmp rule: list_induct2)
  case (Cons x a y b)
  have l: "unat x < 2 ^ 30" "unat y < 2 ^ 30" using Cons.prems by simp_all
  then have "unat (0x3FFFFFFF + x) = 0x3FFFFFFF + unat x" by (simp add: unat_plus_small)
  then have d: "unat (0x3FFFFFFF + x - y) = 2 ^ 30 - 1 + unat x - unat y" using l
    by (simp add: unat_sub word_le_nat_alt)
  then have t: "unat (tmp + (0x3FFFFFFF + x - y)) = unat tmp + (2 ^ 30 - 1 + unat x - unat y)"
    using Cons.prems(3) l by (subst unat_plus_small) auto
  moreover have "unat (drop_bit 30 (tmp + (0x3FFFFFFF + x - y))) < 4" using Cons.prems(3) l by (simp add: t div_less_iff_less_mult)
  ultimately show ?case using Cons limb_eq [OF t] by (simp add: Let_def)
qed simp

lemma digits_val_sub:
  "length a = length b \<Longrightarrow> normal b \<Longrightarrow>
    Suc (digits_val (map2 (\<lambda>x y. 2 ^ 30 - 1 + unat x - unat y) a b)) + bn_val b = bn_val a + 2 ^ (30 * length a)"
proof (induction a b rule: list_induct2)
  case (Cons x a y b)
  then show ?case by (simp add: power_add)
qed simp

lemma bn_subtract_val:
  assumes "bignum a" "bignum b"
  shows "bignum (bn_subtract a b)" "bn_val (bn_subtract a b) = (bn_val a + 2 ^ 270 - bn_val b) mod 2 ^ 270"
proof -
  show "bignum (bn_subtract a b)" using assms by (simp add: bignum_def bn_subtract_def bn_subtract_loop_chain)
  let ?d = "digits_val (map2 (\<lambda>x y. 2 ^ 30 - 1 + unat x - unat y) a b)"
  have "Suc ?d + bn_val b = bn_val a + 2 ^ 270"
    using digits_val_sub [of a b] assms by (simp add: bignum_def)
  then have "1 + ?d = bn_val a + 2 ^ 270 - bn_val b" by linarith
  then show "bn_val (bn_subtract a b) = (bn_val a + 2 ^ 270 - bn_val b) mod 2 ^ 270"
    using assms by (simp add: bignum_def bn_subtract_def bn_subtract_loop_chain chain_val)
qed


lemma bn_subtractmod_loop_chain:
  assumes "length a = length b" "length b = length p" "normal a" "normal b" "normal p" "unat temp < 4"
  shows "bn_subtractmod_loop temp a b p =
    chain (unat temp) (map (\<lambda>((x, y), z). 2 ^ 30 - 1 + unat x + 2 * unat z - unat y) (zip (zip a b) p))"
  using assms
proof (induction a b p arbitrary: temp rule: list_induct3)
  case (Cons x a y b z p)
  have l: "unat x < 2 ^ 30" "unat y < 2 ^ 30" "unat z < 2 ^ 30" using Cons.prems by simp_all
  have "unat (0x3FFFFFFF + x) = 0x3FFFFFFF + unat x" "unat (2 * z) = 2 * unat z"
    using l by (simp_all add: unat_plus_small unat_mult_lem [THEN iffD1])
  then have "unat (0x3FFFFFFF + x + 2 * z) = 0x3FFFFFFF + unat x + 2 * unat z" using l by (simp add: unat_plus_small)
  then have d: "unat (0x3FFFFFFF + x + 2 * z - y) = 2 ^ 30 - 1 + unat x + 2 * unat z - unat y" using l
    by (simp add: unat_sub word_le_nat_alt)
  then have t: "unat (temp + (0x3FFFFFFF + x + 2 * z - y)) = unat temp + (2 ^ 30 - 1 + unat x + 2 * unat z - unat y)"
    using Cons.prems(4) l by (subst unat_plus_small) auto
  moreover have "unat (drop_bit 30 (temp + (0x3FFFFFFF + x + 2 * z - y))) < 4"
    using Cons.prems(4) l by (simp add: t div_less_iff_less_mult)
  ultimately show ?case using Cons limb_eq [OF t] by (simp add: Let_def)
qed simp

lemma digits_val_submod:
  "length a = length b \<Longrightarrow> length b = length p \<Longrightarrow> normal b \<Longrightarrow>
    Suc (digits_val (map (\<lambda>((x, y), z). 2 ^ 30 - 1 + unat x + 2 * unat z - unat y) (zip (zip a b) p))) + bn_val b
      = bn_val a + 2 * bn_val p + 2 ^ (30 * length a)"
proof (induction a b p rule: list_induct3)
  case (Cons x a y b z p)
  then show ?case by (simp add: power_add)
qed simp

lemma bn_subtractmod_val:
  assumes "bignum a" "bignum b" "bignum p"
  shows "bignum (bn_subtractmod a b p)"
    "bn_val (bn_subtractmod a b p) = (bn_val a + 2 * bn_val p + 2 ^ 270 - bn_val b) mod 2 ^ 270"
proof -
  show "bignum (bn_subtractmod a b p)" using assms by (simp add: bignum_def bn_subtractmod_def bn_subtractmod_loop_chain)
  let ?d = "digits_val (map (\<lambda>((x, y), z). 2 ^ 30 - 1 + unat x + 2 * unat z - unat y) (zip (zip a b) p))"
  have "Suc ?d + bn_val b = bn_val a + 2 * bn_val p + 2 ^ 270"
    using digits_val_submod [of a b p] assms by (simp add: bignum_def)
  then have "1 + ?d = bn_val a + 2 * bn_val p + 2 ^ 270 - bn_val b" by linarith
  then show "bn_val (bn_subtractmod a b p) = (bn_val a + 2 * bn_val p + 2 ^ 270 - bn_val b) mod 2 ^ 270"
    using assms by (simp add: bignum_def bn_subtractmod_def bn_subtractmod_loop_chain chain_val)
qed

text \<open>Normal numbers are compared digit by digit, the most significant first.\<close>

lemma bn_val_append: "bn_val (a @ b) = bn_val a + 2 ^ (30 * length a) * bn_val b"
  by (induction a) (simp_all add: power_add algebra_simps)

lemma bn_val_inj: "length a = length b \<Longrightarrow> normal a \<Longrightarrow> normal b \<Longrightarrow> bn_val a = bn_val b \<longleftrightarrow> a = b"
proof (induction a b rule: list_induct2)
  case (Cons x a y b)
  have "unat x + 2 ^ 30 * bn_val a = unat y + 2 ^ 30 * bn_val b \<longleftrightarrow> unat x = unat y \<and> bn_val a = bn_val b"
  proof
    assume h: "unat x + 2 ^ 30 * bn_val a = unat y + 2 ^ 30 * bn_val b"
    then have "(unat x + 2 ^ 30 * bn_val a) mod 2 ^ 30 = (unat y + 2 ^ 30 * bn_val b) mod 2 ^ 30" by simp
    then have "unat x = unat y" using Cons.prems by simp
    then show "unat x = unat y \<and> bn_val a = bn_val b" using h by simp
  qed simp
  then show ?case using Cons by (simp add: word_unat_eq_iff)
qed simp

lemma fold_or_zero: "fold (\<lambda>x (r :: u32). r OR f x) xs r = 0 \<longleftrightarrow> r = 0 \<and> (\<forall>x \<in> set xs. f x = 0)"
  by (induction xs arbitrary: r) (auto simp: or_eq_0_iff)

lemma bn_is_zero_val: "bn_is_zero a \<longleftrightarrow> bn_val a = 0"
proof -
  have "(\<forall>x \<in> set a. x = 0) \<longleftrightarrow> bn_val a = 0" by (induction a) (auto simp: unat_eq_0)
  then show ?thesis using fold_or_zero [of "\<lambda>x. x" a 0] by (simp add: bn_is_zero_def)
qed

lemma xor_eq_0: "(x :: u32) XOR y = 0 \<longleftrightarrow> x = y"
proof
  assume "x XOR y = 0"
  then have "x XOR (x XOR y) = x" by simp
  then show "x = y" by (simp add: xor.assoc [symmetric])
qed simp

lemma bn_is_equal_val:
  assumes "bignum a" "bignum b"
  shows "bn_is_equal a b \<longleftrightarrow> bn_val a = bn_val b"
proof -
  have "bn_is_equal a b \<longleftrightarrow> (\<forall>(x, y) \<in> set (zip a b). x XOR y = 0)"
    using fold_or_zero [of "\<lambda>(x, y). x XOR y" "zip a b" 0] by (auto simp: bn_is_equal_def case_prod_unfold)
  also have "\<dots> \<longleftrightarrow> a = b"
    using assms by (auto simp: bignum_def list_eq_iff_zip_eq [of a b] xor_eq_0)
  finally show ?thesis using assms bn_val_inj [of a b] by (simp add: bignum_def)
qed


lemma unat_shift_in:
  assumes "unat (r :: u32) < 2 ^ 31"
  shows "unat (push_bit 1 r OR of_bool b) = 2 * unat r + of_bool b"
proof -
  have p: "unat (push_bit 1 r) = 2 * unat r"
    using assms by (simp add: push_bit_eq_mult unat_mult_lem [THEN iffD1])
  then have "unat (push_bit 1 r + 1) = 2 * unat r + 1" using assms by (subst unat_plus_small) auto
  then show ?thesis using p by (simp add: or_one_eq)
qed

lemma less_fold:
  assumes "length a = length b" "normal a" "normal b" "length a \<le> 30" "fold less_step (rev (zip a b)) (0, 0) = (r1, r2)"
  shows "unat r1 < 2 ^ length a \<and> unat r2 < 2 ^ length a \<and> (r2 < r1 \<longleftrightarrow> bn_val a < bn_val b) \<and> (r1 < r2 \<longleftrightarrow> bn_val b < bn_val a)"
  using assms
proof (induction a b arbitrary: r1 r2 rule: list_induct2)
  case (Cons x a y b)
  obtain s1 s2 where s: "fold less_step (rev (zip a b)) (0, 0) = (s1, s2)" by fastforce
  have ih: "unat s1 < 2 ^ length a" "unat s2 < 2 ^ length a" "s2 < s1 \<longleftrightarrow> bn_val a < bn_val b" "s1 < s2 \<longleftrightarrow> bn_val b < bn_val a"
    using Cons.IH [OF _ _ _ s] Cons.prems by simp_all
  have "(2 :: nat) ^ length a \<le> 2 ^ 30" using Cons.prems by (intro power_increasing) simp_all
  then have "unat s1 < 2 ^ 31" "unat s2 < 2 ^ 31" using ih(1,2) by simp_all
  moreover have "less_step (x, y) (s1, s2) = (r1, r2)" using Cons.prems(4) s by simp
  ultimately have u: "unat r1 = 2 * unat s1 + of_bool (x < y)" "unat r2 = 2 * unat s2 + of_bool (x > y)"
    unfolding less_step_def by (simp_all only: prod.case prod.inject unat_shift_in [symmetric])
  have l: "unat x < 2 ^ 30" "unat y < 2 ^ 30" using Cons.prems by simp_all
  have c: "bn_val (x # a) < bn_val (y # b) \<longleftrightarrow> bn_val a < bn_val b \<or> (bn_val a = bn_val b \<and> unat x < unat y)"
    if "unat x < 2 ^ 30" "unat y < 2 ^ 30" for x y :: u32 and a b
    using that by (simp; linarith)
  show ?case
  proof -
    have c1: "bn_val (x # a) < bn_val (y # b) \<longleftrightarrow> s2 < s1 \<or> (\<not> s2 < s1 \<and> \<not> s1 < s2 \<and> x < y)"
      unfolding c [OF l] using ih(3,4) by (auto simp: word_less_nat_alt)
    have c2: "bn_val (y # b) < bn_val (x # a) \<longleftrightarrow> s1 < s2 \<or> (\<not> s2 < s1 \<and> \<not> s1 < s2 \<and> y < x)"
      unfolding c [OF l(2,1)] using ih(3,4) by (auto simp: word_less_nat_alt)
    have b: "unat r1 < 2 ^ length (x # a)" "unat r2 < 2 ^ length (x # a)" using ih(1,2) u by (auto simp: of_bool_def)
    have "r2 < r1 \<longleftrightarrow> s2 < s1 \<or> (\<not> s2 < s1 \<and> \<not> s1 < s2 \<and> x < y)"
      "r1 < r2 \<longleftrightarrow> s1 < s2 \<or> (\<not> s2 < s1 \<and> \<not> s1 < s2 \<and> y < x)"
      unfolding word_less_nat_alt u by (cases "unat x" "unat y" rule: linorder_cases; simp; linarith)+
    then show ?thesis unfolding c1 c2 using b by blast
  qed
qed simp

lemma bn_is_less_val:
  assumes "bignum a" "bignum b"
  shows "bn_is_less a b \<longleftrightarrow> bn_val a < bn_val b"
proof -
  obtain r1 r2 where f: "fold less_step (rev (zip a b)) (0, 0) = (r1, r2)" by fastforce
  then have "bn_is_less a b \<longleftrightarrow> r2 < r1" by (simp add: bn_is_less_def)
  then show ?thesis using assms less_fold [OF _ _ _ _ f] by (simp add: bignum_def)
qed

lemma bn_cmov_eq:
  assumes "length t = length f"
  shows "bn_cmov (of_bool c) t f = Some (if c then t else f)"
  using assms by (auto simp: bn_cmov_def intro!: nth_equalityI)

lemma bn_mod_val:
  assumes "bignum x" "bignum p" "bn_val x < 2 * bn_val p"
  shows "\<exists>r. bn_mod x p = Some r \<and> bignum r \<and> bn_val r = bn_val x mod bn_val p"
proof -
  note sub = bn_subtract_val [OF assms(1,2)]
  have m: "bn_mod x p = Some (if bn_val x < bn_val p then x else bn_subtract x p)"
    using bn_cmov_eq [of x "bn_subtract x p" "bn_is_less x p"] assms sub(1) by (simp only: bn_mod_def bn_is_less_val bignum_def)
  have "bn_val x < 2 ^ 270" "bn_val p < 2 ^ 270" using assms bn_val_less [of x] bn_val_less [of p] by (simp_all add: bignum_def)
  then have "\<not> bn_val x < bn_val p \<Longrightarrow> bn_val (bn_subtract x p) = bn_val x mod bn_val p"
    using sub(2) assms(3) by (simp add: mod_if)
  then show ?thesis using m assms(1) sub(1) by simp
qed



section \<open>Reduction of a long number\<close>

text \<open>The moduli the code works with.\<close>

definition prime_ok :: "bignum256 \<Rightarrow> bool" where
  "prime_ok p \<longleftrightarrow> bignum p \<and> 2 ^ 256 - 2 ^ 224 \<le> bn_val p \<and> bn_val p < 2 ^ 256"

fun sub_digits :: "nat \<Rightarrow> u32 list \<Rightarrow> u32 list \<Rightarrow> nat list" where
  "sub_digits c [] ps = []"
| "sub_digits c (w # ws) [] = (2 ^ 61 - 2 ^ 31 + unat w) # sub_digits c ws []"
| "sub_digits c (w # ws) (p # ps) = (2 ^ 61 - 2 ^ 31 + unat w - unat p * c) # sub_digits c ws ps"

lemma length_sub_digits [simp]: "length (sub_digits c ws ps) = length ws"
  by (induction c ws ps rule: sub_digits.induct) simp_all

lemma coef_product: "c < 2 ^ 31 \<Longrightarrow> p < 2 ^ 30 \<Longrightarrow> p * c \<le> 2 ^ 61 - 2 ^ 31 - 2 ^ 30 + (1 :: nat)"
proof -
  assume "c < 2 ^ 31" "p < 2 ^ 30"
  then have "p * c \<le> (2 ^ 30 - 1) * (2 ^ 31 - 1)" by (intro mult_mono) simp_all
  then show ?thesis by simp
qed

lemma unat_u32_less: "unat (w :: u32) < 2 ^ 32"
  using unsigned_less [of w, where ?'a = nat] by simp

lemma unat_u64_less: "unat (w :: u64) < 2 ^ 64"
  using unsigned_less [of w, where ?'a = nat] by simp

lemma unat_ucast_64 [simp]: "unat (ucast (w :: u32) :: u64) = unat w"
  using unat_u32_less [of w] by (simp add: unsigned_ucast_eq take_bit_nat_eq_self)

lemma unat_coef_product:
  assumes "unat coef < 2 ^ 31" "unat p < 2 ^ 30"
  shows "unat (ucast (p :: u32) * ucast (coef :: u32) :: u64) = unat p * unat coef"
  using coef_product [OF assms] by (subst unat_mult_lem [THEN iffD1]) simp_all

lemma sub_coef_loop_chain:
  assumes "unat coef < 2 ^ 31" "normal ps"
  shows "sub_coef_loop temp coef ws ps = chain (unat temp div 2 ^ 30) (sub_digits (unat coef) ws ps)"
  using assms
proof (induction temp coef ws ps rule: sub_coef_loop.induct)
  case (2 temp coef w ws)
  have "unat temp div 2 ^ 30 < 2 ^ 34" using unat_u64_less [of temp] by (simp add: div_less_iff_less_mult)
  moreover have "unat (0x1FFFFFFF80000000 + ucast w :: u64) = 2 ^ 61 - 2 ^ 31 + unat w"
    using unat_u32_less [of w] by (subst unat_plus_small) simp_all
  ultimately have t: "unat (drop_bit 30 temp + (0x1FFFFFFF80000000 + ucast w)) = unat temp div 2 ^ 30 + (2 ^ 61 - 2 ^ 31 + unat w)"
    using unat_u32_less [of w] by (subst unat_plus_small) simp_all
  then show ?case using 2 limb64_eq [OF t] by (simp add: Let_def)
next
  case (3 temp coef w ws p ps)
  have l: "unat p * unat coef \<le> 2 ^ 61 - 2 ^ 31 - 2 ^ 30 + 1" using 3 by (intro coef_product) simp_all
  have "unat temp div 2 ^ 30 < 2 ^ 34" using unat_u64_less [of temp] by (simp add: div_less_iff_less_mult)
  moreover have s: "unat (0x1FFFFFFF80000000 + ucast w :: u64) = 2 ^ 61 - 2 ^ 31 + unat w"
    using unat_u32_less [of w] by (subst unat_plus_small) simp_all
  moreover have "unat (0x1FFFFFFF80000000 + ucast w - ucast p * ucast coef :: u64) = 2 ^ 61 - 2 ^ 31 + unat w - unat p * unat coef"
    using s l 3(2,3) by (simp add: unat_sub word_le_nat_alt unat_coef_product)
  ultimately have t: "unat (drop_bit 30 temp + (0x1FFFFFFF80000000 + ucast w - ucast p * ucast coef)) =
      unat temp div 2 ^ 30 + (2 ^ 61 - 2 ^ 31 + unat w - unat p * unat coef)"
    using unat_u32_less [of w] by (subst unat_plus_small) simp_all
  then show ?case using 3 limb64_eq [OF t] by (simp add: Let_def)
qed simp

lemma sub_digits_val:
  "c < 2 ^ 31 \<Longrightarrow> normal ps \<Longrightarrow> length ps \<le> length ws \<Longrightarrow>
    digits_val (sub_digits c ws ps) + c * bn_val ps + 2 ^ 31 = bn_val ws + 2 ^ 31 * 2 ^ (30 * length ws)"
proof (induction c ws ps rule: sub_digits.induct)
  case (2 c w ws)
  then show ?case by (simp add: power_add)
next
  case (3 c w ws p ps)
  have "unat p * c \<le> 2 ^ 61 - 2 ^ 31" using coef_product [of c "unat p"] 3 by simp
  then show ?case using 3 by (simp add: power_add algebra_simps)
qed simp

lemma sub_coef_val:
  assumes "unat coef < 2 ^ 31" "normal ps" "length ps \<le> length ws" "ps \<noteq> []"
  shows "normal (sub_coef coef ws ps)" "length (sub_coef coef ws ps) = length ws"
    "bn_val (sub_coef coef ws ps) = (bn_val ws + 2 ^ 31 * 2 ^ (30 * length ws) - unat coef * bn_val ps) mod 2 ^ (30 * length ws)"
proof -
  obtain p ps' w ws' where d: "ps = p # ps'" "ws = w # ws'" using assms by (cases ps; cases ws) auto
  have l: "unat p * unat coef \<le> 2 ^ 61 - 2 ^ 31 - 2 ^ 30 + 1" using assms d by (intro coef_product) simp_all
  have s: "unat (0x2000000000000000 + ucast w :: u64) = 2 ^ 61 + unat w"
    using unat_u32_less [of w] by (subst unat_plus_small) simp_all
  then have t: "unat (0x2000000000000000 + ucast w - ucast p * ucast coef :: u64) = 2 ^ 61 + unat w - unat p * unat coef"
    using l assms(1,2) d by (simp add: unat_sub word_le_nat_alt unat_coef_product)
  let ?v = "2 ^ 61 + unat w - unat p * unat coef" and ?vs = "sub_digits (unat coef) ws' ps'"
  have c: "sub_coef coef ws ps = chain 0 (?v # ?vs)"
    using assms d t limb64_eq [OF t] by (simp add: sub_coef_def sub_coef_loop_chain Let_def)
  show "normal (sub_coef coef ws ps)" "length (sub_coef coef ws ps) = length ws"
    unfolding c using d by simp_all
  have "digits_val ?vs + unat coef * bn_val ps' + 2 ^ 31 = bn_val ws' + 2 ^ 31 * 2 ^ (30 * length ws')"
    using assms d by (intro sub_digits_val) simp_all
  then have "digits_val (?v # ?vs) + unat coef * bn_val ps = bn_val ws + 2 ^ 31 * 2 ^ (30 * length ws)"
    using l unfolding d by (simp add: power_add algebra_simps)
  then have "digits_val (?v # ?vs) = bn_val ws + 2 ^ 31 * 2 ^ (30 * length ws) - unat coef * bn_val ps" by linarith
  then show "bn_val (sub_coef coef ws ps) = (bn_val ws + 2 ^ 31 * 2 ^ (30 * length ws) - unat coef * bn_val ps) mod 2 ^ (30 * length ws)"
    unfolding c chain_val using d by (simp only: length_Cons length_sub_digits add_0)
qed


lemma sub_coef_exact:
  assumes "unat coef < 2 ^ 31" "normal ps" "length ps \<le> length ws" "ps \<noteq> []"
    and "unat coef * bn_val ps \<le> bn_val ws" "bn_val ws - unat coef * bn_val ps < 2 ^ (30 * length ws)"
  shows "bn_val (sub_coef coef ws ps) = bn_val ws - unat coef * bn_val ps"
proof -
  let ?d = "bn_val ws - unat coef * bn_val ps" and ?N = "2 ^ (30 * length ws) :: nat"
  have "bn_val ws + 2 ^ 31 * ?N - unat coef * bn_val ps = ?d + 2 ^ 31 * ?N" using assms(5) by simp
  then have "bn_val (sub_coef coef ws ps) = (?d + 2 ^ 31 * ?N) mod ?N" unfolding sub_coef_val(3) [OF assms(1-4)] by (simp only:)
  also have "\<dots> = ?d" using assms(6) by (simp only: mod_mult_self1 mod_less)
  finally show ?thesis .
qed

lemma bn_val_bound: "bn_val a < 5 * 2 ^ (30 * length a)"
proof -
  have "bn_val a + 5 \<le> 5 * 2 ^ (30 * length a)"
  proof (induction a)
    case (Cons d a)
    then show ?case using unat_u32_less [of d] by (simp add: power_add)
  qed simp
  then show ?thesis by linarith
qed

lemma bn_val_last:
  assumes "length a = 9"
  shows "bn_val a = bn_val (take 8 a) + 2 ^ 240 * unat (a ! 8)"
proof -
  have "a = take 8 a @ [a ! 8]" using assms by (simp add: take_Suc_conv_app_nth [symmetric] eval_nat_numeral)
  then show ?thesis using bn_val_append [of "take 8 a" "[a ! 8]"] assms by simp
qed

lemma bn_fast_mod_val:
  assumes "length x = 9" "prime_ok p"
  shows "bignum (bn_fast_mod x p)" "bn_val (bn_fast_mod x p) < 2 * bn_val p"
    "bn_val (bn_fast_mod x p) mod bn_val p = bn_val x mod bn_val p"
    and bn_fast_mod_exact: "bn_val (bn_fast_mod x p) = bn_val x - unat (x ! 8) div 2 ^ 16 * bn_val p"
proof -
  let ?t = "unat (x ! 8)" and ?P = "bn_val p"
  let ?c = "?t div 2 ^ 16"
  have coef: "unat (drop_bit 16 (x ! 8)) = ?c" by simp
  have c: "?c < 2 ^ 16" using unat_u32_less [of "x ! 8"] by (simp add: div_less_iff_less_mult)
  have P: "2 ^ 256 - 2 ^ 224 \<le> ?P" "?P < 2 ^ 256" "normal p" "length p = 9" using assms(2) by (simp_all add: prime_ok_def bignum_def)
  have x: "bn_val x = bn_val (take 8 x) + 2 ^ 240 * ?t" "bn_val (take 8 x) < 5 * 2 ^ 240"
    using bn_val_last [OF assms(1)] bn_val_bound [of "take 8 x"] assms(1) by simp_all
  have t: "?t = ?c * 2 ^ 16 + ?t mod 2 ^ 16" by (simp only: div_mult_mod_eq)
  have m: "?t mod 2 ^ 16 < 2 ^ 16" by simp
  have cP: "?c * ?P \<le> ?c * 2 ^ 256" using P by (intro mult_left_mono) simp_all
  have cP2: "?c * (2 ^ 256 - 2 ^ 224) \<le> ?c * ?P" using P by (intro mult_left_mono) simp_all
  have bounds: "cP \<le> n \<and> n - cP < 2 ^ 256 + 5 * 2 ^ 240"
    if "cP \<le> c * 2 ^ 256" "c * (2 ^ 256 - 2 ^ 224) \<le> cP" "n = l + 2 ^ 240 * u" "l < 5 * 2 ^ 240" "u = c * 2 ^ 16 + m"
      "m < 2 ^ 16" "c < 2 ^ 16" for c cP n l u m :: nat
    using that by simp
  have le: "?c * ?P \<le> bn_val x" and lt: "bn_val x - ?c * ?P < 2 ^ 256 + 5 * 2 ^ 240"
    using bounds [OF cP cP2 x t m c] by blast+
  have e: "bn_val (bn_fast_mod x p) = bn_val x - ?c * ?P"
    unfolding bn_fast_mod_def using sub_coef_exact [of "drop_bit 16 (x ! 8)" p x, unfolded coef] c P(3,4) assms(1) le lt by fastforce
  then show "bn_val (bn_fast_mod x p) = bn_val x - ?c * ?P" .
  show "bn_val (bn_fast_mod x p) < 2 * ?P" using e lt P by simp
  show "bignum (bn_fast_mod x p)"
    unfolding bn_fast_mod_def bignum_def using sub_coef_val(1,2) [of "drop_bit 16 (x ! 8)" p x, unfolded coef] c P(3,4) assms(1) by fastforce
  have "bn_val x = bn_val (bn_fast_mod x p) + ?c * ?P" using e le by simp
  then show "bn_val (bn_fast_mod x p) mod ?P = bn_val x mod ?P" by simp
qed


end
