(* ===== verification/Bignum_Mul.thy ===== *)
theory Bignum_Mul
  imports Bignum
begin

text \<open>
  The correctness of the modular multiplication of \<open>src/crypto/bignum.c\<close>: the columns of the long multiplication
  carry the digits of the product, each reduction step subtracts the estimated multiple of the prime, and no
  assertion fails.
\<close>

section \<open>Long multiplication\<close>

text \<open>The carry left over after the last digit of a chain.\<close>

fun chain_out :: "nat \<Rightarrow> nat list \<Rightarrow> nat" where
  "chain_out c [] = c"
| "chain_out c (v # vs) = chain_out ((c + v) div 2 ^ 30) vs"

lemma chain_out_val: "bn_val (chain c vs) + 2 ^ (30 * length vs) * chain_out c vs = c + digits_val vs"
proof (induction c vs rule: chain.induct)
  case (2 c v vs)
  let ?n = "c + v"
  have "bn_val (chain c (v # vs)) + 2 ^ (30 * length (v # vs)) * chain_out c (v # vs) =
      ?n mod 2 ^ 30 + 2 ^ 30 * (bn_val (chain (?n div 2 ^ 30) vs) + 2 ^ (30 * length vs) * chain_out (?n div 2 ^ 30) vs)"
    by (simp add: power_add add_mult_distrib2)
  also have "\<dots> = ?n + 2 ^ 30 * digits_val vs" unfolding 2 by (simp add: add_mult_distrib2)
  finally show ?case by simp
qed simp

definition column_val :: "bignum256 \<Rightarrow> bignum256 \<Rightarrow> nat \<Rightarrow> nat" where
  "column_val k x i = (\<Sum>j \<leftarrow> column i. unat (k ! j) * unat (x ! (i - j)))"

lemma limb_product: "unat (a :: u32) < 2 ^ 30 \<Longrightarrow> unat (b :: u32) < 2 ^ 30 \<Longrightarrow>
    unat (ucast a * ucast b :: u64) = unat a * unat b \<and> unat a * unat b < 2 ^ 60"
proof -
  assume "unat a < 2 ^ 30" "unat b < 2 ^ 30"
  then have "unat a * unat b < 2 ^ 30 * 2 ^ 30" by (intro mult_strict_mono) simp_all
  then show ?thesis by (subst unat_mult_lem [THEN iffD1]) simp_all
qed

lemma normal_nth: "normal a \<Longrightarrow> i < length a \<Longrightarrow> unat (a ! i) < 2 ^ 30"
  by (simp add: normal_def list_all_length)

lemma column_fold:
  assumes "normal k" "normal x" "length k = 9" "length x = 9" "\<forall>j \<in> set js. j < 9 \<and> i - j < 9"
    and "unat temp < 2 ^ 34 + n * 2 ^ 60" "n + length js \<le> 9"
  shows "unat (fold (\<lambda>j temp. temp + ucast (k ! j) * ucast (x ! (i - j))) js (temp :: u64)) =
      unat temp + (\<Sum>j \<leftarrow> js. unat (k ! j) * unat (x ! (i - j)))
    \<and> unat temp + (\<Sum>j \<leftarrow> js. unat (k ! j) * unat (x ! (i - j))) < 2 ^ 34 + 9 * 2 ^ 60"
  using assms(5-7)
proof (induction js arbitrary: temp n)
  case Nil
  then have "n * 2 ^ 60 \<le> 9 * 2 ^ 60" by simp
  then show ?case using Nil by simp
next
  case (Cons j js)
  have p: "unat (ucast (k ! j) * ucast (x ! (i - j)) :: u64) = unat (k ! j) * unat (x ! (i - j))" "unat (k ! j) * unat (x ! (i - j)) < 2 ^ 60"
    using limb_product [OF normal_nth [OF assms(1)] normal_nth [OF assms(2)], of j "i - j"] Cons.prems assms(3,4) by auto
  have "n * 2 ^ 60 \<le> 9 * 2 ^ 60" using Cons.prems by simp
  then have t: "unat (temp + ucast (k ! j) * ucast (x ! (i - j))) = unat temp + unat (k ! j) * unat (x ! (i - j))"
    using p Cons.prems(2) by (subst unat_plus_small) simp_all
  show ?case
    using Cons.IH [of "temp + ucast (k ! j) * ucast (x ! (i - j))" "Suc n"] Cons.prems p(2) unfolding t by simp
qed

lemma columns_chain:
  assumes "normal k" "normal x" "length k = 9" "length x = 9" "\<forall>i \<in> set is. i < 17" "unat temp < 2 ^ 34"
  shows "bn_multiply_columns k x is temp =
    chain (unat temp) (map (column_val k x) is) @ [word_of_nat (chain_out (unat temp) (map (column_val k x) is))]"
  using assms(5,6)
proof (induction "is" arbitrary: temp)
  case Nil
  then show ?case by (simp add: unsigned_ucast_eq word_unat_eq_iff unat_of_nat take_bit_eq_mod)
next
  case (Cons i "is")
  let ?t = "fold (\<lambda>j temp. temp + ucast (k ! j) * ucast (x ! (i - j))) (column i) temp"
  have "unat ?t = unat temp + column_val k x i \<and> unat temp + column_val k x i < 2 ^ 34 + 9 * 2 ^ 60"
    unfolding column_val_def using Cons.prems
    by (intro column_fold [OF assms(1-4), where n = 0]) (auto simp: column_def)
  then have t: "unat ?t = unat temp + column_val k x i" and "unat ?t < 2 ^ 64" by simp_all
  then have "unat (drop_bit 30 ?t) < 2 ^ 34" by (simp add: div_less_iff_less_mult)
  then show ?case using Cons limb64_eq [OF t] t by (simp add: Let_def)
qed

lemma horner_product:
  fixes B :: nat
  shows "(k0 + B * (k1 + B * (k2 + B * (k3 + B * (k4 + B * (k5 + B * (k6 + B * (k7 + B * k8)))))))) *
      (x0 + B * (x1 + B * (x2 + B * (x3 + B * (x4 + B * (x5 + B * (x6 + B * (x7 + B * x8)))))))) =
    k0 * x0 + B * (k0 * x1 + k1 * x0 + B * (k0 * x2 + k1 * x1 + k2 * x0 + B * (k0 * x3 + k1 * x2 + k2 * x1 + k3 * x0 +
    B * (k0 * x4 + k1 * x3 + k2 * x2 + k3 * x1 + k4 * x0 + B * (k0 * x5 + k1 * x4 + k2 * x3 + k3 * x2 + k4 * x1 + k5 * x0 +
    B * (k0 * x6 + k1 * x5 + k2 * x4 + k3 * x3 + k4 * x2 + k5 * x1 + k6 * x0 +
    B * (k0 * x7 + k1 * x6 + k2 * x5 + k3 * x4 + k4 * x3 + k5 * x2 + k6 * x1 + k7 * x0 +
    B * (k0 * x8 + k1 * x7 + k2 * x6 + k3 * x5 + k4 * x4 + k5 * x3 + k6 * x2 + k7 * x1 + k8 * x0 +
    B * (k1 * x8 + k2 * x7 + k3 * x6 + k4 * x5 + k5 * x4 + k6 * x3 + k7 * x2 + k8 * x1 +
    B * (k2 * x8 + k3 * x7 + k4 * x6 + k5 * x5 + k6 * x4 + k7 * x3 + k8 * x2 +
    B * (k3 * x8 + k4 * x7 + k5 * x6 + k6 * x5 + k7 * x4 + k8 * x3 +
    B * (k4 * x8 + k5 * x7 + k6 * x6 + k7 * x5 + k8 * x4 + B * (k5 * x8 + k6 * x7 + k7 * x6 + k8 * x5 +
    B * (k6 * x8 + k7 * x7 + k8 * x6 + B * (k7 * x8 + k8 * x7 + B * (k8 * x8))))))))))))))))"
  by algebra

lemma length_9E:
  assumes "length (a :: bignum256) = 9"
  obtains a0 a1 a2 a3 a4 a5 a6 a7 a8 where "a = [a0, a1, a2, a3, a4, a5, a6, a7, a8]"
  using assms by (simp add: numeral_eq_Suc length_Suc_conv) metis

lemma columns_product:
  assumes "length k = 9" "length x = 9"
  shows "digits_val (map (column_val k x) [0..<17]) = bn_val k * bn_val x"
proof -
  obtain k0 k1 k2 k3 k4 k5 k6 k7 k8 where k: "k = [k0, k1, k2, k3, k4, k5, k6, k7, k8]" using length_9E [OF assms(1)] .
  obtain x0 x1 x2 x3 x4 x5 x6 x7 x8 where x: "x = [x0, x1, x2, x3, x4, x5, x6, x7, x8]" using length_9E [OF assms(2)] .
  have u: "[0..<17] = [0, 1, 2, 3, 4, 5, 6, 7, 8, 9, 10, 11, 12, 13, 14, 15, 16 :: nat]" by code_simp
  have c: "column 0 = [0]" "column 1 = [0, 1]" "column 2 = [0, 1, 2]" "column 3 = [0, 1, 2, 3]" "column 4 = [0, 1, 2, 3, 4]"
    "column 5 = [0, 1, 2, 3, 4, 5]" "column 6 = [0, 1, 2, 3, 4, 5, 6]" "column 7 = [0, 1, 2, 3, 4, 5, 6, 7]"
    "column 8 = [0, 1, 2, 3, 4, 5, 6, 7, 8]" "column 9 = [1, 2, 3, 4, 5, 6, 7, 8]" "column 10 = [2, 3, 4, 5, 6, 7, 8]"
    "column 11 = [3, 4, 5, 6, 7, 8]" "column 12 = [4, 5, 6, 7, 8]" "column 13 = [5, 6, 7, 8]" "column 14 = [6, 7, 8]"
    "column 15 = [7, 8]" "column 16 = [8]"
    by code_simp+
  have v: "bn_val k = unat k0 + 2 ^ 30 * (unat k1 + 2 ^ 30 * (unat k2 + 2 ^ 30 * (unat k3 + 2 ^ 30 * (unat k4 + 2 ^ 30 * (unat k5 +
      2 ^ 30 * (unat k6 + 2 ^ 30 * (unat k7 + 2 ^ 30 * unat k8)))))))"
    "bn_val x = unat x0 + 2 ^ 30 * (unat x1 + 2 ^ 30 * (unat x2 + 2 ^ 30 * (unat x3 + 2 ^ 30 * (unat x4 + 2 ^ 30 * (unat x5 +
      2 ^ 30 * (unat x6 + 2 ^ 30 * (unat x7 + 2 ^ 30 * unat x8)))))))"
    unfolding k x by (simp_all only: bn_val.simps mult_0_right add_0_right)
  have cv: "column_val k x 0 = unat k0 * unat x0"
    "column_val k x 1 = unat k0 * unat x1 + unat k1 * unat x0"
    "column_val k x 2 = unat k0 * unat x2 + unat k1 * unat x1 + unat k2 * unat x0"
    "column_val k x 3 = unat k0 * unat x3 + unat k1 * unat x2 + unat k2 * unat x1 + unat k3 * unat x0"
    "column_val k x 4 = unat k0 * unat x4 + unat k1 * unat x3 + unat k2 * unat x2 + unat k3 * unat x1 + unat k4 * unat x0"
    "column_val k x 5 = unat k0 * unat x5 + unat k1 * unat x4 + unat k2 * unat x3 + unat k3 * unat x2 + unat k4 * unat x1 + unat k5 * unat x0"
    "column_val k x 6 = unat k0 * unat x6 + unat k1 * unat x5 + unat k2 * unat x4 + unat k3 * unat x3 + unat k4 * unat x2 + unat k5 * unat x1 + unat k6 * unat x0"
    "column_val k x 7 = unat k0 * unat x7 + unat k1 * unat x6 + unat k2 * unat x5 + unat k3 * unat x4 + unat k4 * unat x3 + unat k5 * unat x2 + unat k6 * unat x1 + unat k7 * unat x0"
    "column_val k x 8 = unat k0 * unat x8 + unat k1 * unat x7 + unat k2 * unat x6 + unat k3 * unat x5 + unat k4 * unat x4 + unat k5 * unat x3 + unat k6 * unat x2 + unat k7 * unat x1 + unat k8 * unat x0"
    "column_val k x 9 = unat k1 * unat x8 + unat k2 * unat x7 + unat k3 * unat x6 + unat k4 * unat x5 + unat k5 * unat x4 + unat k6 * unat x3 + unat k7 * unat x2 + unat k8 * unat x1"
    "column_val k x 10 = unat k2 * unat x8 + unat k3 * unat x7 + unat k4 * unat x6 + unat k5 * unat x5 + unat k6 * unat x4 + unat k7 * unat x3 + unat k8 * unat x2"
    "column_val k x 11 = unat k3 * unat x8 + unat k4 * unat x7 + unat k5 * unat x6 + unat k6 * unat x5 + unat k7 * unat x4 + unat k8 * unat x3"
    "column_val k x 12 = unat k4 * unat x8 + unat k5 * unat x7 + unat k6 * unat x6 + unat k7 * unat x5 + unat k8 * unat x4"
    "column_val k x 13 = unat k5 * unat x8 + unat k6 * unat x7 + unat k7 * unat x6 + unat k8 * unat x5"
    "column_val k x 14 = unat k6 * unat x8 + unat k7 * unat x7 + unat k8 * unat x6"
    "column_val k x 15 = unat k7 * unat x8 + unat k8 * unat x7"
    "column_val k x 16 = unat k8 * unat x8"
    unfolding column_val_def c k x by simp_all
  show ?thesis
    by (simp only: v horner_product u list.map cv digits_val.simps mult_0_right add_0_right)
qed


lemma bn_multiply_long_val:
  assumes "bignum k" "bignum x"
  shows "length (bn_multiply_long k x) = 18" "normal (bn_multiply_long k x)" "bn_val (bn_multiply_long k x) = bn_val k * bn_val x"
proof -
  have n: "normal k" "normal x" "length k = 9" "length x = 9" using assms by (simp_all add: bignum_def)
  let ?vs = "map (column_val k x) [0..<17]"
  let ?o = "chain_out 0 ?vs"
  have m: "bn_multiply_long k x = chain 0 ?vs @ [word_of_nat ?o]"
    using columns_chain [OF n, of "[0..<17]" 0] by (simp add: bn_multiply_long_def del: upt_rec_numeral)
  have v: "bn_val (chain 0 ?vs) + 2 ^ 510 * ?o = bn_val k * bn_val x"
    using chain_out_val [of 0 ?vs] columns_product [OF n(3,4)] by (simp del: upt_rec_numeral chain.simps chain_out.simps)
  have "bn_val k * bn_val x < 2 ^ 270 * 2 ^ 270"
    using bn_val_less [OF n(1)] bn_val_less [OF n(2)] n by (intro mult_strict_mono) simp_all
  moreover have "2 ^ 510 * ?o \<le> bn_val k * bn_val x" unfolding v [symmetric] by (rule le_add2)
  moreover have "2 ^ 270 * 2 ^ 270 = 2 ^ 510 * (2 :: nat) ^ 30" by simp
  ultimately have "2 ^ 510 * ?o < 2 ^ 510 * 2 ^ 30" by (simp only: le_less_trans)
  then have o: "?o < 2 ^ 30" by (simp only: mult_less_cancel1)
  then have u: "unat (word_of_nat ?o :: u32) = ?o" by (simp add: unat_of_nat)
  show "length (bn_multiply_long k x) = 18" unfolding m by (simp del: upt_rec_numeral)
  show "normal (bn_multiply_long k x)" unfolding m using o u normal_chain [of 0 ?vs] by (simp add: normal_def del: upt_rec_numeral)
  show "bn_val (bn_multiply_long k x) = bn_val k * bn_val x"
    unfolding m bn_val_append using u v by (simp del: upt_rec_numeral)
qed

section \<open>Reduction\<close>

lemma normal_append [simp]: "normal (a @ b) \<longleftrightarrow> normal a \<and> normal b"
  by (simp add: normal_def)

lemma normal_take_drop: "normal a \<Longrightarrow> normal (take n a)" "normal a \<Longrightarrow> normal (drop n a)"
  by (simp_all add: normal_def list_all_iff) (meson in_set_takeD, meson in_set_dropD)

text \<open>The ten digits a step works on.\<close>

lemma window_split:
  assumes "length w = 10"
  shows "bn_val w = bn_val (take 8 w) + 2 ^ 240 * (unat (w ! 8) + 2 ^ 30 * unat (w ! 9))"
proof -
  have "w = take 8 w @ [w ! 8, w ! 9]"
    using assms by (intro nth_equalityI) (auto simp: nth_append nth_Cons less_Suc_eq numeral_eq_Suc split: nat.splits)
  then show ?thesis using bn_val_append [of "take 8 w" "[w ! 8, w ! 9]"] assms by simp
qed

lemma window_coef:
  assumes "length w = 10" "normal w" "bn_val w < 2 ^ 287"
  shows "unat (drop_bit 16 (w ! 8) + push_bit 14 (w ! 9)) = bn_val w div 2 ^ 256" "bn_val w div 2 ^ 256 < 2 ^ 31"
proof -
  let ?l = "bn_val (take 8 w)" and ?w8 = "unat (w ! 8)" and ?w9 = "unat (w ! 9)"
  have l: "?l < 2 ^ 240" using bn_val_less [of "take 8 w"] normal_take_drop(1) [OF assms(2), of 8] assms(1) by simp
  have w: "bn_val w = ?l + 2 ^ 240 * (?w8 + 2 ^ 30 * ?w9)" by (rule window_split [OF assms(1)])
  have "2 ^ 240 * (2 ^ 30 * ?w9) < 2 ^ 240 * (2 ^ 30 * 2 ^ 17)" using assms(3) w by simp
  then have w9: "?w9 < 2 ^ 17" by simp
  have w8: "?w8 < 2 ^ 30" using normal_nth [OF assms(2), of 8] assms(1) by simp
  have "bn_val w div 2 ^ 256 = (bn_val w div 2 ^ 240) div 2 ^ 16" by (simp add: div_mult2_eq [symmetric])
  also have "bn_val w div 2 ^ 240 = ?w8 + 2 ^ 30 * ?w9" unfolding w using l by simp
  also have "\<dots> div 2 ^ 16 = ?w8 div 2 ^ 16 + 2 ^ 14 * ?w9"
    using div_mult_self4 [of "2 ^ 16" ?w8 "2 ^ 14 * ?w9"] by (simp add: mult.assoc [symmetric])
  finally have e: "bn_val w div 2 ^ 256 = ?w8 div 2 ^ 16 + 2 ^ 14 * ?w9" .
  have p: "unat (push_bit 14 (w ! 9)) = 2 ^ 14 * ?w9"
    using w9 by (simp add: push_bit_eq_mult unat_mult_lem [THEN iffD1])
  have "?w8 div 2 ^ 16 < 2 ^ 14" using w8 by (simp add: div_less_iff_less_mult)
  then show "unat (drop_bit 16 (w ! 8) + push_bit 14 (w ! 9)) = bn_val w div 2 ^ 256" "bn_val w div 2 ^ 256 < 2 ^ 31"
    unfolding e using p w9 by (simp_all add: unat_plus_small)
qed

lemma window_step:
  assumes "length w = 10" "normal w" "bn_val w < 2 ^ 31 * bn_val p" "prime_ok p"
  defines "coef \<equiv> drop_bit 16 (w ! 8) + push_bit 14 (w ! 9)"
  shows "unat coef < 2 ^ 31" "length (sub_coef coef w p) = 10" "normal (sub_coef coef w p)"
    "bn_val (sub_coef coef w p) + unat coef * bn_val p = bn_val w" "bn_val (sub_coef coef w p) < 2 * bn_val p"
proof -
  let ?W = "bn_val w" and ?P = "bn_val p"
  have P: "2 ^ 256 - 2 ^ 224 \<le> ?P" "?P < 2 ^ 256" "normal p" "length p = 9" "p \<noteq> []"
    using assms(4) by (auto simp: prime_ok_def bignum_def)
  have "?W < 2 ^ 287" using assms(3) P(2) by simp
  note c = window_coef [OF assms(1,2) this, folded coef_def]
  show lt: "unat coef < 2 ^ 31" using c by simp
  have d: "?W = ?W div 2 ^ 256 * 2 ^ 256 + ?W mod 2 ^ 256" "?W mod 2 ^ 256 < 2 ^ 256" by (simp_all only: div_mult_mod_eq) simp
  have bounds: "cP \<le> n \<and> n - cP < 2 ^ 256 + 2 ^ 255"
    if "cP \<le> c * 2 ^ 256" "c * (2 ^ 256 - 2 ^ 224) \<le> cP" "n = c * 2 ^ 256 + m" "m < 2 ^ 256" "c < 2 ^ 31" for c cP n m :: nat
    using that by simp
  have "unat coef * ?P \<le> unat coef * 2 ^ 256" "unat coef * (2 ^ 256 - 2 ^ 224) \<le> unat coef * ?P"
    using P(1,2) by (intro mult_left_mono; simp)+
  then have b: "unat coef * ?P \<le> ?W" "?W - unat coef * ?P < 2 ^ 256 + 2 ^ 255"
    using bounds [of "unat coef * ?P" "unat coef" ?W "?W mod 2 ^ 256"] d lt unfolding c(1) by blast+
  have len: "length p \<le> length w" using P(4) assms(1) by simp
  have v: "bn_val (sub_coef coef w p) = ?W - unat coef * ?P"
    using b by (intro sub_coef_exact [OF lt P(3) len P(5)]) (simp_all add: assms(1))
  show "bn_val (sub_coef coef w p) + unat coef * ?P = ?W" using v b(1) by simp
  show "bn_val (sub_coef coef w p) < 2 * ?P" using v b(2) P(1) by simp
  show "length (sub_coef coef w p) = 10" "normal (sub_coef coef w p)"
    using sub_coef_val(1,2) [OF lt P(3) len P(5)] assms(1) by simp_all
qed


lemma reduce_step:
  assumes "length res = 18" "normal res" "8 \<le> i" "i \<le> 16" "bn_val res < 2 ^ (30 * (i - 8)) * (2 ^ 31 * bn_val p)" "prime_ok p"
  shows "\<exists>r. bn_multiply_reduce_step res p i = Some r \<and> length r = 18 \<and> normal r \<and> r ! (i + 1) = 0 \<and>
    bn_val r < 2 ^ (30 * (i - 8)) * (2 * bn_val p) \<and> bn_val r mod bn_val p = bn_val res mod bn_val p"
proof -
  let ?N = "2 ^ (30 * (i - 8)) :: nat" and ?p = "bn_val p"
  let ?A = "take (i - 8) res" and ?W = "take 10 (drop (i - 8) res)" and ?Z = "drop (i + 2) res"
  have split: "res = ?A @ ?W @ ?Z"
    using assms(3) append_take_drop_id [of "i - 8" res] append_take_drop_id [of 10 "drop (i - 8) res"] by (simp add: drop_drop)
  have lens: "length ?A = i - 8" "length ?W = 10" using assms(1,3,4) by simp_all
  have norm: "normal ?A" "normal ?W" "normal ?Z" using assms(2) by (simp_all add: normal_take_drop)
  have val: "bn_val (?A @ V @ ?Z) = bn_val ?A + ?N * (bn_val V + 2 ^ 300 * bn_val ?Z)" if "length V = 10" for V
    using that lens by (simp add: bn_val_append)
  note v = val [OF lens(2), folded split]
  have P: "?p < 2 ^ 256" "0 < ?p" using assms(6) by (simp_all add: prime_ok_def)
  have "?N * (bn_val ?W + 2 ^ 300 * bn_val ?Z) < ?N * (2 ^ 31 * ?p)" using v assms(5) by linarith
  then have w: "bn_val ?W + 2 ^ 300 * bn_val ?Z < 2 ^ 31 * ?p" by (simp only: mult_less_cancel1)
  then have Z: "bn_val ?Z = 0" using P(1) by simp
  have W: "bn_val ?W < 2 ^ 31 * ?p" using w by linarith
  let ?c = "drop_bit 16 (?W ! 8) + push_bit 14 (?W ! 9)"
  let ?V = "sub_coef ?c ?W p"
  note st = window_step [OF lens(2) norm(2) W assms(6)]
  have nth: "res ! i = ?W ! 8" "res ! (i + 1) = ?W ! 9" using assms(1,3,4) by simp_all
  have r: "bn_multiply_reduce_step res p i = Some (?A @ ?V @ ?Z)"
    using assms(3,4) st(1,2) unfolding bn_multiply_reduce_step_def Let_def nth
    by (simp add: patch_def word_less_nat_alt)
  have vr: "bn_val (?A @ ?V @ ?Z) = bn_val ?A + ?N * bn_val ?V" using val [OF st(2)] Z by simp
  have "bn_val ?A < ?N" using bn_val_less [OF norm(1)] unfolding lens .
  moreover have "?N * (bn_val ?V + 1) \<le> ?N * (2 * ?p)" using st(5) by (intro mult_left_mono) simp_all
  ultimately have lt: "bn_val (?A @ ?V @ ?Z) < ?N * (2 * ?p)" unfolding vr by simp
  have "bn_val res = bn_val ?A + ?N * (bn_val ?V + unat ?c * ?p)" unfolding v st(4) Z by simp
  then have "bn_val res = bn_val (?A @ ?V @ ?Z) + ?N * unat ?c * ?p" unfolding vr by (simp only: add_mult_distrib2 add.assoc mult.assoc)
  then have m: "bn_val (?A @ ?V @ ?Z) mod ?p = bn_val res mod ?p" by simp
  have "2 ^ 270 * unat (?V ! 9) < 2 ^ 257" using window_split [OF st(2)] st(5) P(1) by simp
  then have "?V ! 9 = 0" by (simp add: unat_eq_0 [symmetric])
  then have z: "(?A @ ?V @ ?Z) ! (i + 1) = 0" using assms(3) lens(1) st(2) by (auto simp: nth_append)
  have "length (?A @ ?V @ ?Z) = 18" "normal (?A @ ?V @ ?Z)" using assms(1,3,4) lens(1) st(2,3) norm by simp_all
  then show ?thesis using r lt m z by blast
qed

lemma reduce_loop:
  assumes "length res = 18" "normal res" "prime_ok p" "i \<le> 9" "bn_val res < 2 ^ (30 * i) * (2 * bn_val p)"
  shows "\<exists>r. bn_multiply_reduce_loop p (rev [8..<8 + i]) res = Some r \<and> length r = 18 \<and> normal r \<and>
    bn_val r < 2 * bn_val p \<and> bn_val r mod bn_val p = bn_val res mod bn_val p"
  using assms
proof (induction i arbitrary: res)
  case (Suc i)
  have "bn_val res < 2 ^ (30 * (8 + i - 8)) * (2 ^ 31 * bn_val p)" using Suc.prems(5) by (simp add: power_add)
  then obtain r where r: "bn_multiply_reduce_step res p (8 + i) = Some r" "length r = 18" "normal r" "r ! (8 + i + 1) = 0"
      "bn_val r < 2 ^ (30 * i) * (2 * bn_val p)" "bn_val r mod bn_val p = bn_val res mod bn_val p"
    using reduce_step [OF Suc.prems(1,2), of "8 + i" p] Suc.prems(3,4) by auto
  moreover have "rev [8..<8 + Suc i] = (8 + i) # rev [8..<8 + i]"
    by (simp only: add_Suc_right upt_Suc_append le_add1 rev_append rev.simps append.simps)
  ultimately show ?case using Suc.IH [OF r(2,3) Suc.prems(3) _ r(5)] Suc.prems(4) by (simp del: add_Suc_right)
qed auto

lemma bn_multiply_reduces:
  assumes "bignum k" "bignum x" "prime_ok p" "bn_val k * bn_val x < 2 ^ 271 * bn_val p"
  shows "\<exists>r. bn_multiply k x p = Some r \<and> bignum r \<and> bn_val r < 2 * bn_val p \<and>
    bn_val r mod bn_val p = (bn_val k * bn_val x) mod bn_val p"
proof -
  note m = bn_multiply_long_val [OF assms(1,2)]
  have "bn_val (bn_multiply_long k x) < 2 ^ (30 * 9) * (2 * bn_val p)" using assms(4) unfolding m(3) by simp
  then obtain r where r: "bn_multiply_reduce_loop p (rev [8..<17]) (bn_multiply_long k x) = Some r" "length r = 18" "normal r"
      "bn_val r < 2 * bn_val p" "bn_val r mod bn_val p = (bn_val k * bn_val x) mod bn_val p"
    using reduce_loop [OF m(1,2) assms(3), of 9] unfolding m(3) by (auto simp del: upt_rec_numeral)
  have "bn_val r = bn_val (take 9 r) + 2 ^ 270 * bn_val (drop 9 r)"
    using bn_val_append [of "take 9 r" "drop 9 r"] r(2) by simp
  moreover have "bn_val r < 2 ^ 257" using r(4) assms(3) by (simp add: prime_ok_def)
  ultimately have "bn_val (take 9 r) = bn_val r" by simp
  then show ?thesis
    using r normal_take_drop(1) [OF r(3), of 9]
    by (simp add: bn_multiply_def bn_multiply_reduce_def bignum_def del: upt_rec_numeral)
qed

end
