(* ===== verification/Curve.thy ===== *)
theory Curve
  imports Bignum
begin

text \<open>
  The data of \<open>src/crypto/ecdsa.h\<close> and the curve of \<open>src/crypto/secp256k1.c\<close>. The table of precomputed points,
  which \<open>secp256k1.table\<close> spells out in digits, is an argument of the curve.
\<close>

record curve_point =
  pt_x :: bignum256
  pt_y :: bignum256

record ecdsa_curve =
  curve_prime :: bignum256
  base_point :: curve_point
  curve_order :: bignum256
  order_half :: bignum256
  coeff_a :: int
  coeff_b :: bignum256
  precomputed :: "curve_point list list"

definition secp256k1 :: "curve_point list list \<Rightarrow> ecdsa_curve" where
  "secp256k1 table = \<lparr>
     curve_prime = [0x3ffffc2f, 0x3ffffffb, 0x3fffffff, 0x3fffffff, 0x3fffffff, 0x3fffffff, 0x3fffffff, 0x3fffffff, 0xffff],
     base_point = \<lparr>
       pt_x = [0x16f81798, 0x27ca056c, 0x1ce28d95, 0x26ff36cb, 0x70b0702, 0x18a573a, 0xbbac55a, 0x199fbe77, 0x79be],
       pt_y = [0x3b10d4b8, 0x311f423f, 0x28554199, 0x5ed1229, 0x1108a8fd, 0x13eff038, 0x3c4655da, 0x369dc9a8, 0x483a] \<rparr>,
     curve_order = [0x10364141, 0x3f497a33, 0x348a03bb, 0x2bb739ab, 0x3ffffeba, 0x3fffffff, 0x3fffffff, 0x3fffffff, 0xffff],
     order_half = [0x281b20a0, 0x3fa4bd19, 0x3a4501dd, 0x15db9cd5, 0x3fffff5d, 0x3fffffff, 0x3fffffff, 0x3fffffff, 0x7fff],
     coeff_a = 0,
     coeff_b = [7, 0, 0, 0, 0, 0, 0, 0, 0],
     precomputed = table \<rparr>"

lemma secp256k1_simps [simp]:
  "coeff_a (secp256k1 t) = 0" "precomputed (secp256k1 t) = t"
  by (simp_all add: secp256k1_def)

text \<open>The numbers these digits denote.\<close>

lemma secp256k1_prime:
  "bignum (curve_prime (secp256k1 t))" "bn_val (curve_prime (secp256k1 t)) = 2 ^ 256 - 2 ^ 32 - 977"
  by (simp_all add: secp256k1_def bignum_def)

lemma secp256k1_order:
  "bignum (curve_order (secp256k1 t))"
  "bn_val (curve_order (secp256k1 t)) = 0xfffffffffffffffffffffffffffffffebaaedce6af48a03bbfd25e8cd0364141"
  by (simp_all add: secp256k1_def bignum_def)

lemma secp256k1_order_half:
  "bignum (order_half (secp256k1 t))" "bn_val (order_half (secp256k1 t)) = bn_val (curve_order (secp256k1 t)) div 2"
  by (simp_all add: secp256k1_def bignum_def)

lemma secp256k1_base_point:
  "bignum (pt_x (base_point (secp256k1 t)))" "bignum (pt_y (base_point (secp256k1 t)))"
  "bn_val (pt_x (base_point (secp256k1 t))) = 0x79be667ef9dcbbac55a06295ce870b07029bfcdb2dce28d959f2815b16f81798"
  "bn_val (pt_y (base_point (secp256k1 t))) = 0x483ada7726a3c4655da4fbfc0e1108a8fd17b448a68554199c47d08ffb10d4b8"
  by (simp_all add: secp256k1_def bignum_def)

lemma secp256k1_prime_ok: "prime_ok (curve_prime (secp256k1 t))" "prime_ok (curve_order (secp256k1 t))"
  by (simp_all add: prime_ok_def secp256k1_prime secp256k1_order)

end
