(* ===== verification/Bignum_Pow.thy ===== *)
theory Bignum_Pow
  imports Bignum_Mul Curve
begin

text \<open>
  Square-and-multiply in \<open>src/crypto/bignum.c\<close>: the square root and the inverse of the build without
  \<open>USE_INVERSE_FAST\<close>. What the two loops need of the multiplication is the interface \<open>mod_mult\<close>.
\<close>

section \<open>The inverse by Fermat's theorem\<close>

text \<open>The loops of \<open>bn_sqrt\<close>, with the exponent \<open>prime - 2\<close> read off the digits of the prime.\<close>

definition bn_inverse_slow :: "bignum256 \<Rightarrow> bignum256 \<Rightarrow> bignum256 option" where
  "bn_inverse_slow x prime = do {
     (x, res) \<leftarrow> bn_sqrt_loop prime (prime[0 := prime ! 0 - 2]) [0..<9] x bn_one;
     bn_mod res prime
   }"

section \<open>Shifts\<close>

lemma unat_or_push:
  assumes "unat (u :: 'a::len word) < 2 ^ n" "unat u + 2 ^ n * unat v < 2 ^ LENGTH('a)"
  shows "unat (u OR push_bit n v) = unat u + 2 ^ n * unat v"
proof -
  have "take_bit n u = u"
    using assms(1) by (simp add: word_unat_eq_iff unsigned_take_bit_eq take_bit_nat_eq_self)
  then have "\<not> bit u k \<or> \<not> bit (push_bit n v) k" for k by (metis bit_push_bit_iff bit_take_bit_iff not_le)
  then have "u AND push_bit n v = 0" by (simp add: bit_eq_iff bit_and_iff)
  then have "u OR push_bit n v = u + push_bit n v" by (simp add: disjunctive_add_eq_or)
  moreover have "unat (push_bit n v) = 2 ^ n * unat v"
    unfolding unsigned_push_bit_eq push_bit_eq_mult [where ?'a = nat]
    using assms(2) by (simp add: take_bit_nat_eq_self mult.commute)
  ultimately show ?thesis using assms(2) by (simp add: unat_plus_small)
qed

lemma bn_rshift_val:
  "normal a \<Longrightarrow> length (bn_rshift a) = length a \<and> normal (bn_rshift a) \<and> bn_val (bn_rshift a) = bn_val a div 2"
proof (induction a rule: bn_rshift.induct)
  case (3 a b as)
  have l: "unat a < 2 ^ 30" using 3 by simp
  have b: "unat (b AND 1) = unat b mod 2" by (simp add: and_one_eq unat_mod)
  have "unat (drop_bit 1 a) < 2 ^ 29" using l by (simp add: div_less_iff_less_mult)
  then have d: "unat (drop_bit 1 a OR push_bit 29 (b AND 1)) = unat a div 2 + 2 ^ 29 * (unat b mod 2)"
    using b by (subst unat_or_push) auto
  have s: "(n + 2 ^ 30 * m) div 2 = n div 2 + 2 ^ 29 * (u mod 2) + 2 ^ 30 * (m div 2)" if "m = u + 2 ^ 30 * v" for n m u v :: nat
  proof -
    have "m = u + 2 * (2 ^ 29 * v)" using that by simp
    then have "m mod 2 = u mod 2" by (simp only: mod_mult_self2)
    then have m: "m = u mod 2 + 2 * (m div 2)" by (metis mod_mult_div_eq)
    have "(n + 2 ^ 30 * m) div 2 = n div 2 + 2 ^ 29 * m" by simp
    moreover have "2 ^ 29 * m = 2 ^ 29 * (u mod 2 + 2 * (m div 2))" using m by (rule arg_cong)
    ultimately show ?thesis by simp
  qed
  show ?case using 3 d s [of "bn_val (b # as)" "unat b" "bn_val as" "unat a"] l by (auto simp: div_less_iff_less_mult)
qed simp_all

section \<open>The interface of a modular multiplication\<close>

text \<open>
  \<open>mul p x y\<close> returns a result for numbers in the range \<open>good p\<close>, which is the product modulo \<open>md p\<close> and lies in
  the smaller range \<open>reduced p\<close>.
\<close>

locale mod_mult =
  fixes mul :: "'a \<Rightarrow> 'a \<Rightarrow> 'p \<Rightarrow> 'a option"
    and val :: "'a \<Rightarrow> nat"
    and md :: "'p \<Rightarrow> nat"
    and good reduced :: "'p \<Rightarrow> 'a \<Rightarrow> bool"
  assumes mul_result: "good p x \<Longrightarrow> good p y \<Longrightarrow>
      \<exists>r. mul x y p = Some r \<and> reduced p r \<and> val r mod md p = (val x * val y) mod md p"
    and reduced_good: "reduced p x \<Longrightarrow> good p x"
begin

text \<open>\<open>x\<close> represents the power \<open>b ^ k\<close>.\<close>

definition power_of :: "'p \<Rightarrow> nat \<Rightarrow> nat \<Rightarrow> 'a \<Rightarrow> bool" where
  "power_of p b k x \<longleftrightarrow> val x mod md p = b ^ k mod md p"

lemma mul_power:
  assumes "good p x" "good p y" "power_of p b k x" "power_of p b l y"
  obtains r where "mul x y p = Some r" "reduced p r" "good p r" "power_of p b (k + l) r"
proof -
  obtain r where r: "mul x y p = Some r" "reduced p r" "val r mod md p = (val x * val y) mod md p"
    using mul_result [OF assms(1,2)] by blast
  have "(val x * val y) mod md p = (b ^ k * b ^ l) mod md p"
    using assms(3,4) unfolding power_of_def by (metis mod_mult_eq)
  then show thesis using that r reduced_good [OF r(2)] by (simp add: power_of_def power_add)
qed

lemma power_of_1: "val x = b \<Longrightarrow> power_of p b 1 x"
  by (simp add: power_of_def)

end

definition reduced_num :: "bignum256 \<Rightarrow> bignum256 \<Rightarrow> bool" where
  "reduced_num p x \<longleftrightarrow> prime_ok p \<and> bignum x \<and> bn_val x < 2 * bn_val p"

text \<open>The range the comment at \<open>bn_multiply\<close> asks for.\<close>

definition factor_num :: "bignum256 \<Rightarrow> bignum256 \<Rightarrow> bool" where
  "factor_num p x \<longleftrightarrow> prime_ok p \<and> bignum x \<and> bn_val x < 180 * bn_val p"

lemma factor_product:
  assumes "factor_num p x" "factor_num p y"
  shows "bn_val x * bn_val y < 2 ^ 271 * bn_val p"
proof -
  have P: "bn_val p < 2 ^ 256" using assms by (simp add: factor_num_def prime_ok_def)
  have "bn_val x * bn_val y < (180 * bn_val p) * (180 * bn_val p)"
    using assms by (intro mult_strict_mono) (simp_all add: factor_num_def)
  also have "\<dots> = (32400 * bn_val p) * bn_val p" by simp
  also have "\<dots> \<le> 2 ^ 271 * bn_val p" using P by (intro mult_right_mono) simp_all
  finally show ?thesis .
qed

interpretation bn: mod_mult bn_multiply bn_val bn_val factor_num reduced_num
proof
  fix p x y assume "factor_num p x" "factor_num p y"
  then show "\<exists>r. bn_multiply x y p = Some r \<and> reduced_num p r \<and> bn_val r mod bn_val p = bn_val x * bn_val y mod bn_val p"
    using bn_multiply_reduces [of x y p] factor_product [of p x y] by (auto simp: factor_num_def reduced_num_def)
qed (simp add: reduced_num_def factor_num_def)

section \<open>Square and multiply\<close>

lemma bits_power:
  assumes "unat limb < 2 ^ n" "factor_num p x" "reduced_num p res" "bn.power_of p b k x" "bn.power_of p b e res"
  shows "\<exists>x' res'. bn_sqrt_bits p i n limb x res = Some (x', res') \<and> reduced_num p res' \<and>
    bn.power_of p b (e + k * unat limb) res' \<and> (i \<noteq> 8 \<longrightarrow> factor_num p x' \<and> bn.power_of p b (k * 2 ^ n) x')"
  using assms
proof (induction n arbitrary: limb x res k e)
  case 0
  then show ?case by simp
next
  case (Suc n)
  let ?l = "unat limb"
  have r: "factor_num p res" using Suc.prems(3) by (rule bn.reduced_good)
  obtain x2 where x2: "bn_multiply x x p = Some x2" "factor_num p x2" "bn.power_of p b (2 * k) x2"
    using bn.mul_power [OF Suc.prems(2,2,4,4)] by (metis mult_2)
  have l: "?l = ?l mod 2 + 2 * (?l div 2)" by simp
  have bit: "limb AND 1 \<noteq> 0 \<longleftrightarrow> ?l mod 2 = 1"
    by (simp add: and_one_eq odd_iff_mod_2_eq_one word_unat_eq_iff unat_mod)
  obtain r2 where r2: "(if limb AND 1 \<noteq> 0 then bn_multiply x res p else Some res) = Some r2" "reduced_num p r2"
      "bn.power_of p b (e + k * (?l mod 2)) r2"
  proof (cases "limb AND 1 \<noteq> 0")
    case True
    obtain r2 where "bn_multiply x res p = Some r2" "reduced_num p r2" "bn.power_of p b (k + e) r2"
      using bn.mul_power [OF Suc.prems(2) r Suc.prems(4,5)] by metis
    then show thesis using that [of r2] True bit by (simp add: add.commute)
  next
    case False
    then have "?l mod 2 = 0" using bit by (simp add: not_mod_2_eq_1_eq_0)
    then show thesis using that [of res] False Suc.prems by simp
  qed
  have lt: "unat (drop_bit 1 limb) < 2 ^ n" using Suc.prems(1) by (simp add: div_less_iff_less_mult)
  have "k * (?l mod 2 + 2 * (?l div 2)) = k * ?l" by simp
  then have e: "e + k * (?l mod 2) + 2 * k * (?l div 2) = e + k * ?l" by (simp only: add_mult_distrib2 ac_simps)
  show ?case
  proof (cases "i = 8 \<and> limb = 0")
    case True
    then show ?thesis using Suc.prems by simp
  next
    case False
    then have "bn_sqrt_bits p i (Suc n) limb x res = bn_sqrt_bits p i n (drop_bit 1 limb) x2 r2"
      by (simp only: bn_sqrt_bits.simps if_not_P r2(1) x2(1) Option.bind.simps not_False_eq_True)
    moreover have "unat (drop_bit 1 limb) = ?l div 2" "2 * k * 2 ^ n = k * 2 ^ Suc n" by simp_all
    ultimately show ?thesis using Suc.IH [OF lt x2(2) r2(2) x2(3) r2(3)] e by (simp only:)
  qed
qed

lemma loop_power:
  assumes "i \<le> 9" "bignum d" "factor_num p x \<or> i = 9" "reduced_num p res" "bn.power_of p b k x \<or> i = 9" "bn.power_of p b e res"
  shows "\<exists>x' res'. bn_sqrt_loop p d [i..<9] x res = Some (x', res') \<and> reduced_num p res' \<and>
    bn.power_of p b (e + k * bn_val (drop i d)) res'"
  using assms
proof (induction "9 - i" arbitrary: i x res k e)
  case 0
  then show ?case by (simp add: bignum_def)
next
  case (Suc n)
  then have i: "i < 9" by simp
  have d: "drop i d = d ! i # drop (Suc i) d" "unat (d ! i) < 2 ^ 30"
    using i Suc.prems(2) using normal_nth [of d i] by (auto simp: bignum_def Cons_nth_drop_Suc)
  obtain x' res' where s: "bn_sqrt_bits p i 30 (d ! i) x res = Some (x', res')" "reduced_num p res'"
      "bn.power_of p b (e + k * unat (d ! i)) res'" "i \<noteq> 8 \<longrightarrow> factor_num p x' \<and> bn.power_of p b (k * 2 ^ 30) x'"
    using bits_power [OF d(2), of p x res b k e i] Suc.prems i by blast
  have u: "[i..<9] = i # [Suc i..<9]" using i by (simp add: upt_conv_Cons)
  have "\<exists>x'' res''. bn_sqrt_loop p d [Suc i..<9] x' res' = Some (x'', res'') \<and> reduced_num p res'' \<and>
      bn.power_of p b (e + k * unat (d ! i) + k * 2 ^ 30 * bn_val (drop (Suc i) d)) res''"
    using Suc.hyps i s Suc.prems(2) by (intro Suc.hyps) (auto simp: less_Suc_eq)
  moreover have "e + k * unat (d ! i) + k * 2 ^ 30 * bn_val (drop (Suc i) d) = e + k * bn_val (drop i d)"
    unfolding d(1) bn_val.simps add_mult_distrib2 by (simp only: ac_simps)
  ultimately show ?case using s(1) unfolding u by (simp only: bn_sqrt_loop.simps Option.bind.simps prod.case)
qed

lemma replicate_0 [simp]: "bn_val (replicate n 0) = 0" "normal (replicate n 0)"
  by (induction n) simp_all

lemma bn_one_facts: "bignum bn_one" "bn_val bn_one = 1"
  by (simp_all add: bn_one_def bignum_def)

lemma ladder_power:
  assumes "factor_num p x" "bignum d"
  shows "\<exists>x' res r. bn_sqrt_loop p d [0..<9] x bn_one = Some (x', res) \<and> bn_mod res p = Some r \<and> bignum r \<and>
    bn_val r = bn_val x ^ bn_val d mod bn_val p"
proof -
  have P: "prime_ok p" "1 < 2 * bn_val p" using assms(1) by (simp_all add: factor_num_def prime_ok_def)
  have "reduced_num p bn_one" using P bn_one_facts by (simp add: reduced_num_def)
  moreover have "bn.power_of p (bn_val x) 0 bn_one" by (simp add: bn.power_of_def bn_one_facts)
  ultimately obtain x' res where l: "bn_sqrt_loop p d [0..<9] x bn_one = Some (x', res)" "reduced_num p res"
      "bn.power_of p (bn_val x) (bn_val d) res"
    using loop_power [of 0 d p x bn_one "bn_val x" 1 0] assms bn.power_of_1 [of x] by auto
  then show ?thesis
    using bn_mod_val [of res p] by (auto simp: reduced_num_def prime_ok_def bn.power_of_def)
qed


section \<open>Properties\<close>

text \<open>C19: Modular multiplication: for normal numbers whose product is below \<open>2 ^ 271\<close> times the modulus, no assertion
  fails and the result is a normal number below twice the modulus that is the product modulo the modulus.\<close>

theorem bn_multiply_result:
  assumes "bignum k" "bignum x" "prime_ok p" "bn_val k * bn_val x < 2 ^ 271 * bn_val p"
  shows "\<exists>r. bn_multiply k x p = Some r \<and> bignum r \<and> bn_val r < 2 * bn_val p \<and>
    bn_val r mod bn_val p = (bn_val k * bn_val x) mod bn_val p"
  using bn_multiply_reduces [OF assms] .

abbreviation sample_prime :: bignum256 where
  "sample_prime \<equiv> curve_prime (secp256k1 [])"

abbreviation sample_x :: bignum256 where
  "sample_x \<equiv> pt_x (base_point (secp256k1 []))"

lemma sample_factor: "factor_num sample_prime sample_x"
  by (simp add: factor_num_def secp256k1_prime_ok secp256k1_base_point secp256k1_prime)

theorem bn_multiply_result_witness:
  "\<exists>r. bn_multiply sample_x sample_x sample_prime = Some r \<and> bignum r \<and> bn_val r < 2 * bn_val sample_prime \<and>
    bn_val r mod bn_val sample_prime = (bn_val sample_x * bn_val sample_x) mod bn_val sample_prime"
  by (rule bn_multiply_result)
    (simp_all add: secp256k1_prime_ok secp256k1_base_point secp256k1_prime)

text \<open>The square root is the power \<open>(p + 1) / 4\<close>, fully reduced: no assertion of the multiplications in it
  fails. Where the number is a square modulo a prime \<open>p\<close> of the form \<open>4 * n + 3\<close> this is a root of it.\<close>

theorem bn_sqrt_result:
  assumes "prime_ok p" "bignum x" "bn_val x < 180 * bn_val p"
  shows "\<exists>r. bn_sqrt x p = Some r \<and> bignum r \<and> bn_val r = bn_val x ^ ((bn_val p + 1) div 4) mod bn_val p"
proof -
  have p: "bignum p" "normal p" "length p = 9" "bn_val p < 2 ^ 256" using assms(1) by (simp_all add: prime_ok_def bignum_def)
  let ?e = "bn_rshift (bn_rshift (bn_addi p 1))"
  have "bn_addi p 1 = chain 1 (map unat p)" unfolding bn_addi_def using p by (subst bn_addi_loop_chain) simp_all
  then have a: "bignum (bn_addi p 1)" "bn_val (bn_addi p 1) = bn_val p + 1"
    using p by (simp_all add: bignum_def chain_val digits_val_map)
  have e: "bignum ?e" "bn_val ?e = (bn_val p + 1) div 4"
    using bn_rshift_val [of "bn_addi p 1"] bn_rshift_val [of "bn_rshift (bn_addi p 1)"] a
    by (simp_all add: bignum_def div_mult2_eq [symmetric])
  have "factor_num p x" using assms by (simp add: factor_num_def)
  from ladder_power [OF this e(1)] show ?thesis unfolding e(2) by (auto simp: bn_sqrt_def Let_def)
qed

theorem bn_sqrt_result_witness:
  "\<exists>r. bn_sqrt sample_x sample_prime = Some r \<and> bignum r \<and>
    bn_val r = bn_val sample_x ^ ((bn_val sample_prime + 1) div 4) mod bn_val sample_prime"
  using sample_factor by (intro bn_sqrt_result) (simp_all only: factor_num_def)

text \<open>The inverse of the build without \<open>USE_INVERSE_FAST\<close> is the power \<open>p - 2\<close>, fully reduced, for every prime
  whose lowest digit is at least 2.\<close>

theorem bn_inverse_slow_result:
  assumes "prime_ok p" "bignum x" "bn_val x < 180 * bn_val p" "2 \<le> p ! 0"
  shows "\<exists>r. bn_inverse_slow x p = Some r \<and> bignum r \<and> bn_val r = bn_val x ^ (bn_val p - 2) mod bn_val p"
proof -
  have p: "normal p" "length p = 9" using assms(1) by (simp_all add: prime_ok_def bignum_def)
  then obtain d ds where d: "p = d # ds" by (cases p) auto
  have u: "unat (d - 2) = unat d - 2" "2 \<le> unat d" using assms(4) d by (simp_all add: unat_sub word_le_nat_alt)
  have e: "bignum (p[0 := p ! 0 - 2])" "bn_val (p[0 := p ! 0 - 2]) = bn_val p - 2"
    using p d u by (auto simp: bignum_def)
  have "factor_num p x" using assms by (simp add: factor_num_def)
  from ladder_power [OF this e(1)] show ?thesis unfolding e(2) by (auto simp: bn_inverse_slow_def)
qed

theorem bn_inverse_slow_result_witness:
  "\<exists>r. bn_inverse_slow sample_x sample_prime = Some r \<and> bignum r \<and>
    bn_val r = bn_val sample_x ^ (bn_val sample_prime - 2) mod bn_val sample_prime"
  using sample_factor by (intro bn_inverse_slow_result) (simp_all add: factor_num_def secp256k1_def)

end
