(* ===== verification/Bignum_Laws.thy ===== *)
theory Bignum_Laws
  imports Bignum_Pow
begin

text \<open>
  What the operations of \<open>src/crypto/bignum.c\<close> other than multiplication compute: comparisons, addition and
  subtraction, reduction, halving, and the operations on bits.
\<close>

section \<open>Bits\<close>

lemma bit_nat_small: "(n :: nat) < 2 ^ m \<Longrightarrow> m \<le> k \<Longrightarrow> \<not> bit n k"
  by (metis bit_take_bit_iff not_le take_bit_nat_eq_self)

lemma bit_digit:
  assumes "(n :: nat) < 2 ^ 30"
  shows "bit (n + 2 ^ 30 * m) k \<longleftrightarrow> (if k < 30 then bit n k else bit m (k - 30))"
proof -
  have p: "2 ^ 30 * m = push_bit 30 m" by (simp add: push_bit_eq_mult)
  have "n AND push_bit 30 m = 0"
    using bit_nat_small [OF assms] by (auto simp: bit_eq_iff bit_and_iff bit_push_bit_iff not_le [symmetric])
  then have "n + 2 ^ 30 * m = n OR push_bit 30 m" unfolding p by (rule disjunctive_add_eq_or)
  then show ?thesis using bit_nat_small [OF assms, of k] by (auto simp: bit_or_iff bit_push_bit_iff)
qed

lemma bit_unat: "bit (unat (w :: 'a::len word)) k \<longleftrightarrow> bit w k"
  by (simp add: bit_unsigned_iff)

lemma bit_bn_val:
  "normal a \<Longrightarrow> bit (bn_val a) k \<longleftrightarrow> k div 30 < length a \<and> bit (a ! (k div 30)) (k mod 30)"
proof (induction a arbitrary: k)
  case (Cons d a)
  have "bit (bn_val (d # a)) k \<longleftrightarrow> (if k < 30 then bit (unat d) k else bit (bn_val a) (k - 30))"
    using bit_digit [of "unat d" "bn_val a" k] Cons.prems by simp
  moreover have "k div 30 = Suc ((k - 30) div 30)" "k mod 30 = (k - 30) mod 30" if "\<not> k < 30"
    using that by (simp_all add: div_if mod_if)
  ultimately show ?case using Cons.IH [of "k - 30"] Cons.prems by (simp add: bit_unat)
qed simp

lemma small_word_bits: "unat (w :: u32) < 2 ^ 30 \<longleftrightarrow> (\<forall>k \<ge> 30. \<not> bit w k)"
proof
  assume "\<forall>k \<ge> 30. \<not> bit w k"
  then have "take_bit 30 (unat w) = unat w" by (auto simp: bit_eq_iff bit_take_bit_iff bit_unat) (meson not_le)
  then show "unat w < 2 ^ 30" by (metis take_bit_nat_less_exp)
qed (metis bit_nat_small bit_unat)

lemma normal_bits: "normal a \<longleftrightarrow> (\<forall>d \<in> set a. \<forall>k \<ge> 30. \<not> bit d k)"
  unfolding normal_def list_all_iff small_word_bits ..

lemma digit_index: "unat (b :: byte) div 30 < 9"
proof -
  have "unat b < 256" using unsigned_less [of b, where ?'a = nat] by simp
  then show ?thesis by (simp add: div_less_iff_less_mult)
qed

lemma div_mod_eq_iff: "(k :: nat) div 30 = n div 30 \<and> k mod 30 = n mod 30 \<longleftrightarrow> k = n"
  by (metis div_mult_mod_eq)


lemma bit_single: "bit (2 ^ j :: u32) k \<longleftrightarrow> k = j \<and> j < 32"
  by (auto simp: bit_exp_iff)

lemma bit_updates:
  "bn_setbit a b = a[unat b div 30 := a ! (unat b div 30) OR 2 ^ (unat b mod 30)]"
  "bn_clearbit a b = a[unat b div 30 := a ! (unat b div 30) AND NOT (2 ^ (unat b mod 30))]"
  "bn_testbit a b = a ! (unat b div 30) AND 2 ^ (unat b mod 30)"
  by (simp_all add: bn_setbit_def bn_clearbit_def bn_testbit_def Let_def)

lemma normal_update:
  assumes "normal a" "\<And>k. 30 \<le> k \<Longrightarrow> \<not> bit d k"
  shows "normal (a[i := d])"
  using assms set_update_subset_insert [of a i d] by (auto simp: normal_bits)

lemma bn_setbit_val:
  assumes "bignum a"
  shows "bignum (bn_setbit a b)" "bn_val (bn_setbit a b) = set_bit (unat b) (bn_val a)"
proof -
  let ?i = "unat b div 30" and ?j = "unat b mod 30"
  have a: "normal a" "length a = 9" using assms by (simp_all add: bignum_def)
  have i: "?i < 9" by (rule digit_index)
  have n: "normal (bn_setbit a b)"
    using a i unfolding bit_updates
    by (intro normal_update) (auto simp: bit_or_iff bit_single normal_bits)
  then show "bignum (bn_setbit a b)" using a by (simp add: bignum_def bit_updates)
  have "bit (bn_val (bn_setbit a b)) k \<longleftrightarrow> bit (set_bit (unat b) (bn_val a)) k" for k
    using a i div_mod_eq_iff [of k "unat b"]
    unfolding bit_bn_val [OF n] bit_set_bit_iff bit_bn_val [OF a(1)] unfolding bit_updates
    by (auto simp: nth_list_update bit_or_iff bit_single)
  then show "bn_val (bn_setbit a b) = set_bit (unat b) (bn_val a)" by (simp add: bit_eq_iff)
qed

lemma bn_clearbit_val:
  assumes "bignum a"
  shows "bignum (bn_clearbit a b)" "bn_val (bn_clearbit a b) = unset_bit (unat b) (bn_val a)"
proof -
  let ?i = "unat b div 30" and ?j = "unat b mod 30"
  have a: "normal a" "length a = 9" using assms by (simp_all add: bignum_def)
  have i: "?i < 9" by (rule digit_index)
  have n: "normal (bn_clearbit a b)"
    using a i unfolding bit_updates
    by (intro normal_update) (auto simp: bit_and_iff normal_bits)
  then show "bignum (bn_clearbit a b)" using a by (simp add: bignum_def bit_updates)
  have "bit (bn_val (bn_clearbit a b)) k \<longleftrightarrow> bit (unset_bit (unat b) (bn_val a)) k" for k
    using a i div_mod_eq_iff [of k "unat b"]
    unfolding bit_bn_val [OF n] bit_unset_bit_iff bit_bn_val [OF a(1)] unfolding bit_updates
    by (auto simp: nth_list_update bit_and_iff bit_not_iff bit_single)
  then show "bn_val (bn_clearbit a b) = unset_bit (unat b) (bn_val a)" by (simp add: bit_eq_iff)
qed

lemma bn_testbit_val:
  assumes "bignum a"
  shows "bn_testbit a b \<noteq> 0 \<longleftrightarrow> bit (bn_val a) (unat b)"
proof -
  have "bn_testbit a b \<noteq> 0 \<longleftrightarrow> (\<exists>k < 32. bit (a ! (unat b div 30)) k \<and> bit (2 ^ (unat b mod 30) :: u32) k)"
    unfolding bit_updates by (auto simp: bit_eq_iff bit_and_iff)
  then show ?thesis using assms digit_index [of b] by (auto simp: bit_bn_val bignum_def bit_single)
qed

lemma bn_xor_val:
  assumes "bignum a" "bignum b"
  shows "bignum (bn_xor a b)" "bn_val (bn_xor a b) = bn_val a XOR bn_val b"
proof -
  have a: "normal a" "length a = 9" "normal b" "length b = 9" using assms by (simp_all add: bignum_def)
  have n: "normal (bn_xor a b)"
    using a by (auto simp: bn_xor_def normal_bits bit_xor_iff) (meson set_zip_leftD set_zip_rightD)+
  then show "bignum (bn_xor a b)" using a by (simp add: bignum_def bn_xor_def)
  have "bit (bn_val (bn_xor a b)) k \<longleftrightarrow> bit (bn_val a XOR bn_val b) k" for k
    unfolding bit_bn_val [OF n] bit_xor_iff bit_bn_val [OF a(1)] bit_bn_val [OF a(3)] using a by (auto simp: bn_xor_def bit_xor_iff)
  then show "bn_val (bn_xor a b) = bn_val a XOR bn_val b" by (simp add: bit_eq_iff)
qed


lemma lshift_digit:
  assumes "unat prev < 2 ^ 30"
  shows "(push_bit 1 (a :: u32) AND LIMB) OR drop_bit 29 (prev AND 0x20000000) = word_of_nat ((unat prev div 2 ^ 29 + 2 * unat a) mod 2 ^ 30)"
proof -
  have p: "push_bit 1 a AND LIMB = push_bit 1 (take_bit 29 a)"
    unfolding bit_eq_iff LIMB_mask bit_and_iff bit_push_bit_iff bit_take_bit_iff bit_mask_iff by auto
  have z: "0x20000000 = (2 ^ 29 :: u32)" by simp
  have k: "k = 0" if "bit prev (29 + k)" for k
    using assms that small_word_bits [of prev] by (cases k) auto
  have d: "drop_bit 29 (prev AND 0x20000000) = drop_bit 29 prev"
  proof (rule bit_eqI)
    fix n
    show "bit (drop_bit 29 (prev AND 0x20000000)) n = bit (drop_bit 29 prev) n"
      unfolding z bit_drop_bit_eq o_def bit_and_iff bit_single using k [of n] by auto
  qed
  have t: "unat (take_bit 29 a) = unat a mod 2 ^ 29" 
    by (simp only: unsigned_take_bit_eq take_bit_eq_mod [where ?'a = nat])
  have "unat a mod 2 ^ 29 < 2 ^ 29" "unat prev div 2 ^ 29 < 2" using assms by (simp_all add: div_less_iff_less_mult)
  then have "unat (drop_bit 29 prev OR push_bit 1 (take_bit 29 a)) = unat prev div 2 ^ 29 + 2 * (unat a mod 2 ^ 29)"
    using t by (subst unat_or_push) simp_all
  also have "\<dots> = (unat prev div 2 ^ 29 + 2 * unat a) mod 2 ^ 30"
  proof -
    have "(c + 2 * n) mod 2 ^ 30 = c + 2 * (n mod 2 ^ 29)" if "c < 2" for c n :: nat
      using that mod_mult2_eq [of "c + 2 * n" 2 "2 ^ 29"] by simp
    then show ?thesis using \<open>unat prev div 2 ^ 29 < 2\<close> by simp
  qed
  finally show ?thesis unfolding p d by (simp add: word_unat_eq_iff or.commute)
qed


lemma bn_lshift_loop_chain:
  "normal a \<Longrightarrow> unat prev < 2 ^ 30 \<Longrightarrow> bn_lshift_loop prev a = chain (unat prev div 2 ^ 29) (map (\<lambda>d. 2 * unat d) a)"
proof (induction a arbitrary: prev)
  case (Cons d a)
  have "(c + 2 * n) div 2 ^ 30 = n div 2 ^ 29" if "c < 2" for c n :: nat
    using that div_mult2_eq [of "c + 2 * n" 2 "2 ^ 29"] by simp
  moreover have "unat prev div 2 ^ 29 < 2" using Cons.prems by (simp add: div_less_iff_less_mult)
  ultimately show ?case using Cons lshift_digit [of prev d] by simp
qed simp

lemma bn_lshift_val:
  assumes "bignum a"
  shows "bignum (bn_lshift a)" "bn_val (bn_lshift a) = 2 * bn_val a mod 2 ^ 270"
proof -
  have d: "digits_val (map (\<lambda>d. 2 * unat d) a) = 2 * bn_val a" by (induction a) simp_all
  show "bignum (bn_lshift a)" "bn_val (bn_lshift a) = 2 * bn_val a mod 2 ^ 270"
    using assms bn_lshift_loop_chain [of a 0] by (simp_all add: bignum_def bn_lshift_def chain_val d)
qed

lemma bit_len_bounds: "0 < n \<Longrightarrow> 0 < bit_len n \<and> 2 ^ (bit_len n - 1) \<le> n \<and> n < 2 ^ bit_len n"
proof (induction n rule: bit_len.induct)
  case (1 n)
  show ?case
  proof (cases "n < 2")
    case True
    then have "n = 1" using 1 by simp
    then show ?thesis by (simp add: bit_len.simps)
  next
    case False
    then have ih: "0 < bit_len (n div 2)" "2 ^ (bit_len (n div 2) - 1) \<le> n div 2" "n div 2 < 2 ^ bit_len (n div 2)"
      using 1 by (simp_all add: div_greater_zero_iff)
    obtain m where m: "bit_len (n div 2) = Suc m" using ih(1) by (cases "bit_len (n div 2)") simp_all
    have l: "bit_len n = Suc (Suc m)" using False m by (simp add: bit_len.simps [of n])
    have "n = n mod 2 + 2 * (n div 2)" "n mod 2 < 2" by simp_all
    then show ?thesis using ih unfolding l m power_Suc diff_Suc_1 by linarith
  qed
qed

lemma bn_bitcount_loop_val:
  assumes "normal a" "i \<le> length a"
  shows "bn_val (take i a) < 2 ^ bn_bitcount_loop a i \<and> (bn_val (take i a) \<noteq> 0 \<longrightarrow> 2 ^ (bn_bitcount_loop a i - 1) \<le> bn_val (take i a))
    \<and> (bn_val (take i a) = 0 \<longrightarrow> bn_bitcount_loop a i = 0)"
  using assms(2)
proof (induction i)
  case (Suc i)
  have t: "take (Suc i) a = take i a @ [a ! i]" using Suc.prems by (simp add: take_Suc_conv_app_nth)
  have v: "bn_val (take (Suc i) a) = bn_val (take i a) + 2 ^ (30 * i) * unat (a ! i)" unfolding t using Suc.prems by (simp add: bn_val_append)
  show ?case
  proof (cases "a ! i = 0")
    case True
    then show ?thesis using Suc v by simp
  next
    case False
    then have n: "0 < unat (a ! i)" by (simp add: unat_gt_0)
    note b = bit_len_bounds [OF n]
    have l: "bn_val (take i a) < 2 ^ (30 * i)"
      using bn_val_less [of "take i a"] assms(1) Suc.prems by (simp add: normal_take_drop)
    have "bn_val (take (Suc i) a) < 2 ^ (30 * i) * (unat (a ! i) + 1)" unfolding v using l by simp
    also have "\<dots> \<le> 2 ^ (30 * i) * 2 ^ bit_len (unat (a ! i))" using b by (intro mult_left_mono) simp_all
    finally have "bn_val (take (Suc i) a) < 2 ^ (30 * i + bit_len (unat (a ! i)))" by (simp add: power_add)
    moreover have "2 ^ (30 * i) * 2 ^ (bit_len (unat (a ! i)) - 1) \<le> 2 ^ (30 * i) * unat (a ! i)" using b by (intro mult_left_mono) simp_all
    then have "2 ^ (30 * i + (bit_len (unat (a ! i)) - 1)) \<le> bn_val (take (Suc i) a)" unfolding v by (metis power_add trans_le_add2)
    ultimately show ?thesis using False n b v by (simp add: mult.commute)
  qed
qed simp


section \<open>Halving\<close>

lemma and_1_if: "(w :: u32) AND 1 = (if odd (unat w) then 1 else 0)"
proof -
  have "unat (w AND 1) = unat w mod 2" by (simp add: and_one_eq unat_mod)
  then show ?thesis by (simp add: word_unat_eq_iff odd_iff_mod_2_eq_one)
qed

lemma halves: "2 ^ 29 * (z mod 2) + 2 ^ 30 * (z div 2) = 2 ^ 29 * (z :: nat)"
proof -
  have "2 ^ 29 * (z mod 2 + 2 * (z div 2)) = 2 ^ 29 * z" by (simp only: mod_mult_div_eq)
  then show ?thesis unfolding add_mult_distrib2 by simp
qed

lemma mult_half_loop_val:
  assumes "length xs = length ps" "normal xs" "normal ps" "unat tmp1 < 2 ^ 30" "m = - 1 \<or> m = 0"
  shows "\<exists>r t. bn_mult_half_loop m tmp1 xs ps = r @ [t] \<and> normal r \<and> length r = length xs \<and>
    bn_val (r @ [t]) = unat tmp1 + 2 ^ 29 * (bn_val xs + (if m = 0 then 0 else bn_val ps))"
  using assms(1-4)
proof (induction xs ps arbitrary: tmp1 rule: list_induct2)
  case Nil
  then show ?case by simp
next
  case (Cons x xs p ps)
  let ?t2 = "x + (p AND m)" and ?p = "if m = 0 then 0 else unat p"
  have t2: "unat ?t2 = unat x + ?p" "unat x + ?p < 2 ^ 31"
    using assms(5) Cons.prems by (auto simp: unat_plus_small)
  have b: "unat (?t2 AND 1) = (unat x + ?p) mod 2" using t2 by (simp add: and_one_eq unat_mod)
  let ?t1 = "tmp1 + push_bit 29 (?t2 AND 1)"
  have t1: "unat ?t1 = unat tmp1 + 2 ^ 29 * ((unat x + ?p) mod 2)"
  proof -
    have "unat (push_bit 29 (?t2 AND 1)) = 2 ^ 29 * ((unat x + ?p) mod 2)"
      using unat_or_push [of 0 29 "?t2 AND 1"] b by simp
    then show ?thesis using Cons.prems(3) by (subst unat_plus_small) simp_all
  qed
  let ?n = "drop_bit 30 ?t1 + drop_bit 1 ?t2"
  have "unat ?t1 div 2 ^ 30 < 2" using Cons.prems(3) unfolding t1 by (simp add: div_less_iff_less_mult)
  moreover have "(unat x + ?p) div 2 < 2 ^ 30" using t2(2) by (simp add: div_less_iff_less_mult)
  ultimately have n: "unat ?n = unat ?t1 div 2 ^ 30 + (unat x + ?p) div 2" using t2 by (subst unat_plus_small) simp_all
  have tot: "unat ?t1 mod 2 ^ 30 + 2 ^ 30 * unat ?n = unat tmp1 + 2 ^ 29 * (unat x + ?p)"
  proof -
    have "unat ?t1 mod 2 ^ 30 + 2 ^ 30 * unat ?n = unat ?t1 + 2 ^ 30 * ((unat x + ?p) div 2)"
      unfolding n add_mult_distrib2 add.assoc [symmetric] mod_mult_div_eq ..
    also have "\<dots> = unat tmp1 + 2 ^ 29 * (unat x + ?p)" 
      using halves [of "unat x + ?p"] unfolding t1 by linarith
    finally show ?thesis .
  qed
  have "unat x + ?p \<le> 2 ^ 31 - 2" using Cons.prems by simp
  then have "2 ^ 30 * unat ?n < 2 ^ 30 * 2 ^ 30" using tot Cons.prems(3) by simp
  then have lt: "unat ?n < 2 ^ 30" by simp
  obtain r t where r: "bn_mult_half_loop m ?n xs ps = r @ [t]" "normal r" "length r = length xs"
      "bn_val (r @ [t]) = unat ?n + 2 ^ 29 * (bn_val xs + (if m = 0 then 0 else bn_val ps))"
    using Cons.IH [OF _ _ lt] Cons.prems by auto
  have "bn_mult_half_loop m tmp1 (x # xs) (p # ps) = (?t1 AND LIMB) # r @ [t]" using r(1) by (simp add: Let_def)
  moreover have "bn_val ((?t1 AND LIMB) # r @ [t]) = unat tmp1 + 2 ^ 29 * (bn_val (x # xs) + (if m = 0 then 0 else bn_val (p # ps)))"
  proof -
    have "bn_val ((?t1 AND LIMB) # r @ [t]) = (unat ?t1 mod 2 ^ 30 + 2 ^ 30 * unat ?n) + 2 ^ 59 * (bn_val xs + (if m = 0 then 0 else bn_val ps))"
      unfolding bn_val.simps r(4) by simp
    also have "\<dots> = unat tmp1 + 2 ^ 29 * (bn_val (x # xs) + (if m = 0 then 0 else bn_val (p # ps)))" unfolding tot by simp
    finally show ?thesis .
  qed
  moreover have "normal ((?t1 AND LIMB) # r)" using r(2) by simp
  ultimately show ?case using r(3) by (metis append_Cons length_Cons)
qed

lemma bn_mult_half_val:
  assumes "bignum x" "bignum p" "odd (bn_val p)"
  shows "bignum (bn_mult_half x p)"
    "2 * bn_val (bn_mult_half x p) = bn_val x + (if odd (bn_val x) then bn_val p else 0)"
proof -
  obtain x0 xs p0 ps where d: "x = x0 # xs" "p = p0 # ps" "length xs = 8" "length ps = 8"
    using assms by (cases x; cases p) (simp_all add: bignum_def)
  let ?m = "- (x0 AND 1) :: u32"
  have par: "odd (bn_val x) = odd (unat x0)" "odd (bn_val p) = odd (unat p0)" unfolding d by simp_all
  have m: "?m = (if odd (unat x0) then - 1 else 0)" by (simp add: and_1_if)
  let ?p = "if odd (unat x0) then unat p0 else 0"
  have l: "unat x0 < 2 ^ 30" "unat p0 < 2 ^ 30" "normal xs" "normal ps" using assms(1,2) d by (simp_all add: bignum_def)
  then have y: "unat (x0 + (p0 AND ?m)) = unat x0 + ?p" unfolding m by (auto simp: unat_plus_small)
  have e: "even (unat x0 + ?p)" using assms(3) par by simp
  have lt: "unat (drop_bit 1 (x0 + (p0 AND ?m))) < 2 ^ 30" using y l by (auto simp: div_less_iff_less_mult)
  obtain r t where r: "bn_mult_half x p = r @ [t]" "normal r" "length r = 8"
      "bn_val (r @ [t]) = (unat x0 + ?p) div 2 + 2 ^ 29 * (bn_val xs + (if odd (unat x0) then bn_val ps else 0))"
    using mult_half_loop_val [OF _ l(3,4) lt, of ?m] d m y by (auto simp: bn_mult_half_def split: if_splits)
  have "2 * bn_val (r @ [t]) = (unat x0 + ?p) + 2 ^ 30 * (bn_val xs + (if odd (unat x0) then bn_val ps else 0))"
    unfolding r(4) add_mult_distrib2 using e by simp
  then show v: "2 * bn_val (bn_mult_half x p) = bn_val x + (if odd (bn_val x) then bn_val p else 0)"
    unfolding r(1) par unfolding d by simp
  have "bn_val x < 2 ^ 270" "bn_val p < 2 ^ 270" using bn_val_less [of x] bn_val_less [of p] assms by (simp_all add: bignum_def)
  then have "2 * bn_val (r @ [t]) < 2 * 2 ^ 270" using v unfolding r(1) by (auto split: if_splits)
  moreover have "bn_val (r @ [t]) = bn_val r + 2 ^ 240 * unat t" using r(3) by (simp add: bn_val_append)
  ultimately have "unat t < 2 ^ 30" by simp
  then show "bignum (bn_mult_half x p)" unfolding r(1) using r(2,3) by (simp add: bignum_def normal_append)
qed


section \<open>Sums and multiples\<close>

lemma bn_val_map2_plus:
  "length a = length b \<Longrightarrow> normal a \<Longrightarrow> normal b \<Longrightarrow> bn_val (map2 (+) a b) = bn_val a + bn_val b"
proof (induction a b rule: list_induct2)
  case (Cons x a y b)
  then have "unat (x + y) = unat x + unat y" by (simp add: unat_plus_small)
  then show ?case using Cons by simp
qed simp

lemma bn_val_times:
  assumes "unat (k :: byte) \<le> 4"
  shows "normal a \<Longrightarrow> bn_val (map (\<lambda>d. ucast k * d) a) = unat k * bn_val a"
proof (induction a)
  case (Cons x a)
  have k: "unat (ucast k :: u32) = unat k"
    using assms by (simp add: unsigned_ucast_eq take_bit_nat_eq_self)
  have "unat k * unat x \<le> 4 * (2 ^ 30 - 1)" using assms Cons.prems by (intro mult_mono) simp_all
  then have "unat (ucast k * x) = unat k * unat x" using k by (simp add: unat_mult_lem [THEN iffD1])
  then show ?case using Cons by (simp add: add_mult_distrib2)
qed simp

lemma bn_addi_val:
  assumes "bignum a" "unat n + 2 ^ 30 \<le> 2 ^ 32"
  shows "bignum (bn_addi a n)" "bn_val (bn_addi a n) = (unat n + bn_val a) mod 2 ^ 270"
  using assms bn_addi_loop_chain [of a n] by (simp_all add: bignum_def bn_addi_def chain_val digits_val_map)

lemma subtractmod_exact:
  assumes "bignum a" "bignum b" "bignum p" "bn_val b \<le> 2 * bn_val p" "bn_val a + 2 * bn_val p < 2 ^ 270"
  shows "bn_val (bn_subtractmod a b p) + bn_val b = bn_val a + 2 * bn_val p"
proof -
  have "bn_val a + 2 * bn_val p + 2 ^ 270 - bn_val b = (bn_val a + 2 * bn_val p - bn_val b) + 2 ^ 270" using assms(4) by linarith
  then have "bn_val (bn_subtractmod a b p) = (bn_val a + 2 * bn_val p - bn_val b) mod 2 ^ 270"
    unfolding bn_subtractmod_val(2) [OF assms(1-3)] by (simp only: mod_add_self2)
  also have "\<dots> = bn_val a + 2 * bn_val p - bn_val b" using assms(5) by (intro mod_less) linarith
  finally show ?thesis using assms(4) by linarith
qed

lemma subtract_exact:
  assumes "bignum a" "bignum b" "bn_val b \<le> bn_val a"
  shows "bn_val (bn_subtract a b) = bn_val a - bn_val b"
proof -
  have "bn_val a < 2 ^ 270" using assms(1) bn_val_less [of a] by (simp add: bignum_def)
  moreover have "bn_val a + 2 ^ 270 - bn_val b = (bn_val a - bn_val b) + 2 ^ 270" using assms(3) by linarith
  ultimately show ?thesis unfolding bn_subtract_val(2) [OF assms(1,2)] by (simp only: mod_add_self2) (simp add: less_imp_diff_less)
qed

section \<open>Properties\<close>

text \<open>On normal numbers the comparisons, the selection and the bit length are those of the numbers denoted.\<close>

theorem bn_compare_result:
  assumes "bignum a" "bignum b"
  shows "bn_is_less a b = (bn_val a < bn_val b) \<and> bn_is_equal a b = (bn_val a = bn_val b) \<and>
    bn_is_zero a = (bn_val a = 0) \<and> bn_is_even a = even (bn_val a) \<and> bn_is_odd a = odd (bn_val a) \<and>
    bn_cmov 1 a b = Some a \<and> bn_cmov 0 a b = Some b \<and>
    bn_val a < 2 ^ bn_bitcount a \<and> 2 ^ bn_bitcount a \<le> 2 * max 1 (bn_val a)"
proof -
  obtain d ds where a: "a = d # ds" using assms by (cases a) (auto simp: bignum_def)
  have e: "bn_is_even a = even (bn_val a)" "bn_is_odd a = odd (bn_val a)"
    unfolding a by (simp_all add: bn_is_even_def bn_is_odd_def and_1_if)
  have c: "bn_cmov 1 a b = Some a" "bn_cmov 0 a b = Some b"
    using bn_cmov_eq [of a b True] bn_cmov_eq [of a b False] assms by (simp_all add: bignum_def)
  have n: "normal a" "length a = 9" using assms by (simp_all add: bignum_def)
  have b: "bn_val a < 2 ^ bn_bitcount a" "bn_val a \<noteq> 0 \<longrightarrow> 2 ^ (bn_bitcount a - 1) \<le> bn_val a" "bn_val a = 0 \<longrightarrow> bn_bitcount a = 0"
    using bn_bitcount_loop_val [OF n(1), of 9] n(2) by (simp_all add: bn_bitcount_def)
  have "2 ^ bn_bitcount a \<le> 2 * max 1 (bn_val a)"
  proof (cases "bn_val a = 0")
    case False
    then show ?thesis using b by (cases "bn_bitcount a") auto
  qed (use b in simp)
  then show ?thesis using bn_is_less_val bn_is_equal_val bn_is_zero_val e c b(1) assms by blast
qed

theorem bn_compare_result_witness:
  "bn_is_less sample_x sample_prime = (bn_val sample_x < bn_val sample_prime) \<and>
    bn_is_equal sample_x sample_prime = (bn_val sample_x = bn_val sample_prime) \<and>
    bn_is_zero sample_x = (bn_val sample_x = 0) \<and> bn_is_even sample_x = even (bn_val sample_x) \<and>
    bn_is_odd sample_x = odd (bn_val sample_x) \<and>
    bn_cmov 1 sample_x sample_prime = Some sample_x \<and> bn_cmov 0 sample_x sample_prime = Some sample_prime \<and>
    bn_val sample_x < 2 ^ bn_bitcount sample_x \<and> 2 ^ bn_bitcount sample_x \<le> 2 * max 1 (bn_val sample_x)"
  by (rule bn_compare_result) (simp_all only: secp256k1_base_point secp256k1_prime)

text \<open>C21: Reduction: any nine 32-bit digits, normal or not, are reduced by \<open>bn_fast_mod\<close> to a normal number below
  twice the modulus, and \<open>bn_mod\<close> completes that to the remainder.\<close>

theorem bn_reduce_result:
  assumes "length x = 9" "prime_ok p"
  shows "bignum (bn_fast_mod x p) \<and> bn_val (bn_fast_mod x p) < 2 * bn_val p \<and>
    (\<exists>r. bn_mod (bn_fast_mod x p) p = Some r \<and> bignum r \<and> bn_val r = bn_val x mod bn_val p)"
proof -
  note f = bn_fast_mod_val [OF assms]
  obtain r where "bn_mod (bn_fast_mod x p) p = Some r" "bignum r" "bn_val r = bn_val (bn_fast_mod x p) mod bn_val p"
    using bn_mod_val [OF f(1) _ f(2)] assms(2) by (auto simp: prime_ok_def)
  then show ?thesis using f by simp
qed

theorem bn_reduce_result_witness:
  "\<exists>r. bn_mod (bn_fast_mod (replicate 9 0xFFFFFFFF) sample_prime) sample_prime = Some r \<and>
    bn_val r = bn_val (replicate 9 0xFFFFFFFF) mod bn_val sample_prime"
  using bn_reduce_result [of "replicate 9 0xFFFFFFFF" sample_prime] secp256k1_prime_ok by auto

text \<open>The operations of the field on normal numbers: sums, differences, multiples and halves are congruent to
  those of the numbers denoted, and the results stay below twice the modulus, or below \<open>2 ^ 270\<close> where the code
  leaves the reduction to the caller.\<close>

theorem bn_field_ops:
  assumes "bignum a" "bignum b" "prime_ok p" "unat k \<le> 4" "bn_val a < 2 * bn_val p" "bn_val b < 2 * bn_val p" "odd (bn_val p)"
  shows "reduced_num p (bn_addmod a b p) \<and> bn_val (bn_addmod a b p) mod bn_val p = (bn_val a + bn_val b) mod bn_val p \<and>
    reduced_num p (bn_mult_k a k p) \<and> bn_val (bn_mult_k a k p) mod bn_val p = unat k * bn_val a mod bn_val p \<and>
    bignum (bn_subtractmod a b p) \<and> bn_val (bn_subtractmod a b p) + bn_val b = bn_val a + 2 * bn_val p \<and>
    bn_val (bn_subtractmod a b p) < 4 * bn_val p + 1 \<and>
    reduced_num p (bn_mult_half a p) \<and> 2 * bn_val (bn_mult_half a p) mod bn_val p = bn_val a mod bn_val p \<and>
    bn_val (bn_add a b) = bn_val a + bn_val b \<and> bn_val (bn_lshift a) = 2 * bn_val a"
proof -
  have ab: "length a = 9" "length b = 9" "normal a" "normal b" using assms(1,2) by (simp_all add: bignum_def)
  have P: "bignum p" "bn_val p < 2 ^ 256" using assms(3) by (simp_all add: prime_ok_def)
  have add: "reduced_num p (bn_addmod a b p)" "bn_val (bn_addmod a b p) mod bn_val p = (bn_val a + bn_val b) mod bn_val p"
    using bn_fast_mod_val [of "map2 (+) a b" p] ab assms(3) bn_val_map2_plus [of a b] by (simp_all add: bn_addmod_def reduced_num_def)
  have mult: "reduced_num p (bn_mult_k a k p)" "bn_val (bn_mult_k a k p) mod bn_val p = unat k * bn_val a mod bn_val p"
    using bn_fast_mod_val [of "map (\<lambda>d. ucast k * d) a" p] ab assms(3) bn_val_times [OF assms(4)]
    by (simp_all add: bn_mult_k_def reduced_num_def)
  have sub: "bignum (bn_subtractmod a b p)" "bn_val (bn_subtractmod a b p) + bn_val b = bn_val a + 2 * bn_val p"
    using bn_subtractmod_val(1) [OF assms(1,2) P(1)] subtractmod_exact [OF assms(1,2) P(1)] assms(5,6) P(2) by simp_all
  then have subl: "bn_val (bn_subtractmod a b p) < 4 * bn_val p + 1" using assms(5) by linarith
  note h = bn_mult_half_val [OF assms(1) P(1) assms(7)]
  have half: "reduced_num p (bn_mult_half a p)" "2 * bn_val (bn_mult_half a p) mod bn_val p = bn_val a mod bn_val p"
    using h assms(3,5) by (auto simp: reduced_num_def split: if_splits)
  have "bn_val (bn_add a b) = bn_val a + bn_val b" "bn_val (bn_lshift a) = 2 * bn_val a"
    using bn_add_val(2) [OF assms(1,2)] bn_lshift_val(2) [OF assms(1)] assms(5,6) P(2) by simp_all
  then show ?thesis using add mult sub subl half by blast
qed

theorem bn_field_ops_witness:
  "reduced_num sample_prime (bn_addmod sample_x sample_x sample_prime) \<and>
    2 * bn_val (bn_mult_half sample_x sample_prime) mod bn_val sample_prime = bn_val sample_x mod bn_val sample_prime"
  using bn_field_ops [of sample_x sample_x sample_prime 4]
  by (simp add: secp256k1_prime_ok secp256k1_base_point secp256k1_prime)

text \<open>The operations on bits are those of the binary numbers denoted.\<close>

theorem bn_bits_result:
  assumes "bignum a" "bignum c"
  shows "(bn_testbit a b \<noteq> 0) = bit (bn_val a) (unat b) \<and>
    bignum (bn_setbit a b) \<and> bn_val (bn_setbit a b) = set_bit (unat b) (bn_val a) \<and>
    bignum (bn_clearbit a b) \<and> bn_val (bn_clearbit a b) = unset_bit (unat b) (bn_val a) \<and>
    bignum (bn_xor a c) \<and> bn_val (bn_xor a c) = bn_val a XOR bn_val c \<and>
    bignum (bn_lshift a) \<and> bn_val (bn_lshift a) = push_bit 1 (bn_val a) mod 2 ^ 270 \<and>
    bignum (bn_rshift a) \<and> bn_val (bn_rshift a) = drop_bit 1 (bn_val a)"
  using bn_testbit_val [OF assms(1)] bn_setbit_val [OF assms(1)] bn_clearbit_val [OF assms(1)] bn_xor_val [OF assms]
    bn_lshift_val [OF assms(1)] bn_rshift_val [of a] assms
  by (simp add: bignum_def push_bit_eq_mult drop_bit_eq_div mult.commute [of _ 2])

theorem bn_bits_result_witness:
  "bn_val (bn_setbit bn_one 255) = set_bit 255 1 \<and> bn_val (bn_xor bn_one bn_one) = 0"
  using bn_bits_result [OF bn_one_facts(1) bn_one_facts(1), of 255] by (simp add: bn_one_facts)

end
