(* ===== verification/Bignum_Conv.thy ===== *)
theory Bignum_Conv
  imports Bignum_Laws
begin

text \<open>
  The conversions of \<open>src/crypto/bignum.c\<close> between byte strings and digits of 30 bits, and the division by small
  numbers with the decimal digit count on top of it.
\<close>

section \<open>Numbers as bytes and as 32-bit words\<close>

fun words_val :: "u32 list \<Rightarrow> nat" where
  "words_val [] = 0"
| "words_val (w # ws) = unat w + 2 ^ 32 * words_val ws"

text \<open>Words assembled from and taken apart into bytes.\<close>

lemma unat_ucast_byte [simp]: "unat (ucast (b :: byte) :: u32) = unat b"
  using unat_byte [of b] by (simp add: unsigned_ucast_eq take_bit_nat_eq_self)

lemma word_of_bytes:
  "unat (push_bit 24 (ucast b3) OR push_bit 16 (ucast b2) OR push_bit 8 (ucast b1) OR ucast (b0 :: byte) :: u32) =
    le_val [b0, b1, b2, b3]"
proof -
  have b: "unat b0 < 2 ^ 8" "unat b1 < 2 ^ 8" "unat b2 < 2 ^ 8" "unat b3 < 2 ^ 8" by (rule unat_byte)+
  have 1: "unat (ucast b0 OR push_bit 8 (ucast b1) :: u32) = unat b0 + 2 ^ 8 * unat b1"
    using b by (subst unat_or_push) simp_all
  have 2: "unat ((ucast b0 OR push_bit 8 (ucast b1)) OR push_bit 16 (ucast b2) :: u32) = unat b0 + 2 ^ 8 * unat b1 + 2 ^ 16 * unat b2"
    using b 1 by (subst unat_or_push) simp_all
  have 3: "unat (((ucast b0 OR push_bit 8 (ucast b1)) OR push_bit 16 (ucast b2)) OR push_bit 24 (ucast b3) :: u32) =
      unat b0 + 2 ^ 8 * unat b1 + 2 ^ 16 * unat b2 + 2 ^ 24 * unat b3"
    using b 2 by (subst unat_or_push) simp_all
  then show ?thesis by (simp add: or.commute or.left_commute)
qed

lemma num_le_word: "num_le 4 (unat (x :: u32)) = [ucast x, ucast (drop_bit 8 x), ucast (drop_bit 16 x), ucast (drop_bit 24 x)]"
proof -
  have u: "word_of_nat (unat x div 2 ^ n) = (ucast (drop_bit n x) :: byte)" for n
    by (simp add: word_unat_eq_iff unat_of_nat unsigned_ucast_eq take_bit_eq_mod)
  have "num_le (Suc (Suc (Suc (Suc 0)))) n =
      [word_of_nat (n div 2 ^ 0), word_of_nat (n div 2 ^ 8), word_of_nat (n div 2 ^ 16), word_of_nat (n div 2 ^ 24)]" for n
    by (simp add: div_mult2_eq [symmetric])
  moreover have "4 = Suc (Suc (Suc (Suc 0)))" by simp
  ultimately show ?thesis unfolding u by (simp only: u drop_bit_0 id_apply)
qed


section \<open>Reading\<close>

lemma unat_or_push_mod:
  assumes "unat (u :: 'a::len word) < 2 ^ n" "n \<le> LENGTH('a)"
  shows "unat (u OR push_bit n v) = (unat u + 2 ^ n * unat v) mod 2 ^ LENGTH('a)"
proof -
  let ?v = "take_bit (LENGTH('a) - n) v" and ?m = "2 ^ (LENGTH('a) - n) :: nat"
  have p: "push_bit n v = push_bit n ?v" using assms(2) by (intro bit_word_eqI) (auto simp: bit_push_bit_iff bit_take_bit_iff)
  have L: "2 ^ LENGTH('a) = 2 ^ n * ?m" using assms(2) by (simp add: power_add [symmetric])
  have v: "unat ?v = unat v mod ?m" by (simp only: unsigned_take_bit_eq take_bit_eq_mod [where ?'a = nat])
  have "unat v mod ?m + 1 \<le> ?m" by (simp add: Suc_leI)
  then have "2 ^ n * (unat v mod ?m + 1) \<le> 2 ^ n * ?m" by (rule mult_left_mono) simp
  then have lt: "unat u + 2 ^ n * (unat v mod ?m) < 2 ^ LENGTH('a)" using assms(1) unfolding L by (simp add: add_mult_distrib2)
  then have "unat (u OR push_bit n v) = unat u + 2 ^ n * (unat v mod ?m)"
    unfolding p using assms(1) v by (subst unat_or_push) simp_all
  also have "\<dots> = (unat u + 2 ^ n * unat v) mod 2 ^ LENGTH('a)"
    unfolding L mod_mult2_eq using assms(1) by simp
  finally show ?thesis .
qed

lemma bn_read_loop_val:
  assumes "\<forall>j < 8. rd j = Some (ws ! j)" "length ws = 8" "i \<le> 8" "unat temp < 2 ^ (2 * i)"
  shows "\<exists>r. bn_read_loop rd [i..<8] temp = Some r \<and> length r = 9 - i \<and> normal r \<and>
    bn_val r = unat temp + 2 ^ (2 * i) * words_val (drop i ws)"
  using assms(3,4)
proof (induction "8 - i" arbitrary: i temp)
  case 0
  then have "unat temp < 2 ^ 16" "i = 8" using 0 by simp_all
  then show ?case using assms(2) by simp
next
  case (Suc n)
  then have i: "i < 8" by simp
  let ?w = "unat (ws ! i)" and ?t = "temp OR push_bit (2 * i) (ws ! i)" and ?n = "drop_bit (30 - 2 * i) (ws ! i)"
  have d: "drop i ws = ws ! i # drop (Suc i) ws" using i assms(2) by (simp add: Cons_nth_drop_Suc)
  have tot: "unat ?t mod 2 ^ 30 + 2 ^ 30 * unat ?n = unat temp + 2 ^ (2 * i) * ?w"
  proof -
    have m: "2 ^ 30 = 2 ^ (2 * i) * (2 :: nat) ^ (30 - 2 * i)" using i by (simp add: power_add [symmetric])
    have "unat ?t = (unat temp + 2 ^ (2 * i) * ?w) mod 2 ^ 32" using i Suc.prems by (subst unat_or_push_mod) simp_all
    then have "unat ?t mod 2 ^ 30 = (unat temp + 2 ^ (2 * i) * ?w) mod 2 ^ 30" by (simp add: mod_mod_cancel)
    moreover have "(unat temp + 2 ^ (2 * i) * ?w) div 2 ^ 30 = ?w div 2 ^ (30 - 2 * i)"
      unfolding m div_mult2_eq using Suc.prems by simp
    ultimately show ?thesis using mod_mult_div_eq [of "unat temp + 2 ^ (2 * i) * ?w" "2 ^ 30"] by (simp only: unat_drop_bit)
  qed
  have lt: "unat ?n < 2 ^ (2 * Suc i)"
  proof -
    have "(2 :: nat) ^ (2 * Suc i) * 2 ^ (30 - 2 * i) = 2 ^ 32" unfolding power_add [symmetric] using i by simp
    then have "?w < 2 ^ (2 * Suc i) * 2 ^ (30 - 2 * i)" using unat_u32_less [of "ws ! i"] by (simp only:)
    then show ?thesis by (simp add: div_less_iff_less_mult)
  qed
  have n: "n = 8 - Suc i" "Suc i \<le> 8" using Suc.hyps(2) by simp_all
  obtain r where r: "bn_read_loop rd [Suc i..<8] ?n = Some r" "length r = 9 - Suc i" "normal r"
      "bn_val r = unat ?n + 2 ^ (2 * Suc i) * words_val (drop (Suc i) ws)"
    using Suc.hyps(1) [OF n lt] by blast
  have u: "[i..<8] = i # [Suc i..<8]" using i by (simp add: upt_conv_Cons)
  have "bn_read_loop rd [i..<8] temp = Some ((?t AND LIMB) # r)" unfolding u using r(1) i assms(1) by (simp add: Let_def)
  moreover have "bn_val ((?t AND LIMB) # r) = unat temp + 2 ^ (2 * i) * words_val (drop i ws)"
  proof -
    have "bn_val ((?t AND LIMB) # r) = (unat ?t mod 2 ^ 30 + 2 ^ 30 * unat ?n) + 2 ^ 30 * 2 ^ (2 * Suc i) * words_val (drop (Suc i) ws)"
      unfolding bn_val.simps r(4) by simp
    also have "\<dots> = unat temp + 2 ^ (2 * i) * words_val (drop i ws)" unfolding tot d by (simp add: add_mult_distrib2 power_add)
    finally show ?thesis .
  qed
  ultimately show ?case using r(2,3) i by simp
qed


lemma words_of_bytes:
  "length bs = 4 * n \<Longrightarrow> words_val (map (\<lambda>j. word_of_nat (le_val (take 4 (drop (4 * j) bs)))) [0..<n]) = le_val bs"
proof (induction n arbitrary: bs)
  case (Suc n)
  have "le_val (take 4 bs) < 2 ^ 32" using le_val_less [of "take 4 bs"] Suc.prems by simp
  then have "unat (word_of_nat (le_val (take 4 bs)) :: u32) = le_val (take 4 bs)" by (simp add: unat_of_nat take_bit_nat_eq_self)
  moreover have "le_val bs = le_val (take 4 bs) + 2 ^ 32 * le_val (drop 4 bs)"
    using le_val_append [of "take 4 bs" "drop 4 bs"] Suc.prems by simp
  moreover have "map (\<lambda>j. word_of_nat (le_val (take 4 (drop (4 * j) bs)))) [0..<Suc n] =
      (word_of_nat (le_val (take 4 bs)) :: u32) # map (\<lambda>j. word_of_nat (le_val (take 4 (drop (4 * j) (drop 4 bs))))) [0..<n]"
    by (simp only: map_upt_Suc) (simp add: add.commute)
  ultimately show ?case using Suc.IH [of "drop 4 bs"] Suc.prems by (simp del: upt_Suc)
qed simp

lemma list_4E:
  assumes "length d = 4"
  obtains d0 d1 d2 d3 where "d = [d0, d1, d2, d3]"
proof -
  have "4 = Suc (Suc (Suc (Suc 0)))" by simp
  then show thesis using assms that by (auto simp only: length_Suc_conv length_0_conv)
qed

lemma read_be_val:
  assumes "off + 4 \<le> length m"
  shows "read_be m off = Some (word_of_nat (be_val (take 4 (drop off m))))"
proof -
  have "length (take 4 (drop off m)) = 4" using assms by simp
  then obtain d0 d1 d2 d3 where d: "take 4 (drop off m) = [d0, d1, d2, d3]" by (rule list_4E)
  then show ?thesis using word_of_bytes [of d0 d1 d2 d3, symmetric] assms
    by (simp add: read_be_def be_val_def del: le_val.simps)
qed

lemma read_le_val:
  assumes "off + 4 \<le> length m"
  shows "read_le m off = Some (word_of_nat (le_val (take 4 (drop off m))))"
proof -
  have "length (take 4 (drop off m)) = 4" using assms by simp
  then obtain d0 d1 d2 d3 where d: "take 4 (drop off m) = [d0, d1, d2, d3]" by (rule list_4E)
  then show ?thesis using word_of_bytes [of d3 d2 d1 d0, symmetric] assms
    by (simp add: read_le_def del: le_val.simps)
qed

lemma bn_read_le_val:
  assumes "length bs = 32"
  shows "\<exists>r. bn_read_le bs = Some r \<and> bignum r \<and> bn_val r = le_val bs"
proof -
  let ?ws = "map (\<lambda>j. word_of_nat (le_val (take 4 (drop (4 * j) bs)))) [0..<8] :: u32 list"
  have "\<forall>j < 8. read_le bs (j * 4) = Some (?ws ! j)"
    using assms by (simp add: read_le_val mult.commute del: upt_rec_numeral)
  then obtain r where "bn_read_loop (\<lambda>i. read_le bs (i * 4)) [0..<8] 0 = Some r" "length r = 9" "normal r" "bn_val r = words_val ?ws"
    using bn_read_loop_val [of "\<lambda>i. read_le bs (i * 4)" ?ws 0 0] by (auto simp del: upt_rec_numeral)
  then show ?thesis using words_of_bytes [of bs 8] assms by (simp add: bn_read_le_def bignum_def del: upt_rec_numeral)
qed

lemma bn_read_be_val:
  assumes "length bs = 32"
  shows "\<exists>r. bn_read_be bs = Some r \<and> bignum r \<and> bn_val r = be_val bs"
proof -
  let ?ws = "map (\<lambda>j. word_of_nat (le_val (take 4 (drop (4 * j) (rev bs))))) [0..<8] :: u32 list"
  have "read_be bs ((7 - j) * 4) = Some (?ws ! j)" if "j < 8" for j
  proof -
    have "drop (4 * j) (rev bs) = rev (take (32 - 4 * j) bs)" using assms by (simp add: drop_rev)
    moreover have "take 4 (rev (take (32 - 4 * j) bs)) = rev (drop (28 - 4 * j) (take (32 - 4 * j) bs))"
      using assms that by (simp add: take_rev)
    moreover have "drop (28 - 4 * j) (take (32 - 4 * j) bs) = take 4 (drop ((7 - j) * 4) bs)"
      using that by (simp add: drop_take diff_mult_distrib mult.commute [of j 4])
    ultimately have "take 4 (drop (4 * j) (rev bs)) = rev (take 4 (drop ((7 - j) * 4) bs))" by simp
    then show ?thesis using assms that by (simp add: read_be_val be_val_def del: upt_rec_numeral)
  qed
  then obtain r where "bn_read_loop (\<lambda>i. read_be bs ((7 - i) * 4)) [0..<8] 0 = Some r" "length r = 9" "normal r" "bn_val r = words_val ?ws"
    using bn_read_loop_val [of "\<lambda>i. read_be bs ((7 - i) * 4)" ?ws 0 0] by (auto simp del: upt_rec_numeral)
  then show ?thesis using words_of_bytes [of "rev bs" 8] assms by (simp add: bn_read_be_def be_val_def bignum_def del: upt_rec_numeral)
qed


section \<open>Writing\<close>

lemma bn_val_drop: "normal a \<Longrightarrow> bn_val (drop i a) = bn_val a div 2 ^ (30 * i)"
proof (induction i arbitrary: a)
  case (Suc i)
  then show ?case by (cases a) (simp_all add: power_add div_mult2_eq)
qed simp

lemma write_word:
  assumes "bignum a" "i < 8"
  shows "unat (push_bit (16 + 2 * i) (a ! (8 - i)) OR drop_bit (14 - 2 * i) (a ! (7 - i))) = bn_val a div 2 ^ (32 * (7 - i)) mod 2 ^ 32"
proof -
  have a: "normal a" "length a = 9" using assms(1) by (simp_all add: bignum_def)
  let ?d = "unat (a ! (7 - i))" and ?u = "unat (a ! (8 - i))" and ?e = "14 - 2 * i" and ?f = "16 + 2 * i"
  let ?h = "bn_val (drop (9 - i) a)"
  have s: "drop (7 - i) a = a ! (7 - i) # a ! (8 - i) # drop (9 - i) a"
  proof -
    have "Suc (7 - i) = 8 - i" "Suc (8 - i) = 9 - i" "7 - i < length a" "8 - i < length a" using assms(2) a(2) by simp_all
    then show ?thesis using Cons_nth_drop_Suc [of "7 - i" a] Cons_nth_drop_Suc [of "8 - i" a] by simp
  qed
  have l: "?d < 2 ^ 30" using normal_nth [OF a(1), of "7 - i"] a(2) by simp
  have "2 ^ ?e * 2 ^ ?f = (2 :: nat) ^ 30" unfolding power_add [symmetric] using assms(2) by simp
  then have p: "2 ^ 30 = 2 ^ ?e * (2 :: nat) ^ ?f" "?d div 2 ^ ?e < 2 ^ ?f" using l by (simp_all add: div_less_iff_less_mult mult.commute)
  have x: "32 * (7 - i) = 30 * (7 - i) + ?e" using assms(2) by simp
  have "bn_val a div 2 ^ (32 * (7 - i)) = bn_val (drop (7 - i) a) div 2 ^ ?e"
    unfolding x power_add div_mult2_eq using bn_val_drop [OF a(1)] by simp
  also have "\<dots> = (?d + 2 ^ ?e * (2 ^ ?f * (?u + 2 ^ 30 * ?h))) div 2 ^ ?e" unfolding s bn_val.simps p(1) by (simp only: mult.assoc)
  also have "\<dots> = ?d div 2 ^ ?e + 2 ^ ?f * (?u + 2 ^ 30 * ?h)" by simp
  finally have v: "bn_val a div 2 ^ (32 * (7 - i)) = ?d div 2 ^ ?e + 2 ^ ?f * ?u + 2 ^ ?f * 2 ^ 30 * ?h" by (simp add: add_mult_distrib2)
  have "2 ^ ?f * (2 :: nat) ^ 30 = 2 ^ 32 * 2 ^ (14 + 2 * i)" unfolding power_add [symmetric] by simp
  then have "bn_val a div 2 ^ (32 * (7 - i)) mod 2 ^ 32 = (?d div 2 ^ ?e + 2 ^ ?f * ?u) mod 2 ^ 32"
    unfolding v by (simp only: mult.assoc mod_mult_self2)
  also have "\<dots> = unat (drop_bit ?e (a ! (7 - i)) OR push_bit ?f (a ! (8 - i)))"
    using p(2) assms(2) by (subst unat_or_push_mod) simp_all
  finally show ?thesis by (simp add: or.commute)
qed

lemma write_be_block:
  assumes "off + 4 \<le> length m"
  shows "write_be m off x = Some (patch m off (num_be 4 (unat x)))"
  using assms by (simp add: write_be_def num_be_def num_le_word)

lemma num_be_blocks:
  assumes "i < 8"
  shows "num_be (4 * Suc i) (n div 2 ^ (32 * (7 - i))) = num_be (4 * i) (n div 2 ^ (32 * (8 - i))) @ num_be 4 (n div 2 ^ (32 * (7 - i)))"
proof -
  have "32 * (8 - i) = 32 * (7 - i) + 8 * 4" using assms by simp
  then have "n div 2 ^ (32 * (8 - i)) = n div 2 ^ (32 * (7 - i)) div 2 ^ (8 * 4)" by (simp only: power_add div_mult2_eq)
  then show ?thesis using num_be_add [of 4 "4 * i"] by simp
qed

lemma bn_write_be_loop:
  assumes "bignum a" "off + 32 \<le> length m" "i \<le> 8"
  shows "bn_write_loop (\<lambda>out i. write_be out (off + i * 4)) a [i..<8] (a ! (8 - i))
      (patch m off (num_be (4 * i) (bn_val a div 2 ^ (32 * (8 - i))))) = Some (patch m off (num_be 32 (bn_val a)))"
  using assms(3)
proof (induction "8 - i" arbitrary: i)
  case (Suc n)
  then have i: "i < 8" by simp
  let ?N = "bn_val a" and ?v = "push_bit (16 + 2 * i) (a ! (8 - i)) OR drop_bit (14 - 2 * i) (a ! (7 - i))"
  let ?out = "patch m off (num_be (4 * i) (?N div 2 ^ (32 * (8 - i))))"
  have u: "[i..<8] = i # [Suc i..<8]" using i by (simp add: upt_conv_Cons)
  have "num_be 4 (unat ?v) = num_be 4 (?N div 2 ^ (32 * (7 - i)))"
    unfolding write_word [OF assms(1) i] num_be_def using num_le_mod [of 4 "?N div 2 ^ (32 * (7 - i))"] by simp
  then have "write_be ?out (off + i * 4) ?v = Some (patch ?out (off + length (num_be (4 * i) (?N div 2 ^ (32 * (8 - i))))) (num_be 4 (?N div 2 ^ (32 * (7 - i)))))"
    using i assms(2) by (subst write_be_block) (simp_all add: mult.commute)
  also have "\<dots> = Some (patch m off (num_be (4 * Suc i) (?N div 2 ^ (32 * (7 - i)))))"
    unfolding num_be_blocks [OF i] using i assms(2) by (subst patch_append) simp_all
  finally have w: "write_be ?out (off + i * 4) ?v = Some (patch m off (num_be (4 * Suc i) (?N div 2 ^ (32 * (7 - i)))))" .
  have e: "8 - Suc i = 7 - i" by simp
  have n: "n = 8 - Suc i" "Suc i \<le> 8" using Suc.hyps(2) by simp_all
  show ?case unfolding u bn_write_loop.simps Let_def w Option.bind.simps using Suc.hyps(1) [OF n] unfolding e .
qed simp

lemma bn_write_be_val:
  assumes "bignum a" "off + 32 \<le> length m"
  shows "bn_write_be a m off = Some (patch m off (num_be 32 (bn_val a)))"
  using bn_write_be_loop [OF assms, of 0] by (simp add: bn_write_be_def num_be_def del: upt_rec_numeral)


section \<open>Division by small numbers\<close>

lemma bn_divmod_loop_val:
  assumes "unat q * unat d + unat r = 2 ^ 30" "0 < unat d" "unat d * unat r < 2 ^ 31"
    and "normal as" "unat rem < unat d"
  shows "\<exists>qs rem'. bn_divmod_loop d q r rem as = (qs, rem') \<and> length qs = length as \<and> normal qs \<and> unat rem' < unat d \<and>
    unat rem * 2 ^ (30 * length as) + bn_val (rev as) = unat d * bn_val (rev qs) + unat rem'"
  using assms(4,5)
proof (induction "as" arbitrary: rem)
  case (Cons a "as")
  let ?t = "rem * r + a"
  have "unat rem * unat r \<le> unat d * unat r" using Cons.prems by simp
  then have rr: "unat rem * unat r < 2 ^ 31" using assms(3) by linarith
  then have "unat (rem * r) = unat rem * unat r" by (subst unat_mult_lem [THEN iffD1]) simp_all
  then have t: "unat ?t = unat rem * unat r + unat a" using rr Cons.prems by (subst unat_plus_small) simp_all
  have tot: "unat rem * 2 ^ 30 + unat a = unat d * (unat rem * unat q + unat ?t div unat d) + unat ?t mod unat d"
    unfolding t assms(1) [symmetric] by (simp add: algebra_simps)
  have "(unat rem + 1) * 2 ^ 30 \<le> unat d * 2 ^ 30" using Cons.prems by (intro mult_right_mono) simp_all
  then have "unat rem * 2 ^ 30 + unat a < unat d * 2 ^ 30" using Cons.prems by simp
  then have "unat d * (unat rem * unat q + unat ?t div unat d) < unat d * 2 ^ 30" unfolding tot by linarith
  then have qlt: "unat rem * unat q + unat ?t div unat d < 2 ^ 30" by simp
  then have rq: "unat (rem * q) = unat rem * unat q" by (subst unat_mult_lem [THEN iffD1]) simp_all
  have qd: "unat (rem * q + ?t div d) = unat rem * unat q + unat ?t div unat d"
    using qlt rq by (subst unat_plus_small) (simp_all add: unat_div)
  have "unat (?t mod d) < unat d" using assms(2) by (simp add: unat_mod)
  then obtain qs rem' where ih: "bn_divmod_loop d q r (?t mod d) as = (qs, rem')" "length qs = length as" "normal qs"
      "unat rem' < unat d" "unat (?t mod d) * 2 ^ (30 * length as) + bn_val (rev as) = unat d * bn_val (rev qs) + unat rem'"
    using Cons.IH Cons.prems by fastforce
  let ?M = "2 ^ (30 * length as) :: nat"
  have gen: "B + (D * Q + Y) * M = D * (R + M * Q) + e" if "Y * M + B = D * R + e" for B D Q Y M R e :: nat
    using that by (simp add: algebra_simps)
  have "unat rem * 2 ^ (30 * length (a # as)) + bn_val (rev (a # as)) = bn_val (rev as) + (unat rem * 2 ^ 30 + unat a) * ?M"
    by (simp add: bn_val_append power_add algebra_simps)
  also have "\<dots> = unat d * (bn_val (rev qs) + ?M * unat (rem * q + ?t div d)) + unat rem'"
    unfolding tot qd by (rule gen) (use ih(5) in \<open>simp only: unat_mod\<close>)
  also have "bn_val (rev qs) + ?M * unat (rem * q + ?t div d) = bn_val (rev ((rem * q + ?t div d) # qs))"
    using ih(2) by (simp add: bn_val_append)
  finally show ?case using ih qlt qd by (simp add: Let_def)
qed simp

lemma bn_divmod_val:
  assumes "unat q * unat d + unat r = 2 ^ 30" "0 < unat d" "unat d * unat r < 2 ^ 31" "bignum a"
  shows "\<exists>a' rem. bn_divmod d q r a = (a', rem) \<and> bignum a' \<and> bn_val a = unat d * bn_val a' + unat rem \<and> unat rem < unat d"
proof -
  have a: "normal a" "length a = 9" using assms(4) by (simp_all add: bignum_def)
  let ?top = "a ! 8"
  have n: "normal (rev (take 8 a))" using a(1) normal_take_drop(1) [of a 8] by (simp add: normal_def)
  have "unat (?top mod d) < unat d" using assms(2) by (simp add: unat_mod)
  from bn_divmod_loop_val [OF assms(1-3) n this]
  obtain qs rem where l: "bn_divmod_loop d q r (?top mod d) (rev (take 8 a)) = (qs, rem)" "length qs = 8" "normal qs" "unat rem < unat d"
      "unat (?top mod d) * 2 ^ 240 + bn_val (take 8 a) = unat d * bn_val (rev qs) + unat rem"
    using a(2) by auto
  have "bn_val a = bn_val (take 8 a) + 2 ^ 240 * unat ?top" using bn_val_last [OF a(2)] .
  moreover have "unat ?top = unat d * unat (?top div d) + unat (?top mod d)" by (simp add: unat_div unat_mod)
  ultimately have "bn_val a = unat d * (bn_val (rev qs) + 2 ^ 240 * unat (?top div d)) + unat rem" using l(5) by (simp add: algebra_simps)
  also have "bn_val (rev qs) + 2 ^ 240 * unat (?top div d) = bn_val (rev (?top div d # qs))" using l(2) by (simp add: bn_val_append)
  finally have v: "bn_val a = unat d * bn_val (rev (?top div d # qs)) + unat rem" .
  have "unat (?top div d) \<le> unat ?top" by (simp add: unat_div)
  then have "unat (?top div d) < 2 ^ 30" using normal_nth [OF a(1), of 8] a(2) by simp
  then have "bignum (rev (?top div d # qs))" using l(2,3) by (simp add: bignum_def normal_def)
  then show ?thesis using l v by (simp add: bn_divmod_def Let_def del: rev.simps)
qed

lemma bn_divmod1000_val:
  "bignum a \<Longrightarrow> \<exists>a' rem. bn_divmod1000 a = (a', rem) \<and> bignum a' \<and> bn_val a' = bn_val a div 1000 \<and> unat rem = bn_val a mod 1000"
  using bn_divmod_val [of 1073741 1000 824 a] by (auto simp: bn_divmod1000_def)

lemma bn_divmod58_val:
  "bignum a \<Longrightarrow> \<exists>a' rem. bn_divmod58 a = (a', rem) \<and> bignum a' \<and> bn_val a' = bn_val a div 58 \<and> unat rem = bn_val a mod 58"
  using bn_divmod_val [of 18512790 58 4 a] by (auto simp: bn_divmod58_def)

lemma length_dec_digits_1000: "0 < n div 1000 \<Longrightarrow> length (dec_digits n) = length (dec_digits (n div 1000)) + 3"
  by (simp add: dec_digits.simps [of n] dec_digits.simps [of "n div 10"] dec_digits.simps [of "n div 100"]
      div_mult2_eq [symmetric] div_greater_zero_iff div_less_iff_less_mult)

lemma digits_small: "n < 1000 \<Longrightarrow> length (dec_digits n) = (if 100 \<le> n then 3 else if 10 \<le> n then 2 else 1)"
  by (simp add: dec_digits.simps [of n] dec_digits.simps [of "n div 10"] dec_digits.simps [of "n div 100"]
      div_mult2_eq [symmetric] div_greater_zero_iff div_less_iff_less_mult)

lemma bn_digitcount_loop_val:
  assumes "i \<le> 26" "bignum val" "bn_val val < 1000 ^ (26 - i)"
  shows "bn_digitcount_loop (map (\<lambda>i. 3 * i) [i..<26]) val digits =
    (if bn_val val = 0 then digits else 3 * i + length (dec_digits (bn_val val)))"
  using assms
proof (induction "26 - i" arbitrary: i val digits)
  case (Suc n)
  then have i: "i < 26" "n = 26 - Suc i" "Suc i \<le> 26" by simp_all
  obtain v limb where d: "bn_divmod1000 val = (v, limb)" "bignum v" "bn_val v = bn_val val div 1000" "unat limb = bn_val val mod 1000"
    using bn_divmod1000_val [OF Suc.prems(2)] by blast
  let ?N = "bn_val val"
  have "26 - i = Suc (26 - Suc i)" using i by simp
  then have "?N < 1000 ^ (26 - Suc i) * 1000" using Suc.prems(3) by simp
  then have lt: "bn_val v < 1000 ^ (26 - Suc i)" unfolding d(3) by (simp add: div_less_iff_less_mult)
  have u: "[i..<26] = i # [Suc i..<26]" using i by (simp add: upt_conv_Cons)
  have c: "(100 \<le> limb) = (100 \<le> ?N mod 1000)" "(10 \<le> limb) = (10 \<le> ?N mod 1000)" "(1 \<le> limb) = (1 \<le> ?N mod 1000)"
    using d(4) by (simp_all add: word_le_nat_alt)
  show ?case
  proof (cases "?N div 1000 = 0")
    case True
    then have "?N < 1000" by (simp add: div_eq_0_iff)
    then show ?thesis using Suc.hyps(1) [OF i(2,3) d(2) lt] d True c digits_small [of ?N] unfolding u by auto
  next
    case False
    then show ?thesis using Suc.hyps(1) [OF i(2,3) d(2) lt] d length_dec_digits_1000 [of ?N] unfolding u by auto
  qed
qed simp


section \<open>Properties\<close>

text \<open>C22: Reading 32 bytes in either byte order gives the normal number they denote, and writing a number back in
  big-endian order restores the bytes and touches nothing else of the buffer.\<close>

theorem bn_bytes_roundtrip:
  assumes "length bs = 32" "off + 32 \<le> length m"
  shows "\<exists>a. bn_read_be bs = Some a \<and> bignum a \<and> bn_val a = be_val bs \<and> bn_read_le (rev bs) = Some a \<and>
    bn_write_be a m off = Some (patch m off bs)"
proof -
  obtain a where a: "bn_read_be bs = Some a" "bignum a" "bn_val a = be_val bs" using bn_read_be_val [OF assms(1)] by blast
  obtain b where b: "bn_read_le (rev bs) = Some b" "bignum b" "bn_val b = be_val bs"
    using bn_read_le_val [of "rev bs"] assms(1) by (auto simp: be_val_def)
  have "a = b" using a b bn_val_inj [of a b] by (simp add: bignum_def)
  moreover have "num_be 32 (be_val bs) = bs" using num_be_be_val [of bs] assms(1) by simp
  ultimately show ?thesis using a b bn_write_be_val [OF a(2) assms(2)] by simp
qed

theorem bn_bytes_roundtrip_witness:
  "\<exists>a. bn_read_be (replicate 32 0xAB) = Some a \<and> bn_write_be a (replicate 40 0) 4 = Some (replicate 4 0 @ replicate 32 0xAB @ replicate 4 0)"
  using bn_bytes_roundtrip [of "replicate 32 0xAB" 4 "replicate 40 0"] by (auto simp: patch_def)

lemma bn_digitcount_val:
  assumes "bignum a" "bn_val a < 10 ^ 78"
  shows "bn_digitcount a = length (dec_digits (bn_val a))"
proof -
  have "(10 :: nat) ^ 78 = 1000 ^ 26" by simp
  then have "bn_val a < 1000 ^ (26 - 0)" using assms(2) by (simp only: diff_zero)
  from bn_digitcount_loop_val [OF _ assms(1) this, of 1]
  show "bn_digitcount a = length (dec_digits (bn_val a))"
    by (cases "bn_val a = 0") (simp_all add: bn_digitcount_def digits_small del: upt_rec_numeral)
qed

text \<open>Division by 58 and by 1000 leaves the quotient and returns the remainder, and the digit count of a number
  below \<open>10 ^ 78\<close>, hence of every 256-bit number, is the number of its decimal digits.\<close>

theorem bn_decimal_result:
  assumes "bignum a" "bn_val a < 10 ^ 78"
  shows "(\<exists>a' r. bn_divmod58 a = (a', r) \<and> bignum a' \<and> bn_val a' = bn_val a div 58 \<and> unat r = bn_val a mod 58) \<and>
    (\<exists>a' r. bn_divmod1000 a = (a', r) \<and> bignum a' \<and> bn_val a' = bn_val a div 1000 \<and> unat r = bn_val a mod 1000) \<and>
    bn_digitcount a = length (dec_digits (bn_val a))"
proof -
  show ?thesis using bn_digitcount_val [OF assms] bn_divmod58_val [OF assms(1)] bn_divmod1000_val [OF assms(1)] by blast
qed

theorem bn_decimal_result_witness:
  "bn_digitcount sample_x = length (dec_digits 0x79be667ef9dcbbac55a06295ce870b07029bfcdb2dce28d959f2815b16f81798)"
  using bn_decimal_result [of sample_x] by (simp add: secp256k1_base_point)

end
