(* ===== verification/Hmac_Spec.thy ===== *)
theory Hmac_Spec
  imports Hmac_Drbg Bignum_Conv
begin

text \<open>
  HMAC of FIPS 198-1 and the HMAC generator of SP 800-90A over SHA-256, on byte strings, and the proof that the code's contexts implement them.
\<close>

section \<open>The specification\<close>

definition key_pad :: "byte \<Rightarrow> byte list \<Rightarrow> byte list" where
  "key_pad p K = map (\<lambda>b. b XOR p) (K @ replicate (64 - length K) 0)"

definition hmac_sha256 :: "byte list \<Rightarrow> byte list \<Rightarrow> byte list" where
  "hmac_sha256 K m =
     (let K0 = (if length K > 64 then fips_SHA256 K else K)
      in fips_SHA256 (key_pad 0x5c K0 @ fips_SHA256 (key_pad 0x36 K0 @ m)))"

text \<open>The functions of the standard on the state \<open>(K, V)\<close>.\<close>

definition drbg_rekey :: "byte \<Rightarrow> byte list \<Rightarrow> byte list \<times> byte list \<Rightarrow> byte list \<times> byte list" where
  "drbg_rekey d x = (\<lambda>(K, V). let K = hmac_sha256 K (V @ d # x) in (K, hmac_sha256 K V))"

definition drbg_update :: "byte list \<Rightarrow> byte list \<times> byte list \<Rightarrow> byte list \<times> byte list" where
  "drbg_update x s = (let s = drbg_rekey 0 x s in if x = [] then s else drbg_rekey 1 x s)"

definition drbg_instantiate :: "byte list \<Rightarrow> byte list \<times> byte list" where
  "drbg_instantiate x = drbg_update x (replicate 32 0, replicate 32 1)"

definition drbg_next :: "byte list \<times> byte list \<Rightarrow> byte list \<times> byte list" where
  "drbg_next = (\<lambda>(K, V). (K, hmac_sha256 K V))"

definition drbg_stream :: "byte list \<times> byte list \<Rightarrow> nat \<Rightarrow> byte list" where
  "drbg_stream s n = concat (map (\<lambda>i. snd ((drbg_next ^^ Suc i) s)) [0..<n])"

text \<open>Enough blocks for \<open>len\<close> bytes, and the update that ends a request.\<close>

definition drbg_generate :: "nat \<Rightarrow> byte list \<times> byte list \<Rightarrow> byte list \<times> (byte list \<times> byte list)" where
  "drbg_generate len s =
     (let n = (len + 31) div 32 in (take len (drbg_stream s n), drbg_update [] ((drbg_next ^^ n) s)))"

section \<open>Words and bytes\<close>

abbreviation wbytes :: "u32 list \<Rightarrow> byte list" where
  "wbytes ws \<equiv> concat (map (be_bytes 4) ws)"

definition v_block :: "u32 list \<Rightarrow> u32 list" where
  "v_block ws = ws @ [0x80000000, 0, 0, 0, 0, 0, 0, 768]"

lemma take_drop_concat: "\<forall>x \<in> set xss. length x = k \<Longrightarrow> j < length xss \<Longrightarrow> take k (drop (k * j) (concat xss)) = xss ! j"
proof (induction xss arbitrary: j)
  case (Cons x xss)
  then show ?case by (cases j) simp_all
qed simp

lemma length_be_bytes [simp]: "length (be_bytes k w) = k"
  by (simp add: be_bytes_def)

lemma word_of_be_4 [simp]: "word_of_be (be_bytes 4 w) = (w :: u32)"
  using sha256.word_of_be_bytes [of w] by (simp add: sha2_alg_simps)

lemma be_bytes_4 [simp]: "length bs = 4 \<Longrightarrow> be_bytes 4 (word_of_be bs :: u32) = bs"
  using le_bytes_of_le_bytes [of "rev bs", where ?'a = 32] by (simp add: be_bytes_def word_of_be_def)

lemma words_of_wbytes: "length ws = 16 \<Longrightarrow> words_of_be 4 (wbytes ws) = ws"
  by (rule nth_equalityI) (simp_all add: words_of_be_def take_drop_concat del: upt_rec_numeral)

lemma length_wbytes [simp]: "length (wbytes ws) = 4 * length ws"
  by (induction ws) simp_all

lemma wbytes_of_bytes: "length bs = 4 * n \<Longrightarrow> \<exists>ws. length ws = n \<and> bs = wbytes ws"
proof (induction n arbitrary: bs)
  case (Suc n)
  then obtain ws where "length ws = n" "drop 4 bs = wbytes ws" by (metis add_diff_cancel_left' length_drop mult_Suc_right)
  then have "length (word_of_be (take 4 bs) # ws) = Suc n \<and> bs = wbytes (word_of_be (take 4 bs) # ws)"
    using Suc.prems by (simp add: min_def) (metis append_take_drop_id)
  then show ?case by blast
qed simp

lemma be_bytes_consts:
  "be_bytes 4 (0x80000000 :: u32) = [0x80, 0, 0, 0]" "be_bytes 4 (0x00800000 :: u32) = [0, 0x80, 0, 0]"
  "be_bytes 4 (0 :: u32) = [0, 0, 0, 0]" "be_bytes 4 (768 :: u32) = [0, 0, 3, 0]" "be_bytes 4 (776 :: u32) = [0, 0, 3, 8]"
  "num_be 8 768 = [0, 0, 0, 0, 0, 0, 3, 0]" "num_be 8 776 = [0, 0, 0, 0, 0, 0, 3, 8]"
  "replicate 23 (0 :: byte) = [0, 0, 0] @ replicate 20 0" "replicate 22 (0 :: byte) = [0, 0] @ replicate 20 0"
  "replicate 20 (0 :: byte) = [0, 0, 0, 0, 0, 0, 0, 0, 0, 0, 0, 0, 0, 0, 0, 0, 0, 0, 0, 0]"
  by code_simp+

lemma wbytes_pad: "wbytes (v_block ws) = wbytes ws @ 0x80 # replicate 23 0 @ num_be 8 768"
  by (simp add: v_block_def be_bytes_consts)

lemma wbytes_pad_0: "wbytes (ws @ [0x00800000, 0, 0, 0, 0, 0, 0, 776]) = wbytes ws @ 0 # 0x80 # replicate 22 0 @ num_be 8 776"
  by (simp add: be_bytes_consts)

section \<open>The digest of a key block and a short message\<close>

abbreviation hashed256 :: "byte list \<Rightarrow> u32 list" where
  "hashed256 \<equiv> hashed sha256_alg"

lemma SHA256_hashed: "fips_SHA256 m = wbytes (hashed256 (md_pad 64 8 m))"
  using sha256.result_hashed [of m] sha256.length_hashed [of "md_pad 64 8 m"]
  by (simp add: fips_SHA256_def digest_fips [symmetric] sha2_alg_simps) (simp add: sha256_initial_hash_value_def)

lemma length_SHA256 [simp]: "length (fips_SHA256 m) = 32"
  by (rule fips_SHA_result(2))

lemma hashed_block:
  assumes "length B = 64" "length ws = 16"
  shows "hashed256 (B @ wbytes ws) = sha256_Transform (hashed256 B) ws"
  using sha256.hashed_fill [of B "wbytes ws"] assms words_of_wbytes [of ws]
  by (simp add: open_block_def sha2_alg_simps)

lemma pad_96: "length m = 96 \<Longrightarrow> md_pad 64 8 m = m @ 0x80 # replicate 23 0 @ num_be 8 768"
  by (simp add: md_pad_def)

lemma pad_97: "length m = 97 \<Longrightarrow> md_pad 64 8 m = m @ 0x80 # replicate 22 0 @ num_be 8 776"
  by (simp add: md_pad_def)

lemma SHA256_block:
  assumes "length B = 64" "length ws = 8"
  shows "fips_SHA256 (B @ wbytes ws) = wbytes (sha256_Transform (hashed256 B) (v_block ws))"
  using hashed_block [OF assms(1), of "v_block ws"] assms unfolding SHA256_hashed wbytes_pad
  by (subst pad_96) (simp_all add: v_block_def)

lemma SHA256_block_0:
  assumes "length B = 64" "length ws = 8"
  shows "fips_SHA256 (B @ wbytes ws @ [0]) = wbytes (sha256_Transform (hashed256 B) (ws @ [0x00800000, 0, 0, 0, 0, 0, 0, 776]))"
  using hashed_block [OF assms(1), of "ws @ [0x00800000, 0, 0, 0, 0, 0, 0, 776]"] assms unfolding SHA256_hashed wbytes_pad_0
  by (subst pad_97) simp_all

lemma length_key_pad [simp]: "length K \<le> 64 \<Longrightarrow> length (key_pad p K) = 64"
  by (simp add: key_pad_def)

text \<open>HMAC of a message, given the inner digest.\<close>

lemma hmac_outer:
  assumes "length ks = 8" "fips_SHA256 (key_pad 0x36 (wbytes ks) @ m) = wbytes hs" "length hs = 8"
  shows "hmac_sha256 (wbytes ks) m = wbytes (sha256_Transform (hashed256 (key_pad 0x5c (wbytes ks))) (v_block hs))"
  using assms by (simp add: hmac_sha256_def SHA256_block)

lemma hmac_words:
  assumes "length ks = 8" "length vs = 8"
  shows "hmac_sha256 (wbytes ks) (wbytes vs) = wbytes (sha256_Transform (hashed256 (key_pad 0x5c (wbytes ks)))
    (v_block (sha256_Transform (hashed256 (key_pad 0x36 (wbytes ks))) (v_block vs))))"
  using assms by (intro hmac_outer) (simp_all add: SHA256_block length_transforms)

section \<open>The context and the abstract state\<close>

definition drbg_holds :: "HMAC_DRBG_CTX \<Rightarrow> byte list \<times> byte list \<Rightarrow> bool" where
  "drbg_holds ctx s \<longleftrightarrow>
     (\<exists>ks vs. length ks = 8 \<and> length vs = 8 \<and> s = (wbytes ks, wbytes vs) \<and> drbg_v ctx = v_block vs \<and>
       idig ctx = hashed256 (key_pad 0x36 (wbytes ks)) \<and> odig ctx = hashed256 (key_pad 0x5c (wbytes ks)))"

lemma patch_v_block: "length ws = 8 \<Longrightarrow> length vs = 8 \<Longrightarrow> patch (v_block vs) 0 ws = v_block ws"
  by (simp add: patch_def v_block_def)

lemma update_v_holds: "drbg_holds ctx s \<Longrightarrow> drbg_holds (update_v ctx) (drbg_next s)"
  unfolding drbg_holds_def
  by (elim exE conjE, intro exI conjI, rule_tac [3] prod_eqI)
    (simp_all add: drbg_next_def update_v_def hmac_words patch_v_block length_transforms Let_def)


section \<open>The key\<close>

lemma byte_cuts:
  "(0x3636 :: byte) = 0x36" "(0x363636 :: byte) = 0x36" "(0x36363636 :: byte) = 0x36"
  "(0x5c5c :: byte) = 0x5c" "(0x5c5c5c :: byte) = 0x5c" "(0x5c5c5c5c :: byte) = 0x5c"
  by simp_all

lemma be_bytes_xor:
  "be_bytes 4 (w XOR 0x36363636 :: u32) = map (\<lambda>b. b XOR 0x36) (be_bytes 4 w)"
  "be_bytes 4 (w XOR 0x5c5c5c5c :: u32) = map (\<lambda>b. b XOR 0x5c) (be_bytes 4 w)"
  by (simp_all add: be_bytes_def le_bytes_def upt_rec drop_bit_xor unsigned_xor_eq byte_cuts)

lemma wbytes_zeros: "wbytes (replicate 8 0) = replicate 32 0"
  by code_simp

lemma key_pad_words:
  assumes "length ks = 8"
  shows "key_pad 0x36 (wbytes ks) = wbytes (map (\<lambda>w. w XOR 0x36363636) (ks @ replicate 8 0))"
    and "key_pad 0x5c (wbytes ks) = wbytes (map (\<lambda>w. w XOR 0x5c5c5c5c) (ks @ replicate 8 0))"
proof -
  have z: "wbytes (ks @ replicate 8 0) = wbytes ks @ replicate (64 - length (wbytes ks)) 0"
    using assms wbytes_zeros by simp
  have "map (\<lambda>b. b XOR p) (wbytes ws) = concat (map (\<lambda>w. map (\<lambda>b. b XOR p) (be_bytes 4 w)) ws)" for p ws
    by (simp add: map_concat comp_def)
  then show "key_pad 0x36 (wbytes ks) = wbytes (map (\<lambda>w. w XOR 0x36363636) (ks @ replicate 8 0))"
    "key_pad 0x5c (wbytes ks) = wbytes (map (\<lambda>w. w XOR 0x5c5c5c5c) (ks @ replicate 8 0))"
    unfolding key_pad_def z [symmetric] by (simp_all only: be_bytes_xor [symmetric] map_map comp_def)
qed

lemma hashed_key:
  assumes "length ks = 8"
  shows "hashed256 (key_pad 0x36 (wbytes ks)) = sha256_Transform sha256_initial_hash_value (map (\<lambda>w. w XOR 0x36363636) (ks @ replicate 8 0))"
    and "hashed256 (key_pad 0x5c (wbytes ks)) = sha256_Transform sha256_initial_hash_value (map (\<lambda>w. w XOR 0x5c5c5c5c) (ks @ replicate 8 0))"
proof -
  have w: "hashed256 (wbytes ws) = sha256_Transform sha256_initial_hash_value ws" if "length ws = 16" for ws
    using sha256.hashed_fill [of "[]" "wbytes ws"] words_of_wbytes [OF that] that
    by (simp add: open_block_def sha2_alg_simps) (simp add: hashed_def md_blocks_short sha2_alg_simps)
  show "hashed256 (key_pad 0x36 (wbytes ks)) = sha256_Transform sha256_initial_hash_value (map (\<lambda>w. w XOR 0x36363636) (ks @ replicate 8 0))"
    "hashed256 (key_pad 0x5c (wbytes ks)) = sha256_Transform sha256_initial_hash_value (map (\<lambda>w. w XOR 0x5c5c5c5c) (ks @ replicate 8 0))"
    unfolding key_pad_words [OF assms] by (rule w, simp add: assms)+
qed

text \<open>The end of \<open>update_k\<close>, from the inner digest \<open>hs\<close> on.\<close>

definition rekeyed :: "HMAC_DRBG_CTX \<Rightarrow> u32 list \<Rightarrow> HMAC_DRBG_CTX" where
  "rekeyed ctx h =
     (let h = h[8 := 0x80000000, 15 := bits_of_bytes (64 + 32)];
          h = patch h 0 (sha256_Transform (odig ctx) h);
          h = h[8 := 0, 15 := 0];
          h = map (\<lambda>x. x XOR 0x36363636) h;
          ctx = ctx\<lparr> idig := sha256_Transform sha256_initial_hash_value h \<rparr>;
          h = map (\<lambda>x. x XOR 0x36363636 XOR 0x5c5c5c5c) h
      in ctx\<lparr> odig := sha256_Transform sha256_initial_hash_value h \<rparr>)"

lemma rekeyed_holds:
  assumes "length ks = 8" "length vs = 8" "length hs = 8" "odig ctx = hashed256 (key_pad 0x5c (wbytes ks))" "drbg_v ctx = v_block vs"
    and "fips_SHA256 (key_pad 0x36 (wbytes ks) @ m) = wbytes hs"
  shows "drbg_holds (rekeyed ctx (hs @ replicate 8 0)) (hmac_sha256 (wbytes ks) m, wbytes vs)"
proof -
  let ?ks = "sha256_Transform (odig ctx) (v_block hs)"
  have k: "length ?ks = 8" by (simp add: length_transforms)
  have h: "(hs @ replicate 8 0)[8 := 0x80000000, 15 := bits_of_bytes (64 + 32)] = v_block hs"
    using assms(3) by (simp add: v_block_def list_update_append eval_nat_numeral)
  have z: "(v_block ?ks)[8 := 0, 15 := 0] = ?ks @ replicate 8 0"
    using k by (simp add: v_block_def list_update_append eval_nat_numeral)
  have x: "map (\<lambda>x. x XOR 0x36363636 XOR 0x5c5c5c5c) (map (\<lambda>x. x XOR 0x36363636) ws) = map (\<lambda>w. w XOR 0x5c5c5c5c) ws" for ws :: "u32 list"
    by (simp add: xor.assoc)
  have "rekeyed ctx (hs @ replicate 8 0) = ctx\<lparr> idig := hashed256 (key_pad 0x36 (wbytes ?ks)), odig := hashed256 (key_pad 0x5c (wbytes ?ks)) \<rparr>"
    unfolding rekeyed_def Let_def h patch_v_block [OF k assms(3)] z x hashed_key [OF k] by simp
  moreover have "hmac_sha256 (wbytes ks) m = wbytes ?ks" using hmac_outer [OF assms(1,6,3)] assms(4) by simp
  ultimately show ?thesis using k assms(2,5) by (auto simp: drbg_holds_def)
qed

lemma update_k_rekeyed:
  "update_k big junk ctx domain data1 data2 =
     (if length data1 + length data2 = 0 then
        Some (rekeyed (ctx\<lparr> drbg_v := (drbg_v ctx)[8 := 0x00800000, 15 := bits_of_bytes (64 + 32 + 1), 8 := 0x80000000, 15 := bits_of_bytes (64 + 32)] \<rparr>)
          (patch (replicate 16 0) 0 (sha256_Transform (idig ctx) ((drbg_v ctx)[8 := 0x00800000, 15 := bits_of_bytes (64 + 32 + 1)]))))
      else drbg_inner big junk ctx domain data1 data2 \<bind> (\<lambda>h. Some (rekeyed ctx h)))"
  by (simp add: update_k_def rekeyed_def Let_def)

lemma of_host_zero: "of_host_bytes big (be_bytes 4 (0 :: u32)) = (0 :: u32)"
  by (cases big) (simp_all add: of_host_bytes_def be_bytes_consts)

text \<open>The memory of the local digest array, read as words.\<close>

lemma digest_words:
  assumes "length hs = 8"
  shows "map (get_word sha256_alg big (to_host_order sha256_alg big 8 (patch (replicate 64 0) 0 (wbytes hs)))) [0..<16] = hs @ replicate 8 0"
    (is "map (get_word _ _ (to_host_order _ _ _ ?h)) _ = ?r")
proof (rule nth_equalityI)
  have h: "?h = wbytes ?r" using assms wbytes_zeros by (simp add: patch_def)
  have l: "length ?h = block_len sha256_alg" using assms by (simp add: sha2_alg_simps)
  fix i
  assume "i < length (map (get_word sha256_alg big (to_host_order sha256_alg big 8 ?h)) [0..<16])"
  then have i: "i < 16" by simp
  have "i < length ?r" using i assms by simp
  then have t: "take 4 (drop (4 * i) ?h) = be_bytes 4 (?r ! i)"
    unfolding h using take_drop_concat [of "map (be_bytes 4) ?r" 4 i] nth_map [of i ?r "be_bytes 4"] by (simp del: map_append)
  have "get_word sha256_alg big (to_host_order sha256_alg big 8 ?h) i = ?r ! i"
  proof (cases "i < 8")
    case True
    then show ?thesis using sha256.to_host_order [OF l, of 8 big] i t by (simp add: sha2_alg_simps)
  next
    case False
    then have "?r ! i = 0" using i assms by (simp add: nth_append)
    then show ?thesis using False sha256.to_host_order [OF l, of 8 big] i t by (simp add: get_word_def sha2_alg_simps of_host_zero)
  qed
  then show "map (get_word sha256_alg big (to_host_order sha256_alg big 8 ?h)) [0..<16] ! i = ?r ! i"
    using i by (simp del: upt_rec_numeral)
qed (simp add: assms)

lemma drbg_inner_result:
  assumes "length B = 64" "length vs = 8" "drbg_v ctx = v_block vs" "idig ctx = hashed256 B" "length junk = 64"
  shows "\<exists>hs. length hs = 8 \<and> drbg_inner big junk ctx d x y = Some (hs @ replicate 8 0) \<and> wbytes hs = fips_SHA256 (B @ wbytes vs @ d # x @ y)"
proof -
  obtain hs where hs: "length hs = 8" "fips_SHA256 (B @ wbytes vs @ d # x @ y) = wbytes hs"
    using wbytes_of_bytes [of "fips_SHA256 (B @ wbytes vs @ d # x @ y)" 8] by auto
  let ?buf = "patch junk 0 (wbytes vs @ [d])" and ?m = "B @ wbytes vs @ [d]"
  let ?ctx = "\<lparr> sha_state = idig ctx, sha_bitcount = (64 + 32 + 1) * 8, sha_buffer = ?buf \<rparr>"
  have v: "map (\<lambda>j. drbg_v ctx ! j) [0..<8] = vs"
    using assms(2,3) by (intro nth_equalityI) (simp_all add: v_block_def nth_append del: upt_rec_numeral)
  have "hashed256 ?m = hashed256 B" using sha256.hashed_add [of B "wbytes vs @ [d]"] assms(1,2) by (simp add: sha2_alg_simps)
  then have "sha_holds bits64 sha256_alg ?ctx ?m"
    using assms by (simp add: sha_holds_def sha2_alg_simps bits64_def open_block_def) (simp add: patch_def)
  then obtain c1 where c1: "sha256_Update big ?ctx x = Some c1" "sha_holds bits64 sha256_alg c1 (?m @ x)"
    using sha256.holds_Update unfolding sha256_Update_def by blast
  then obtain c2 where c2: "sha256_Update big c1 y = Some c2" "sha_holds bits64 sha256_alg c2 ((?m @ x) @ y)"
    using sha256.holds_Update unfolding sha256_Update_def by blast
  have "sha256_Final big c2 (Ptr (replicate 64 0)) = Some (Ptr (patch (replicate 64 0) 0 (wbytes hs)), sha_cleared sha256_alg)"
    using sha256.holds_Final [OF c2(2), of "replicate 64 0" big] hs(2)
    by (simp add: sha256_Final_def sha2_alg_simps digest_fips fips_SHA256_def)
  moreover have "mem_blit junk 0 (wbytes vs) \<bind> (\<lambda>b. mem_put b 32 d) = Some ?buf"
    using assms(2,5) by (simp add: mem_simps)
  ultimately have "drbg_inner big junk ctx d x y = Some (hs @ replicate 8 0)"
    using c1(1) c2(1) assms(2,5) digest_words [OF hs(1), of big]
    by (simp add: drbg_inner_def v sha256.state_bytes sha2_alg_simps mem_simps del: upt_rec_numeral)
  then show ?thesis using hs by auto
qed

lemma update_k_holds:
  assumes "drbg_holds ctx (K, V)" "length junk = 64" "d = 0 \<or> x \<noteq> [] \<or> y \<noteq> []"
  shows "\<exists>ctx'. update_k big junk ctx d x y = Some ctx' \<and> drbg_holds ctx' (hmac_sha256 K (V @ d # x @ y), V)"
proof -
  obtain ks vs where s: "length ks = 8" "length vs = 8" "K = wbytes ks" "V = wbytes vs" "drbg_v ctx = v_block vs"
    "idig ctx = hashed256 (key_pad 0x36 (wbytes ks))" "odig ctx = hashed256 (key_pad 0x5c (wbytes ks))"
    using assms(1) by (auto simp: drbg_holds_def)
  have B: "length (key_pad 0x36 (wbytes ks)) = 64" using s(1) by simp
  show ?thesis
  proof (cases "x = [] \<and> y = []")
    case True
    then have d: "d = 0" using assms(3) by simp
    let ?w = "vs @ [0x00800000, 0, 0, 0, 0, 0, 0, 776]"
    let ?hs = "sha256_Transform (idig ctx) ?w"
    let ?ctx = "ctx\<lparr> drbg_v := v_block vs \<rparr>"
    have v: "(v_block vs)[8 := 0x00800000, 15 := bits_of_bytes (64 + 32 + 1)] = ?w"
      "?w[8 := 0x80000000, 15 := bits_of_bytes (64 + 32)] = v_block vs"
      using s(2) by (simp_all add: v_block_def list_update_append eval_nat_numeral)
    have p: "patch (replicate 16 0) 0 ?hs = ?hs @ replicate 8 0" by (simp add: patch_def length_transforms)
    have "update_k big junk ctx d x y = Some (rekeyed ?ctx (?hs @ replicate 8 0))"
      unfolding update_k_rekeyed s(5) v p using True by simp
    moreover have "fips_SHA256 (key_pad 0x36 (wbytes ks) @ V @ d # x @ y) = wbytes ?hs"
      using SHA256_block_0 [OF B s(2)] True d s(4,6) by simp
    ultimately show ?thesis
      using rekeyed_holds [OF s(1,2), of ?hs ?ctx "V @ d # x @ y"] s by (auto simp: length_transforms)
  next
    case False
    obtain hs where hs: "length hs = 8" "drbg_inner big junk ctx d x y = Some (hs @ replicate 8 0)"
      "wbytes hs = fips_SHA256 (key_pad 0x36 (wbytes ks) @ wbytes vs @ d # x @ y)"
      using drbg_inner_result [OF B s(2,5,6) assms(2)] by blast
    then have "update_k big junk ctx d x y = Some (rekeyed ctx (hs @ replicate 8 0))"
      unfolding update_k_rekeyed using False by auto
    then show ?thesis using rekeyed_holds [OF s(1,2) hs(1) s(7,5), of "V @ d # x @ y"] hs(3) s(3,4) by auto
  qed
qed

lemma rekey_holds:
  assumes "drbg_holds ctx s" "length junk = 64" "d = 0 \<or> x \<noteq> [] \<or> y \<noteq> []"
  shows "\<exists>ctx'. update_k big junk ctx d x y = Some ctx' \<and> drbg_holds (update_v ctx') (drbg_rekey d (x @ y) s)"
proof -
  obtain K V where s: "s = (K, V)" by (cases s)
  obtain ctx' where "update_k big junk ctx d x y = Some ctx'" "drbg_holds ctx' (hmac_sha256 K (V @ d # x @ y), V)"
    using update_k_holds assms unfolding s by blast
  moreover from update_v_holds [OF this(2)] have "drbg_holds (update_v ctx') (drbg_rekey d (x @ y) s)"
    by (simp add: drbg_next_def drbg_rekey_def s Let_def)
  ultimately show ?thesis by blast
qed

lemma reseed_holds:
  assumes "drbg_holds ctx s" "length junk = 64" "x \<noteq> [] \<or> y = []"
  shows "\<exists>ctx'. hmac_drbg_reseed big junk ctx x y = Some ctx' \<and> drbg_holds ctx' (drbg_update (x @ y) s)"
proof -
  obtain c1 where c1: "update_k big junk ctx 0 x y = Some c1" "drbg_holds (update_v c1) (drbg_rekey 0 (x @ y) s)"
    using rekey_holds [OF assms(1,2)] by blast
  show ?thesis
  proof (cases "x = []")
    case True
    then show ?thesis using c1 assms(3) by (simp add: hmac_drbg_reseed_def drbg_update_def Let_def)
  next
    case False
    obtain c2 where "update_k big junk (update_v c1) 1 x y = Some c2"
      "drbg_holds (update_v c2) (drbg_rekey 1 (x @ y) (drbg_rekey 0 (x @ y) s))"
      using rekey_holds [OF c1(2) assms(2)] False by blast
    then show ?thesis using c1 False by (simp add: hmac_drbg_reseed_def drbg_update_def Let_def)
  qed
qed

lemma init_state_bytes:
  "wbytes (replicate 8 0) = replicate 32 0" "wbytes (replicate 8 0x01010101) = replicate 32 1"
  by code_simp+

definition zero_ctx :: HMAC_DRBG_CTX where
  "zero_ctx = \<lparr> odig = sha256_Transform sha256_initial_hash_value (replicate 16 0x5c5c5c5c),
     idig = sha256_Transform sha256_initial_hash_value (replicate 16 0x36363636), drbg_v = v_block (replicate 8 0x01010101) \<rparr>"

lemma zero_ctx_holds: "drbg_holds zero_ctx (replicate 32 0, replicate 32 1)"
proof -
  have k: "map (\<lambda>w. w XOR p) (replicate 8 0 @ replicate 8 0) = (replicate 16 p :: u32 list)" for p by (simp add: eval_nat_numeral)
  show ?thesis
    unfolding drbg_holds_def zero_ctx_def using hashed_key [of "replicate 8 0"] k
    by (rule_tac exI [of _ "replicate 8 0"], rule_tac exI [of _ "replicate 8 0x01010101"]) (simp add: init_state_bytes [simplified map_replicate])
qed

lemma init_holds:
  assumes "length junk = 64" "x \<noteq> [] \<or> y = []" "length (drbg_v ctx) = 16"
  shows "\<exists>ctx'. hmac_drbg_init big junk ctx x y = Some ctx' \<and> drbg_holds ctx' (drbg_instantiate (x @ y))"
proof -
  have v: "(fold (\<lambda>i v. v[i := 0]) [9..<15] (patch xs 0 (replicate 8 0x01010101)))[8 := 0x80000000, 15 := bits_of_bytes (64 + 32)] =
      v_block (replicate 8 0x01010101)" if "length xs = 16" for xs
    using that by (intro nth_equalityI) (simp_all add: v_block_def patch_def nth_list_update nth_append nth_Cons' upt_rec)
  have l: "length (drbg_v (ctx\<lparr> idig := a, odig := b \<rparr>)) = 16" for a b using assms(3) by simp
  have "ctx\<lparr> idig := sha256_Transform sha256_initial_hash_value (replicate 16 0x36363636),
      odig := sha256_Transform sha256_initial_hash_value (replicate 16 0x5c5c5c5c), drbg_v := v_block (replicate 8 0x01010101) \<rparr> = zero_ctx"
    by (simp add: zero_ctx_def)
  then have "drbg_holds (ctx\<lparr> idig := sha256_Transform sha256_initial_hash_value (replicate 16 0x36363636),
      odig := sha256_Transform sha256_initial_hash_value (replicate 16 0x5c5c5c5c), drbg_v := v_block (replicate 8 0x01010101) \<rparr>)
      (replicate 32 0, replicate 32 1)" by (simp only: zero_ctx_holds)
  from reseed_holds [OF this assms(1,2)] show ?thesis
    unfolding hmac_drbg_init_def drbg_instantiate_def Let_def v [OF l] .
qed

section \<open>Generating\<close>

lemma put_bytes_result:
  "len \<le> length buf \<Longrightarrow> i \<le> len \<Longrightarrow> put_bytes len r ks (i, buf) =
     Some (i + min (len - i) (length ks), patch buf i (take (len - i) (map (\<lambda>k. ucast (drop_bit k r AND 0xFF)) ks)))"
proof (induction ks arbitrary: i buf)
  case (Cons k ks)
  show ?case
  proof (cases "i < len")
    case True
    let ?b = "ucast (drop_bit k r AND 0xFF) :: byte"
    have t: "take (len - i) (map (\<lambda>k. ucast (drop_bit k r AND 0xFF)) (k # ks)) =
        [?b] @ take (len - (i + 1)) (map (\<lambda>k. ucast (drop_bit k r AND 0xFF)) ks)"
      using True by (simp add: take_Cons')
    have "put_bytes len r (k # ks) (i, buf) = put_bytes len r ks (i + 1, patch buf i [?b])"
      using True Cons.prems by (simp add: mem_simps)
    also have "\<dots> = Some (i + 1 + min (len - (i + 1)) (length ks),
        patch buf i ([?b] @ take (len - (i + 1)) (map (\<lambda>k. ucast (drop_bit k r AND 0xFF)) ks)))"
      using True Cons.prems by (subst Cons.IH) (simp_all add: mem_simps)
    also have "i + 1 + min (len - (i + 1)) (length ks) = i + min (len - i) (length (k # ks))" using True by simp
    finally show ?thesis unfolding t .
  qed simp
qed simp

lemma word_bytes: "map (\<lambda>k. ucast (drop_bit k r AND 0xFF)) [24, 16, 8, 0] = be_bytes 4 (r :: u32)"
proof -
  have "ucast (w AND mask 8) = (ucast w :: byte)" for w :: u32 by (intro bit_word_eqI) (auto simp: bit_simps)
  then show ?thesis by (simp add: be_bytes_def le_bytes_def upt_rec mask_eq_exp_minus_1)
qed

lemma put_words_result:
  "len \<le> length buf \<Longrightarrow> i \<le> len \<Longrightarrow> put_words len rs (i, buf) =
     Some (i + min (len - i) (4 * length rs), patch buf i (take (len - i) (wbytes rs)))"
proof (induction rs arbitrary: i buf)
  case (Cons r rs)
  show ?case
  proof (cases "i < len")
    case True
    let ?j = "i + min (len - i) 4"
    have j: "?j \<le> len" using True by simp
    have f: "put_bytes len r [24, 16, 8, 0] (i, buf) = Some (?j, patch buf i (take (len - i) (be_bytes 4 r)))"
      using Cons.prems unfolding word_bytes [symmetric] by (subst put_bytes_result) simp_all
    have l: "len \<le> length (patch buf i (take (len - i) (be_bytes 4 r)))" using Cons.prems by simp
    have p: "patch (patch buf i (take (len - i) (be_bytes 4 r))) ?j (take (len - ?j) (wbytes rs)) =
        patch buf i (take (len - i) (be_bytes 4 r) @ take (len - ?j) (wbytes rs))"
      using Cons.prems True by (intro patch_append) auto
    have t: "take (len - i) (be_bytes 4 r) @ take (len - ?j) (wbytes rs) = take (len - i) (wbytes (r # rs))" by (simp add: min_def)
    show ?thesis using True f Cons.IH [OF l j] by (simp add: p t del: put_bytes.simps)
  qed simp
qed simp

lemma drbg_stream_Suc: "drbg_stream s (Suc n) = snd (drbg_next s) @ drbg_stream (drbg_next s) n"
  unfolding drbg_stream_def upt_conv_Cons [OF zero_less_Suc] map_Suc_upt [symmetric]
  by (simp add: funpow_Suc_right comp_def del: funpow.simps)

lemma block_count: "0 < d \<Longrightarrow> (d + 31) div 32 = Suc ((d - min d 32 + 31) div 32)" for d :: nat
proof (cases "d \<le> 32")
  case False
  then have "d + 31 = 32 + (d - min d 32 + 31)" by simp
  then show ?thesis by simp
qed (auto intro: div_nat_eqI)

lemma drbg_v_words:
  assumes "drbg_holds ctx s"
  shows "wbytes (map (\<lambda>j. drbg_v ctx ! j) [0..<8]) = snd s"
proof -
  obtain vs where v: "length vs = 8" "drbg_v ctx = v_block vs" "snd s = wbytes vs" using assms by (auto simp: drbg_holds_def)
  have "map (\<lambda>j. drbg_v ctx ! j) [0..<8] = vs"
    using v by (intro nth_equalityI) (simp_all add: v_block_def nth_append del: upt_rec_numeral)
  then show ?thesis using v(3) by simp
qed

lemma drbg_loop_result:
  assumes "drbg_holds ctx s" "len \<le> length buf" "i \<le> len"
  shows "\<exists>ctx'. hmac_drbg_loop len ctx i buf = Some (ctx', patch buf i (take (len - i) (drbg_stream s ((len - i + 31) div 32)))) \<and>
    drbg_holds ctx' ((drbg_next ^^ ((len - i + 31) div 32)) s)"
  using assms
proof (induction "len - i" arbitrary: ctx s i buf rule: less_induct)
  case less
  show ?case
  proof (cases "i < len")
    case True
    let ?ctx = "update_v ctx" and ?s = "drbg_next s" and ?j = "i + min (len - i) 32" and ?n = "(len - i + 31) div 32"
    let ?m = "(len - ?j + 31) div 32" and ?buf = "patch buf i (take (len - i) (snd (drbg_next s)))"
    have h: "drbg_holds ?ctx ?s" using less.prems(1) by (rule update_v_holds)
    have w: "put_words len (map (\<lambda>j. drbg_v ?ctx ! j) [0..<8]) (i, buf) = Some (?j, ?buf)"
      using put_words_result [OF less.prems(2,3)] drbg_v_words [OF h] by (simp del: upt_rec_numeral put_words.simps)
    have l: "length (snd ?s) = 32" using drbg_v_words [OF h] length_wbytes [of "map (\<lambda>j. drbg_v ?ctx ! j) [0..<8]"]
      by (simp del: upt_rec_numeral)
    have n: "?n = Suc ?m" using block_count [of "len - i"] True by (simp add: diff_diff_add)
    have j: "len - ?j < len - i" "?j \<le> len" using True by simp_all
    have "i + length (take (len - i) (snd ?s)) \<le> length buf" using less.prems(2) True l by auto
    then have b: "len \<le> length ?buf" using less.prems(2) by (simp only: length_patch)
    obtain ctx' where c: "hmac_drbg_loop len ?ctx ?j ?buf = Some (ctx', patch ?buf ?j (take (len - ?j) (drbg_stream ?s ?m)))"
      "drbg_holds ctx' ((drbg_next ^^ ?m) ?s)"
      using less.hyps [OF j(1) h _ j(2), of ?buf] b by blast
    have "patch ?buf ?j (take (len - ?j) (drbg_stream ?s ?m)) = patch buf i (take (len - i) (snd ?s) @ take (len - ?j) (drbg_stream ?s ?m))"
    proof (rule patch_append)
      have x: "length (take (len - ?j) (drbg_stream ?s ?m)) \<le> len - ?j" by simp
      show e: "?j = i + length (take (len - i) (snd ?s))" using l by (simp add: min.commute)
      have "?j + length (take (len - ?j) (drbg_stream ?s ?m)) \<le> ?j + (len - ?j)" using x by (rule add_left_mono)
      also have "\<dots> = len" using j(2) by (rule le_add_diff_inverse)
      also note less.prems(2)
      finally show "i + length (take (len - i) (snd ?s)) + length (take (len - ?j) (drbg_stream ?s ?m)) \<le> length buf"
        by (simp only: e [symmetric])
    qed
    also have "take (len - i) (snd ?s) @ take (len - ?j) (drbg_stream ?s ?m) = take (len - i) (drbg_stream s ?n)"
      unfolding n drbg_stream_Suc using l by (simp add: min_def)
    finally show ?thesis
      using c True w n by (subst hmac_drbg_loop.simps) (simp add: Let_def funpow_Suc_right del: funpow.simps upt_rec_numeral)
  next
    case False
    then show ?thesis using less.prems by (subst hmac_drbg_loop.simps) simp
  qed
qed

lemma generate_holds:
  assumes "drbg_holds ctx s" "length junk = 64" "len \<le> length buf"
  shows "\<exists>ctx'. hmac_drbg_generate big junk ctx buf len = Some (ctx', patch buf 0 (fst (drbg_generate len s))) \<and>
    drbg_holds ctx' (snd (drbg_generate len s))"
proof -
  let ?s = "(drbg_next ^^ ((len + 31) div 32)) s"
  obtain c where c: "hmac_drbg_loop len ctx 0 buf = Some (c, patch buf 0 (take len (drbg_stream s ((len + 31) div 32))))" "drbg_holds c ?s"
    using drbg_loop_result [OF assms(1,3), of 0] by auto
  obtain c' where "update_k big junk c 0 [] [] = Some c'" "drbg_holds (update_v c') (drbg_rekey 0 [] ?s)"
    using rekey_holds [OF c(2) assms(2), of 0 "[]" "[]"] by auto
  then show ?thesis using c by (simp add: hmac_drbg_generate_def drbg_generate_def drbg_update_def Let_def)
qed

section \<open>The properties\<close>

text \<open>C18: \<open>hmac_drbg_init\<close>, \<open>hmac_drbg_reseed\<close> and \<open>hmac_drbg_generate\<close> are the instantiate, update and generate functions of SP 800-90A
  over HMAC-SHA-256 on the state \<open>(K, V)\<close>, on hosts of both byte orders and whatever the uninitialised local context holds. Reseeding with
  additional input but no entropy is excluded: there the code returns after the first half of the update.\<close>

theorem hmac_drbg_refines:
  assumes "drbg_holds ctx s" "length junk = 64" "x \<noteq> [] \<or> y = []" "len \<le> length buf" "length (drbg_v raw) = 16"
  shows "(\<exists>c. hmac_drbg_init big junk raw x y = Some c \<and> drbg_holds c (drbg_instantiate (x @ y))) \<and>
    (\<exists>c. hmac_drbg_reseed big junk ctx x y = Some c \<and> drbg_holds c (drbg_update (x @ y) s)) \<and>
    (\<exists>c. hmac_drbg_generate big junk ctx buf len = Some (c, patch buf 0 (fst (drbg_generate len s))) \<and>
      drbg_holds c (snd (drbg_generate len s)))"
  using init_holds [OF assms(2,3,5)] reseed_holds [OF assms(1-3)] generate_holds [OF assms(1,2,4)] by blast

theorem hmac_drbg_refines_witness:
  "\<exists>c. hmac_drbg_generate False (replicate 64 7) zero_ctx (replicate 40 0) 40 =
    Some (c, patch (replicate 40 0) 0 (fst (drbg_generate 40 (replicate 32 0, replicate 32 1))))"
  using hmac_drbg_refines [OF zero_ctx_holds, of "replicate 64 7" "[]" "[]" 40 "replicate 40 0" zero_ctx False]
  by (auto simp: zero_ctx_def v_block_def)

lemma length_generate_32 [simp]: "length (snd s) = 32 \<Longrightarrow> length (fst (drbg_generate 32 s)) = 32"
  by (cases s) (simp add: drbg_generate_def drbg_stream_def drbg_next_def hmac_sha256_def Let_def)

text \<open>C17: The generator of RFC 6979: the state is instantiated from the private key and the hash, as they are, and every number drawn is the next 32
  bytes of the stream, read big-endian.\<close>

theorem rfc6979_result:
  assumes "32 \<le> length priv" "32 \<le> length hash" "length (drbg_v raw) = 16" "length junk = 64" "drbg_holds ctx s"
  shows "(\<exists>c. init_rfc6979 big junk priv hash raw = Some c \<and> drbg_holds c (drbg_instantiate (take 32 priv @ take 32 hash))) \<and>
    (\<exists>k c. generate_k_rfc6979 big junk ctx = Some (k, c) \<and> bignum k \<and> bn_val k = be_val (fst (drbg_generate 32 s)) \<and>
      drbg_holds c (snd (drbg_generate 32 s)))"
proof -
  have "take 32 priv \<noteq> [] \<or> take 32 hash = []" using assms(1) by auto
  from init_holds [OF assms(4) this assms(3)] have i: "\<exists>c. init_rfc6979 big junk priv hash raw = Some c \<and>
      drbg_holds c (drbg_instantiate (take 32 priv @ take 32 hash))"
    using assms(1,2) by (simp add: init_rfc6979_def)
  have l: "length (fst (drbg_generate 32 s)) = 32" using assms(5) by (auto simp: drbg_holds_def)
  then have p: "patch (replicate 32 0) 0 (fst (drbg_generate 32 s)) = fst (drbg_generate 32 s)" by (simp add: patch_def)
  obtain c where "hmac_drbg_generate big junk ctx (replicate 32 0) 32 = Some (c, fst (drbg_generate 32 s))" "drbg_holds c (snd (drbg_generate 32 s))"
    using generate_holds [OF assms(5,4), of 32 "replicate 32 0" big] p by auto
  then show ?thesis using i bn_read_be_val [OF l] by (auto simp: generate_k_rfc6979_def generate_rfc6979_def)
qed

theorem rfc6979_result_witness:
  "\<exists>c. init_rfc6979 True (replicate 64 0) (replicate 32 1) (replicate 32 2) zero_ctx = Some c \<and>
    drbg_holds c (drbg_instantiate (replicate 32 1 @ replicate 32 2))"
  using rfc6979_result [of "replicate 32 1" "replicate 32 2" zero_ctx "replicate 64 0", OF _ _ _ _ zero_ctx_holds, of True]
  by (simp add: zero_ctx_def v_block_def)

end
