(* ===== verification/Rand.thy ===== *)
theory Rand
  imports Emb_Prelude "HOL-Library.Multiset"
begin

text \<open>
  \<open>src/crypto/rand.c\<close>: the linear congruential generator of the test build and what is built on it. The static
  variable \<open>seed\<close> is the state that every operation takes and returns. \<open>random_uniform\<close> draws until a number is
  below its limit; the loop is a partial function, and it ends from every seed because the generator takes both
  halves of the range within \<open>2 ^ 31\<close> steps.
\<close>

section \<open>The code\<close>

definition random_reseed :: "u32 \<Rightarrow> u32" where
  "random_reseed v = v"

definition random32 :: "u32 \<Rightarrow> u32 \<times> u32" where
  "random32 seed = (let seed = 1664525 * seed + 1013904223 in (seed, seed))"

text \<open>One round of the loop of \<open>random_buffer\<close>: a new number every fourth byte.\<close>

definition random_buffer_step :: "nat \<Rightarrow> byte list \<times> u32 \<times> u32 \<Rightarrow> (byte list \<times> u32 \<times> u32) option" where
  "random_buffer_step i = (\<lambda>(buf, r, seed).
     let (r, seed) = (if i mod 4 = 0 then random32 seed else (r, seed)) in do {
       buf \<leftarrow> mem_put buf i (ucast (drop_bit (i mod 4 * 8) r AND 0xFF));
       Some (buf, r, seed)
     })"

fun random_buffer_loop :: "nat list \<Rightarrow> byte list \<times> u32 \<times> u32 \<Rightarrow> (byte list \<times> u32 \<times> u32) option" where
  "random_buffer_loop [] s = Some s"
| "random_buffer_loop (i # is) s = random_buffer_step i s \<bind> random_buffer_loop is"

definition random_buffer :: "byte list \<Rightarrow> nat \<Rightarrow> u32 \<Rightarrow> (byte list \<times> u32) option" where
  "random_buffer buf len seed = do {
     (buf, r, seed) \<leftarrow> random_buffer_loop [0..<len] (buf, 0, seed);
     Some (buf, seed)
   }"

text \<open>\<open>random_uniform\<close> divides by its argument; the loop has no bound of its own.\<close>

partial_function (option) random_below :: "u32 \<Rightarrow> u32 \<Rightarrow> (u32 \<times> u32) option" where
  "random_below m seed =
     (let (x, seed) = random32 seed in if x \<ge> m then random_below m seed else Some (x, seed))"

definition random_uniform :: "u32 \<Rightarrow> u32 \<Rightarrow> (u32 \<times> u32) option" where
  "random_uniform n seed =
     (if n = 0 then None
      else let m = 0xFFFFFFFF - 0xFFFFFFFF mod n in do {
        (x, seed) \<leftarrow> random_below m seed;
        Some (x div (m div n), seed)
      })"

text \<open>The exchange of \<open>random_permute\<close>, from the last index down to 1; the index is an \<open>int\<close>.\<close>

fun random_permute_loop :: "nat list \<Rightarrow> string \<Rightarrow> u32 \<Rightarrow> (string \<times> u32) option" where
  "random_permute_loop [] str seed = Some (str, seed)"
| "random_permute_loop (i # is) str seed = (if int i + 1 > INT_MAX then None else do {
     (j, seed) \<leftarrow> random_uniform (word_of_nat (i + 1)) seed;
     t \<leftarrow> mem_get str (unat j);
     s \<leftarrow> mem_get str i;
     str \<leftarrow> mem_put str (unat j) s;
     str \<leftarrow> mem_put str i t;
     random_permute_loop is str seed
   })"

definition random_permute :: "string \<Rightarrow> nat \<Rightarrow> u32 \<Rightarrow> (string \<times> u32) option" where
  "random_permute str len seed = random_permute_loop (rev [1..<nat (signed_take_bit 31 (int len - 1) + 1)]) str seed"

section \<open>The generator\<close>

definition lcg :: "u32 \<Rightarrow> u32" where
  "lcg s = 1664525 * s + 1013904223"

lemma random32_eq: "random32 s = (lcg s, lcg s)"
  by (simp add: random32_def lcg_def Let_def)

text \<open>\<open>2 ^ k\<close> steps are again a linear map; its coefficients square and double.\<close>

fun lcg_pow2 :: "nat \<Rightarrow> u32 \<times> u32" where
  "lcg_pow2 0 = (1664525, 1013904223)"
| "lcg_pow2 (Suc k) = (let (a, c) = lcg_pow2 k in (a * a, c * (a + 1)))"

lemma lcg_pow2: "(lcg ^^ (2 ^ k)) s = fst (lcg_pow2 k) * s + snd (lcg_pow2 k)"
proof (induction k arbitrary: s)
  case 0
  then show ?case by (simp add: lcg_def)
next
  case (Suc k)
  have "(lcg ^^ (2 ^ Suc k)) s = (lcg ^^ (2 ^ k)) ((lcg ^^ (2 ^ k)) s)"
    by (simp only: power_Suc mult_2 funpow_add comp_apply)
  then show ?case by (simp add: Suc case_prod_beta Let_def algebra_simps)
qed

lemma lcg_pow2_31: "lcg_pow2 31 = (1, 0x80000000)"
  by code_simp

lemma lcg_half_period: "(lcg ^^ (2 ^ 31)) s = s + 0x80000000"
  using lcg_pow2 [of 31 s] by (simp only: lcg_pow2_31 fst_conv snd_conv mult_1)

lemma lcg_half_hit: "s < 0x80000000 \<or> (lcg ^^ (2 ^ 31)) s < (0x80000000 :: u32)"
proof -
  have "(unat s + 2147483648) mod 4294967296 < 2147483648" if "\<not> unat s < 2147483648"
    using that unsigned_less [of s, where ?'a = nat] by (simp add: le_mod_geq)
  then show ?thesis unfolding lcg_half_period by (auto simp: word_less_nat_alt unat_word_ariths)
qed

section \<open>Numbers below a bound\<close>

declare random_below.simps [code]

lemma random_below_hit:
  "(lcg ^^ Suc k) seed < m \<Longrightarrow> \<exists>x. random_below m seed = Some (x, x) \<and> x < m"
proof (induction k arbitrary: seed)
  case 0
  then show ?case by (subst random_below.simps) (auto simp: random32_eq)
next
  case (Suc k)
  show ?case
  proof (cases "lcg seed < m")
    case True
    then show ?thesis by (subst random_below.simps) (auto simp: random32_eq)
  next
    case False
    have "(lcg ^^ Suc k) (lcg seed) < m" using Suc.prems by (simp add: funpow_swap1)
    then show ?thesis using Suc.IH False by (subst random_below.simps) (simp add: random32_eq)
  qed
qed

lemma random_below_total:
  assumes "0x80000000 \<le> m"
  shows "\<exists>x. random_below m seed = Some (x, x) \<and> x < m"
proof -
  consider "lcg seed < 0x80000000" | "(lcg ^^ (2 ^ 31)) (lcg seed) < 0x80000000" using lcg_half_hit by blast
  then show ?thesis
  proof cases
    case 1
    then have "(lcg ^^ Suc 0) seed < m" using assms by simp
    then show ?thesis by (rule random_below_hit)
  next
    case 2
    have "(lcg ^^ Suc (2 ^ 31)) seed = (lcg ^^ (2 ^ 31)) (lcg seed)" by (simp only: funpow_Suc_right comp_apply)
    then have "(lcg ^^ Suc (2 ^ 31)) seed < m" using 2 assms by (simp only: order_less_le_trans)
    then show ?thesis by (rule random_below_hit)
  qed
qed

lemma limit_bounds:
  fixes n :: u32
  assumes "n \<noteq> 0"
  defines "m \<equiv> 0xFFFFFFFF - 0xFFFFFFFF mod n"
  shows "0x80000000 \<le> m" and "unat m = unat n * (unat (0xFFFFFFFF :: u32) div unat n)" and "0 < unat m div unat n"
proof -
  let ?M = "unat (0xFFFFFFFF :: u32)"
  have M: "?M = 4294967295" by simp
  have n: "0 < unat n" "unat n \<le> ?M" using assms(1) unsigned_less [of n, where ?'a = nat] by (simp_all add: unat_gt_0)
  have "0xFFFFFFFF mod n \<le> (0xFFFFFFFF :: u32)" by (simp add: word_le_nat_alt unat_mod)
  then have m: "unat m = ?M - ?M mod unat n" unfolding m_def by (simp only: unat_sub unat_mod)
  then show v: "unat m = unat n * (?M div unat n)" by (simp only: minus_mod_eq_mult_div)
  show "0 < unat m div unat n" using n unfolding v by (simp only: nonzero_mult_div_cancel_left div_greater_zero_iff)
  have "2147483648 \<le> unat m"
  proof (cases "unat n \<le> 2147483648")
    case True
    then have "?M mod unat n < 2147483648" using n(1) mod_less_divisor [of "unat n" ?M] by linarith
    then show ?thesis using m M by linarith
  next
    case False
    then have "?M div unat n = 1" using n M by (intro div_nat_eqI) simp_all
    then show ?thesis using False v by simp
  qed
  then show "0x80000000 \<le> m" by (simp add: word_le_nat_alt)
qed

lemma random_uniform_less:
  assumes "n \<noteq> 0"
  shows "\<exists>x s. random_uniform n seed = Some (x, s) \<and> x < n"
proof -
  let ?m = "0xFFFFFFFF - 0xFFFFFFFF mod n"
  note b = limit_bounds [OF assms]
  obtain x where x: "random_below ?m seed = Some (x, x)" "x < ?m" using random_below_total [OF b(1)] by blast
  have n: "0 < unat n" using assms by (simp add: unat_gt_0)
  have "unat x < unat ?m" using x(2) by (simp only: word_less_nat_alt)
  also have "unat ?m = unat n * (unat ?m div unat n)" unfolding b(2) using n by simp
  finally have "x div (?m div n) < n" unfolding word_less_nat_alt unat_div by (rule less_mult_imp_div_less)
  then show ?thesis using assms x(1) by (simp add: random_uniform_def Let_def)
qed

section \<open>Permutation\<close>


section \<open>Permutation\<close>

lemma random_permute_loop_mset:
  assumes "\<forall>i \<in> set is. 0 < i \<and> i < n \<and> int i < INT_MAX" "n \<le> length str"
  shows "\<exists>str' s. random_permute_loop is str seed = Some (str', s) \<and> length str' = length str \<and> mset str' = mset str \<and> drop n str' = drop n str"
  using assms
proof (induction "is" arbitrary: str seed)
  case (Cons i "is")
  have i: "0 < i" "i < n" "int i + 1 \<le> INT_MAX" using Cons.prems(1) by auto
  then have u: "unat (word_of_nat (i + 1) :: u32) = i + 1" by (simp add: unat_of_nat take_bit_eq_mod INT_MAX_def del: of_nat_add of_nat_Suc)
  then have "(word_of_nat (i + 1) :: u32) \<noteq> 0" by (metis unat_0 add_is_0 zero_neq_one)
  then obtain j s where j: "random_uniform (word_of_nat (i + 1)) seed = Some (j, s)" "j < word_of_nat (i + 1)"
    using random_uniform_less by blast
  then have "unat j \<le> i" using u by (simp add: word_less_nat_alt)
  then have l: "unat j < length str" "i < length str" "unat j < n" using i Cons.prems(2) by simp_all
  let ?str = "str[unat j := str ! i, i := str ! unat j]"
  have m: "mset ?str = mset str" using l by (simp add: mset_swap)
  have d: "drop n ?str = drop n str" using i l by simp
  obtain str' s' where "random_permute_loop is ?str s = Some (str', s')" "length str' = length ?str" "mset str' = mset ?str"
      "drop n str' = drop n ?str"
    using Cons.IH [of ?str s] Cons.prems by auto
  then show ?case using i l j(1) m d by (simp add: mem_put_def not_less)
qed simp

section \<open>Buffers\<close>

text \<open>Byte \<open>i\<close> of the stream that a seed generates.\<close>

definition stream_byte :: "u32 \<Rightarrow> nat \<Rightarrow> byte" where
  "stream_byte seed i = ucast (drop_bit (8 * (i mod 4)) ((lcg ^^ Suc (i div 4)) seed))"

lemma random_buffer_loop_append: "random_buffer_loop (is @ js) = (\<lambda>s. random_buffer_loop is s \<bind> random_buffer_loop js)"
  by (induction "is") (rule ext, simp)+

lemma ceil4: "n mod 4 = 0 \<Longrightarrow> (Suc n + 3) div 4 = Suc ((n + 3) div 4)" "n mod 4 \<noteq> 0 \<Longrightarrow> (Suc n + 3) div 4 = (n + 3) div 4"
  "n mod 4 = 0 \<Longrightarrow> (n + 3) div 4 = n div 4" "n mod 4 \<noteq> 0 \<Longrightarrow> (n + 3) div 4 = Suc (n div 4)" for n :: nat
  by presburger+

lemma random_buffer_loop_stream:
  "n \<le> length buf \<Longrightarrow> \<exists>buf' r. random_buffer_loop [0..<n] (buf, 0, seed) = Some (buf', r, (lcg ^^ ((n + 3) div 4)) seed) \<and>
     (n mod 4 \<noteq> 0 \<longrightarrow> r = (lcg ^^ ((n + 3) div 4)) seed) \<and> length buf' = length buf \<and> (\<forall>i < n. buf' ! i = stream_byte seed i) \<and> drop n buf' = drop n buf"
proof (induction n)
  case (Suc n)
  let ?s = "(lcg ^^ ((n + 3) div 4)) seed"
  obtain buf' r where ih: "random_buffer_loop [0..<n] (buf, 0, seed) = Some (buf', r, ?s)" "n mod 4 \<noteq> 0 \<Longrightarrow> r = ?s"
    "length buf' = length buf" "\<And>i. i < n \<Longrightarrow> buf' ! i = stream_byte seed i" "drop n buf' = drop n buf"
    using Suc by auto
  let ?r = "(lcg ^^ Suc (n div 4)) seed"
  have r: "(if n mod 4 = 0 then random32 ?s else (r, ?s)) = (?r, ?r)"
    using ih(2) ceil4(3,4) [of n] by (simp add: random32_eq del: mod_0_imp_dvd)
  have b: "ucast (drop_bit (n mod 4 * 8) ?r AND 0xFF) = stream_byte seed n"
  proof -
    have "ucast (w AND mask 8) = (ucast w :: byte)" for w :: u32 by (intro bit_word_eqI) (auto simp: bit_simps)
    then show ?thesis by (simp add: stream_byte_def mult.commute mask_eq_exp_minus_1)
  qed
  have s: "?r = (lcg ^^ ((Suc n + 3) div 4)) seed" using ceil4 [of n] by (cases "n mod 4 = 0") simp_all
  have "random_buffer_step n (buf', r, ?s) = Some (buf'[n := stream_byte seed n], ?r, ?r)"
    using Suc.prems ih(3) b by (simp only: random_buffer_step_def prod.case r Let_def mem_put_def) simp
  moreover have "drop (Suc n) buf' = drop (Suc n) buf" using ih(5) by (metis drop_Suc drop_drop tl_drop)
  ultimately show ?case
    using ih s Suc.prems by (simp add: random_buffer_loop_append less_Suc_eq nth_list_update)
qed simp

text \<open>\<open>random_buffer\<close> fills the first \<open>len\<close> bytes with the little-endian bytes of the numbers generated, four to a number, and nothing
  else.\<close>

theorem random_buffer_result:
  assumes "len \<le> length buf"
  shows "\<exists>buf'. random_buffer buf len seed = Some (buf', (lcg ^^ ((len + 3) div 4)) seed) \<and>
    (\<forall>i < len. buf' ! i = stream_byte seed i) \<and> drop len buf' = drop len buf"
  using random_buffer_loop_stream [OF assms, of seed] by (auto simp: random_buffer_def)

lemma random_buffer_result_witness:
  "\<exists>buf'. random_buffer (replicate 8 0) 6 1 = Some (buf', lcg (lcg 1)) \<and> drop 6 buf' = [0, 0]"
  using random_buffer_result [of 6 "replicate 8 0" 1] by (auto simp: numeral_2_eq_2)

text \<open>C24: \<open>random_uniform\<close> returns, from every seed and for every non-zero bound, with a number below the bound: the generator takes both
  halves of its range, and the limit of the rejection is in the upper half.\<close>

theorem random_uniform_result:
  assumes "n \<noteq> 0"
  shows "\<exists>x s. random_uniform n seed = Some (x, s) \<and> x < n"
  using random_uniform_less [OF assms] .

lemma random_uniform_result_witness:
  "\<exists>x s. random_uniform 0x80000001 7 = Some (x, s) \<and> x < 0x80000001"
  by (rule random_uniform_result) simp

text \<open>\<open>random_permute\<close> returns, permutes the first \<open>len\<close> characters and leaves the rest alone, from every seed.\<close>

theorem random_permute_result:
  assumes "len \<le> length str" "int len \<le> INT_MAX"
  shows "\<exists>str' s. random_permute str len seed = Some (str', s) \<and>
    mset (take len str') = mset (take len str) \<and> drop len str' = drop len str"
proof -
  have "signed_take_bit 31 (int len - 1) = int len - 1"
    using assms(2) by (intro signed_take_bit_int_eq_self) (simp_all add: INT_MAX_def)
  then have r: "random_permute str len seed = random_permute_loop (rev [1..<len]) str seed" by (simp add: random_permute_def)
  obtain str' s where p: "random_permute_loop (rev [1..<len]) str seed = Some (str', s)" "mset str' = mset str" "drop len str' = drop len str"
    using random_permute_loop_mset [of "rev [1..<len]" len str seed] assms by auto
  have "mset (take len str') + mset (drop len str') = mset (take len str) + mset (drop len str)"
    using p(2) unfolding mset_append [symmetric] append_take_drop_id .
  then show ?thesis using r p by simp
qed

lemma random_permute_result_witness:
  "\<exists>str s. random_permute ''iotex'' 3 1 = Some (str, s) \<and> mset (take 3 str) = mset ''iot'' \<and> drop 3 str = ''ex''"
  using random_permute_result [of 3 "''iotex''" 1] by (simp add: INT_MAX_def)

end
