(* ===== verification/Bignum_Format.thy ===== *)
theory Bignum_Format
  imports Bignum_Conv
begin

text \<open>
  The decimal text of a number, \<open>bn_format\<close> of \<open>src/crypto/bignum.c\<close>, which the code writes from its end, the hexadecimal text of
  \<open>bn_print\<close>, and \<open>src/crypto/memzero.c\<close>.
\<close>

section \<open>The code\<close>

text \<open>The portable loop of \<open>memzero\<close>.\<close>

fun memzero_loop :: "'a::zero list \<Rightarrow> nat \<Rightarrow> nat \<Rightarrow> 'a list option" where
  "memzero_loop pnt i 0 = Some pnt"
| "memzero_loop pnt i (Suc n) = do { pnt \<leftarrow> mem_put pnt i 0; memzero_loop pnt (i + 1) n }"

definition memzero :: "'a::zero list \<Rightarrow> nat \<Rightarrow> 'a list option" where
  "memzero pnt len = memzero_loop pnt 0 len"

text \<open>
  The state of the macros: the buffer, the position \<open>str\<close> of the first character written, \<open>exponent\<close> and \<open>decimals\<close>. A macro that makes \<open>bn_format\<close>
  return 0 gives \<open>Inl\<close> of the buffer.
\<close>

type_synonym fmt = "byte list \<times> nat \<times> int \<times> nat"

definition and_then :: "(byte list + 'a) option \<Rightarrow> ('a \<Rightarrow> (byte list + 'b) option) \<Rightarrow> (byte list + 'b) option" where
  "and_then r f = (case r of None \<Rightarrow> None | Some (Inl out) \<Rightarrow> Some (Inl out) | Some (Inr s) \<Rightarrow> f s)"

definition BN_FORMAT_PUSH_CHECKED :: "nat \<Rightarrow> byte \<Rightarrow> byte list \<times> nat \<Rightarrow> (byte list + byte list \<times> nat) option" where
  "BN_FORMAT_PUSH_CHECKED start c = (\<lambda>(out, str).
     if str = start then Some (Inl out)
     else if str = 0 then None
     else do { out \<leftarrow> mem_put out (str - 1) c; Some (Inr (out, str - 1)) })"

definition BN_FORMAT_PUSH :: "nat \<Rightarrow> nat \<Rightarrow> bool \<Rightarrow> u32 \<Rightarrow> fmt \<Rightarrow> (byte list + fmt) option" where
  "BN_FORMAT_PUSH start endp trailing n = (\<lambda>(out, str, exponent, decimals).
     if exponent < 0 then Some (Inr (out, str, exponent + 1, decimals))
     else and_then
       (if n > 0 \<or> trailing \<or> str \<noteq> endp \<or> decimals \<le> 1 then BN_FORMAT_PUSH_CHECKED start (48 + ucast n) (out, str) else Some (Inr (out, str)))
       (\<lambda>(out, str).
          if decimals = 1
          then and_then (BN_FORMAT_PUSH_CHECKED start 46 (out, str)) (\<lambda>(out, str). Some (Inr (out, str, exponent, 0)))
          else Some (Inr (out, str, exponent, decimals - 1))))"

fun format_zeros :: "nat \<Rightarrow> nat \<Rightarrow> bool \<Rightarrow> nat \<Rightarrow> fmt \<Rightarrow> (byte list + fmt) option" where
  "format_zeros start endp trailing 0 s = Some (Inr s)"
| "format_zeros start endp trailing (Suc e) s =
     and_then (BN_FORMAT_PUSH start endp trailing 0 s) (\<lambda>(out, str, exponent, decimals).
       format_zeros start endp trailing e (out, str, exponent - 1, decimals))"

fun format_groups :: "nat \<Rightarrow> nat \<Rightarrow> bool \<Rightarrow> nat \<Rightarrow> bignum256 \<Rightarrow> fmt \<Rightarrow> (byte list + bignum256 \<times> fmt) option" where
  "format_groups start endp trailing 0 val s = Some (Inr (val, s))"
| "format_groups start endp trailing (Suc i) val s =
     (let push = BN_FORMAT_PUSH start endp trailing; (val, limb) = bn_divmod1000 val in
      and_then (push (limb mod 10) s) (\<lambda>s. let limb = limb div 10 in
      and_then (push (limb mod 10) s) (\<lambda>s. let limb = limb div 10 in
      and_then (push (limb mod 10) s) (\<lambda>s. format_groups start endp trailing i val s))))"

definition format_rest :: "nat \<Rightarrow> nat \<Rightarrow> bool \<Rightarrow> nat \<Rightarrow> bignum256 \<Rightarrow> fmt \<Rightarrow> (byte list + fmt) option" where
  "format_rest start endp trailing digits val s =
     (if digits mod 3 = 0 then Some (Inr s)
      else let push = BN_FORMAT_PUSH start endp trailing; (val, limb) = bn_divmod1000 val in
        if digits mod 3 = 2 then and_then (push (limb mod 10) s) (push (limb div 10 mod 10)) else push (limb mod 10) s)"

partial_function (option) format_fill :: "nat \<Rightarrow> nat \<Rightarrow> bool \<Rightarrow> fmt \<Rightarrow> (byte list + fmt) option" where
  "format_fill start endp trailing s =
     (case s of (out, str, exponent, decimals) \<Rightarrow> do {
        more \<leftarrow> (if decimals > 0 then Some True else mem_get out str \<bind> (\<lambda>c. Some (c = 0 \<or> c = 46)));
        if \<not> more then Some (Inr s)
        else do {
          r \<leftarrow> BN_FORMAT_PUSH start endp trailing 0 s;
          case r of Inl out \<Rightarrow> Some (Inl out) | Inr s \<Rightarrow> format_fill start endp trailing s
        }
      })"

declare format_fill.simps [code]

text \<open>The length, or 0, and the buffer. The prefix and the suffix are given without their terminating zero.\<close>

definition bn_format ::
  "bignum256 \<Rightarrow> byte list ptr \<Rightarrow> byte list ptr \<Rightarrow> nat \<Rightarrow> int \<Rightarrow> bool \<Rightarrow> byte list \<Rightarrow> nat \<Rightarrow> (nat \<times> byte list) option" where
  "bn_format amnt prefix suffix decimals exponent trailing out outlen =
     (if decimals > 80 \<or> exponent < - 20 \<or> exponent > 80 then memzero out outlen \<bind> (\<lambda>out. Some (0, out))
      else let pre = (case prefix of Null \<Rightarrow> [] | Ptr s \<Rightarrow> s); suf = (case suffix of Null \<Rightarrow> [] | Ptr s \<Rightarrow> s) in
        if outlen < length suf + 1 then None
        else do {
          out \<leftarrow> mem_blit out 0 pre;
          out \<leftarrow> mem_blit out (outlen - length suf - 1) suf;
          out \<leftarrow> mem_put out (outlen - 1) 0;
          let start = length pre;
          let endp = outlen - length suf - 1;
          let exponent = (if bn_is_zero amnt then 0 else exponent);
          let digits = bn_digitcount amnt;
          r \<leftarrow> and_then (format_zeros start endp trailing (nat exponent) (out, endp, exponent, decimals)) (\<lambda>s.
               and_then (format_groups start endp trailing (digits div 3) amnt s) (\<lambda>(val, s).
               and_then (format_rest start endp trailing digits val s) (format_fill start endp trailing)));
          case r of
            Inl out \<Rightarrow> Some (0, out)
          | Inr (out, str, _, _) \<Rightarrow> do {
              let len = outlen - str;
              bytes \<leftarrow> mem_read out str len;
              out \<leftarrow> mem_blit out (length pre) bytes;
              Some (length pre + len - 1, out)
            }
        })"

section \<open>The pushes\<close>

text \<open>What the macros do to the text \<open>T\<close> written so far, without the buffer.\<close>

definition digit_byte :: "nat \<Rightarrow> byte" where
  "digit_byte n = 48 + word_of_nat n"

definition bpush :: "bool \<Rightarrow> nat \<Rightarrow> byte list \<times> nat \<Rightarrow> byte list \<times> nat" where
  "bpush tr n = (\<lambda>(T, d).
     let T = (if n > 0 \<or> tr \<or> T \<noteq> [] \<or> d \<le> 1 then digit_byte n # T else T)
     in if d = 1 then (46 # T, 0) else (T, d - 1))"

definition apush :: "bool \<Rightarrow> nat \<Rightarrow> byte list \<times> int \<times> nat \<Rightarrow> byte list \<times> int \<times> nat" where
  "apush tr n = (\<lambda>(T, e, d). if e < 0 then (T, e + 1, d) else let (T, d) = bpush tr n (T, d) in (T, e, d))"

definition conc :: "byte list \<Rightarrow> nat \<Rightarrow> byte list \<times> int \<times> nat \<Rightarrow> fmt" where
  "conc B endp = (\<lambda>(T, e, d). (patch B (endp - length T) T, endp - length T, e, d))"

definition fits :: "nat \<Rightarrow> nat \<Rightarrow> byte list \<times> int \<times> nat \<Rightarrow> bool" where
  "fits start endp a \<longleftrightarrow> length (fst a) \<le> endp - start"

definition gives :: "byte list \<Rightarrow> nat \<Rightarrow> nat \<Rightarrow> (byte list + fmt) option \<Rightarrow> byte list \<times> int \<times> nat \<Rightarrow> bool" where
  "gives B start endp m a \<longleftrightarrow> (if fits start endp a then m = Some (Inr (conc B endp a)) else \<exists>out. m = Some (Inl out))"

lemma apush_mono: "length (fst a) \<le> length (fst (apush tr n a))"
  by (cases a) (auto simp: apush_def bpush_def Let_def)

lemma fits_mono: "length (fst a) \<le> length (fst b) \<Longrightarrow> fits start endp b \<Longrightarrow> fits start endp a"
  by (simp add: fits_def)

lemma fold_apush_mono: "length (fst a) \<le> length (fst (fold (apush tr) ns a))"
proof (induction ns arbitrary: a)
  case (Cons n ns)
  show ?case using apush_mono [of a tr n] Cons [of "apush tr n a"] by simp
qed simp

lemma gives_then:
  assumes "gives B start endp m a" "fits start endp a \<Longrightarrow> gives B start endp (f (conc B endp a)) b" "length (fst a) \<le> length (fst b)"
  shows "gives B start endp (and_then m f) b"
  using assms fits_mono [OF assms(3), of start endp] unfolding gives_def and_then_def by (auto split: if_splits)

lemma patch_before: "Suc k + length T \<le> length B \<Longrightarrow> patch (patch B (Suc k) T) k [c] = patch B k (c # T)"
  by (simp add: patch_def min_def)

lemma push_checked:
  assumes "start + length T \<le> endp" "endp \<le> length B"
  shows "BN_FORMAT_PUSH_CHECKED start c (patch B (endp - length T) T, endp - length T) =
    Some (if length T = endp - start then Inl (patch B (endp - length T) T)
      else Inr (patch B (endp - length (c # T)) (c # T), endp - length (c # T)))"
proof (cases "length T = endp - start")
  case True
  then have "endp - length T = start" using assms(1) by simp
  then show ?thesis using True by (simp add: BN_FORMAT_PUSH_CHECKED_def)
next
  case False
  let ?s = "endp - length T" and ?m = "patch B (endp - length T) T"
  have s: "?s \<noteq> start" "0 < ?s" "?s - 1 = endp - length (c # T)" using False assms(1) by auto
  have l: "length ?m = length B" using assms by (intro length_patch) simp
  have "mem_put ?m (?s - 1) c = Some (patch ?m (?s - 1) [c])" using l s(2) assms by (intro mem_put_patch) simp
  also have "patch ?m (?s - 1) [c] = patch B (?s - 1) (c # T)"
  proof -
    have "Suc (?s - 1) = ?s" using s(2) by simp
    then show ?thesis using patch_before [of "?s - 1" T B c] s(2) assms by (simp only:)
  qed
  finally show ?thesis using False s by (simp add: BN_FORMAT_PUSH_CHECKED_def)
qed

lemma digit_byte_u32: "48 + ucast (n :: u32) = digit_byte (unat n)"
  unfolding digit_byte_def of_nat_unat ..

lemma push_gives:
  assumes "start \<le> endp" "endp \<le> length B" "fits start endp a"
  shows "gives B start endp (BN_FORMAT_PUSH start endp tr n (conc B endp a)) (apush tr (unat n) a)"
proof -
  obtain T e d where a: "a = (T, e, d)" by (cases a)
  have l: "start + length T \<le> endp" using assms(1,3) by (simp add: fits_def a)
  show ?thesis
  proof (cases "e < 0")
    case True
    then show ?thesis using assms(3) by (simp add: a BN_FORMAT_PUSH_def conc_def gives_def apush_def fits_def)
  next
    case False
    define w where "w = (n > 0 \<or> tr \<or> T \<noteq> [] \<or> d \<le> 1)"
    have cond: "(n > 0 \<or> tr \<or> endp - length T \<noteq> endp \<or> d \<le> 1) = w"
      using l by (cases T) (auto simp: w_def)
    have pos: "0 < unat n \<longleftrightarrow> 0 < n" by (simp add: word_less_nat_alt)
    define U where "U = (if w then digit_byte (unat n) # T else T)"
    have ap: "apush tr (unat n) (T, e, d) = (if d = 1 then (46 # U, e, 0) else (U, e, d - 1))"
      using False by (simp add: apush_def bpush_def Let_def pos U_def w_def split: prod.split)
    let ?first = "if w then BN_FORMAT_PUSH_CHECKED start (48 + ucast n) (patch B (endp - length T) T, endp - length T)
      else Some (Inr (patch B (endp - length T) T, endp - length T))"
    have first: "?first = (if length U \<le> endp - start then Some (Inr (patch B (endp - length U) U, endp - length U))
        else Some (Inl (patch B (endp - length T) T)))"
      using push_checked [OF l assms(2), of "48 + ucast n"] l digit_byte_u32 [of n] by (auto simp: U_def)
    have run: "BN_FORMAT_PUSH start endp tr n (conc B endp (T, e, d)) = and_then ?first (\<lambda>(out, str). if d = 1
        then and_then (BN_FORMAT_PUSH_CHECKED start 46 (out, str)) (\<lambda>(out, str). Some (Inr (out, str, e, 0))) else Some (Inr (out, str, e, d - 1)))"
      using False unfolding BN_FORMAT_PUSH_def conc_def prod.case cond by simp
    show ?thesis
    proof (cases "length U \<le> endp - start")
      case True
      then have "start + length U \<le> endp" using assms(1) by simp
      note dot = push_checked [OF this assms(2), of 46]
      show ?thesis unfolding a run first ap using True dot
        by (auto simp: and_then_def gives_def fits_def conc_def)
    next
      case False
      then show ?thesis unfolding a run first ap by (auto simp: and_then_def gives_def fits_def)
    qed
  qed
qed

section \<open>The sequence of pushes\<close>

definition lsd :: "nat \<Rightarrow> nat \<Rightarrow> nat list" where
  "lsd N n = map (\<lambda>j. N div 10 ^ j mod 10) [0..<n]"

lemma lsd_0 [simp]: "lsd N 0 = []"
  by (simp add: lsd_def)

lemma lsd_Suc: "lsd N (Suc n) = N mod 10 # lsd (N div 10) n"
proof -
  have u: "map f [0..<Suc n] = f 0 # map (f \<circ> Suc) [0..<n]" for f :: "nat \<Rightarrow> nat" by (simp only: map_upt_Suc comp_def)
  show ?thesis unfolding lsd_def u by (simp add: div_mult2_eq)
qed

lemma and_then_assoc: "and_then (and_then m g) f = and_then m (\<lambda>x. and_then (g x) f)"
  by (simp add: and_then_def split: option.split sum.split)

lemma and_then_Inr [simp]: "and_then (Some (Inr x)) f = f x"
  by (simp add: and_then_def)

lemma apush_pos: "apush tr n (T, int k, d) = (fst (bpush tr n (T, d)), int k, snd (bpush tr n (T, d)))"
  by (simp add: apush_def split: prod.split)

lemma bpush_mono: "length (fst a) \<le> length (fst (bpush tr n a))"
  by (cases a) (auto simp: bpush_def Let_def)

lemma fold_bpush_mono: "length (fst a) \<le> length (fst (fold (bpush tr) ns a))"
proof (induction ns arbitrary: a)
  case (Cons n ns)
  show ?case using bpush_mono [of a tr n] Cons [of "bpush tr n a"] by simp
qed simp

lemma zeros_gives:
  assumes "start \<le> endp" "endp \<le> length B" "fits start endp (T, int k, d)"
  shows "gives B start endp (format_zeros start endp tr k (conc B endp (T, int k, d)))
    (fst (fold (bpush tr) (replicate k 0) (T, d)), 0, snd (fold (bpush tr) (replicate k 0) (T, d)))"
  using assms(3)
proof (induction k arbitrary: T d)
  case 0
  then show ?case by (simp add: gives_def)
next
  case (Suc k)
  let ?b = "bpush tr 0 (T, d)"
  have p: "gives B start endp (BN_FORMAT_PUSH start endp tr 0 (conc B endp (T, int (Suc k), d))) (fst ?b, int (Suc k), snd ?b)"
    using push_gives [OF assms(1,2) Suc.prems, of tr 0] unfolding unsigned_0 apush_pos .
  have q: "gives B start endp ((\<lambda>(out, str, exponent, decimals). format_zeros start endp tr k (out, str, exponent - 1, decimals))
      (conc B endp (fst ?b, int (Suc k), snd ?b)))
      (fst (fold (bpush tr) (replicate (Suc k) 0) (T, d)), 0, snd (fold (bpush tr) (replicate (Suc k) 0) (T, d)))"
    if "fits start endp (fst ?b, int (Suc k), snd ?b)"
    using Suc.IH [of "fst ?b" "snd ?b"] that by (simp add: conc_def fits_def)
  have m: "length (fst (fst ?b, int (Suc k), snd ?b)) \<le>
      length (fst (fst (fold (bpush tr) (replicate (Suc k) 0) (T, d)), 0 :: int, snd (fold (bpush tr) (replicate (Suc k) 0) (T, d))))"
    using fold_bpush_mono [of ?b tr "replicate k 0"] by simp
  show ?case unfolding format_zeros.simps by (rule gives_then [where f = "\<lambda>(out, str, exponent, decimals). format_zeros start endp tr k (out, str, exponent - 1, decimals)", OF p q m])
qed

text \<open>The digits of a limb.\<close>

lemma limb_digits:
  assumes "unat (limb :: u32) = N mod 1000"
  shows "unat (limb mod 10) = N mod 10" "unat (limb div 10 mod 10) = N div 10 mod 10" "unat (limb div 10 div 10 mod 10) = N div 10 div 10 mod 10"
proof -
  have d: "N mod 1000 mod 10 = N mod 10" "N mod 1000 div 10 mod 10 = N div 10 mod 10" "N mod 1000 div 10 div 10 mod 10 = N div 10 div 10 mod 10"
  proof -
    have g: "(x + 10 * w) mod 10 = x" "(x + 10 * w) div 10 = w" if "x < 10" for x w :: nat using that by simp_all
    have "N mod 1000 = 10 * (N div 10 mod 100) + N mod 10" using mod_mult2_eq [of N 10 100] by simp
    moreover have "N div 10 mod 100 = 10 * (N div 10 div 10 mod 10) + N div 10 mod 10" using mod_mult2_eq [of "N div 10" 10 10] by simp
    ultimately have m: "N mod 1000 = N mod 10 + 10 * (N div 10 mod 10 + 10 * (N div 10 div 10 mod 10))" by simp
    have l: "M mod 10 < 10" for M :: nat by simp
    show "N mod 1000 mod 10 = N mod 10" "N mod 1000 div 10 mod 10 = N div 10 mod 10" "N mod 1000 div 10 div 10 mod 10 = N div 10 div 10 mod 10"
      unfolding m g(2) [OF l] g(1) [OF l] by (rule refl | simp)+
  qed
  show "unat (limb mod 10) = N mod 10" "unat (limb div 10 mod 10) = N div 10 mod 10" "unat (limb div 10 div 10 mod 10) = N div 10 div 10 mod 10"
    unfolding d [symmetric] assms [symmetric] by (simp_all add: unat_mod unat_div)
qed

lemma groups_gives:
  assumes "start \<le> endp" "endp \<le> length B" "fits start endp a" "bignum val"
    and "\<And>v. bignum v \<Longrightarrow> bn_val v = bn_val val div 1000 ^ i \<Longrightarrow> fits start endp (fold (apush tr) (lsd (bn_val val) (3 * i)) a) \<Longrightarrow>
      gives B start endp (f (v, conc B endp (fold (apush tr) (lsd (bn_val val) (3 * i)) a))) b"
    and "length (fst (fold (apush tr) (lsd (bn_val val) (3 * i)) a)) \<le> length (fst b)"
  shows "gives B start endp (and_then (format_groups start endp tr i val (conc B endp a)) f) b"
  using assms(3-)
proof (induction i arbitrary: val a)
  case 0
  then show ?case by simp
next
  case (Suc i)
  obtain v limb where v: "bn_divmod1000 val = (v, limb)" "bignum v" "bn_val v = bn_val val div 1000" "unat limb = bn_val val mod 1000"
    using bn_divmod1000_val [OF Suc.prems(2)] by blast
  let ?N = "bn_val val"
  note dig = limb_digits [OF v(4)]
  let ?a1 = "apush tr (?N mod 10) a"
  let ?a2 = "apush tr (?N div 10 mod 10) ?a1"
  let ?a3 = "apush tr (?N div 10 div 10 mod 10) ?a2"
  have n: "?N div 10 div 10 div 10 = bn_val v" unfolding v(3) by (simp flip: div_mult2_eq)
  have l: "lsd ?N (3 * Suc i) = ?N mod 10 # ?N div 10 mod 10 # ?N div 10 div 10 mod 10 # lsd (bn_val v) (3 * i)"
    unfolding n [symmetric] by (simp add: lsd_Suc numeral_3_eq_3)
  have e: "fold (apush tr) (lsd ?N (3 * Suc i)) a = fold (apush tr) (lsd (bn_val v) (3 * i)) ?a3" unfolding l by simp
  have m: "length (fst ?a3) \<le> length (fst b)" using fold_apush_mono [of ?a3 tr "lsd (bn_val v) (3 * i)"] Suc.prems(4) unfolding e by simp
  have m2: "length (fst ?a2) \<le> length (fst b)" using m apush_mono [of ?a2 tr "?N div 10 div 10 mod 10"] by simp
  have m1: "length (fst ?a1) \<le> length (fst b)" using m2 apush_mono [of ?a1 tr "?N div 10 mod 10"] by simp
  have rest: "gives B start endp (and_then (format_groups start endp tr i v (conc B endp ?a3)) f) b" if "fits start endp ?a3"
  proof (rule Suc.IH [OF that v(2)])
    show "length (fst (fold (apush tr) (lsd (bn_val v) (3 * i)) ?a3)) \<le> length (fst b)" using Suc.prems(4) unfolding e .
    fix u assume u: "bignum u" "bn_val u = bn_val v div 1000 ^ i" "fits start endp (fold (apush tr) (lsd (bn_val v) (3 * i)) ?a3)"
    have "bn_val u = ?N div 1000 ^ Suc i" using u(2) by (simp add: v(3) div_mult2_eq)
    then show "gives B start endp (f (u, conc B endp (fold (apush tr) (lsd (bn_val v) (3 * i)) ?a3))) b" using Suc.prems(3) [OF u(1)] u(3) unfolding e by blast
  qed
  have s3: "gives B start endp (and_then (BN_FORMAT_PUSH start endp tr (limb div 10 div 10 mod 10) (conc B endp ?a2))
      (\<lambda>s. and_then (format_groups start endp tr i v s) f)) b" if "fits start endp ?a2"
    by (rule gives_then [where f = "\<lambda>s. and_then (format_groups start endp tr i v s) f",
        OF push_gives [OF assms(1,2) that, of tr "limb div 10 div 10 mod 10", unfolded dig] rest m])
  have s2: "gives B start endp (and_then (BN_FORMAT_PUSH start endp tr (limb div 10 mod 10) (conc B endp ?a1))
      (\<lambda>s. and_then (BN_FORMAT_PUSH start endp tr (limb div 10 div 10 mod 10) s) (\<lambda>s. and_then (format_groups start endp tr i v s) f))) b"
    if "fits start endp ?a1"
    by (rule gives_then [where f = "\<lambda>s. and_then (BN_FORMAT_PUSH start endp tr (limb div 10 div 10 mod 10) s) (\<lambda>s. and_then (format_groups start endp tr i v s) f)",
        OF push_gives [OF assms(1,2) that, of tr "limb div 10 mod 10", unfolded dig] s3 m2])
  show ?case
    unfolding format_groups.simps v(1) Let_def prod.case and_then_assoc
    by (rule gives_then [where f = "\<lambda>s. and_then (BN_FORMAT_PUSH start endp tr (limb div 10 mod 10) s)
          (\<lambda>s. and_then (BN_FORMAT_PUSH start endp tr (limb div 10 div 10 mod 10) s) (\<lambda>s. and_then (format_groups start endp tr i v s) f))",
        OF push_gives [OF assms(1,2) Suc.prems(1), of tr "limb mod 10", unfolded dig] s2 m1])
qed

lemma rest_gives:
  assumes "start \<le> endp" "endp \<le> length B" "fits start endp a" "bignum val"
  shows "gives B start endp (format_rest start endp tr digits val (conc B endp a)) (fold (apush tr) (lsd (bn_val val) (digits mod 3)) a)"
proof -
  obtain v limb where v: "bn_divmod1000 val = (v, limb)" "unat limb = bn_val val mod 1000" using bn_divmod1000_val [OF assms(4)] by blast
  note dig = limb_digits [OF v(2)]
  consider "digits mod 3 = 0" | "digits mod 3 = 1" | "digits mod 3 = 2" by linarith
  then show ?thesis
  proof cases
    case 3
    have l: "lsd (bn_val val) 2 = [bn_val val mod 10, bn_val val div 10 mod 10]" by (simp add: lsd_Suc numeral_2_eq_2)
    have r: "format_rest start endp tr digits val (conc B endp a) =
        and_then (BN_FORMAT_PUSH start endp tr (limb mod 10) (conc B endp a)) (BN_FORMAT_PUSH start endp tr (limb div 10 mod 10))"
      using 3 by (simp add: format_rest_def v(1) Let_def)
    show ?thesis unfolding r 3 l
      using gives_then [where f = "BN_FORMAT_PUSH start endp tr (limb div 10 mod 10)", OF push_gives [OF assms(1-3), of tr "limb mod 10"]
          push_gives [OF assms(1,2), of _ tr "limb div 10 mod 10"] apush_mono]
      unfolding dig by simp
  qed (use assms(3) push_gives [OF assms(1-3), of tr "limb mod 10"] in \<open>simp_all add: format_rest_def gives_def v(1) Let_def lsd_Suc dig\<close>)
qed

section \<open>The zeros at the end\<close>

definition more :: "byte list \<Rightarrow> byte list \<times> int \<times> nat \<Rightarrow> bool" where
  "more rest a = (case a of (T, _, d) \<Rightarrow> 0 < d \<or> hd (T @ rest) = 0 \<or> hd (T @ rest) = 46)"

lemma digit_byte_0: "digit_byte 0 \<noteq> 0" "digit_byte 0 \<noteq> 46"
  by (simp_all add: digit_byte_def)

definition fill_measure :: "byte list \<Rightarrow> byte list \<times> int \<times> nat \<Rightarrow> nat" where
  "fill_measure rest a = (case a of (T, e, d) \<Rightarrow> 2 * d + nat (- e) + of_bool (hd (T @ rest) = 0 \<or> hd (T @ rest) = 46))"

lemma fill_measure_less: "more rest a \<Longrightarrow> fill_measure rest (apush tr 0 a) < fill_measure rest a"
  using digit_byte_0 by (cases a) (auto simp: more_def fill_measure_def apush_def bpush_def Let_def of_bool_def)

text \<open>How many zeros are pushed.\<close>

lemma fill_count:
  "\<exists>k. \<not> more rest (fold (apush tr) (replicate k 0) a) \<and> (\<forall>j<k. more rest (fold (apush tr) (replicate j 0) a))"
proof (induction "fill_measure rest a" arbitrary: a rule: less_induct)
  case less
  show ?case
  proof (cases "more rest a")
    case True
    then obtain k where k: "\<not> more rest (fold (apush tr) (replicate k 0) (apush tr 0 a))"
        "\<forall>j<k. more rest (fold (apush tr) (replicate j 0) (apush tr 0 a))"
      using less [OF fill_measure_less] by blast
    have "more rest (fold (apush tr) (replicate j 0) a)" if "j < Suc k" for j using that k(2) True by (cases j) simp_all
    then show ?thesis using k(1) by (intro exI [of _ "Suc k"]) simp
  qed (intro exI [of _ 0], simp)
qed

lemma fill_char:
  assumes "endp < length B" "length (fst a) \<le> endp"
  shows "mem_get (fst (conc B endp a)) (endp - length (fst a)) = Some (hd (fst a @ drop endp B))"
proof -
  obtain T e d where a: "a = (T, e, d)" by (cases a)
  let ?s = "endp - length T"
  have l: "length T \<le> endp" using assms(2) by (simp add: a)
  have "patch B ?s T = take ?s B @ T @ drop endp B" using l assms(1) by (simp add: patch_def)
  moreover have "length (take ?s B) = ?s" using l assms(1) by simp
  ultimately have "patch B ?s T ! ?s = (T @ drop endp B) ! 0" by (metis add.right_neutral nth_append_length_plus)
  also have "\<dots> = hd (T @ drop endp B)" using assms(1) by (simp add: hd_conv_nth)
  finally show ?thesis using l assms(1) by (simp add: a conc_def)
qed

lemma fill_gives:
  assumes "start \<le> endp" "endp < length B" "fits start endp a"
    and "\<not> more (drop endp B) (fold (apush tr) (replicate k 0) a)" "\<forall>j<k. more (drop endp B) (fold (apush tr) (replicate j 0) a)"
  shows "gives B start endp (format_fill start endp tr (conc B endp a)) (fold (apush tr) (replicate k 0) a)"
  using assms(3-)
proof (induction k arbitrary: a)
  case 0
  obtain T e d where a: "a = (T, e, d)" by (cases a)
  have l: "length T \<le> endp" using 0(1) assms(1) by (simp add: fits_def a)
  have c: "mem_get (patch B (endp - length T) T) (endp - length T) = Some (hd (T @ drop endp B))"
    using fill_char [OF assms(2), of a] l by (simp add: a conc_def)
  have "\<not> more (drop endp B) a" using 0 by simp
  then show ?case using 0(1) c by (subst format_fill.simps) (simp add: a conc_def gives_def more_def)
next
  case (Suc k)
  obtain T e d where a: "a = (T, e, d)" by (cases a)
  let ?b = "apush tr 0 a" and ?c = "fold (apush tr) (replicate (Suc k) 0) a"
  have l: "length T \<le> endp" using Suc.prems(1) assms(1) by (simp add: fits_def a)
  have c: "mem_get (patch B (endp - length T) T) (endp - length T) = Some (hd (T @ drop endp B))"
    using fill_char [OF assms(2), of a] l by (simp add: a conc_def)
  have m: "more (drop endp B) a" using Suc.prems(3) by auto
  have r: "format_fill start endp tr (conc B endp a) = and_then (BN_FORMAT_PUSH start endp tr 0 (conc B endp a)) (format_fill start endp tr)"
  proof -
    have "0 < d \<or> hd (T @ drop endp B) = 0 \<or> hd (T @ drop endp B) = 46" using m by (simp add: a more_def)
    then have "format_fill start endp tr (conc B endp a) = BN_FORMAT_PUSH start endp tr 0 (conc B endp a) \<bind>
        (\<lambda>r. case r of Inl out \<Rightarrow> Some (Inl out) | Inr s \<Rightarrow> format_fill start endp tr s)"
      using c by (subst format_fill.simps) (cases "d = 0"; auto simp: a conc_def)
    then show ?thesis by (simp add: and_then_def Option.bind_def split: option.split)
  qed
  have p: "gives B start endp (BN_FORMAT_PUSH start endp tr 0 (conc B endp a)) ?b"
    using push_gives [OF assms(1) less_imp_le [OF assms(2)] Suc.prems(1), of tr 0] by simp
  have ih: "gives B start endp (format_fill start endp tr (conc B endp ?b)) ?c" if "fits start endp ?b"
  proof -
    have "\<forall>j<k. more (drop endp B) (fold (apush tr) (replicate j 0) ?b)" using Suc.prems(3) by (metis fold_simps(2) replicate_Suc Suc_less_eq)
    then show ?thesis using Suc.IH [OF that] Suc.prems(2) by simp
  qed
  show ?case unfolding r
    by (rule gives_then [where f = "format_fill start endp tr", OF p ih]) (use fold_apush_mono [of ?b tr "replicate k 0"] in simp_all)
qed

text \<open>All the pushes of a call, after the zeros of a positive exponent.\<close>

definition all_pushes :: "bool \<Rightarrow> nat \<Rightarrow> nat \<Rightarrow> nat \<Rightarrow> byte list \<times> int \<times> nat \<Rightarrow> byte list \<times> int \<times> nat" where
  "all_pushes tr N digits k a = fold (apush tr) (replicate k 0) (fold (apush tr) (lsd N digits) a)"

lemma lsd_append: "lsd N (m + n) = lsd N m @ lsd (N div 10 ^ m) n"
  by (induction m arbitrary: N) (simp_all add: lsd_Suc div_mult2_eq)

lemma digits_gives:
  assumes "start \<le> endp" "endp < length B" "fits start endp a" "bignum val"
    and "\<not> more (drop endp B) (all_pushes tr (bn_val val) digits k a)"
    and "\<forall>j<k. more (drop endp B) (all_pushes tr (bn_val val) digits j a)"
  shows "gives B start endp
    (and_then (format_groups start endp tr (digits div 3) val (conc B endp a)) (\<lambda>(val, s).
     and_then (format_rest start endp tr digits val s) (format_fill start endp tr)))
    (all_pushes tr (bn_val val) digits k a)"
proof -
  have le: "endp \<le> length B" using assms(2) by simp
  let ?N = "bn_val val"
  let ?g = "fold (apush tr) (lsd ?N (3 * (digits div 3))) a"
  have d: "lsd ?N digits = lsd ?N (3 * (digits div 3)) @ lsd (?N div 1000 ^ (digits div 3)) (digits mod 3)"
    using lsd_append [of ?N "3 * (digits div 3)" "digits mod 3"] by (simp add: power_mult)
  have e: "fold (apush tr) (lsd ?N digits) a = fold (apush tr) (lsd (?N div 1000 ^ (digits div 3)) (digits mod 3)) ?g" unfolding d by simp
  have m1: "length (fst (fold (apush tr) (lsd ?N digits) a)) \<le> length (fst (all_pushes tr ?N digits k a))"
    unfolding all_pushes_def by (rule fold_apush_mono)
  have m2: "length (fst ?g) \<le> length (fst (all_pushes tr ?N digits k a))"
    using m1 fold_apush_mono [of ?g tr "lsd (?N div 1000 ^ (digits div 3)) (digits mod 3)"] unfolding e by simp
  show ?thesis
  proof (rule groups_gives [OF assms(1) le assms(3,4) _ m2])
    fix v assume v: "bignum v" "bn_val v = ?N div 1000 ^ (digits div 3)" "fits start endp ?g"
    have r: "gives B start endp (format_rest start endp tr digits v (conc B endp ?g)) (fold (apush tr) (lsd ?N digits) a)"
      using rest_gives [OF assms(1) le v(3,1)] unfolding e v(2) .
    have f: "gives B start endp (format_fill start endp tr (conc B endp (fold (apush tr) (lsd ?N digits) a))) (all_pushes tr ?N digits k a)"
      if "fits start endp (fold (apush tr) (lsd ?N digits) a)"
      using fill_gives [OF assms(1,2) that] assms(5,6) unfolding all_pushes_def by blast
    show "gives B start endp (case (v, conc B endp ?g) of (val, s) \<Rightarrow> and_then (format_rest start endp tr digits val s) (format_fill start endp tr))
      (all_pushes tr ?N digits k a)"
      unfolding prod.case by (rule gives_then [where f = "format_fill start endp tr", OF r f m1])
  qed
qed

section \<open>The text of a number\<close>

text \<open>The digits behind the point, least significant first; zeros at the end are left out unless \<open>tr\<close>, but one digit stays.\<close>

definition fraction_text :: "bool \<Rightarrow> nat \<Rightarrow> nat \<Rightarrow> byte list" where
  "fraction_text tr V d = (let ds = map digit_byte (lsd V d) in rev (if tr then ds else dropWhile (\<lambda>c. c = 48) (butlast ds) @ [last ds]))"

definition number_text :: "bool \<Rightarrow> nat \<Rightarrow> nat \<Rightarrow> byte list" where
  "number_text tr V d = map byte_of_char (dec_digits (V div 10 ^ d)) @ (if d = 0 then [] else 46 # fraction_text tr V d)"

primrec fpart :: "bool \<Rightarrow> nat \<Rightarrow> nat \<Rightarrow> nat \<Rightarrow> byte list" where
  "fpart tr V d 0 = []"
| "fpart tr V d (Suc m) =
     (let n = V div 10 ^ m mod 10; T = fpart tr V d m in if n > 0 \<or> tr \<or> T \<noteq> [] \<or> d - m \<le> 1 then digit_byte n # T else T)"

lemma lsd_snoc: "lsd V (Suc m) = lsd V m @ [V div 10 ^ m mod 10]"
  by (simp add: lsd_def)

lemma digit_byte_zero: "n < 10 \<Longrightarrow> digit_byte n = 48 \<longleftrightarrow> n = 0"
proof -
  assume "n < 10"
  then have "n \<in> {0, 1, 2, 3, 4, 5, 6, 7, 8, 9}" by auto
  then show ?thesis by (auto simp: digit_byte_def)
qed

lemma digit_byte_not: "n < 10 \<Longrightarrow> digit_byte n \<noteq> 0 \<and> digit_byte n \<noteq> 46"
proof -
  assume "n < 10"
  then have "n \<in> {0, 1, 2, 3, 4, 5, 6, 7, 8, 9}" by auto
  then show ?thesis by (auto simp: digit_byte_def)
qed

lemma fpart_less: "m < d \<Longrightarrow> fpart tr V d m = rev (let ds = map digit_byte (lsd V m) in if tr then ds else dropWhile (\<lambda>c. c = 48) ds)"
proof (induction m)
  case (Suc m)
  let ?ds = "map digit_byte (lsd V m)" and ?n = "V div 10 ^ m mod 10"
  have n: "digit_byte ?n = 48 \<longleftrightarrow> ?n = 0" by (rule digit_byte_zero) simp
  have e: "dropWhile (\<lambda>c. c = 48) ?ds = [] \<longleftrightarrow> (\<forall>c \<in> set ?ds. c = 48)" by (simp only: dropWhile_eq_Nil_conv)
  show ?case
  proof (cases "\<forall>c \<in> set ?ds. c = 48")
    case True
    then have D: "dropWhile (\<lambda>c. c = 48) (?ds @ [digit_byte ?n]) = dropWhile (\<lambda>c. c = 48) [digit_byte ?n]"
      using dropWhile_append2 [of ?ds "\<lambda>c. c = 48" "[digit_byte ?n]"] by blast
    have E: "dropWhile (\<lambda>c. c = 48) ?ds = []" using e True by blast
    show ?thesis
    proof (cases tr)
      case False
      then have "fpart tr V d m = []" using Suc E by simp
      then show ?thesis using Suc.prems False n D by (simp add: lsd_snoc Let_def)
    qed (use Suc in \<open>simp add: lsd_snoc Let_def\<close>)
  next
    case False
    then obtain c where "c \<in> set ?ds" "c \<noteq> 48" by blast
    then have "dropWhile (\<lambda>c. c = 48) (?ds @ [digit_byte ?n]) = dropWhile (\<lambda>c. c = 48) ?ds @ [digit_byte ?n]" by (rule dropWhile_append1) 
    then show ?thesis using Suc e False by (auto simp: lsd_snoc Let_def)
  qed
qed simp

lemma fpart_fraction: "0 < d \<Longrightarrow> fpart tr V d d = fraction_text tr V d"
proof -
  assume "0 < d"
  then obtain m where d: "d = Suc m" by (cases d) auto
  show ?thesis unfolding d fraction_text_def fpart.simps using fpart_less [of m "Suc m" tr V] by (simp add: Let_def lsd_snoc)
qed

lemma bpush_fraction: "m < d \<Longrightarrow> fold (bpush tr) (lsd V m) ([], d) = (fpart tr V d m, d - m)"
proof (induction m)
  case (Suc m)
  then show ?case by (auto simp: lsd_snoc bpush_def Let_def)
qed simp

lemma bpush_point: "0 < d \<Longrightarrow> fold (bpush tr) (lsd V d) ([], d) = (46 # fraction_text tr V d, 0)"
proof -
  assume d: "0 < d"
  then obtain m where m: "d = Suc m" by (cases d) auto
  have "fold (bpush tr) (lsd V d) ([], d) = bpush tr (V div 10 ^ m mod 10) (fpart tr V d m, 1)" using bpush_fraction [of m d tr V] m by (simp add: lsd_snoc)
  also have "\<dots> = (46 # fpart tr V d d, 0)" unfolding m by (simp add: bpush_def Let_def)
  finally show ?thesis using fpart_fraction [OF d] by simp
qed

lemma bpush_integer: "fold (bpush tr) ns (T, 0) = (rev (map digit_byte ns) @ T, 0)"
  by (induction ns arbitrary: T) (simp_all add: bpush_def Let_def)

lemma digit_byte_char: "n < 10 \<Longrightarrow> digit_byte n = byte_of_char (digit_char n)"
proof -
  assume "n < 10"
  then have "n \<in> {0, 1, 2, 3, 4, 5, 6, 7, 8, 9}" by auto
  then show ?thesis by (auto simp: digit_byte_def digit_char_def byte_of_char_def)
qed

lemma lsd_dec_digits: "rev (map digit_byte (lsd W (length (dec_digits W)))) = map byte_of_char (dec_digits W)"
proof (induction W rule: dec_digits.induct)
  case (1 W)
  show ?case
  proof (cases "W < 10")
    case True
    then show ?thesis by (simp add: dec_digits.simps [of W] lsd_Suc digit_byte_char)
  next
    case False
    then show ?thesis using 1 by (simp add: dec_digits.simps [of W] lsd_Suc digit_byte_char)
  qed
qed

lemma pushes_text:
  assumes "length (dec_digits (V div 10 ^ d)) + d = m"
  shows "fold (bpush tr) (lsd V m) ([], d) = (number_text tr V d, 0)"
proof -
  have e: "lsd V m = lsd V d @ lsd (V div 10 ^ d) (length (dec_digits (V div 10 ^ d)))" unfolding lsd_append [symmetric] assms [symmetric] by (simp only: add.commute)
  have p: "fold (bpush tr) (lsd V d) ([], d) = (if d = 0 then [] else 46 # fraction_text tr V d, 0)" using bpush_point by simp
  show ?thesis unfolding e fold_append comp_def p bpush_integer lsd_dec_digits number_text_def ..
qed

section \<open>How many digits\<close>

lemma dec_digits_bounds: "n < 10 ^ length (dec_digits n) \<and> (0 < n \<longrightarrow> 10 ^ (length (dec_digits n) - 1) \<le> n)"
proof (induction n rule: dec_digits.induct)
  case (1 n)
  show ?case
  proof (cases "n < 10")
    case False
    let ?l = "length (dec_digits (n div 10))"
    have ih: "n div 10 < 10 ^ ?l" "10 ^ (?l - 1) \<le> n div 10" using 1 False by simp_all
    have l: "length (dec_digits n) = Suc ?l" using False by (simp add: dec_digits.simps [of n])
    have "0 < ?l" by simp
    then have p: "10 ^ ?l = 10 * 10 ^ (?l - 1 :: nat)" by (metis power_eq_if not_gr_zero)
    have "n < 10 * 10 ^ ?l" "10 * 10 ^ (?l - 1) \<le> n" using ih by linarith+
    then show ?thesis unfolding l by (simp add: p)
  qed (simp add: dec_digits.simps [of n])
qed

lemma dec_digits_unique:
  assumes "10 ^ (m - 1) \<le> n" "n < 10 ^ m" "0 < m" "0 < (n :: nat)"
  shows "length (dec_digits n) = m"
proof -
  let ?l = "length (dec_digits n)"
  have b: "n < 10 ^ ?l" "10 ^ (?l - 1) \<le> n" using dec_digits_bounds [of n] assms(4) by auto
  have "(10 :: nat) ^ (m - 1) < 10 ^ ?l" "(10 :: nat) ^ (?l - 1) < 10 ^ m" using b assms(1,2) by linarith+
  then have "m - 1 < ?l" "?l - 1 < m" by (simp_all add: power_less_imp_less_exp)
  then show ?thesis using assms(3) by linarith
qed

lemma dec_digits_div:
  assumes "0 < n div 10 ^ d"
  shows "length (dec_digits (n div 10 ^ d)) + d = length (dec_digits n)"
  using assms
proof (induction d)
  case (Suc d)
  have e: "n div 10 ^ Suc d = n div 10 ^ d div 10" by (simp only: power_Suc2 div_mult2_eq)
  have "10 \<le> n div 10 ^ d" using Suc.prems unfolding e by (simp add: div_greater_zero_iff)
  then have "length (dec_digits (n div 10 ^ d)) = Suc (length (dec_digits (n div 10 ^ Suc d)))" unfolding e by (simp add: dec_digits.simps [of "n div 10 ^ d"])
  then show ?case using Suc \<open>10 \<le> n div 10 ^ d\<close> by simp
qed simp

lemma dec_digits_short: "n div 10 ^ d = 0 \<Longrightarrow> length (dec_digits n) \<le> max d 1"
proof -
  assume "n div 10 ^ d = 0"
  then have "n < 10 ^ d" by (simp add: div_eq_0_iff)
  then show ?thesis using length_dec_digits [of n d] by (cases "d = 0") (simp_all add: dec_digits.simps)
qed

section \<open>The whole call\<close>

lemma apush_fold:
  "fst (fold (apush tr) ns (T, e, d)) = fst (fold (bpush tr) (drop (nat (- e)) ns) (T, d)) \<and>
   snd (snd (fold (apush tr) ns (T, e, d))) = snd (fold (bpush tr) (drop (nat (- e)) ns) (T, d))"
proof (induction ns arbitrary: T e d)
  case (Cons n ns)
  show ?case
  proof (cases "e < 0")
    case True
    then have "nat (- e) = Suc (nat (- (e + 1)))" by simp
    moreover have "apush tr n (T, e, d) = (T, e + 1, d)" using True by (simp add: apush_def)
    ultimately show ?thesis using Cons [of T "e + 1" d] by simp
  next
    case False
    then have "apush tr n (T, e, d) = (fst (bpush tr n (T, d)), e, snd (bpush tr n (T, d)))" by (simp add: apush_def split: prod.split)
    then show ?thesis using False Cons [of "fst (bpush tr n (T, d))" e "snd (bpush tr n (T, d))"] by simp
  qed
qed simp

lemma lsd_zero: "lsd 0 k = replicate k 0"
  by (simp add: lsd_def map_replicate_trivial)

lemma lsd_shift: "lsd (N * 10 ^ i) (i + m) = replicate i 0 @ lsd N m"
proof -
  have "lsd (N * 10 ^ i) i = replicate i 0"
  proof (induction i arbitrary: N)
    case (Suc i)
    have "N * 10 ^ Suc i = (N * 10 ^ i) * 10" by simp
    then have "N * 10 ^ Suc i mod 10 = 0" "N * 10 ^ Suc i div 10 = N * 10 ^ i" by simp_all
    then show ?case using Suc [of N] by (simp only: lsd_Suc replicate_Suc)
  qed simp
  then show ?thesis by (simp add: lsd_append)
qed

lemma lsd_drop: "drop i (lsd N m) = lsd (N div 10 ^ i) (m - i)"
proof (cases "i \<le> m")
  case True
  then have "lsd N m = lsd N i @ lsd (N div 10 ^ i) (m - i)" using lsd_append [of N i "m - i"] by simp
  then show ?thesis by (simp add: lsd_def)
qed (simp add: lsd_def)

text \<open>The number written, and how many digits are pushed before the zeros at the end.\<close>

definition scaled :: "nat \<Rightarrow> int \<Rightarrow> nat" where
  "scaled N e = (if e < 0 then N div 10 ^ nat (- e) else N * 10 ^ nat e)"

definition pushed :: "nat \<Rightarrow> int \<Rightarrow> nat" where
  "pushed m e = (if e < 0 then m - nat (- e) else nat e + m)"

definition after_zeros :: "bool \<Rightarrow> int \<Rightarrow> nat \<Rightarrow> byte list \<times> int \<times> nat" where
  "after_zeros tr e d = (let z = fold (bpush tr) (replicate (nat e) 0) ([], d) in (fst z, min e 0, snd z))"

lemma all_pushes_state:
  fixes tr :: bool and e :: int and d k :: nat
  assumes "N < 10 ^ m"
  defines "a \<equiv> all_pushes tr N m k (after_zeros tr e d)" and "b \<equiv> fold (bpush tr) (lsd (scaled N e) (pushed (m + k) e)) ([], d)"
  shows "fst a = fst b \<and> snd (snd a) = snd b"
proof -
  have l: "lsd N (m + k) = lsd N m @ replicate k 0" using assms(1) by (simp add: lsd_append lsd_zero)
  have a: "a = fold (apush tr) (lsd N (m + k)) (after_zeros tr e d)" unfolding a_def all_pushes_def l by simp
  show ?thesis
  proof (cases "e < 0")
    case True
    then have "after_zeros tr e d = ([], e, d)" by (simp add: after_zeros_def)
    then show ?thesis unfolding a b_def scaled_def pushed_def using True apush_fold [of tr "lsd N (m + k)" "[]" e d] by (simp add: lsd_drop)
  next
    case False
    let ?z = "fold (bpush tr) (replicate (nat e) 0) ([], d)"
    have "after_zeros tr e d = (fst ?z, 0, snd ?z)" using False by (simp add: after_zeros_def Let_def)
    moreover have "lsd (scaled N e) (pushed (m + k) e) = replicate (nat e) 0 @ lsd N (m + k)" using False by (simp add: scaled_def pushed_def lsd_shift)
    ultimately show ?thesis unfolding a b_def using apush_fold [of tr "lsd N (m + k)" "fst ?z" 0 "snd ?z"] by simp
  qed
qed

text \<open>When the loop at the end goes on.\<close>

lemma more_pushes:
  assumes "fst a = fst (fold (bpush tr) (lsd V m) ([], d))" "snd (snd a) = snd (fold (bpush tr) (lsd V m) ([], d))"
  shows "more rest a \<longleftrightarrow> (if d = 0 then m = 0 \<and> (hd rest = 0 \<or> hd rest = 46) else m \<le> d)"
proof -
  obtain T e d' where a: "a = (T, e, d')" by (cases a)
  have head: "hd (rev (map digit_byte ns) @ U) \<noteq> 0 \<and> hd (rev (map digit_byte ns) @ U) \<noteq> 46" if "ns = lsd W (Suc i)" for ns W i U
    using digit_byte_not [of "W div 10 ^ i mod 10"] by (simp add: that lsd_snoc)
  consider "d = 0" "m = 0" | "d = 0" "0 < m" | "m < d" | "0 < d" "m = d" | "0 < d" "d < m" by linarith
  then show ?thesis
  proof cases
    case 2
    then obtain i where i: "m = Suc i" by (cases m) auto
    then show ?thesis using assms 2 head [of "lsd V m" V i rest] by (simp add: a bpush_integer more_def)
  next
    case 3
    then show ?thesis using assms bpush_fraction [OF 3, of tr V] by (simp add: a more_def)
  next
    case 4
    then show ?thesis using assms bpush_point [of d tr V] by (simp add: a more_def)
  next
    case 5
    then obtain i where i: "m = d + Suc i" using less_imp_Suc_add by fastforce
    then have "fold (bpush tr) (lsd V m) ([], d) = (rev (map digit_byte (lsd (V div 10 ^ d) (Suc i))) @ 46 # fraction_text tr V d, 0)"
      using bpush_point [OF 5(1), of tr V] unfolding i lsd_append fold_append comp_def by (simp only: bpush_integer)
    then show ?thesis using assms 5 head [of "lsd (V div 10 ^ d) (Suc i)" "V div 10 ^ d" i "(46 # fraction_text tr V d) @ rest"] by (simp add: a more_def)
  qed (use assms in \<open>auto simp: a more_def\<close>)
qed

text \<open>The number of digits pushed in all is the length of the text.\<close>

lemma pushed_digits:
  assumes "N = 0 \<Longrightarrow> e = 0" "m = length (dec_digits N)"
  shows "0 < scaled N e \<Longrightarrow> pushed m e = length (dec_digits (scaled N e))" "scaled N e = 0 \<Longrightarrow> pushed m e = (if N = 0 then 1 else 0)"
proof -
  have b: "N < 10 ^ m" "0 < N \<Longrightarrow> 10 ^ (m - 1) \<le> N" "0 < m" using dec_digits_bounds [of N] assms(2) by auto
  show "pushed m e = length (dec_digits (scaled N e))" if p: "0 < scaled N e"
  proof (cases "e < 0")
    case True
    then show ?thesis using dec_digits_div [of N "nat (- e)"] p assms(2) by (simp add: scaled_def pushed_def)
  next
    case False
    have N: "0 < N" using p False by (simp add: scaled_def)
    have "nat e + m - 1 = (m - 1) + nat e" using b(3) by simp
    then have "10 ^ (nat e + m - 1) \<le> N * 10 ^ nat e" using mult_right_mono [OF b(2) [OF N], of "10 ^ nat e"] by (simp add: power_add)
    moreover have "N * 10 ^ nat e < 10 ^ (nat e + m)" using b(1) by (simp add: power_add)
    ultimately show ?thesis using dec_digits_unique [of "nat e + m" "N * 10 ^ nat e"] N b(3) False by (simp add: scaled_def pushed_def)
  qed
  show "pushed m e = (if N = 0 then 1 else 0)" if z: "scaled N e = 0"
  proof (cases "N = 0")
    case True
    then show ?thesis using assms by (simp add: pushed_def dec_digits.simps)
  next
    case False
    then have e: "e < 0" using z by (auto simp: scaled_def split: if_splits)
    have "N < 10 ^ nat (- e)" using z e by (simp add: scaled_def div_eq_0_iff)
    then have "(10 :: nat) ^ (m - 1) < 10 ^ nat (- e)" using b(2) False by linarith
    then have "m - 1 < nat (- e)" by (simp add: power_less_imp_less_exp)
    then show ?thesis using e False by (simp add: pushed_def)
  qed
qed

lemma all_pushes_text:
  assumes N: "N = 0 \<Longrightarrow> e = 0" "m = length (dec_digits N)"
    and ok: "0 < d \<or> 0 < scaled N e \<or> N = 0 \<or> hd rest = 0"
    and k: "\<not> more rest (all_pushes tr N m k (after_zeros tr e d))" "\<forall>j<k. more rest (all_pushes tr N m j (after_zeros tr e d))"
  shows "fst (all_pushes tr N m k (after_zeros tr e d)) = number_text tr (scaled N e) d"
proof -
  let ?V = "scaled N e" and ?p = "\<lambda>k. pushed (m + k) e"
  have lt: "N < 10 ^ m" using dec_digits_bounds [of N] N(2) by simp
  note st = all_pushes_state [OF lt, of tr _ e d]
  have mr: "more rest (all_pushes tr N m j (after_zeros tr e d)) \<longleftrightarrow> (if d = 0 then ?p j = 0 \<and> (hd rest = 0 \<or> hd rest = 46) else ?p j \<le> d)" for j
    using more_pushes st by blast
  have step: "?p k \<le> Suc (?p (k - 1))" if "0 < k" using that by (auto simp: pushed_def)
  have mono: "?p 0 \<le> ?p k" by (auto simp: pushed_def)
  note dig = pushed_digits [OF N, simplified]
  have "length (dec_digits (?V div 10 ^ d)) + d = ?p k"
  proof (cases "0 < ?V div 10 ^ d")
    case True
    then have V: "0 < ?V" by (metis div_0 not_gr_zero)
    have l: "length (dec_digits (?V div 10 ^ d)) + d = ?p 0" using dec_digits_div [OF True] dig(1) V by simp
    moreover have "0 < length (dec_digits (?V div 10 ^ d))" by simp
    ultimately have "d < ?p 0" by linarith
    then have "k = 0" using k(2) mr [of 0] by (cases k) (auto split: if_splits)
    then show ?thesis using l by simp
  next
    case False
    then have z: "?V div 10 ^ d = 0" by simp
    have p0: "?p 0 \<le> max d 1"
    proof (cases "?V = 0")
      case False
      then show ?thesis using dec_digits_short [OF z] dig(1) by simp
    qed (use dig(2) in simp)
    have "d < ?p k"
    proof (cases "d = 0")
      case True
      then have V: "?V = 0" using z by simp
      show ?thesis
      proof (cases "N = 0")
        case False
        then have "hd rest = 0" using ok True V by simp
        then show ?thesis using k(1) mr [of k] True by simp
      qed (use dig(2) V mono True in simp)
    qed (use k(1) mr [of k] in simp)
    moreover have "?p k \<le> Suc d"
    proof (cases k)
      case 0
      then show ?thesis using p0 by simp
    next
      case (Suc j)
      then have "?p (k - 1) \<le> d" using k(2) mr [of j] by (auto split: if_splits)
      then show ?thesis using step Suc by simp
    qed
    ultimately show ?thesis unfolding z by (simp add: dec_digits.simps)
  qed
  then show ?thesis using st [of k] pushes_text [of ?V d "?p k" tr] by simp
qed

lemma memzero_val: "n \<le> length pnt \<Longrightarrow> memzero pnt n = Some (replicate n 0 @ drop n pnt)"
proof -
  have "i + n \<le> length pnt \<Longrightarrow> memzero_loop pnt i n = Some (take i pnt @ replicate n 0 @ drop (i + n) pnt)" for i
  proof (induction n arbitrary: pnt i)
    case (Suc n)
    have p: "mem_put pnt i 0 = Some (pnt[i := 0])" using Suc.prems by (simp add: mem_put_def)
    have "memzero_loop (pnt[i := 0]) (i + 1) n = Some (take (i + 1) (pnt[i := 0]) @ replicate n 0 @ drop (i + 1 + n) (pnt[i := 0]))"
      using Suc.prems by (intro Suc.IH) simp
    moreover have "take (i + 1) (pnt[i := 0]) = take i pnt @ [0]" using Suc.prems by (simp add: take_Suc_conv_app_nth)
    ultimately show ?case using p by (simp add: add.commute [of i] flip: replicate_append_same)
  qed simp
  from this [of 0] show "n \<le> length pnt \<Longrightarrow> memzero pnt n = Some (replicate n 0 @ drop n pnt)" by (simp add: memzero_def)
qed

text \<open>The frame: prefix, suffix and the terminating zero.\<close>

definition framed :: "byte list \<Rightarrow> byte list \<Rightarrow> byte list \<Rightarrow> nat \<Rightarrow> byte list" where
  "framed pre suf out outlen = patch (patch (patch out 0 pre) (outlen - length suf - 1) suf) (outlen - 1) [0]"

lemma framed_facts:
  assumes "outlen \<le> length out" "length pre + length suf < outlen"
  shows "mem_blit out 0 pre = Some (patch out 0 pre)"
    "mem_blit (patch out 0 pre) (outlen - length suf - 1) suf = Some (patch (patch out 0 pre) (outlen - length suf - 1) suf)"
    "mem_put (patch (patch out 0 pre) (outlen - length suf - 1) suf) (outlen - 1) 0 = Some (framed pre suf out outlen)"
    "length (framed pre suf out outlen) = length out" "take (length pre) (framed pre suf out outlen) = pre"
    "drop (outlen - length suf - 1) (framed pre suf out outlen) = suf @ 0 # drop outlen out"
proof -
  let ?e = "outlen - length suf - 1"
  have e: "?e + length suf + 1 = outlen" "length pre \<le> ?e" using assms(2) by simp_all
  have l1: "length (patch out 0 pre) = length out" using assms by (intro length_patch) simp
  have l2: "length (patch (patch out 0 pre) ?e suf) = length out" using assms l1 by (subst length_patch) simp_all
  show "mem_blit out 0 pre = Some (patch out 0 pre)" using assms by (intro mem_blit_patch) simp
  show "mem_blit (patch out 0 pre) ?e suf = Some (patch (patch out 0 pre) ?e suf)" using assms l1 by (intro mem_blit_patch) simp
  show "mem_put (patch (patch out 0 pre) ?e suf) (outlen - 1) 0 = Some (framed pre suf out outlen)"
    unfolding framed_def using assms l2 by (intro mem_put_patch) simp
  have "framed pre suf out outlen = patch (patch out 0 pre) ?e (suf @ [0])"
    unfolding framed_def using assms l1 e by (intro patch_append) simp_all
  also have "\<dots> = take ?e (patch out 0 pre) @ suf @ 0 # drop outlen (patch out 0 pre)" using e by (simp add: patch_def)
  also have "drop outlen (patch out 0 pre) = drop outlen out" using assms by (intro drop_patch) simp_all
  finally have f: "framed pre suf out outlen = take ?e (patch out 0 pre) @ suf @ 0 # drop outlen out" .
  have te: "length (take ?e (patch out 0 pre)) = ?e" using l1 assms(1) by simp
  show "length (framed pre suf out outlen) = length out" unfolding f using te assms e(1) by simp
  show "drop ?e (framed pre suf out outlen) = suf @ 0 # drop outlen out" unfolding f using te by simp
  have "take (length pre) (framed pre suf out outlen) = take (length pre) (take ?e (patch out 0 pre))" unfolding f using te e(2) by simp
  also have "\<dots> = take (length pre) (patch out 0 pre)" using e(2) by (simp add: min_absorb1)
  also have "\<dots> = pre" by (simp add: patch_def)
  finally show "take (length pre) (framed pre suf out outlen) = pre" .
qed

lemma close_gap:
  assumes B: "length B = length out" "take s B = pre" "drop endp B = suf @ 0 # drop outlen out" and o: "outlen \<le> length out"
    and e: "endp + length suf + 1 = outlen" "s + length T \<le> endp" and s: "length pre = s"
  defines "str \<equiv> endp - length T"
  shows "\<exists>out'. mem_read (patch B str T) str (outlen - str) \<bind> (\<lambda>bytes. mem_blit (patch B str T) s bytes) = Some out' \<and>
    take (s + length T + length suf + 1) out' = pre @ T @ suf @ [0] \<and> length out' = length out \<and> drop outlen out' = drop outlen out"
proof -
  have l: "length (patch B str T) = length out" using B(1) e o unfolding str_def by (subst length_patch) simp_all
  have "patch B str T = take str B @ T @ suf @ 0 # drop outlen out" using e(2) B(3) by (simp add: patch_def str_def)
  moreover have t: "length (take str B) = str" using B(1) e o unfolding str_def by simp
  ultimately have r: "take (outlen - str) (drop str (patch B str T)) = T @ suf @ [0]"
  proof -
    have "outlen - str = Suc (length T + length suf)" using e unfolding str_def by simp
    then show "patch B str T = take str B @ T @ suf @ 0 # drop outlen out \<Longrightarrow> length (take str B) = str \<Longrightarrow> ?thesis" by simp
  qed
  then have m: "mem_read (patch B str T) str (outlen - str) = Some (T @ suf @ [0])" using l o e unfolding str_def by (simp add: mem_read_def)
  have le: "s + length (T @ suf @ [0]) \<le> outlen" using e by simp
  have b: "mem_blit (patch B str T) s (T @ suf @ [0]) = Some (patch (patch B str T) s (T @ suf @ [0]))" using l o le by (intro mem_blit_patch) simp
  have pre: "take s (patch B str T) = pre" using B(1,2) o e by (simp add: patch_def str_def)
  have o': "patch (patch B str T) s (T @ suf @ [0]) = pre @ T @ suf @ [0] @ drop (s + length (T @ suf @ [0])) (patch B str T)"
    unfolding patch_def [of "patch B str T"] pre by simp
  have "length (patch (patch B str T) s (T @ suf @ [0])) = length out" using l o le by (subst length_patch) simp_all
  moreover have "drop outlen (patch (patch B str T) s (T @ suf @ [0])) = drop outlen (patch B str T)" using l o le by (intro drop_patch) simp_all
  moreover have "drop outlen (patch B str T) = drop outlen B" using B(1) o e unfolding str_def by (intro drop_patch) simp_all
  moreover have "drop outlen B = drop outlen out"
  proof -
    have "outlen = (length suf + 1) + endp" using e by simp
    then have "drop outlen B = drop (length suf + 1) (drop endp B)" by (simp only: drop_drop)
    then show ?thesis unfolding B(3) by simp
  qed
  moreover have "take (s + length T + length suf + 1) (patch (patch B str T) s (T @ suf @ [0])) = pre @ T @ suf @ [0]" unfolding o' using s by simp
  ultimately show ?thesis using m b by simp
qed

text \<open>The number between prefix and suffix: the four loops of the code.\<close>

abbreviation number_run :: "nat \<Rightarrow> nat \<Rightarrow> bool \<Rightarrow> nat \<Rightarrow> int \<Rightarrow> bignum256 \<Rightarrow> fmt \<Rightarrow> (byte list + fmt) option" where
  "number_run start endp tr digits e amnt s \<equiv> and_then (format_zeros start endp tr (nat e) s) (\<lambda>s.
     and_then (format_groups start endp tr (digits div 3) amnt s) (\<lambda>(val, s).
     and_then (format_rest start endp tr digits val s) (format_fill start endp tr)))"

lemma number_run_gives:
  assumes a: "bignum amnt" and le: "start \<le> endp" "endp < length B"
    and k: "\<not> more (drop endp B) (all_pushes tr (bn_val amnt) m k (after_zeros tr e d))"
      "\<forall>j<k. more (drop endp B) (all_pushes tr (bn_val amnt) m j (after_zeros tr e d))"
  shows "gives B start endp (number_run start endp tr m e amnt (B, endp, e, d)) (all_pushes tr (bn_val amnt) m k (after_zeros tr e d))"
proof -
  let ?g = "\<lambda>s. and_then (format_groups start endp tr (m div 3) amnt s) (\<lambda>(val, s).
      and_then (format_rest start endp tr m val s) (format_fill start endp tr))"
  have le': "endp \<le> length B" using le by simp
  have z1: "gives B start endp (format_zeros start endp tr (nat e) (B, endp, e, d)) (after_zeros tr e d)"
  proof (cases "e < 0")
    case True
    then show ?thesis using le by (simp add: after_zeros_def gives_def fits_def conc_def)
  next
    case False
    then show ?thesis using zeros_gives [OF le(1) le', of "[]" "nat e" d tr] by (simp add: after_zeros_def Let_def conc_def fits_def)
  qed
  have z2: "gives B start endp (?g (conc B endp (after_zeros tr e d))) (all_pushes tr (bn_val amnt) m k (after_zeros tr e d))"
    if "fits start endp (after_zeros tr e d)" by (rule digits_gives [OF le that a k])
  have mono: "length (fst (after_zeros tr e d)) \<le> length (fst (all_pushes tr (bn_val amnt) m k (after_zeros tr e d)))"
    unfolding all_pushes_def by (rule order_trans [OF fold_apush_mono fold_apush_mono])
  show ?thesis by (rule gives_then [where f = ?g, OF z1 z2 mono])
qed

lemma bn_format_run:
  assumes "outlen \<le> length out" "length pre + length suf < outlen" "decimals \<le> 80" "- 20 \<le> exponent" "exponent \<le> 80"
  shows "bn_format amnt (Ptr pre) (Ptr suf) decimals exponent trailing out outlen =
    (let e = (if bn_is_zero amnt then 0 else exponent); endp = outlen - length suf - 1 in
     number_run (length pre) endp trailing (bn_digitcount amnt) e amnt (framed pre suf out outlen, endp, e, decimals) \<bind>
     (\<lambda>r. case r of Inl out \<Rightarrow> Some (0, out) | Inr (out, str, _, _) \<Rightarrow>
       (mem_read out str (outlen - str) \<bind> (\<lambda>bytes. mem_blit out (length pre) bytes)) \<bind> (\<lambda>out. Some (length pre + (outlen - str) - 1, out))))"
  using assms framed_facts(1-3) [OF assms(1,2)] unfolding bn_format_def Let_def by simp

lemma bn_format_in_range:
  fixes trailing :: bool
  assumes a: "bignum amnt" "bn_val amnt < 10 ^ 78" and r: "decimals \<le> 80" "- 20 \<le> exponent" "exponent \<le> 80"
    and o: "outlen \<le> length out" "length pre + length suf < outlen"
    and z: "0 < decimals \<or> 0 < scaled (bn_val amnt) exponent \<or> bn_val amnt = 0 \<or> suf = []"
  defines "T \<equiv> number_text trailing (scaled (bn_val amnt) exponent) decimals"
  shows "\<exists>n out'. bn_format amnt (Ptr pre) (Ptr suf) decimals exponent trailing out outlen = Some (n, out') \<and>
    (if length pre + length T + length suf < outlen
     then n = length pre + length T + length suf \<and> take (Suc n) out' = pre @ T @ suf @ [0] \<and> length out' = length out \<and> drop outlen out' = drop outlen out
     else n = 0)"
proof -
  let ?N = "bn_val amnt" and ?B = "framed pre suf out outlen" and ?s = "length pre" and ?e = "outlen - length suf - 1"
  let ?x = "if ?N = 0 then 0 else exponent" and ?m = "length (dec_digits (bn_val amnt))"
  note B = framed_facts [OF o]
  have le: "?s \<le> ?e" "?e < length ?B" using o B(4) by simp_all
  have V: "scaled ?N ?x = scaled ?N exponent" by (simp add: scaled_def)
  obtain k where k: "\<not> more (drop ?e ?B) (all_pushes trailing ?N ?m k (after_zeros trailing ?x decimals))"
      "\<forall>j<k. more (drop ?e ?B) (all_pushes trailing ?N ?m j (after_zeros trailing ?x decimals))"
    using fill_count unfolding all_pushes_def by blast
  define f where "f = all_pushes trailing ?N ?m k (after_zeros trailing ?x decimals)"
  have T: "fst f = T"
    using all_pushes_text [OF _ refl _ k] z V B(6) unfolding T_def f_def by auto
  let ?run = "number_run ?s ?e trailing ?m ?x amnt (?B, ?e, ?x, decimals)"
  have g: "gives ?B ?s ?e ?run f" unfolding f_def by (rule number_run_gives [OF a(1) le k])
  obtain e0 d0 where c: "conc ?B ?e f = (patch ?B (?e - length T) T, ?e - length T, e0, d0)" using T by (cases f) (simp add: conc_def)
  have run: "bn_format amnt (Ptr pre) (Ptr suf) decimals exponent trailing out outlen = ?run \<bind> (\<lambda>r. case r of Inl out \<Rightarrow> Some (0, out) | Inr (out, str, _, _) \<Rightarrow>
         (mem_read out str (outlen - str) \<bind> (\<lambda>bytes. mem_blit out ?s bytes)) \<bind> (\<lambda>out. Some (?s + (outlen - str) - 1, out)))"
    unfolding bn_format_run [OF o r] bn_digitcount_val [OF a] bn_is_zero_val Let_def ..
  show ?thesis
  proof (cases "length pre + length T + length suf < outlen")
    case True
    then have m: "?run = Some (Inr (conc ?B ?e f))" using g T by (simp add: gives_def fits_def)
    have e: "?e + length suf + 1 = outlen" "?s + length T \<le> ?e" "?s + (outlen - (?e - length T)) - 1 = ?s + length T + length suf" using o True by simp_all
    obtain out' where out: "mem_read (patch ?B (?e - length T) T) (?e - length T) (outlen - (?e - length T)) \<bind>
          (\<lambda>bytes. mem_blit (patch ?B (?e - length T) T) ?s bytes) = Some out'"
        "take (?s + length T + length suf + 1) out' = pre @ T @ suf @ [0]" "length out' = length out" "drop outlen out' = drop outlen out"
      using close_gap [OF B(4,5,6) o(1) e(1,2) refl] by blast
    have "bn_format amnt (Ptr pre) (Ptr suf) decimals exponent trailing out outlen = Some (?s + length T + length suf, out')"
      unfolding run m c using out(1) e(3) by (simp del: bind_assoc)
    then show ?thesis using True out(2-4) by simp
  next
    case False
    then have "\<not> fits ?s ?e f" unfolding fits_def T using o by simp
    then obtain out' where "?run = Some (Inl out')" using g by (auto simp: gives_def)
    then show ?thesis unfolding run using False by simp
  qed
qed

text \<open>C20: The text of a number of up to 78 digits, for a buffer whose stated size is within the buffer and above the lengths of prefix and suffix together (the code checks
  neither). With more than 80 decimals or an exponent outside -20 to 80 the stated part of the buffer is zeroed and 0 is returned. Otherwise the loop at the end returns, and
  if there is room the buffer starts with the prefix, the decimal text of the number scaled by the power of ten, the suffix and a terminating zero, what lies behind the stated
  size is left as it was, and the length of the text is returned; without room the result is 0. Excluded is a number that is not 0 but scales to 0, without decimals and with a
  suffix: there the code writes no digit at all.
\<close>

theorem bn_format_result:
  fixes trailing :: bool
  assumes a: "bignum amnt" "bn_val amnt < 10 ^ 78"
    and o: "outlen \<le> length out" "length pre + length suf < outlen"
    and z: "0 < decimals \<or> 0 < scaled (bn_val amnt) exponent \<or> bn_val amnt = 0 \<or> suf = []"
  defines "T \<equiv> number_text trailing (scaled (bn_val amnt) exponent) decimals"
  shows "if 80 < decimals \<or> exponent < - 20 \<or> 80 < exponent
    then bn_format amnt (Ptr pre) (Ptr suf) decimals exponent trailing out outlen = Some (0, replicate outlen 0 @ drop outlen out)
    else \<exists>n out'. bn_format amnt (Ptr pre) (Ptr suf) decimals exponent trailing out outlen = Some (n, out') \<and>
      (if length pre + length T + length suf < outlen
       then n = length pre + length T + length suf \<and> take (Suc n) out' = pre @ T @ suf @ [0] \<and> length out' = length out \<and> drop outlen out' = drop outlen out
       else n = 0)"
proof (cases "80 < decimals \<or> exponent < - 20 \<or> 80 < exponent")
  case True
  then show ?thesis using memzero_val [OF o(1)] by (auto simp: bn_format_def)
next
  case False
  then have "decimals \<le> 80" "- 20 \<le> exponent" "exponent \<le> 80" by simp_all
  from bn_format_in_range [OF a this o z] show ?thesis unfolding if_not_P [OF False] T_def .
qed

text \<open>1234567 with three decimals and the suffix \<open>'' BTC''\<close>: the 12 characters of \<open>1234.567 BTC\<close>.\<close>

lemma bn_format_result_witness:
  "\<exists>out'. bn_format [1234567, 0, 0, 0, 0, 0, 0, 0, 0] (Ptr []) (Ptr [32, 66, 84, 67]) 3 0 False (replicate 20 1) 20 = Some (12, out') \<and>
    take 13 out' = [49, 50, 51, 52, 46, 53, 54, 55, 32, 66, 84, 67, 0]"
proof -
  let ?a = "[1234567, 0, 0, 0, 0, 0, 0, 0, 0] :: bignum256"
  have a: "bignum ?a" "bn_val ?a = 1234567" by (simp_all add: bignum_def)
  have T: "number_text False (scaled (bn_val ?a) 0) 3 = [49, 50, 51, 52, 46, 53, 54, 55]" unfolding a
    by (simp add: number_text_def fraction_text_def scaled_def lsd_def dec_digits.simps digit_byte_def byte_of_char_def digit_char_def upt_rec Let_def)
  show ?thesis using bn_format_result [OF a(1), of 20 "replicate 20 1" "[]" "[32, 66, 84, 67]" 3 0 False] unfolding T by (auto simp: a simp flip: numeral_2_eq_2)
qed

text \<open>A buffer that does not take the prefix is overrun.\<close>

lemma bn_format_overrun:
  "bn_format [5, 0, 0, 0, 0, 0, 0, 0, 0] (Ptr [32, 66, 84, 67]) Null 0 0 False (replicate 3 1) 3 = None"
  by code_simp

text \<open>
  The excluded case: 5 with the exponent -1 and no decimals. The loop at the end reads the suffix's first character instead of a digit,
  and the text is the suffix alone.
\<close>

lemma bn_format_no_digit:
  "bn_format [5, 0, 0, 0, 0, 0, 0, 0, 0] Null (Ptr [32, 66, 84, 67]) 0 (- 1) False (replicate 8 1) 8 =
    Some (4, [32, 66, 84, 67, 0, 84, 67, 0])"
  by code_simp

section \<open>Debug printing\<close>

text \<open>
  What \<open>bn_print\<close> and \<open>bn_print_raw\<close> write to the standard output, in the build that has them. \<open>print_hex\<close> is the conversion \<open>%0wx\<close>:
  hexadecimal digits, filled with zeros up to the width.
\<close>

definition hex_char :: "nat \<Rightarrow> char" where
  "hex_char n = ''0123456789abcdef'' ! n"

fun hex_digits :: "nat \<Rightarrow> string" where
  "hex_digits n = (if n < 16 then [hex_char n] else hex_digits (n div 16) @ [hex_char (n mod 16)])"

declare hex_digits.simps [simp del]

definition print_hex :: "nat \<Rightarrow> nat \<Rightarrow> string" where
  "print_hex w n = replicate (w - length (hex_digits n)) (CHR ''0'') @ hex_digits n"

definition bn_print :: "bignum256 \<Rightarrow> string" where
  "bn_print a =
     print_hex 4 (unat (a ! 8 AND 0x0000FFFF)) @
     print_hex 8 (unat (push_bit 2 (a ! 7) OR drop_bit 28 (a ! 6 AND 0x30000000))) @
     print_hex 7 (unat (a ! 6 AND 0x0FFFFFFF)) @
     print_hex 8 (unat (push_bit 2 (a ! 5) OR drop_bit 28 (a ! 4 AND 0x30000000))) @
     print_hex 7 (unat (a ! 4 AND 0x0FFFFFFF)) @
     print_hex 8 (unat (push_bit 2 (a ! 3) OR drop_bit 28 (a ! 2 AND 0x30000000))) @
     print_hex 7 (unat (a ! 2 AND 0x0FFFFFFF)) @
     print_hex 8 (unat (push_bit 2 (a ! 1) OR drop_bit 28 (a ! 0 AND 0x30000000))) @
     print_hex 7 (unat (a ! 0 AND 0x0FFFFFFF))"

definition bn_print_raw :: "bignum256 \<Rightarrow> string" where
  "bn_print_raw a = concat (map (\<lambda>i. ''0x'' @ print_hex 8 (unat (a ! i)) @ '', '') [0..<9])"

text \<open>The digits of exactly \<open>w\<close> places.\<close>

primrec hexs :: "nat \<Rightarrow> nat \<Rightarrow> string" where
  "hexs 0 n = []"
| "hexs (Suc w) n = hexs w (n div 16) @ [hex_char (n mod 16)]"

lemma hexs_zero: "hexs w 0 = replicate w (CHR ''0'')"
  by (induction w) (simp_all add: hex_char_def replicate_append_same)

lemma print_hex_hexs: "n < 16 ^ w \<Longrightarrow> 0 < w \<Longrightarrow> print_hex w n = hexs w n"
proof (induction w arbitrary: n)
  case (Suc w)
  show ?case
  proof (cases "n < 16")
    case True
    then show ?thesis by (simp add: print_hex_def hex_digits.simps [of n] hexs_zero)
  next
    case False
    then have "n div 16 < 16 ^ w" "0 < w" using Suc.prems by (auto simp: less_mult_imp_div_less intro!: gr0I)
    then have "print_hex w (n div 16) = hexs w (n div 16)" by (rule Suc.IH)
    then show ?thesis using False by (simp add: print_hex_def hex_digits.simps [of n])
  qed
qed simp

lemma hexs_append: "y < 16 ^ w \<Longrightarrow> hexs v x @ hexs w y = hexs (v + w) (x * 16 ^ w + y)"
proof (induction w arbitrary: y)
  case (Suc w)
  have "y div 16 < 16 ^ w" using Suc.prems by (simp add: less_mult_imp_div_less)
  moreover have "x * 16 ^ Suc w + y = y + 16 * (x * 16 ^ w)" by simp
  then have "(x * 16 ^ Suc w + y) div 16 = x * 16 ^ w + y div 16" "(x * 16 ^ Suc w + y) mod 16 = y mod 16" by (simp_all only: mod_mult_self2)
  ultimately show ?case using Suc.IH [of "y div 16"] by (simp del: power_Suc flip: append_assoc)
qed simp

lemma upper_part:
  fixes x y :: u32
  assumes "unat x < 2 ^ 30" "unat y < 2 ^ 30"
  shows "unat (push_bit 2 x OR drop_bit 28 (y AND 0x30000000)) = 4 * unat x + unat y div 2 ^ 28"
    "unat (y AND 0x0FFFFFFF) = unat y mod 2 ^ 28"
proof -
  have m: "(0x30000000 :: u32) = push_bit 28 (mask 2)" "(0x0FFFFFFF :: u32) = mask 28" by (simp_all add: mask_numeral push_bit_eq_mult)
  show "unat (y AND 0x0FFFFFFF) = unat y mod 2 ^ 28"
    unfolding m take_bit_eq_mask [symmetric] by (simp only: unsigned_take_bit_eq) (simp only: take_bit_eq_mod)
  have "drop_bit 28 (y AND 0x30000000) = take_bit 2 (drop_bit 28 y)"
    unfolding m by (rule bit_eqI) (auto simp: bit_simps)
  moreover have "unat (take_bit 2 (drop_bit 28 y)) = unat y div 2 ^ 28"
  proof -
    have "unat y div 2 ^ 28 < 4" using assms(2) by (simp add: less_mult_imp_div_less)
    then show ?thesis by (simp only: unsigned_take_bit_eq unsigned_drop_bit_eq) (simp add: take_bit_eq_mod drop_bit_eq_div)
  qed
  moreover have "unat (push_bit 2 x) = 4 * unat x"
    using assms(1) by (simp add: push_bit_eq_mult unat_word_ariths)
  moreover have "push_bit 2 x OR take_bit 2 (drop_bit 28 y) = push_bit 2 x + take_bit 2 (drop_bit 28 y)"
    by (rule disjunctive_add [symmetric]) (auto simp: bit_simps)
  moreover have "unat (push_bit 2 x + take_bit 2 (drop_bit 28 y)) = unat (push_bit 2 x) + unat (take_bit 2 (drop_bit 28 y))"
  proof -
    have "unat y div 2 ^ 28 < 4" using assms(2) by (simp add: less_mult_imp_div_less)
    then show ?thesis using calculation(2,3) assms(1) by (simp add: unat_word_ariths)
  qed
  ultimately show "unat (push_bit 2 x OR drop_bit 28 (y AND 0x30000000)) = 4 * unat x + unat y div 2 ^ 28" by simp
qed

lemma hexs_pair:
  fixes x y :: u32
  assumes "unat x < 2 ^ 30" "unat y < 2 ^ 30"
  shows "print_hex 8 (unat (push_bit 2 x OR drop_bit 28 (y AND 0x30000000))) @ print_hex 7 (unat (y AND 0x0FFFFFFF)) = hexs 15 (2 ^ 30 * unat x + unat y)"
proof -
  let ?p = "4 * unat x + unat y div 2 ^ 28" and ?q = "unat y mod 2 ^ 28"
  have "unat y div 2 ^ 28 < 4" using assms(2) by (simp add: less_mult_imp_div_less)
  then have p: "?p < 16 ^ 8" using assms(1) by simp
  have q: "?q < 16 ^ 7" by simp
  have "2 ^ 30 * unat x + unat y = 2 ^ 28 * (4 * unat x) + (2 ^ 28 * (unat y div 2 ^ 28) + unat y mod 2 ^ 28)" by simp
  also have "\<dots> = ?p * 16 ^ 7 + ?q" by (simp add: algebra_simps del: div_mult_mod_eq mult_div_mod_eq)
  finally have e: "2 ^ 30 * unat x + unat y = ?p * 16 ^ 7 + ?q" .
  show ?thesis
    unfolding upper_part [OF assms] e print_hex_hexs [OF p zero_less_numeral] print_hex_hexs [OF q zero_less_numeral] hexs_append [OF q] by simp
qed

lemma hexs_chain:
  assumes "A < 16 ^ 15" "B < 16 ^ 15" "C < 16 ^ 15" "D < 16 ^ 15"
  shows "hexs 4 t @ hexs 15 A @ hexs 15 B @ hexs 15 C @ hexs 15 D = hexs 64 ((((t * 16 ^ 15 + A) * 16 ^ 15 + B) * 16 ^ 15 + C) * 16 ^ 15 + D)"
proof -
  have "hexs 4 t @ hexs 15 A = hexs 19 (t * 16 ^ 15 + A)" by (simp only: hexs_append [OF assms(1)]) simp
  moreover have "hexs 19 x @ hexs 15 B = hexs 34 (x * 16 ^ 15 + B)" for x by (simp only: hexs_append [OF assms(2)]) simp
  moreover have "hexs 34 x @ hexs 15 C = hexs 49 (x * 16 ^ 15 + C)" for x by (simp only: hexs_append [OF assms(3)]) simp
  moreover have "hexs 49 x @ hexs 15 D = hexs 64 (x * 16 ^ 15 + D)" for x by (simp only: hexs_append [OF assms(4)]) simp
  ultimately show ?thesis by (simp only: append_assoc [symmetric])
qed

lemma split_top: "n = q * 2 ^ 16 + t \<Longrightarrow> 2 ^ 240 * n + r = q * 2 ^ 256 + (2 ^ 240 * t + r)" for n q t r :: nat
  by simp

text \<open>\<open>bn_print\<close> prints a normal number, taken modulo 2 to the 256, as 64 hexadecimal digits, although it puts them together from digits of 30 bits.
\<close>

theorem bn_print_result:
  assumes "bignum a"
  shows "bn_print a = print_hex 64 (bn_val a mod 2 ^ 256)"
proof -
  have "length a = 9" using assms by (simp add: bignum_def)
  then obtain a0 a1 a2 a3 a4 a5 a6 a7 a8 where a: "a = [a0, a1, a2, a3, a4, a5, a6, a7, a8]" by (rule length_9E)
  have b: "unat a0 < 2 ^ 30" "unat a1 < 2 ^ 30" "unat a2 < 2 ^ 30" "unat a3 < 2 ^ 30" "unat a4 < 2 ^ 30" "unat a5 < 2 ^ 30" "unat a6 < 2 ^ 30" "unat a7 < 2 ^ 30"
    using assms by (simp_all add: a bignum_def)
  let ?d = "\<lambda>x y. 2 ^ 30 * unat x + unat y" and ?t = "unat a8 mod 2 ^ 16"
  have d: "?d x y < 16 ^ 15" if "unat x < 2 ^ 30" "unat y < 2 ^ 30" for x y :: u32 using that by simp
  have m: "unat (a8 AND 0x0000FFFF) = ?t"
  proof -
    have "(0x0000FFFF :: u32) = mask 16" by (simp add: mask_numeral)
    then show ?thesis unfolding take_bit_eq_mask [symmetric] by (simp only: unsigned_take_bit_eq flip: take_bit_eq_mask) (simp only: take_bit_eq_mod)
  qed
  have top: "print_hex 4 (unat (a8 AND 0x0000FFFF)) = hexs 4 ?t" unfolding m by (intro print_hex_hexs) simp_all
  have "bn_print a = hexs 4 ?t @ hexs 15 (?d a7 a6) @ hexs 15 (?d a5 a4) @ hexs 15 (?d a3 a2) @ hexs 15 (?d a1 a0)"
    unfolding hexs_pair [OF b(8,7), symmetric] hexs_pair [OF b(6,5), symmetric] hexs_pair [OF b(4,3), symmetric] hexs_pair [OF b(2,1), symmetric] top [symmetric]
    by (simp add: bn_print_def a)
  also have "\<dots> = hexs 64 ((((?t * 16 ^ 15 + ?d a7 a6) * 16 ^ 15 + ?d a5 a4) * 16 ^ 15 + ?d a3 a2) * 16 ^ 15 + ?d a1 a0)"
    by (rule hexs_chain [OF d [OF b(8,7)] d [OF b(6,5)] d [OF b(4,3)] d [OF b(2,1)]])
  also have "(((?t * 16 ^ 15 + ?d a7 a6) * 16 ^ 15 + ?d a5 a4) * 16 ^ 15 + ?d a3 a2) * 16 ^ 15 + ?d a1 a0 = bn_val a mod 2 ^ 256"
  proof -
    let ?r = "((?d a7 a6 * 16 ^ 15 + ?d a5 a4) * 16 ^ 15 + ?d a3 a2) * 16 ^ 15 + ?d a1 a0"
    have r: "?r < 2 ^ 240" using d [OF b(8,7)] d [OF b(6,5)] d [OF b(4,3)] d [OF b(2,1)] by simp
    have v: "bn_val a = 2 ^ 240 * unat a8 + ?r" by (simp add: a)
    have w: "(2 ^ 240 * unat a8 + ?r) mod 2 ^ 256 = 2 ^ 240 * ?t + ?r"
    proof -
      have "2 ^ 240 * ?t + ?r < 2 ^ 256" using r mod_less_divisor [of "2 ^ 16" "unat a8"] by simp
      moreover have "2 ^ 240 * unat a8 + ?r = (unat a8 div 2 ^ 16) * 2 ^ 256 + (2 ^ 240 * ?t + ?r)"
        by (rule split_top [OF div_mult_mod_eq [symmetric]])
      ultimately show ?thesis by (simp only: mod_mult_self3 mod_less)
    qed
    show ?thesis unfolding v w by simp
  qed
  finally show ?thesis by (subst print_hex_hexs) simp_all
qed

lemma bn_print_result_witness:
  "bn_print [0x2fc, 0, 0, 0, 0, 0, 0, 0, 0] = print_hex 64 (0x2fc mod 2 ^ 256)"
  using bn_print_result [of "[0x2fc, 0, 0, 0, 0, 0, 0, 0, 0]"] by (simp add: bignum_def)

lemma bn_print_raw_length: "length a = 9 \<Longrightarrow> length (bn_print_raw a) = 108"
proof -
  have "length (print_hex 8 (unat (x :: u32))) = 8" for x
  proof -
    have l: "length (hexs w n) = w" for w n by (induction w arbitrary: n) simp_all
    have "unat x < 16 ^ 8" using unsigned_less [of x] by simp
    then show ?thesis by (subst print_hex_hexs) (simp_all add: l)
  qed
  then show ?thesis by (simp add: bn_print_raw_def length_concat comp_def sum_list_triv)
qed

end
