(* ===== verification/Bignum_Inv.thy ===== *)
theory Bignum_Inv
  imports Bignum_Conv
begin

text \<open>
  The fast \<open>bn_inverse\<close> of \<open>src/crypto/bignum.c\<close> (\<open>USE_INVERSE_FAST\<close>): the almost modular inverse on limbs of 32 bits, and the division by
  the power of two that it leaves. Two arrays of nine limbs hold \<open>u\<close> and \<open>s\<close>, and \<open>v\<close> and \<open>r\<close>: the first \<open>len1\<close> limbs are one number, least
  significant first, the rest the other, most significant first.
\<close>

section \<open>The code\<close>

record combo =
  limbs :: "u32 list"
  len1 :: nat

text \<open>From digits of 30 bits to limbs of 32 and back.\<close>

fun to_limbs_loop :: "u32 \<Rightarrow> nat \<Rightarrow> u32 list \<Rightarrow> u32 list" where
  "to_limbs_loop temp32 i [] = []"
| "to_limbs_loop temp32 i (v # vs) = (temp32 OR push_bit (30 - 2 * i) v) # to_limbs_loop (drop_bit (2 + 2 * i) v) (i + 1) vs"

definition to_limbs :: "bignum256 \<Rightarrow> u32 list" where
  "to_limbs x = to_limbs_loop (x ! 0) 0 (tl x)"

fun of_limbs_loop :: "u32 \<Rightarrow> nat \<Rightarrow> u32 list \<Rightarrow> u32 list" where
  "of_limbs_loop temp32 i [] = [temp32]"
| "of_limbs_loop temp32 i (w # ws) = ((push_bit (2 * i) w AND 0x3FFFFFFF) OR temp32) # of_limbs_loop (drop_bit (30 - 2 * i) w) (i + 1) ws"

definition of_limbs :: "u32 list \<Rightarrow> bignum256" where
  "of_limbs ws = of_limbs_loop 0 0 ws"

text \<open>Adjusting the length: with no limb left the code reads in front of the array.\<close>

fun adjust_len :: "u32 list \<Rightarrow> nat \<Rightarrow> nat option" where
  "adjust_len a 0 = None"
| "adjust_len a (Suc n) = (if a ! n = 0 then adjust_len a n else Some (Suc n))"

text \<open>Shifting out zero limbs: the limb \<open>len1 - 1\<close> is not zero here, so the loop ends before the length is 0.\<close>

fun shift_limbs :: "u32 list \<Rightarrow> nat \<Rightarrow> nat \<Rightarrow> (u32 list \<times> nat \<times> nat) option" where
  "shift_limbs a 0 k = (if a ! 0 = 0 then None else Some (a, 0, k))"
| "shift_limbs a (Suc n) k = (if a ! 0 = 0 then shift_limbs (tl a @ [0]) n (k + 32) else Some (a, Suc n, k))"

function zero_bits :: "u32 \<Rightarrow> nat \<Rightarrow> nat" where
  "zero_bits w j = (if j < 32 \<and> w AND push_bit j 1 = 0 then zero_bits w (j + 1) else j)"
  by pat_completeness auto

termination zero_bits
  by (relation "measure (\<lambda>(w, j). 32 - j)") auto

declare zero_bits.simps [simp del]

fun shr_limbs :: "nat \<Rightarrow> u32 list \<Rightarrow> u32 list" where
  "shr_limbs j [] = []"
| "shr_limbs j [w] = [drop_bit j w]"
| "shr_limbs j (w # w' # ws) = (drop_bit j w OR push_bit (32 - j) w') # shr_limbs j (w' # ws)"

fun shl_limbs :: "nat \<Rightarrow> u32 list \<Rightarrow> u32 list" where
  "shl_limbs j [] = []"
| "shl_limbs j [w] = [push_bit j w]"
| "shl_limbs j (w # w' # ws) = (push_bit j w OR drop_bit (32 - j) w') # shl_limbs j (w' # ws)"

text \<open>Shifting the first part right and the second left by \<open>j\<close> bits; a top limb that becomes zero changes sides.\<close>

definition shift_bits :: "nat \<Rightarrow> combo \<Rightarrow> combo" where
  "shift_bits j c =
     (let lo = shr_limbs j (take (len1 c) (limbs c)); hi = drop (len1 c) (limbs c)
      in if last lo = 0 then \<lparr> limbs = butlast lo @ shl_limbs j (0 # hi), len1 = len1 c - 1 \<rparr>
         else \<lparr> limbs = lo @ shl_limbs j hi, len1 = len1 c \<rparr>)"

definition make_odd :: "combo \<Rightarrow> nat \<Rightarrow> (combo \<times> nat) option" where
  "make_odd ev k = do {
     n \<leftarrow> adjust_len (limbs ev) (len1 ev);
     (a, n, k) \<leftarrow> shift_limbs (limbs ev) n k;
     let j = zero_bits (a ! 0) 0;
     let ev = \<lparr> limbs = a, len1 = n \<rparr>;
     if j > 0 then Some (shift_bits j ev, k + j) else Some (ev, k)
   }"

text \<open>The highest limb in which the first parts differ.\<close>

fun diff_limb :: "u32 list \<Rightarrow> u32 list \<Rightarrow> nat \<Rightarrow> nat option" where
  "diff_limb a b 0 = None"
| "diff_limb a b (Suc i) = (if a ! i = b ! i then diff_limb a b i else Some i)"

fun sub_limbs :: "u64 \<Rightarrow> u32 list \<Rightarrow> u32 list \<Rightarrow> u32 list" where
  "sub_limbs temp [] os = []"
| "sub_limbs temp (e # es) [] =
     (let temp = temp + (0xFFFFFFFF + ucast e) in ucast temp # sub_limbs (drop_bit 32 temp) es [])"
| "sub_limbs temp (e # es) (oo # os) =
     (let temp = temp + (0xFFFFFFFF + ucast e - ucast oo) in ucast temp # sub_limbs (drop_bit 32 temp) es os)"

fun add_limbs :: "u64 \<Rightarrow> u32 list \<Rightarrow> u32 list \<Rightarrow> u32 list" where
  "add_limbs temp [] es = []"
| "add_limbs temp (oo # os) [] =
     (let temp = temp + ucast oo in ucast temp # add_limbs (drop_bit 32 temp) os [])"
| "add_limbs temp (oo # os) (e # es) =
     (let temp = temp + (ucast oo + ucast e) in ucast temp # add_limbs (drop_bit 32 temp) os es)"

text \<open>The larger first part loses the smaller one; the second part of the smaller gains that of the larger.\<close>

definition reduce_combos :: "combo \<Rightarrow> combo \<Rightarrow> combo \<times> combo" where
  "reduce_combos ev od =
     (let ev = ev\<lparr> limbs := sub_limbs 1 (take (len1 ev) (limbs ev)) (take (len1 od) (limbs od)) @ drop (len1 ev) (limbs ev) \<rparr>;
          od = od\<lparr> limbs := take (len1 od) (limbs od) @
            rev (add_limbs 0 (rev (drop (len1 od) (limbs od))) (rev (drop (len1 ev) (limbs ev)))) \<rparr>
      in (ev, od))"

text \<open>The comparison of the first parts, both odd now, and the subtraction. The result says whether the loop goes on.\<close>

definition inverse_compare :: "combo \<Rightarrow> combo \<Rightarrow> bool \<Rightarrow> nat \<Rightarrow> (bool \<times> combo \<times> combo \<times> bool \<times> nat) option" where
  "inverse_compare us vr even_us k =
     (if len1 us = len1 vr \<and> diff_limb (limbs us) (limbs vr) (len1 us) = None then Some (False, us, vr, even_us, k)
      else let larger_us = (if len1 us = len1 vr
             then (case diff_limb (limbs us) (limbs vr) (len1 us) of None \<Rightarrow> False | Some i \<Rightarrow> limbs us ! i > limbs vr ! i)
             else len1 us > len1 vr);
          (ev, od) = (if larger_us then (us, vr) else (vr, us));
          (ev, od) = reduce_combos ev od
        in if limbs od ! 0 AND 1 = 0 \<or> limbs od ! 8 AND 1 = 0 \<or> limbs ev ! 0 AND 1 \<noteq> 0 then None
           else let (us, vr) = (if larger_us then (ev, od) else (od, ev))
             in Some (True, us, vr, larger_us, k))"

text \<open>One round. The pointers \<open>even\<close> and \<open>od\<close> are a flag: \<open>ev\<close> is \<open>us\<close>.\<close>

definition inverse_round :: "combo \<Rightarrow> combo \<Rightarrow> bool \<Rightarrow> nat \<Rightarrow> (bool \<times> combo \<times> combo \<times> bool \<times> nat) option" where
  "inverse_round us vr even_us k =
     (let (ev, od) = (if even_us then (us, vr) else (vr, us)) in
      if limbs od ! 0 AND 1 = 0 \<or> limbs od ! 8 AND 1 = 0 then None else do {
        (ev, k) \<leftarrow> make_odd ev k;
        if limbs ev ! 0 AND 1 = 0 \<or> limbs ev ! 8 AND 1 \<noteq> 0 then None
        else let (us, vr) = (if even_us then (ev, od) else (od, ev)) in inverse_compare us vr even_us k
      })"

partial_function (option) inverse_loop :: "combo \<Rightarrow> combo \<Rightarrow> bool \<Rightarrow> nat \<Rightarrow> (combo \<times> nat) option" where
  "inverse_loop us vr even_us k =
     inverse_round us vr even_us k \<bind> (\<lambda>(more, us, vr, even_us, k). if more then inverse_loop us vr even_us k else Some (us, k))"

text \<open>The negated inverse of the lowest limb: the loop ends when the square is 0.\<close>

partial_function (option) neg_inverse_loop :: "u32 \<Rightarrow> u32 \<Rightarrow> u32 option" where
  "neg_inverse_loop amone ninv =
     (if amone = 0 then Some ninv else let amone = amone * amone in neg_inverse_loop amone (ninv * (amone + 1)))"

text \<open>Division by \<open>2 ^ 32\<close>: a multiple of the prime makes the lowest limb zero.\<close>

fun mont_limbs :: "u64 \<Rightarrow> u32 \<Rightarrow> u32 list \<Rightarrow> u32 list \<Rightarrow> u32 list" where
  "mont_limbs temp factor (s # ss) (p # ps) =
     (let temp = temp + (ucast s + ucast p * ucast factor) in ucast temp # mont_limbs (drop_bit 32 temp) factor ss ps)"
| "mont_limbs temp factor ss ps = [ucast temp]"

definition mont_word :: "u32 list \<Rightarrow> u32 \<Rightarrow> u32 list \<Rightarrow> u32 list option" where
  "mont_word pp ninv s =
     (let factor = ninv * s ! 0; temp = ucast (s ! 0) + ucast (pp ! 0) * ucast factor :: u64
      in if temp AND 0xFFFFFFFF \<noteq> 0 then None
         else Some (mont_limbs (drop_bit 32 temp) factor (tl s) (tl pp)))"

function mont_words :: "u32 list \<Rightarrow> u32 \<Rightarrow> u32 list \<Rightarrow> nat \<Rightarrow> (u32 list \<times> nat) option" where
  "mont_words pp ninv s k = (if k \<ge> 32 then mont_word pp ninv s \<bind> (\<lambda>s. mont_words pp ninv s (k - 32)) else Some (s, k))"
  by pat_completeness auto

termination mont_words
  by (relation "measure (\<lambda>(_, _, _, k). k)") auto

declare mont_words.simps [simp del]

fun mont_shift_limbs :: "nat \<Rightarrow> u64 \<Rightarrow> u32 \<Rightarrow> u32 list \<Rightarrow> u32 list \<Rightarrow> u32 list" where
  "mont_shift_limbs k temp factor (s # ss) (p # ps) =
     (let temp = temp + push_bit (32 - k) (ucast s + ucast p * ucast factor) in ucast temp # mont_shift_limbs k (drop_bit 32 temp) factor ss ps)"
| "mont_shift_limbs k temp factor ss ps = [ucast temp]"

definition mont_bits :: "u32 list \<Rightarrow> u32 \<Rightarrow> u32 list \<Rightarrow> nat \<Rightarrow> u32 list option" where
  "mont_bits pp ninv s k =
     (let m = push_bit k 1 - 1; factor = (ninv * s ! 0) AND m;
          temp = drop_bit k (ucast (s ! 0) + ucast (pp ! 0) * ucast factor) :: u64
      in if (s ! 0 + pp ! 0 * factor) AND m \<noteq> 0 then None
         else Some (mont_shift_limbs k temp factor (tl s) (tl pp)))"

definition bn_inverse :: "bignum256 \<Rightarrow> bignum256 \<Rightarrow> bignum256 option" where
  "bn_inverse x p = do {
     x \<leftarrow> bn_mod (bn_fast_mod x p) p;
     let pp = to_limbs p;
     let us = \<lparr> limbs = pp @ [1], len1 = 8 \<rparr>;
     let vr = \<lparr> limbs = to_limbs x @ [0], len1 = 8 \<rparr>;
     (us, k) \<leftarrow> inverse_loop us vr False 0;
     if pp ! 0 AND 1 = 0 then None else do {
       ninv \<leftarrow> neg_inverse_loop (pp ! 0 - 1) (pp ! 0 - 2);
       (s, k) \<leftarrow> mont_words pp ninv (take 8 (rev (limbs us))) k;
       s \<leftarrow> (if k > 0 then mont_bits pp ninv s k else Some s);
       Some (of_limbs s)
     }
   }"

declare inverse_loop.simps [code] neg_inverse_loop.simps [code]

end
