(* ===== verification/Bignum_Inverse.thy ===== *)
theory Bignum_Inverse
  imports Bignum_Inv Bignum_Laws
begin

text \<open>
  Correctness of the fast \<open>bn_inverse\<close>. The numbers in the two arrays satisfy \<open>u * s + v * r = p\<close> throughout, which is why the four of them fit
  into the arrays, and \<open>x * s\<close> and \<open>x * r\<close> are \<open>v * 2 ^ k\<close> and \<open>- u * 2 ^ k\<close> modulo \<open>p\<close>; the sum of \<open>u\<close> and \<open>v\<close> decreases until both are 1.
\<close>

section \<open>Numbers in limbs\<close>

lemma words_val_append: "words_val (a @ b) = words_val a + 2 ^ (32 * length a) * words_val b"
  by (induction a) (simp_all add: power_add algebra_simps)

lemma words_val_less: "words_val a < 2 ^ (32 * length a)"
proof (induction a)
  case (Cons w a)
  have "unat w + 2 ^ 32 * words_val a < 2 ^ 32 * (words_val a + 1)" using unat_u32_less [of w] by simp
  also have "\<dots> \<le> 2 ^ 32 * 2 ^ (32 * length a)" using Cons by (intro mult_left_mono) simp_all
  finally show ?case by (simp add: power_add)
qed simp

lemma words_val_replicate_0 [simp]: "words_val (replicate n 0) = 0"
  by (induction n) simp_all

lemma words_val_0: "words_val ws = 0 \<Longrightarrow> ws = replicate (length ws) 0"
  by (induction ws) (auto simp: unat_eq_0)

text \<open>The top limb.\<close>

lemma top_limb:
  assumes "0 < n" "n \<le> length a"
  shows "a ! (n - 1) \<noteq> 0 \<longleftrightarrow> 2 ^ (32 * (n - 1)) \<le> words_val (take n a)"
proof -
  have s: "take n a = take (n - 1) a @ [a ! (n - 1)]" using assms by (metis Suc_diff_1 Suc_le_lessD take_Suc_conv_app_nth)
  have l: "length (take (n - 1) a) = n - 1" using assms by simp
  have v: "words_val (take n a) = words_val (take (n - 1) a) + 2 ^ (32 * (n - 1)) * unat (a ! (n - 1))"
    unfolding s words_val_append l by simp
  show ?thesis
  proof
    assume "a ! (n - 1) \<noteq> 0"
    then have "1 \<le> unat (a ! (n - 1))" by (simp add: Suc_le_eq unat_gt_0)
    then have "2 ^ (32 * (n - 1)) * 1 \<le> 2 ^ (32 * (n - 1)) * unat (a ! (n - 1))" by (rule mult_left_mono) simp
    then show "2 ^ (32 * (n - 1)) \<le> words_val (take n a)" unfolding v mult_1_right by (rule trans_le_add2)
  next
    assume "2 ^ (32 * (n - 1)) \<le> words_val (take n a)"
    then show "a ! (n - 1) \<noteq> 0" using v words_val_less [of "take (n - 1) a"] l by auto
  qed
qed

lemma words_val_odd: "ws \<noteq> [] \<Longrightarrow> odd (words_val ws) \<longleftrightarrow> ws ! 0 AND 1 \<noteq> 0"
  by (cases ws) (simp_all add: and_1_if)

lemma shift_split:
  fixes A B :: nat
  assumes "u < B" "m mod A = w mod A"
  shows "(u + B * w) mod (B * A) + B * A * (m div A) = u + B * m"
proof -
  have "(u + B * w) mod (B * A) = B * (w mod A) + u" using assms(1) by (simp add: mod_mult2_eq)
  moreover have "B * m = B * (m mod A) + B * A * (m div A)" by (metis add_mult_distrib2 mod_mult_div_eq mult.assoc)
  ultimately show ?thesis using assms(2) by simp
qed

lemma pow_split: "j \<le> n \<Longrightarrow> 2 ^ (n - j) * 2 ^ j = (2 :: nat) ^ n"
  by (simp add: power_add [symmetric])

lemma drop_bit_less: "j \<le> 32 \<Longrightarrow> unat (drop_bit j (w :: u32)) < 2 ^ (32 - j)"
  using unat_u32_less [of w] by (simp add: div_less_iff_less_mult pow_split del: power_numeral)

lemma words_val_mod: "j \<le> 32 \<Longrightarrow> words_val (w # ws) mod 2 ^ j = unat w mod 2 ^ j"
proof -
  assume "j \<le> 32"
  then have "2 ^ 32 = 2 ^ j * (2 :: nat) ^ (32 - j)" by (simp add: power_add [symmetric] del: power_numeral)
  then show ?thesis unfolding words_val.simps by (simp only: mult.assoc mod_mult_self2)
qed

lemma shr_limbs_val:
  assumes "0 < j" "j < 32"
  shows "length (shr_limbs j ws) = length ws \<and> words_val (shr_limbs j ws) = words_val ws div 2 ^ j"
  using assms
proof (induction j ws rule: shr_limbs.induct)
  case (3 j w w' ws)
  let ?m = "words_val (w' # ws)"
  have N: "2 ^ (32 - j) * 2 ^ j = (2 :: nat) ^ 32" using 3 by (intro pow_split) simp
  have u: "unat (drop_bit j w) < 2 ^ (32 - j)" using 3 by (intro drop_bit_less) simp
  have "unat (drop_bit j w OR push_bit (32 - j) w') = (unat w div 2 ^ j + 2 ^ (32 - j) * unat w') mod 2 ^ 32"
    using unat_or_push_mod [OF u, of w'] by simp
  then have "words_val (shr_limbs j (w # w' # ws)) = unat w div 2 ^ j + 2 ^ (32 - j) * ?m"
    using shift_split [of "unat w div 2 ^ j" "2 ^ (32 - j)" ?m "2 ^ j" "unat w'"] u words_val_mod [of j w' ws] 3
    unfolding N by (simp del: words_val.simps add: words_val.simps(2) [of "drop_bit j w OR push_bit (32 - j) w'"])
  also have "\<dots> = (unat w + 2 ^ j * (2 ^ (32 - j) * ?m)) div 2 ^ j" by simp
  also have "2 ^ j * (2 ^ (32 - j) * ?m) = 2 ^ 32 * ?m" unfolding N [symmetric] by (simp only: mult_ac)
  finally show ?case using 3 by simp
qed simp_all

text \<open>The second parts stand most significant first.\<close>

lemma words_val_rev_Cons: "words_val (rev (w # ws)) = words_val (rev ws) + 2 ^ (32 * length ws) * unat w"
  by (simp add: words_val_append)

lemma words_val_rev_less: "words_val (rev ws) < 2 ^ (32 * length ws)"
  using words_val_less [of "rev ws"] by simp

lemma shl_limbs_val:
  assumes "0 < j" "j < 32"
  shows "length (shl_limbs j ws) = length ws \<and> words_val (rev (shl_limbs j ws)) = 2 ^ j * words_val (rev ws) mod 2 ^ (32 * length ws)"
  using assms
proof (induction j ws rule: shl_limbs.induct)
  case (2 j w)
  have "unat (push_bit j w) = 2 ^ j * unat w mod 2 ^ 32"
    using unat_or_push_mod [of "0 :: u32" j w] 2 by simp
  then show ?case by simp
next
  case (3 j w w' ws)
  let ?L = "2 ^ (32 * length (w' # ws)) :: nat" and ?r = "words_val (rev (w' # ws))" and ?h = "unat w' div 2 ^ (32 - j)"
  have ih: "length (shl_limbs j (w' # ws)) = length (w' # ws)" "words_val (rev (shl_limbs j (w' # ws))) = 2 ^ j * ?r mod ?L"
    using 3 by blast+
  have u: "unat (drop_bit (32 - j) w') < 2 ^ j" using drop_bit_less [of "32 - j" w'] 3 by simp
  have o: "unat (push_bit j w OR drop_bit (32 - j) w') = (?h + 2 ^ j * unat w) mod 2 ^ 32"
    using unat_or_push_mod [OF u, of w] 3 by (simp add: or.commute)
  have c: "2 ^ j * ?r div ?L = ?h"
  proof -
    let ?M = "2 ^ (32 * length ws) :: nat"
    have r: "?r = words_val (rev ws) + ?M * unat w'" by (rule words_val_rev_Cons)
    have L: "?L = ?M * (2 ^ (32 - j) * 2 ^ j)" using 3 pow_split [of j 32] by (simp add: power_add mult.commute)
    have "2 ^ j * ?r div ?L = ?r div (?M * 2 ^ (32 - j))" unfolding L by (simp add: mult.assoc [symmetric] mult.commute [of _ "2 ^ j"])
    also have "\<dots> = ?r div ?M div 2 ^ (32 - j)" by (simp only: div_mult2_eq)
    also have "?r div ?M = unat w'" unfolding r using words_val_rev_less [of ws] by simp
    finally show ?thesis .
  qed
  have "words_val (rev (shl_limbs j (w # w' # ws))) = 2 ^ j * ?r mod ?L + ?L * ((?h + 2 ^ j * unat w) mod 2 ^ 32)"
    using ih o words_val_rev_Cons [of "push_bit j w OR drop_bit (32 - j) w'" "shl_limbs j (w' # ws)"] by simp
  also have "\<dots> = (2 ^ j * ?r + ?L * (2 ^ j * unat w)) mod (?L * 2 ^ 32)"
    unfolding mod_mult2_eq c [symmetric] by (simp add: add.commute)
  also have "2 ^ j * ?r + ?L * (2 ^ j * unat w) = 2 ^ j * words_val (rev (w # w' # ws))"
    unfolding words_val_rev_Cons [of w] by (simp add: add_mult_distrib2 mult.left_commute)
  also have "?L * 2 ^ 32 = 2 ^ (32 * length (w # w' # ws))" by (simp add: power_add)
  finally show ?case using ih(1) by simp
qed simp_all

section \<open>The two numbers of an array\<close>

definition first_part :: "combo \<Rightarrow> nat" where
  "first_part c = words_val (take (len1 c) (limbs c))"

definition second_part :: "combo \<Rightarrow> nat" where
  "second_part c = words_val (rev (drop (len1 c) (limbs c)))"

definition combo_ok :: "combo \<Rightarrow> bool" where
  "combo_ok c \<longleftrightarrow> length (limbs c) = 9 \<and> 1 \<le> len1 c \<and> len1 c \<le> 8"

definition top_ok :: "combo \<Rightarrow> bool" where
  "top_ok c \<longleftrightarrow> limbs c ! (len1 c - 1) \<noteq> 0"

lemma top_ok_bound: "combo_ok c \<Longrightarrow> top_ok c \<longleftrightarrow> 2 ^ (32 * (len1 c - 1)) \<le> first_part c"
  unfolding top_ok_def first_part_def by (rule top_limb) (simp_all add: combo_ok_def)

lemma first_less: "combo_ok c \<Longrightarrow> first_part c < 2 ^ (32 * len1 c)"
  using words_val_less [of "take (len1 c) (limbs c)"] by (simp add: first_part_def combo_ok_def)

lemma second_fits:
  assumes "combo_ok c" "top_ok c" "first_part c * n < 2 ^ 256"
  shows "n < 2 ^ (32 * (9 - len1 c))"
proof (rule ccontr)
  assume "\<not> n < 2 ^ (32 * (9 - len1 c))"
  moreover have "2 ^ (32 * (len1 c - 1)) \<le> first_part c" using assms(1,2) by (simp add: top_ok_bound)
  ultimately have "2 ^ (32 * (len1 c - 1)) * 2 ^ (32 * (9 - len1 c)) \<le> first_part c * n" by (intro mult_le_mono) simp_all
  moreover have "32 * (len1 c - 1) + 32 * (9 - len1 c) = 256" using assms(1) unfolding combo_ok_def by linarith
  ultimately show False using assms(3) by (simp add: power_add [symmetric])
qed

lemma first_odd: "combo_ok c \<Longrightarrow> odd (first_part c) \<longleftrightarrow> limbs c ! 0 AND 1 \<noteq> 0"
  unfolding first_part_def by (subst words_val_odd) (auto simp: combo_ok_def)

lemma second_odd: "combo_ok c \<Longrightarrow> odd (second_part c) \<longleftrightarrow> limbs c ! 8 AND 1 \<noteq> 0"
  unfolding second_part_def by (subst words_val_odd) (auto simp: combo_ok_def rev_nth)

section \<open>Making the first part odd\<close>

lemma adjust_len_val:
  assumes "n \<le> length a" "0 < words_val (take n a)"
  shows "\<exists>m. adjust_len a n = Some m \<and> 1 \<le> m \<and> m \<le> n \<and> a ! (m - 1) \<noteq> 0 \<and>
    words_val (take m a) = words_val (take n a) \<and> words_val (rev (drop m a)) = words_val (rev (drop n a))"
  using assms
proof (induction n)
  case (Suc n)
  show ?case
  proof (cases "a ! n = 0")
    case True
    have t: "take (Suc n) a = take n a @ [0]" using True Suc.prems(1) by (simp add: take_Suc_conv_app_nth)
    have d: "drop n a = 0 # drop (Suc n) a" using True Suc.prems(1) by (metis Cons_nth_drop_Suc Suc_le_lessD)
    have v: "words_val (take (Suc n) a) = words_val (take n a)" "words_val (rev (drop n a)) = words_val (rev (drop (Suc n) a))"
      unfolding t d by (simp_all add: words_val_append)
    obtain m where "adjust_len a n = Some m" "1 \<le> m" "m \<le> n" "a ! (m - 1) \<noteq> 0"
      "words_val (take m a) = words_val (take n a)" "words_val (rev (drop m a)) = words_val (rev (drop n a))"
      using Suc.IH Suc.prems v(1) by auto
    then show ?thesis using True v by auto
  qed simp
qed simp

lemma shift_limbs_val:
  assumes "1 \<le> n" "n \<le> length a" "a ! (n - 1) \<noteq> 0"
  shows "\<exists>a' n' t. shift_limbs a n k = Some (a', n', k + 32 * t) \<and> length a' = length a \<and> 1 \<le> n' \<and> n' \<le> n \<and> a' ! (n' - 1) \<noteq> 0 \<and> a' ! 0 \<noteq> 0 \<and>
    words_val (take n a) = 2 ^ (32 * t) * words_val (take n' a') \<and> words_val (rev (drop n' a')) = 2 ^ (32 * t) * words_val (rev (drop n a))"
  using assms
proof (induction n arbitrary: a k)
  case (Suc n)
  show ?case
  proof (cases "a ! 0 = 0")
    case True
    then have n: "1 \<le> n" using Suc.prems by (cases n) simp_all
    obtain as where a: "a = 0 # as" using True Suc.prems by (cases a) auto
    let ?a = "as @ [0]"
    have l: "n \<le> length as" using Suc.prems a by simp
    have p: "1 \<le> n" "n \<le> length ?a" "?a ! (n - 1) \<noteq> 0" using n l Suc.prems(3) a by (simp_all add: nth_append nth_Cons' split: if_splits)
    obtain a' n' t where ih: "shift_limbs ?a n (k + 32) = Some (a', n', k + 32 + 32 * t)" "length a' = length ?a" "1 \<le> n'" "n' \<le> n"
      "a' ! (n' - 1) \<noteq> 0" "a' ! 0 \<noteq> 0" "words_val (take n ?a) = 2 ^ (32 * t) * words_val (take n' a')"
      "words_val (rev (drop n' a')) = 2 ^ (32 * t) * words_val (rev (drop n ?a))"
      using Suc.IH [OF p, of "k + 32"] by blast
    have "words_val (take (Suc n) a) = 2 ^ 32 * words_val (take n ?a)" "words_val (rev (drop n ?a)) = 2 ^ 32 * words_val (rev (drop (Suc n) a))"
      using a l by simp_all
    moreover have "2 ^ (32 * Suc t) = 2 ^ 32 * (2 :: nat) ^ (32 * t)" by (simp add: power_add)
    ultimately have "words_val (take (Suc n) a) = 2 ^ (32 * Suc t) * words_val (take n' a')"
      "words_val (rev (drop n' a')) = 2 ^ (32 * Suc t) * words_val (rev (drop (Suc n) a))"
      using ih(7,8) by (simp_all only: mult_ac)
    moreover have "shift_limbs a (Suc n) k = Some (a', n', k + 32 * Suc t)" using ih(1) a by simp
    ultimately show ?thesis using ih a by (intro exI [of _ a'] exI [of _ n'] exI [of _ "Suc t"]) simp
  next
    case False
    then show ?thesis using Suc.prems by (intro exI [of _ a] exI [of _ "Suc n"] exI [of _ 0]) simp
  qed
qed simp

lemma zero_bits_bits:
  fixes w :: u32
  shows "i \<le> 32 \<Longrightarrow> \<forall>b<i. \<not> bit w b \<Longrightarrow> w \<noteq> 0 \<Longrightarrow> zero_bits w i < 32 \<and> (\<forall>b<zero_bits w i. \<not> bit w b) \<and> bit w (zero_bits w i)"
proof (induction w i rule: zero_bits.induct)
  case (1 w j)
  have b: "w AND push_bit j 1 = 0 \<longleftrightarrow> \<not> bit w j" by (simp add: bit_iff_and_push_bit_not_eq_0)
  show ?case
  proof (cases "j < 32 \<and> w AND push_bit j 1 = 0")
    case True
    then have e: "zero_bits w j = zero_bits w (j + 1)" by (subst zero_bits.simps) simp
    have "\<forall>b<j + 1. \<not> bit w b" using True b "1.prems"(2) by (auto simp: less_Suc_eq)
    then show ?thesis unfolding e using "1.IH" True "1.prems"(3) by simp
  next
    case False
    have "w = 0" if "j = 32" using that "1.prems"(2) by (intro bit_word_eqI) auto
    then have j: "j < 32" using "1.prems"(1,3) by fastforce
    have e: "zero_bits w j = j" by (subst zero_bits.simps, rule if_not_P) (rule False)
    show ?thesis unfolding e using j b False "1.prems"(2) by simp
  qed
qed

lemma zero_bits_val:
  assumes "(w :: u32) \<noteq> 0"
  shows "zero_bits w 0 < 32" "2 ^ zero_bits w 0 dvd unat w" "odd (unat w div 2 ^ zero_bits w 0)"
proof -
  let ?j = "zero_bits w 0"
  have z: "?j < 32" "\<forall>b<?j. \<not> bit w b" "bit w ?j" using zero_bits_bits [of 0 w] assms by simp_all
  have "take_bit ?j w = 0" using z(2) by (intro bit_word_eqI) (simp add: bit_take_bit_iff)
  then have "take_bit ?j (unat w) = 0" by (metis unsigned_take_bit_eq unsigned_0)
  then show "2 ^ ?j dvd unat w" by (simp add: take_bit_eq_mod dvd_eq_mod_eq_0)
  have "bit (unat w) ?j" using z(1,3) by (simp add: bit_unsigned_iff)
  then show "odd (unat w div 2 ^ ?j)" by (simp add: bit_iff_odd)
  show "?j < 32" by (rule z)
qed

lemma shift_bits_val:
  assumes ok: "combo_ok c" "top_ok c" and j: "0 < j" "j < 32" "2 ^ j dvd first_part c" and fit: "first_part c * second_part c < 2 ^ 256"
  defines "d \<equiv> shift_bits j c"
  shows "combo_ok d \<and> top_ok d \<and> first_part c = 2 ^ j * first_part d \<and> second_part d = 2 ^ j * second_part c"
proof -
  let ?f = "take (len1 c) (limbs c)" and ?hi = "drop (len1 c) (limbs c)"
  let ?lo = "shr_limbs j ?f"
  have len: "length (limbs c) = 9" "1 \<le> len1 c" "len1 c \<le> 8" using ok by (simp_all add: combo_ok_def)
  have lo: "length ?lo = len1 c" "words_val ?lo = first_part c div 2 ^ j" using shr_limbs_val [of j ?f] j len by (simp_all add: first_part_def)
  then have v: "first_part c = 2 ^ j * words_val ?lo" using j(3) by simp
  have ne: "?lo \<noteq> []" using lo(1) len by auto
  have last: "last ?lo = ?lo ! (len1 c - 1)" using lo(1) ne by (simp add: last_conv_nth)
  have pos: "2 ^ (32 * (len1 c - 1)) \<le> 2 ^ j * words_val ?lo" using ok by (simp add: top_ok_bound v)
  show ?thesis
  proof (cases "last ?lo = 0")
    case False
    let ?s = "shl_limbs j ?hi"
    have d: "d = \<lparr> limbs = ?lo @ ?s, len1 = len1 c \<rparr>" using False by (simp add: d_def shift_bits_def Let_def)
    have s: "length ?s = 9 - len1 c" "words_val (rev ?s) = 2 ^ j * second_part c mod 2 ^ (32 * (9 - len1 c))"
      using shl_limbs_val [of j ?hi] j len by (simp_all add: second_part_def)
    have k: "combo_ok d" "first_part d = words_val ?lo" using len lo s by (simp_all add: d combo_ok_def first_part_def)
    have t: "top_ok d" using False last lo(1) len by (simp add: d top_ok_def nth_append)
    have "first_part d * (2 ^ j * second_part c) < 2 ^ 256" using fit by (simp add: k v mult.left_commute mult.commute)
    then have "2 ^ j * second_part c < 2 ^ (32 * (9 - len1 d))" using second_fits [OF k(1) t] by blast
    then have "second_part d = 2 ^ j * second_part c" using s lo by (simp add: d second_part_def)
    then show ?thesis using k t v by simp
  next
    case True
    let ?s = "shl_limbs j (0 # ?hi)"
    have d: "d = \<lparr> limbs = butlast ?lo @ ?s, len1 = len1 c - 1 \<rparr>" using True by (simp add: d_def shift_bits_def Let_def)
    have lo': "?lo = butlast ?lo @ [0]" using append_butlast_last_id [OF ne] True by simp
    then have w: "words_val ?lo = words_val (butlast ?lo)" by (metis words_val_append add.right_neutral mult_0_right words_val.simps unsigned_0 mult_is_0 add_0)
    have l2: "len1 c \<noteq> 1"
    proof
      assume "len1 c = 1"
      then have "butlast ?lo = []" using lo(1) by (cases ?lo) auto
      then have "words_val ?lo = 0" unfolding w by simp
      then show False using pos by simp
    qed
    have ten: "10 - len1 c = Suc (9 - len1 c)" using len by simp
    have s: "length ?s = 10 - len1 c" "words_val (rev ?s) = 2 ^ j * second_part c mod 2 ^ (32 * (10 - len1 c))"
      unfolding ten using shl_limbs_val [of j "0 # ?hi"] j len by (simp_all add: second_part_def words_val_append)
    have "1 \<le> len1 d \<and> len1 d \<le> 8" using len l2 by (simp add: d) linarith
    then have k: "combo_ok d" "first_part d = words_val ?lo" using len lo s by (simp_all add: d combo_ok_def first_part_def w)
    have "2 ^ (32 * (len1 d - 1)) * 2 ^ 32 = (2 :: nat) ^ (32 * (len1 c - 1))"
      using l2 len by (simp add: d power_add [symmetric] del: power_numeral)
    also have "\<dots> \<le> 2 ^ j * words_val ?lo" by (rule pos)
    also have "\<dots> \<le> 2 ^ 32 * words_val ?lo" using j by (intro mult_right_mono power_increasing) simp_all
    finally have "2 ^ (32 * (len1 d - 1)) \<le> first_part d" unfolding k by simp
    then have t: "top_ok d" using k by (simp add: top_ok_bound)
    have "first_part d * (2 ^ j * second_part c) < 2 ^ 256" using fit by (simp add: k v mult.left_commute mult.commute)
    then have "2 ^ j * second_part c < 2 ^ (32 * (9 - len1 d))" using second_fits [OF k(1) t] by blast
    moreover have "9 - len1 d = 10 - len1 c" using len l2 by (simp add: d)
    ultimately have "second_part d = 2 ^ j * second_part c" using s lo by (simp add: d second_part_def)
    then show ?thesis using k t v by simp
  qed
qed

lemma odd_div_cong:
  assumes "(x :: nat) mod 2 ^ Suc j = y mod 2 ^ Suc j"
  shows "odd (x div 2 ^ j) \<longleftrightarrow> odd (y div 2 ^ j)"
proof -
  have "bit (take_bit (Suc j) x) j \<longleftrightarrow> bit (take_bit (Suc j) y) j" unfolding take_bit_eq_mod assms ..
  then have "bit x j \<longleftrightarrow> bit y j" by (simp add: bit_take_bit_iff)
  then show ?thesis by (simp add: bit_iff_odd)
qed

lemma make_odd_val:
  assumes ok: "combo_ok c" and pos: "0 < first_part c" and fit: "first_part c * second_part c < 2 ^ 256"
  shows "\<exists>d t. make_odd c k = Some (d, k + t) \<and> combo_ok d \<and> top_ok d \<and> odd (first_part d) \<and>
    first_part c = 2 ^ t * first_part d \<and> second_part d = 2 ^ t * second_part c"
proof -
  have len: "length (limbs c) = 9" "len1 c \<le> 9" using ok by (simp_all add: combo_ok_def)
  obtain m where m: "adjust_len (limbs c) (len1 c) = Some m" "1 \<le> m" "m \<le> len1 c" "limbs c ! (m - 1) \<noteq> 0"
    "words_val (take m (limbs c)) = first_part c" "words_val (rev (drop m (limbs c))) = second_part c"
    using adjust_len_val [of "len1 c" "limbs c"] len pos by (auto simp: first_part_def second_part_def)
  have m9: "m \<le> length (limbs c)" using m(3) len by simp
  obtain a n s where a: "shift_limbs (limbs c) m k = Some (a, n, k + 32 * s)" "length a = length (limbs c)" "1 \<le> n" "n \<le> m" "a ! (n - 1) \<noteq> 0" "a ! 0 \<noteq> 0"
    "first_part c = 2 ^ (32 * s) * words_val (take n a)" "words_val (rev (drop n a)) = 2 ^ (32 * s) * second_part c"
    using shift_limbs_val [OF m(2) m9 m(4), of k] unfolding m(5,6) by blast
  let ?e = "\<lparr> limbs = a, len1 = n \<rparr>" and ?j = "zero_bits (a ! 0) 0"
  have e: "combo_ok ?e" "top_ok ?e" "first_part c = 2 ^ (32 * s) * first_part ?e" "second_part ?e = 2 ^ (32 * s) * second_part c"
    using a m(3) ok by (auto simp: combo_ok_def top_ok_def first_part_def second_part_def)
  have fe: "first_part ?e * second_part ?e < 2 ^ 256" using fit by (simp add: e(3,4) mult.left_commute mult.commute)
  obtain a0 as where aa: "a = a0 # as" using a(2) len by (cases a) auto
  then have te: "take n a = a0 # take (n - 1) as" using a(3) by (cases n) simp_all
  have z: "?j < 32" "2 ^ ?j dvd unat a0" "odd (unat a0 div 2 ^ ?j)" using zero_bits_val [of a0] a(6) by (simp_all add: aa)
  have fm: "first_part ?e mod 2 ^ Suc ?j = unat a0 mod 2 ^ Suc ?j"
    unfolding first_part_def using z(1) by (simp add: te words_val_mod del: words_val.simps power_Suc)
  have dv: "2 ^ ?j dvd first_part ?e"
    using z(1,2) words_val_mod [of ?j a0 "take (n - 1) as"] by (simp add: first_part_def te dvd_eq_mod_eq_0 del: words_val.simps)
  have od: "odd (first_part ?e div 2 ^ ?j)" using z(3) odd_div_cong [OF fm] by simp
  show ?thesis
  proof (cases "?j > 0")
    case True
    let ?d = "shift_bits ?j ?e"
    have d: "combo_ok ?d" "top_ok ?d" "first_part ?e = 2 ^ ?j * first_part ?d" "second_part ?d = 2 ^ ?j * second_part ?e"
      using shift_bits_val [OF e(1,2) True z(1) dv fe] by blast+
    have "make_odd c k = Some (?d, k + (32 * s + ?j))" using m(1) a(1) True by (simp add: make_odd_def Let_def)
    moreover have "odd (first_part ?d)" using od d(3) by simp
    ultimately show ?thesis using d e by (intro exI [of _ ?d] exI [of _ "32 * s + ?j"]) (simp add: power_add)
  next
    case False
    have "make_odd c k = Some (?e, k + 32 * s)" using m(1) a(1) False by (simp add: make_odd_def Let_def)
    moreover have "odd (first_part ?e)" using od False by simp
    ultimately show ?thesis using e by (intro exI [of _ ?e] exI [of _ "32 * s"]) simp
  qed
qed

section \<open>Comparison, difference and sum\<close>

lemma words_val_take_Suc: "n < length a \<Longrightarrow> words_val (take (Suc n) a) = words_val (take n a) + 2 ^ (32 * n) * unat (a ! n)"
  by (simp add: take_Suc_conv_app_nth words_val_append)

lemma top_digit_less:
  fixes x y :: nat
  assumes "x < B" "w < w'"
  shows "x + B * w < y + B * w'"
proof -
  have "x + B * w < B * Suc w" using assms(1) by simp
  also have "\<dots> \<le> B * w'" using assms(2) by (intro mult_left_mono) simp_all
  finally show ?thesis by simp
qed

lemma diff_limb_val:
  assumes "n \<le> length a" "n \<le> length b"
  shows "case diff_limb a b n of None \<Rightarrow> words_val (take n a) = words_val (take n b)
    | Some i \<Rightarrow> i < n \<and> words_val (take n a) \<noteq> words_val (take n b) \<and> (a ! i > b ! i \<longleftrightarrow> words_val (take n a) > words_val (take n b))"
  using assms
proof (induction n)
  case (Suc n)
  have n: "n < length a" "n < length b" using Suc.prems by simp_all
  have v: "words_val (take (Suc n) a) = words_val (take n a) + 2 ^ (32 * n) * unat (a ! n)"
    "words_val (take (Suc n) b) = words_val (take n b) + 2 ^ (32 * n) * unat (b ! n)"
    using n by (simp_all only: words_val_take_Suc)
  show ?case
  proof (cases "a ! n = b ! n")
    case True
    then show ?thesis using Suc.IH n by (simp add: v less_Suc_eq split: option.splits)
  next
    case False
    have l: "words_val (take n a) < 2 ^ (32 * n)" "words_val (take n b) < 2 ^ (32 * n)"
      using words_val_less [of "take n a"] words_val_less [of "take n b"] n by simp_all
    consider "unat (a ! n) < unat (b ! n)" | "unat (b ! n) < unat (a ! n)" using False by (meson linorder_neqE_nat word_unat_eq_iff)
    then show ?thesis
    proof cases
      case 1
      then show ?thesis using top_digit_less [OF l(1) 1, of "words_val (take n b)"] False by (simp add: v word_less_nat_alt)
    next
      case 2
      then show ?thesis using top_digit_less [OF l(2) 2, of "words_val (take n a)"] False by (simp add: v word_less_nat_alt)
    qed
  qed
qed simp

text \<open>A sum of 64 bits splits into the limb and the carry.\<close>

lemma unat_u64_limb [simp]: "unat (ucast (w :: u32) :: u64) = unat w"
  using unat_u32_less [of w] by (simp add: unsigned_ucast_eq take_bit_nat_eq_self)

lemma unat_limb_u64: "unat (ucast (t :: u64) :: u32) = unat t mod 2 ^ 32"
  by (simp add: unsigned_ucast_eq take_bit_eq_mod)

lemma unat_drop_32: "unat (drop_bit 32 (t :: u64)) = unat t div 2 ^ 32"
  by (simp only: unat_drop_bit_eq) (simp only: drop_bit_eq_div)

lemma limb_carry: "unat (ucast (t :: u64) :: u32) + 2 ^ 32 * unat (drop_bit 32 t) = unat t"
  unfolding unat_limb_u64 unat_drop_32 by (rule mod_mult_div_eq)

lemma sub_step:
  assumes "unat (temp :: u64) \<le> 1"
  shows "unat (temp + (0xFFFFFFFF + ucast (e :: u32) - ucast (y :: u32))) + unat y = unat temp + 0xFFFFFFFF + unat e"
proof -
  have b: "unat e < 2 ^ 32" "unat y < 2 ^ 32" by (rule unat_u32_less)+
  have 1: "unat (0xFFFFFFFF + ucast e :: u64) = 0xFFFFFFFF + unat e" using b by (subst unat_plus_small) simp_all
  have 2: "unat (0xFFFFFFFF + ucast e - ucast y :: u64) = 0xFFFFFFFF + unat e - unat y"
    using b 1 by (subst unat_sub) (simp_all add: word_le_nat_alt)
  have "unat (temp + (0xFFFFFFFF + ucast e - ucast y)) = unat temp + (0xFFFFFFFF + unat e - unat y)"
    using b assms 2 by (subst unat_plus_small) simp_all
  then show ?thesis using b by simp
qed

lemma carry_le_1: "unat (t :: u64) < 2 ^ 33 \<Longrightarrow> unat (drop_bit 32 t) \<le> 1"
  unfolding unat_drop_32 by simp

lemma sub_limbs_val:
  assumes "length os \<le> length es" "unat temp \<le> 1" "words_val os + 1 \<le> words_val es + unat temp"
  shows "length (sub_limbs temp es os) = length es \<and> words_val (sub_limbs temp es os) + words_val os + 1 = words_val es + unat temp"
  using assms
proof (induction temp es os rule: sub_limbs.induct)
  case (2 temp e es)
  let ?t = "temp + (0xFFFFFFFF + ucast e)"
  have t: "unat ?t = unat temp + 0xFFFFFFFF + unat e" using sub_step [of temp e 0] 2 by simp
  have c: "unat (drop_bit 32 ?t) \<le> 1" using t 2 unat_u32_less [of e] by (intro carry_le_1) simp
  note l = limb_carry [of ?t]
  have "words_val [] + 1 \<le> words_val es + unat (drop_bit 32 ?t)"
    using 2 l t unat_u32_less [of "ucast ?t"] by simp
  then show ?case using "2.IH" [OF refl _ c] l t by (simp add: Let_def)
next
  case (3 temp e es y os)
  let ?t = "temp + (0xFFFFFFFF + ucast e - ucast y)"
  have t: "unat ?t + unat y = unat temp + 0xFFFFFFFF + unat e" by (rule sub_step) (rule 3)
  have c: "unat (drop_bit 32 ?t) \<le> 1" using t 3 unat_u32_less [of e] by (intro carry_le_1) simp
  note l = limb_carry [of ?t]
  have p: "words_val os + 1 \<le> words_val es + unat (drop_bit 32 ?t)"
    using 3 l t unat_u32_less [of "ucast ?t"] by simp
  then show ?case using "3.IH" [OF refl _ c p] 3 l t by (simp add: Let_def)
qed simp_all

lemma add_limbs_val:
  assumes "length es \<le> length os" "unat temp \<le> 1" "words_val os + words_val es + unat temp < 2 ^ (32 * length os)"
  shows "length (add_limbs temp os es) = length os \<and> words_val (add_limbs temp os es) = words_val os + words_val es + unat temp"
  using assms
proof (induction temp os es rule: add_limbs.induct)
  case (2 temp y os)
  let ?t = "temp + ucast y"
  have t: "unat ?t = unat temp + unat y" using 2 unat_u32_less [of y] by (subst unat_plus_small) simp_all
  have c: "unat (drop_bit 32 ?t) \<le> 1" using t 2 unat_u32_less [of y] by (intro carry_le_1) simp
  note l = limb_carry [of ?t]
  have "words_val os + words_val [] + unat (drop_bit 32 ?t) < 2 ^ (32 * length os)"
    using 2 l t by (simp add: power_add)
  then show ?case using "2.IH" [OF refl _ c] l t by (simp add: Let_def)
next
  case (3 temp y os e es)
  let ?t = "temp + (ucast y + ucast e)"
  have b: "unat e < 2 ^ 32" "unat y < 2 ^ 32" by (rule unat_u32_less)+
  have "unat (ucast y + ucast e :: u64) = unat y + unat e" using b by (subst unat_plus_small) simp_all
  then have t: "unat ?t = unat temp + (unat y + unat e)" using 3 b by (subst unat_plus_small) simp_all
  have c: "unat (drop_bit 32 ?t) \<le> 1" using t 3 b by (intro carry_le_1) simp
  note l = limb_carry [of ?t]
  have p: "words_val os + words_val es + unat (drop_bit 32 ?t) < 2 ^ (32 * length os)"
    using 3 l t by (simp add: power_add)
  then show ?case using "3.IH" [OF refl _ c p] 3 l t by (simp add: Let_def)
qed simp_all

lemma reduce_combos_val:
  assumes ev: "combo_ok ev" and od: "combo_ok od" "top_ok od" and less: "first_part od < first_part ev" and len: "len1 od \<le> len1 ev"
    and fit: "first_part od * (second_part od + second_part ev) < 2 ^ 256"
    and red: "reduce_combos ev od = (ev', od')"
  shows "combo_ok ev' \<and> combo_ok od' \<and> top_ok od' \<and> first_part ev' = first_part ev - first_part od \<and> second_part ev' = second_part ev \<and>
    first_part od' = first_part od \<and> second_part od' = second_part od + second_part ev"
proof -
  let ?d = "sub_limbs 1 (take (len1 ev) (limbs ev)) (take (len1 od) (limbs od))"
  let ?a = "add_limbs 0 (rev (drop (len1 od) (limbs od))) (rev (drop (len1 ev) (limbs ev)))"
  have l: "length (limbs ev) = 9" "length (limbs od) = 9" "1 \<le> len1 od" "len1 ev \<le> 8" "len1 od \<le> 8" using ev od by (simp_all add: combo_ok_def)
  have "length ?d = len1 ev \<and> words_val ?d + first_part od + 1 = first_part ev + 1"
    using sub_limbs_val [of "take (len1 od) (limbs od)" "take (len1 ev) (limbs ev)" 1] l len less by (simp add: first_part_def)
  then have d: "length ?d = len1 ev" "words_val ?d = first_part ev - first_part od" by linarith+
  have "second_part od + second_part ev < 2 ^ (32 * (9 - len1 od))" by (rule second_fits [OF od fit])
  then have a: "length ?a = 9 - len1 od" "words_val ?a = second_part od + second_part ev"
    using add_limbs_val [of "rev (drop (len1 ev) (limbs ev))" "rev (drop (len1 od) (limbs od))" 0] l len by (simp_all add: second_part_def)
  have e: "ev' = ev\<lparr> limbs := ?d @ drop (len1 ev) (limbs ev) \<rparr>" "od' = od\<lparr> limbs := take (len1 od) (limbs od) @ rev ?a \<rparr>"
    using red d(1) l by (simp_all add: reduce_combos_def Let_def)
  have "combo_ok ev'" "combo_ok od'" using ev od l len d a by (simp_all add: e combo_ok_def)
  moreover have "first_part ev' = first_part ev - first_part od" "second_part ev' = second_part ev"
    using d by (simp_all add: e first_part_def second_part_def)
  moreover have "first_part od' = first_part od" "second_part od' = second_part od + second_part ev"
    using a l by (simp_all add: e first_part_def second_part_def)
  moreover have "top_ok od'" using od(2) l by (simp add: e top_ok_def nth_append)
  ultimately show ?thesis by simp
qed

section \<open>The invariant\<close>

definition nums :: "nat \<Rightarrow> nat \<Rightarrow> nat \<Rightarrow> nat \<Rightarrow> nat \<Rightarrow> nat \<Rightarrow> nat \<Rightarrow> bool" where
  "nums P X u s v r k \<longleftrightarrow> 0 < u \<and> 0 < v \<and> u * s + v * r = P \<and> coprime u v \<and>
     int P dvd int X * int s - int v * 2 ^ k \<and> int P dvd int X * int r + int u * 2 ^ k"

lemma nums_shift_u: "nums P X (2 ^ t * u) s v r k \<Longrightarrow> nums P X u (2 ^ t * s) v r (k + t)"
  unfolding nums_def
proof (elim conjE, intro conjI)
  assume "int P dvd int X * int s - int v * 2 ^ k"
  then have "int P dvd 2 ^ t * (int X * int s - int v * 2 ^ k)" by (rule dvd_mult)
  also have "2 ^ t * (int X * int s - int v * 2 ^ k) = int X * int (2 ^ t * s) - int v * 2 ^ (k + t)"
    by (simp add: algebra_simps power_add)
  finally show "int P dvd int X * int (2 ^ t * s) - int v * 2 ^ (k + t)" .
  assume "int P dvd int X * int r + int (2 ^ t * u) * 2 ^ k"
  also have "int (2 ^ t * u) * 2 ^ k = int u * 2 ^ (k + t)" by (simp add: algebra_simps power_add)
  finally show "int P dvd int X * int r + int u * 2 ^ (k + t)" .
qed (simp_all add: mult.left_commute mult.assoc)

lemma nums_shift_v: "nums P X u s (2 ^ t * v) r k \<Longrightarrow> nums P X u s v (2 ^ t * r) (k + t)"
  unfolding nums_def
proof (elim conjE, intro conjI)
  assume "int P dvd int X * int r + int u * 2 ^ k"
  then have "int P dvd 2 ^ t * (int X * int r + int u * 2 ^ k)" by (rule dvd_mult)
  also have "2 ^ t * (int X * int r + int u * 2 ^ k) = int X * int (2 ^ t * r) + int u * 2 ^ (k + t)"
    by (simp add: algebra_simps power_add)
  finally show "int P dvd int X * int (2 ^ t * r) + int u * 2 ^ (k + t)" .
  assume "int P dvd int X * int s - int (2 ^ t * v) * 2 ^ k"
  also have "int (2 ^ t * v) * 2 ^ k = int v * 2 ^ (k + t)" by (simp add: algebra_simps power_add)
  finally show "int P dvd int X * int s - int v * 2 ^ (k + t)" .
qed (simp_all add: mult.left_commute mult.assoc)

lemma coprime_diff: "(v :: nat) < u \<Longrightarrow> coprime u v \<Longrightarrow> coprime (u - v) v"
  by (simp add: coprime_iff_gcd_eq_1 gcd_diff1_nat)

lemma nums_sub_u: "nums P X u s v r k \<Longrightarrow> v < u \<Longrightarrow> nums P X (u - v) s v (r + s) k"
  unfolding nums_def
proof (elim conjE, intro conjI)
  assume "v < u" and d: "int P dvd int X * int s - int v * 2 ^ k" "int P dvd int X * int r + int u * 2 ^ k"
  from dvd_add [OF d] show "int P dvd int X * int (r + s) + int (u - v) * 2 ^ k"
    using \<open>v < u\<close> by (simp add: of_nat_diff algebra_simps)
  assume "u * s + v * r = P"
  moreover have "(u - v) * s + v * s = u * s" using \<open>v < u\<close> by (simp add: add_mult_distrib [symmetric])
  ultimately show "(u - v) * s + v * (r + s) = P" by (simp add: add_mult_distrib2)
qed (simp_all add: coprime_diff)

lemma nums_sub_v: "nums P X u s v r k \<Longrightarrow> u < v \<Longrightarrow> nums P X u (s + r) (v - u) r k"
  unfolding nums_def
proof (elim conjE, intro conjI)
  assume "u < v" and d: "int P dvd int X * int s - int v * 2 ^ k" "int P dvd int X * int r + int u * 2 ^ k"
  from dvd_add [OF d] show "int P dvd int X * int (s + r) - int (v - u) * 2 ^ k"
    using \<open>u < v\<close> by (simp add: of_nat_diff algebra_simps)
  assume "u * s + v * r = P"
  moreover have "(v - u) * r + u * r = v * r" using \<open>u < v\<close> by (simp add: add_mult_distrib [symmetric])
  ultimately show "u * (s + r) + (v - u) * r = P" by (simp add: add_mult_distrib2)
  assume "coprime u v"
  then show "coprime u (v - u)" using coprime_diff [of u v] \<open>u < v\<close> by (simp add: coprime_commute)
qed simp_all

definition combos :: "nat \<Rightarrow> nat \<Rightarrow> combo \<Rightarrow> combo \<Rightarrow> nat \<Rightarrow> bool" where
  "combos P X us vr k \<longleftrightarrow> combo_ok us \<and> combo_ok vr \<and> nums P X (first_part us) (second_part us) (first_part vr) (second_part vr) k"

definition halves :: "combo \<Rightarrow> combo \<Rightarrow> bool" where
  "halves ev od \<longleftrightarrow> odd (first_part od) \<and> odd (second_part od) \<and> top_ok od \<and> (even (first_part ev) \<or> even (second_part ev))"

definition inverse_end :: "nat \<Rightarrow> nat \<Rightarrow> combo \<Rightarrow> nat \<Rightarrow> bool" where
  "inverse_end P X us k \<longleftrightarrow> combo_ok us \<and> len1 us = 1 \<and> second_part us \<le> P \<and> int P dvd int X * int (second_part us) - 2 ^ k"

lemma top_ok_mono:
  assumes "combo_ok c" "combo_ok d" "top_ok c" "first_part c \<le> first_part d"
  shows "len1 c \<le> len1 d"
proof (rule ccontr)
  assume "\<not> len1 c \<le> len1 d"
  then have "2 ^ (32 * len1 d) \<le> (2 :: nat) ^ (32 * (len1 c - 1))" by (intro power_increasing) simp_all
  also have "\<dots> \<le> first_part d" using assms by (simp add: top_ok_bound)
  finally show False using first_less [OF assms(2)] by simp
qed

section \<open>One round\<close>

lemma nums_fit:
  assumes "nums P X u s v r k" "P < 2 ^ 256"
  shows "u * s < 2 ^ 256" "v * r < 2 ^ 256" "v < u \<Longrightarrow> v * (r + s) < 2 ^ 256" "u < v \<Longrightarrow> u * (s + r) < 2 ^ 256"
proof -
  have e: "u * s + v * r = P" using assms(1) by (simp add: nums_def)
  show "u * s < 2 ^ 256" "v * r < 2 ^ 256" using e assms(2) by linarith+
  show "v * (r + s) < 2 ^ 256" if "v < u"
    using e assms(2) mult_le_mono1 [OF less_imp_le [OF that], of s] unfolding add_mult_distrib2 by linarith
  show "u * (s + r) < 2 ^ 256" if "u < v"
    using e assms(2) mult_le_mono1 [OF less_imp_le [OF that], of r] unfolding add_mult_distrib2 by linarith
qed

text \<open>The subtraction, of which either array may be the larger.\<close>

lemma nums_reduce_step:
  assumes ok: "combo_ok ev" "combo_ok od" "top_ok od" and less: "first_part od < first_part ev"
    and fit: "first_part od * (second_part od + second_part ev) < 2 ^ 256"
    and par: "odd (first_part ev)" "odd (first_part od)" "odd (second_part od + second_part ev)"
  obtains ev' od' where "reduce_combos ev od = (ev', od')" "combo_ok ev'" "combo_ok od'" "halves ev' od'"
    "first_part ev' = first_part ev - first_part od" "second_part ev' = second_part ev"
    "first_part od' = first_part od" "second_part od' = second_part od + second_part ev"
    "limbs od' ! 0 AND 1 \<noteq> 0" "limbs od' ! 8 AND 1 \<noteq> 0" "limbs ev' ! 0 AND 1 = 0"
proof -
  obtain ev' od' where red: "reduce_combos ev od = (ev', od')" by fastforce
  have len: "len1 od \<le> len1 ev" using top_ok_mono [of od ev] ok less by simp
  note r = reduce_combos_val [OF ok less len fit red]
  have e: "even (first_part ev')" using r par less by simp
  have o: "odd (first_part od')" "odd (second_part od')" using r par by simp_all
  have "limbs od' ! 0 AND 1 \<noteq> 0" "limbs od' ! 8 AND 1 \<noteq> 0" "limbs ev' ! 0 AND 1 = 0"
    using r o e first_odd [of od'] second_odd [of od'] first_odd [of ev'] by auto
  with that red r o e show ?thesis by (auto simp: halves_def)
qed

lemma inverse_compare_end:
  assumes ok: "combo_ok us" "combo_ok vr" "top_ok us" "top_ok vr" and eq: "first_part us = first_part vr"
  shows "inverse_compare us vr e k = Some (False, us, vr, e, k)"
proof -
  have l: "len1 us = len1 vr" using top_ok_mono [of us vr] top_ok_mono [of vr us] ok eq by simp
  have "diff_limb (limbs us) (limbs vr) (len1 us) = None"
    using diff_limb_val [of "len1 us" "limbs us" "limbs vr"] ok eq l by (auto simp: combo_ok_def first_part_def split: option.splits)
  then show ?thesis using l by (simp add: inverse_compare_def)
qed

lemma inverse_compare_more:
  assumes ok: "combo_ok us" "combo_ok vr" "top_ok us" "top_ok vr" and neq: "first_part us \<noteq> first_part vr"
  shows "inverse_compare us vr e k =
    (let larger_us = first_part vr < first_part us;
         (ev, od) = (if larger_us then (us, vr) else (vr, us));
         (ev, od) = reduce_combos ev od
     in if limbs od ! 0 AND 1 = 0 \<or> limbs od ! 8 AND 1 = 0 \<or> limbs ev ! 0 AND 1 \<noteq> 0 then None
        else let (us, vr) = (if larger_us then (ev, od) else (od, ev)) in Some (True, us, vr, larger_us, k))"
proof -
  have l: "len1 us \<le> length (limbs us)" "len1 us = len1 vr \<Longrightarrow> len1 us \<le> length (limbs vr)" using ok by (simp_all add: combo_ok_def)
  have d: "len1 us = len1 vr \<Longrightarrow> \<exists>i. diff_limb (limbs us) (limbs vr) (len1 us) = Some i \<and> (limbs us ! i > limbs vr ! i \<longleftrightarrow> first_part vr < first_part us)"
    using diff_limb_val [OF l] neq by (auto simp: first_part_def split: option.splits)
  have m: "len1 us \<noteq> len1 vr \<Longrightarrow> len1 us > len1 vr \<longleftrightarrow> first_part vr < first_part us"
    using top_ok_mono [of us vr] top_ok_mono [of vr us] ok by linarith
  have "(if len1 us = len1 vr
      then (case diff_limb (limbs us) (limbs vr) (len1 us) of None \<Rightarrow> False | Some i \<Rightarrow> limbs us ! i > limbs vr ! i)
      else len1 us > len1 vr) = (first_part vr < first_part us)"
    using d m by auto
  moreover have "\<not> (len1 us = len1 vr \<and> diff_limb (limbs us) (limbs vr) (len1 us) = None)" using d by auto
  ultimately show ?thesis unfolding inverse_compare_def by (simp only: if_False)
qed

lemma inverse_compare_val:
  assumes c: "combos P X us vr k" "P < 2 ^ 256" and top: "top_ok us" "top_ok vr" and neq: "first_part us \<noteq> first_part vr"
    and par: "odd (first_part us)" "odd (first_part vr)" "odd (second_part us + second_part vr)"
  shows "\<exists>us' vr' e'. inverse_compare us vr e k = Some (True, us', vr', e', k) \<and> combos P X us' vr' k \<and>
    (if e' then halves us' vr' else halves vr' us') \<and> first_part us' + first_part vr' < first_part us + first_part vr"
proof -
  have ok: "combo_ok us" "combo_ok vr" and n: "nums P X (first_part us) (second_part us) (first_part vr) (second_part vr) k"
    using c(1) by (simp_all add: combos_def)
  have pos: "0 < first_part us" "0 < first_part vr" using n by (simp_all add: nums_def)
  note more = inverse_compare_more [OF ok top neq, of e k]
  show ?thesis
  proof (cases "first_part vr < first_part us")
    case True
    have par': "odd (second_part vr + second_part us)" using par(3) by (simp add: add.commute)
    obtain ev od where r: "reduce_combos us vr = (ev, od)" "combo_ok ev" "combo_ok od" "halves ev od"
      "first_part ev = first_part us - first_part vr" "second_part ev = second_part us"
      "first_part od = first_part vr" "second_part od = second_part vr + second_part us"
      and a: "limbs od ! 0 AND 1 \<noteq> 0" "limbs od ! 8 AND 1 \<noteq> 0" "limbs ev ! 0 AND 1 = 0"
      using nums_reduce_step [OF ok(1,2) top(2) True nums_fit(3) [OF n c(2) True] par(1,2) par'] by blast
    have "inverse_compare us vr e k = Some (True, ev, od, True, k)" unfolding more using True r(1) a by (simp add: Let_def)
    moreover have "combos P X ev od k" using nums_sub_u [OF n True] r by (simp add: combos_def)
    moreover have "first_part ev + first_part od < first_part us + first_part vr" using r(5,7) True pos by simp
    ultimately show ?thesis using r(4) by (intro exI conjI) auto
  next
    case False
    then have less: "first_part us < first_part vr" using neq by simp
    obtain ev od where r: "reduce_combos vr us = (ev, od)" "combo_ok ev" "combo_ok od" "halves ev od"
      "first_part ev = first_part vr - first_part us" "second_part ev = second_part vr"
      "first_part od = first_part us" "second_part od = second_part us + second_part vr"
      and a: "limbs od ! 0 AND 1 \<noteq> 0" "limbs od ! 8 AND 1 \<noteq> 0" "limbs ev ! 0 AND 1 = 0"
      using nums_reduce_step [OF ok(2,1) top(1) less nums_fit(4) [OF n c(2) less] par(2,1,3)] by blast
    have "inverse_compare us vr e k = Some (True, od, ev, False, k)" unfolding more using False r(1) a by (simp add: Let_def)
    moreover have "combos P X od ev k" using nums_sub_v [OF n less] r by (simp add: combos_def)
    moreover have "first_part od + first_part ev < first_part us + first_part vr" using r(5,7) less pos by simp
    ultimately show ?thesis using r(4) by (intro exI conjI) auto
  qed
qed

lemma inverse_compare_ends:
  assumes c: "combos P X us vr k" and top: "top_ok us" and eq: "first_part us = first_part vr"
  shows "inverse_end P X us k"
proof -
  have n: "nums P X (first_part us) (second_part us) (first_part vr) (second_part vr) k" and ok: "combo_ok us" using c by (simp_all add: combos_def)
  have 1: "first_part us = 1" "first_part vr = 1" using n eq by (simp_all add: nums_def)
  have "2 ^ (32 * (len1 us - 1)) \<le> first_part us" using top ok by (simp add: top_ok_bound)
  then have "\<not> (1 :: nat) < 2 ^ (32 * (len1 us - 1))" unfolding 1 by simp
  then have "\<not> 0 < 32 * (len1 us - 1)" using one_less_power [of "2 :: nat" "32 * (len1 us - 1)"] by linarith
  then have "len1 us - 1 = 0" by simp
  then have "len1 us = 1" using ok by (simp add: combo_ok_def)
  then show ?thesis using n ok unfolding nums_def 1 by (simp add: inverse_end_def)
qed

lemma inverse_round_val:
  assumes c: "combos P X us vr k" "P < 2 ^ 256" and h: "if e then halves us vr else halves vr us"
  shows "\<exists>more us' vr' e' k'. inverse_round us vr e k = Some (more, us', vr', e', k') \<and>
    (if more then combos P X us' vr' k' \<and> (if e' then halves us' vr' else halves vr' us') \<and> first_part us' + first_part vr' < first_part us + first_part vr
     else inverse_end P X us' k')"
proof -
  have ok: "combo_ok us" "combo_ok vr" and n: "nums P X (first_part us) (second_part us) (first_part vr) (second_part vr) k"
    using c(1) by (simp_all add: combos_def)
  have pos: "0 < first_part us" "0 < first_part vr" using n by (simp_all add: nums_def)
  have "\<exists>us' vr' t. inverse_round us vr e k = inverse_compare us' vr' e (k + t) \<and> combos P X us' vr' (k + t) \<and> top_ok us' \<and> top_ok vr' \<and>
      odd (first_part us') \<and> odd (first_part vr') \<and> odd (second_part us' + second_part vr') \<and> first_part us' + first_part vr' \<le> first_part us + first_part vr"
  proof (cases e)
    case True
    then have h: "halves us vr" using h by simp
    obtain d t where d: "make_odd us k = Some (d, k + t)" "combo_ok d" "top_ok d" "odd (first_part d)"
      "first_part us = 2 ^ t * first_part d" "second_part d = 2 ^ t * second_part us"
      using make_odd_val [OF ok(1) pos(1) nums_fit(1) [OF n c(2)]] by blast
    have p: "even (second_part d)" using h d(4,5,6) by (cases t) (auto simp: halves_def)
    have a: "limbs vr ! 0 AND 1 \<noteq> 0" "limbs vr ! 8 AND 1 \<noteq> 0" "limbs d ! 0 AND 1 \<noteq> 0" "limbs d ! 8 AND 1 = 0"
      using h d(2,4) p first_odd [OF ok(2)] second_odd [OF ok(2)] first_odd [OF d(2)] second_odd [OF d(2)] by (auto simp: halves_def)
    have "inverse_round us vr e k = inverse_compare d vr e (k + t)" using True d(1) a by (simp add: inverse_round_def)
    moreover have "combos P X d vr (k + t)" using nums_shift_u [OF n [unfolded d(5)]] ok d by (simp add: combos_def)
    moreover have "first_part d \<le> first_part us" using d(5) by simp
    ultimately show ?thesis using d h p by (intro exI [of _ d] exI [of _ vr] exI [of _ t]) (simp add: halves_def)
  next
    case False
    then have h: "halves vr us" using h by simp
    obtain d t where d: "make_odd vr k = Some (d, k + t)" "combo_ok d" "top_ok d" "odd (first_part d)"
      "first_part vr = 2 ^ t * first_part d" "second_part d = 2 ^ t * second_part vr"
      using make_odd_val [OF ok(2) pos(2) nums_fit(2) [OF n c(2)]] by blast
    have p: "even (second_part d)" using h d(4,5,6) by (cases t) (auto simp: halves_def)
    have a: "limbs us ! 0 AND 1 \<noteq> 0" "limbs us ! 8 AND 1 \<noteq> 0" "limbs d ! 0 AND 1 \<noteq> 0" "limbs d ! 8 AND 1 = 0"
      using h d(2,4) p first_odd [OF ok(1)] second_odd [OF ok(1)] first_odd [OF d(2)] second_odd [OF d(2)] by (auto simp: halves_def)
    have "inverse_round us vr e k = inverse_compare us d e (k + t)" using False d(1) a by (simp add: inverse_round_def)
    moreover have "combos P X us d (k + t)" using nums_shift_v [OF n [unfolded d(5)]] ok d by (simp add: combos_def)
    moreover have "first_part d \<le> first_part vr" using d(5) by simp
    ultimately show ?thesis using d h p by (intro exI [of _ us] exI [of _ d] exI [of _ t]) (simp add: halves_def)
  qed
  then obtain us' vr' t where r: "inverse_round us vr e k = inverse_compare us' vr' e (k + t)" "combos P X us' vr' (k + t)" "top_ok us'" "top_ok vr'"
    "odd (first_part us')" "odd (first_part vr')" "odd (second_part us' + second_part vr')" "first_part us' + first_part vr' \<le> first_part us + first_part vr"
    by blast
  show ?thesis
  proof (cases "first_part us' = first_part vr'")
    case True
    have "inverse_round us vr e k = Some (False, us', vr', e, k + t)"
      unfolding r(1) using r(2) by (intro inverse_compare_end [OF _ _ r(3,4) True]) (simp_all add: combos_def)
    then show ?thesis using inverse_compare_ends [OF r(2,3) True] by auto
  next
    case False
    show ?thesis unfolding r(1) using inverse_compare_val [OF r(2) c(2) r(3,4) False r(5,6,7), of e] r(8) by fastforce
  qed
qed

lemma inverse_loop_val:
  assumes "P < 2 ^ 256" "combos P X us vr k" "if e then halves us vr else halves vr us"
  shows "\<exists>us' k'. inverse_loop us vr e k = Some (us', k') \<and> inverse_end P X us' k'"
  using assms(2,3)
proof (induction "first_part us + first_part vr" arbitrary: us vr e k rule: less_induct)
  case less
  obtain more us' vr' e' k' where r: "inverse_round us vr e k = Some (more, us', vr', e', k')"
    "if more then combos P X us' vr' k' \<and> (if e' then halves us' vr' else halves vr' us') \<and> first_part us' + first_part vr' < first_part us + first_part vr
     else inverse_end P X us' k'"
    using inverse_round_val [OF less.prems(1) assms(1) less.prems(2)] by blast
  show ?case
  proof (cases more)
    case True
    then have q: "first_part us' + first_part vr' < first_part us + first_part vr" "combos P X us' vr' k'" "if e' then halves us' vr' else halves vr' us'"
      using r(2) by simp_all
    have "inverse_loop us vr e k = inverse_loop us' vr' e' k'" using r(1) True by (subst inverse_loop.simps) simp
    then show ?thesis using less.hyps [OF q] by simp
  next
    case False
    then show ?thesis using r by (subst inverse_loop.simps) simp
  qed
qed

section \<open>From digits to limbs and back\<close>

lemma mod_limb: "(w :: nat) < B \<Longrightarrow> w + B * (y mod M) = (w + B * y) mod (B * M)"
  by (simp add: mod_mult2_eq)

lemma to_limbs_loop_val:
  assumes "i + length vs = 8" "normal vs" "unat temp < 2 ^ (30 - 2 * i)"
  shows "length (to_limbs_loop temp i vs) = length vs \<and>
    words_val (to_limbs_loop temp i vs) = (unat temp + 2 ^ (30 - 2 * i) * bn_val vs) mod 2 ^ (32 * length vs)"
  using assms
proof (induction temp i vs rule: to_limbs_loop.induct)
  case (2 temp i v vs)
  let ?e = "30 - 2 * i" and ?f = "2 + 2 * i" and ?c = "drop_bit (2 + 2 * i) v"
  have i: "i \<le> 7" and v: "unat v < 2 ^ 30" using 2 by simp_all
  have m: "2 ^ 32 = 2 ^ ?e * (2 :: nat) ^ ?f" using i by (simp add: power_add [symmetric])
  have "?e = 2 + (30 - 2 * Suc i)" using i by simp
  then have e: "2 ^ ?e = 2 ^ 2 * (2 :: nat) ^ (30 - 2 * Suc i)" by (simp only: power_add)
  have c: "unat ?c = unat v div 2 ^ ?f" by (simp only: unat_drop_bit)
  have w: "unat (temp OR push_bit ?e v) = (unat temp + 2 ^ ?e * unat v) mod 2 ^ 32"
    using 2 i by (subst unat_or_push_mod) simp_all
  have "(unat temp + 2 ^ ?e * unat v) div 2 ^ 32 = unat ?c"
    unfolding m div_mult2_eq c using 2 by simp
  then have tot: "unat (temp OR push_bit ?e v) + 2 ^ 32 * unat ?c = unat temp + 2 ^ ?e * unat v"
    unfolding w using mod_mult_div_eq [of "unat temp + 2 ^ ?e * unat v" "2 ^ 32"] by simp
  have "30 - 2 * Suc i + ?f = 30" using i by simp
  then have "2 ^ (30 - 2 * Suc i) * 2 ^ ?f = (2 :: nat) ^ 30" by (simp only: power_add [symmetric])
  then have "unat v < 2 ^ (30 - 2 * Suc i) * 2 ^ ?f" using v by (simp only:)
  then have "unat ?c < 2 ^ (30 - 2 * Suc i)" unfolding c by (rule less_mult_imp_div_less)
  then have ih: "length (to_limbs_loop ?c (i + 1) vs) = length vs"
      "words_val (to_limbs_loop ?c (i + 1) vs) = (unat ?c + 2 ^ (30 - 2 * Suc i) * bn_val vs) mod 2 ^ (32 * length vs)"
    using "2.IH" "2.prems" by simp_all
  let ?w = "unat (temp OR push_bit ?e v)" and ?y = "unat ?c + 2 ^ (30 - 2 * Suc i) * bn_val vs"
  have "words_val (to_limbs_loop temp i (v # vs)) = ?w + 2 ^ 32 * (?y mod 2 ^ (32 * length vs))"
    unfolding to_limbs_loop.simps words_val.simps ih(2) ..
  also have "\<dots> = (?w + 2 ^ 32 * ?y) mod (2 ^ 32 * 2 ^ (32 * length vs))"
    by (rule mod_limb) (rule unat_u32_less)
  also have "?w + 2 ^ 32 * ?y = (?w + 2 ^ 32 * unat ?c) + 2 ^ 32 * (2 ^ (30 - 2 * Suc i) * bn_val vs)"
    by (simp only: add_mult_distrib2 add.assoc)
  also have "\<dots> = unat temp + 2 ^ ?e * unat v + 2 ^ ?e * (2 ^ 30 * bn_val vs)"
  proof -
    have "2 ^ 32 * 2 ^ (30 - 2 * Suc i) = 2 ^ ?e * (2 :: nat) ^ 30" unfolding e by (simp add: mult.commute)
    then show ?thesis unfolding tot by (simp only: mult.assoc [symmetric])
  qed
  also have "\<dots> = unat temp + 2 ^ ?e * bn_val (v # vs)" unfolding bn_val.simps by (simp only: add_mult_distrib2 add.assoc)
  finally show ?case using ih(1) by (simp add: power_add)
qed simp

lemma to_limbs_val:
  assumes "bignum x" "bn_val x < 2 ^ 256"
  shows "length (to_limbs x) = 8" "words_val (to_limbs x) = bn_val x"
proof -
  obtain d ds where x: "x = d # ds" "length ds = 8" "normal ds" "unat d < 2 ^ 30" using assms(1) by (cases x) (auto simp: bignum_def)
  have "to_limbs x = to_limbs_loop d 0 ds" by (simp add: to_limbs_def x)
  then show "length (to_limbs x) = 8" "words_val (to_limbs x) = bn_val x"
    using to_limbs_loop_val [of 0 ds d] x assms(2) by simp_all
qed

lemma of_limbs_read:
  assumes "length ws = 8"
  shows "i \<le> 8 \<Longrightarrow> unat temp < 2 ^ (2 * i) \<Longrightarrow> bn_read_loop (\<lambda>j. Some (ws ! j)) [i..<8] temp = Some (of_limbs_loop temp i (drop i ws))"
proof (induction "8 - i" arbitrary: i temp)
  case 0
  then show ?case using assms by simp
next
  case (Suc n)
  then have i: "i < 8" by simp
  have u: "[i..<8] = i # [Suc i..<8]" using i by (simp add: upt_conv_Cons)
  have d: "drop i ws = ws ! i # drop (Suc i) ws" using i assms by (simp add: Cons_nth_drop_Suc)
  have "2 ^ (2 * Suc i) * 2 ^ (30 - 2 * i) = (2 :: nat) ^ 32" unfolding power_add [symmetric] using i by simp
  then have c: "unat (drop_bit (30 - 2 * i) (ws ! i)) < 2 ^ (2 * Suc i)"
    using unat_u32_less [of "ws ! i"] by (simp add: unat_drop_bit div_less_iff_less_mult del: power_Suc power_numeral)
  have "unat temp < 2 ^ 30" using Suc.prems(2) i power_increasing [of "2 * i" 30 "2 :: nat"] by simp
  then have "take_bit 30 temp = temp" by (simp add: word_unat_eq_iff unsigned_take_bit_eq take_bit_nat_eq_self)
  then have t: "temp AND LIMB = temp" by (simp add: take_bit_eq_mask mask_numeral LIMB_def)
  have n: "n = 8 - Suc i" "Suc i \<le> 8" using Suc.hyps(2) by simp_all
  show ?case unfolding u d
    using Suc.hyps(1) [OF n c] t by (simp add: Let_def bit.conj_disj_distrib2 or.commute) (simp add: LIMB_def)
qed

lemma of_limbs_val:
  assumes "length ws = 8"
  shows "bignum (of_limbs ws)" "bn_val (of_limbs ws) = words_val ws"
  using bn_read_loop_val [of "\<lambda>j. Some (ws ! j)" ws 0 0] of_limbs_read [of ws 0 0] assms
  by (simp_all add: of_limbs_def bignum_def del: upt_rec_numeral)

section \<open>Division by the power of two\<close>

lemma unat_square_dvd:
  assumes "2 ^ n dvd unat (a :: u32)" "1 \<le> n" "n < 32"
  shows "2 ^ Suc n dvd unat (a * a)"
proof -
  have "2 ^ (n + n) dvd unat a * unat a" unfolding power_add using assms(1) by (intro mult_dvd_mono)
  moreover have "(2 :: nat) ^ Suc n dvd 2 ^ (n + n)" using assms(2) by (intro le_imp_power_dvd) simp
  ultimately have "2 ^ Suc n dvd unat a * unat a" by (rule dvd_trans [rotated])
  moreover have "(2 :: nat) ^ Suc n dvd 2 ^ LENGTH(32)" using assms(3) by (intro le_imp_power_dvd) simp
  ultimately show ?thesis unfolding unat_word_ariths by (simp add: dvd_mod)
qed

lemma neg_inverse_loop_val:
  assumes "2 ^ n dvd unat a" "1 \<le> n" "n \<le> 32" "iv * p = a * a - 1"
  shows "\<exists>r. neg_inverse_loop a iv = Some r \<and> r * p = - 1"
  using assms
proof (induction "32 - n" arbitrary: n a iv rule: less_induct)
  case less
  show ?case
  proof (cases "a = 0")
    case True
    then show ?thesis using less.prems by (subst neg_inverse_loop.simps) simp
  next
    case False
    then have "2 ^ n \<le> unat a" using less.prems(1) by (intro dvd_imp_le) (simp_all add: unat_gt_0)
    then have "(2 :: nat) ^ n < 2 ^ 32" using unat_u32_less [of a] by linarith
    then have n: "n < 32" by (rule power_less_imp_less_exp [rotated]) simp
    have "iv * (a * a + 1) * p = (iv * p) * (a * a + 1)" by (simp only: mult_ac)
    then have "iv * (a * a + 1) * p = a * a * (a * a) - 1" unfolding less.prems(4) by (simp add: algebra_simps)
    then show ?thesis
      using less.hyps [of "Suc n" "a * a" "iv * (a * a + 1)"] unat_square_dvd [OF less.prems(1,2) n] n False
      by (subst neg_inverse_loop.simps) (simp add: Let_def)
  qed
qed

lemma unat_limb_prod: "unat (ucast (s :: u32) + ucast (p :: u32) * ucast (f :: u32) :: u64) = unat s + unat p * unat f"
proof -
  have b: "unat s \<le> 2 ^ 32 - 1" "unat p \<le> 2 ^ 32 - 1" "unat f \<le> 2 ^ 32 - 1"
    using unat_u32_less [of s] unat_u32_less [of p] unat_u32_less [of f] by simp_all
  have "unat p * unat f \<le> (2 ^ 32 - 1) * (2 ^ 32 - 1)" using b(2,3) by (rule mult_mono) simp_all
  then have l: "unat p * unat f < 2 ^ 64 - 2 ^ 32" by simp
  have "unat (ucast p * ucast f :: u64) = unat p * unat f" using l by (subst unat_mult_lem [THEN iffD1]) simp_all
  then show ?thesis using l b(1) by (subst unat_plus_small) simp_all
qed

lemma unat_limb_sum: "unat ((s :: u32) + p * f) = (unat s + unat p * unat f) mod 2 ^ 32"
  by (simp add: unat_word_ariths mod_simps)

lemma mont_limbs_val:
  assumes "length ss = length ps" "unat temp < 2 ^ 32"
  shows "length (mont_limbs temp f ss ps) = Suc (length ss) \<and>
    words_val (mont_limbs temp f ss ps) = unat temp + words_val ss + unat f * words_val ps"
  using assms
proof (induction ss ps arbitrary: temp rule: list_induct2)
  case Nil
  then show ?case by (simp add: unat_limb_u64)
next
  case (Cons s ss p ps)
  let ?t = "temp + (ucast s + ucast p * ucast f)"
  have b: "unat s \<le> 2 ^ 32 - 1" "unat p \<le> 2 ^ 32 - 1" "unat f \<le> 2 ^ 32 - 1"
    using unat_u32_less [of s] unat_u32_less [of p] unat_u32_less [of f] by simp_all
  have "unat p * unat f \<le> (2 ^ 32 - 1) * (2 ^ 32 - 1)" using b(2,3) by (rule mult_mono) simp_all
  then have "unat temp + (unat s + unat p * unat f) < 2 ^ 64" using b(1) Cons.prems by simp
  then have t: "unat ?t = unat temp + (unat s + unat p * unat f)" by (subst unat_plus_small) (simp_all add: unat_limb_prod)
  have c: "unat (drop_bit 32 ?t) < 2 ^ 32" unfolding unat_drop_32 using unat_u64_less [of ?t] by simp
  show ?case using Cons.IH [OF c] limb_carry [of ?t] t by (simp add: Let_def algebra_simps)
qed

text \<open>What one division by \<open>2 ^ j\<close> does to the numbers.\<close>

lemma mont_nums:
  assumes "odd P" "2 ^ j * r = S + f * P" "f < 2 ^ j" "S \<le> P" "int P dvd int X * int S - 2 ^ (k + j)"
  shows "r \<le> P" "int P dvd int X * int r - 2 ^ k"
proof -
  have "2 ^ j * r \<le> Suc f * P" using assms(2,4) by simp
  also have "\<dots> \<le> 2 ^ j * P" using assms(3) by (intro mult_right_mono) simp_all
  finally show "r \<le> P" by simp
  have "2 ^ j * (int X * int r - 2 ^ k) = int X * int (2 ^ j * r) - 2 ^ (k + j)" by (simp add: algebra_simps power_add)
  also have "\<dots> = (int X * int S - 2 ^ (k + j)) + int P * (int X * int f)" unfolding assms(2) by (simp add: algebra_simps)
  finally have "int P dvd 2 ^ j * (int X * int r - 2 ^ k)" using assms(5) by simp
  moreover have "coprime (int P) (2 ^ j)" using assms(1) by (simp add: coprime_right_2_iff_odd)
  ultimately show "int P dvd int X * int r - 2 ^ k" by (simp add: coprime_dvd_mult_right_iff)
qed

lemma mont_word_val:
  assumes "length s = 8" "length pp = 8" "ninv * pp ! 0 = - 1"
  shows "\<exists>r f. mont_word pp ninv s = Some r \<and> length r = 8 \<and> f < 2 ^ 32 \<and> 2 ^ 32 * words_val r = words_val s + f * words_val pp"
proof -
  obtain s0 ss where s: "s = s0 # ss" "length ss = 7" using assms(1) by (cases s) auto
  obtain p0 ps where p: "pp = p0 # ps" "length ps = 7" using assms(2) by (cases pp) auto
  let ?f = "ninv * s0"
  let ?t = "ucast s0 + ucast p0 * ucast ?f :: u64"
  have t: "unat ?t = unat s0 + unat p0 * unat ?f" by (rule unat_limb_prod)
  have "p0 * ?f = (ninv * p0) * s0" by (simp only: mult_ac)
  also have "ninv * p0 = - 1" using assms(3) p by simp
  finally have "s0 + p0 * ?f = 0" by simp
  then have "unat (s0 + p0 * ?f) = 0" by simp
  then have z: "unat ?t mod 2 ^ 32 = 0" unfolding t unat_limb_sum .
  have "unat (take_bit 32 ?t) = 0" unfolding unsigned_take_bit_eq take_bit_eq_mod [where ?'a = nat] by (rule z)
  then have "take_bit 32 ?t = 0" by (simp only: unat_eq_0)
  then have a: "?t AND 0xFFFFFFFF = 0" by (simp add: take_bit_eq_mask mask_numeral)
  have c: "unat (drop_bit 32 ?t) < 2 ^ 32" unfolding unat_drop_32 using unat_u64_less [of ?t] by simp
  let ?r = "mont_limbs (drop_bit 32 ?t) ?f ss ps"
  have r: "length ?r = 8" "words_val ?r = unat (drop_bit 32 ?t) + words_val ss + unat ?f * words_val ps"
    using mont_limbs_val [of ss ps "drop_bit 32 ?t" ?f] c s p by simp_all
  have "2 ^ 32 * unat (drop_bit 32 ?t) = unat ?t" using z mod_mult_div_eq [of "unat ?t" "2 ^ 32"] unfolding unat_drop_32 by simp
  then have "2 ^ 32 * words_val ?r = unat ?t + 2 ^ 32 * (words_val ss + unat ?f * words_val ps)" unfolding r(2) by (simp add: add_mult_distrib2)
  also have "\<dots> = words_val s + unat ?f * words_val pp" unfolding t s p by (simp add: algebra_simps)
  finally have v: "2 ^ 32 * words_val ?r = words_val s + unat ?f * words_val pp" .
  have "mont_word pp ninv s = Some ?r" using a by (simp add: mont_word_def Let_def s p)
  then show ?thesis using r(1) v unat_u32_less [of ?f] by blast
qed

lemma mont_words_val:
  assumes "length pp = 8" "ninv * pp ! 0 = - 1" "odd (words_val pp)"
  shows "length s = 8 \<Longrightarrow> words_val s \<le> words_val pp \<Longrightarrow> int (words_val pp) dvd int X * int (words_val s) - 2 ^ k \<Longrightarrow>
    \<exists>r k'. mont_words pp ninv s k = Some (r, k') \<and> k' < 32 \<and> length r = 8 \<and> words_val r \<le> words_val pp \<and>
      int (words_val pp) dvd int X * int (words_val r) - 2 ^ k'"
proof (induction k arbitrary: s rule: less_induct)
  case (less k)
  show ?case
  proof (cases "k \<ge> 32")
    case True
    obtain r f where r: "mont_word pp ninv s = Some r" "length r = 8" "f < 2 ^ 32" "2 ^ 32 * words_val r = words_val s + f * words_val pp"
      using mont_word_val [OF less.prems(1) assms(1,2)] by blast
    have k: "k = (k - 32) + 32" using True by simp
    have n: "words_val r \<le> words_val pp" "int (words_val pp) dvd int X * int (words_val r) - 2 ^ (k - 32)"
      using mont_nums [OF assms(3) r(4,3) less.prems(2), of X "k - 32"] less.prems(3) k by simp_all
    have "mont_words pp ninv s k = mont_words pp ninv r (k - 32)" using r(1) True by (subst mont_words.simps) simp
    then show ?thesis using less.IH [OF _ r(2) n] True by simp
  next
    case False
    then show ?thesis using less.prems by (subst mont_words.simps) simp
  qed
qed

lemma mont_shift_limbs_val:
  assumes "length ss = length ps" "unat temp < 2 ^ 32" "unat f < 2 ^ k" "0 < k" "k < 32"
  shows "length (mont_shift_limbs k temp f ss ps) = Suc (length ss) \<and>
    words_val (mont_shift_limbs k temp f ss ps) = unat temp + 2 ^ (32 - k) * (words_val ss + unat f * words_val ps)"
  using assms(1,2)
proof (induction ss ps arbitrary: temp rule: list_induct2)
  case Nil
  then show ?case by (simp add: unat_limb_u64)
next
  case (Cons s ss p ps)
  let ?q = "ucast s + ucast p * ucast f :: u64"
  let ?t = "temp + push_bit (32 - k) ?q"
  have q: "unat ?q = unat s + unat p * unat f" by (rule unat_limb_prod)
  have "unat p * unat f \<le> (2 ^ 32 - 1) * (2 ^ k - 1)" using unat_u32_less [of p] assms(3) by (intro mult_mono) simp_all
  also have "(2 ^ 32 - 1) * (2 ^ k - 1) + (2 ^ 32 - 1) = (2 ^ 32 - 1) * (2 :: nat) ^ k" by (simp add: algebra_simps)
  finally have "unat ?q \<le> (2 ^ 32 - 1) * 2 ^ k" unfolding q using unat_u32_less [of s] by simp
  then have "2 ^ (32 - k) * unat ?q \<le> 2 ^ (32 - k) * ((2 ^ 32 - 1) * 2 ^ k)" by (rule mult_left_mono) simp
  also have "2 ^ (32 - k) * ((2 ^ 32 - 1) * 2 ^ k) = (2 ^ 32 - 1) * (2 ^ (32 - k) * (2 :: nat) ^ k)" by (simp only: mult_ac)
  also have "2 ^ (32 - k) * 2 ^ k = (2 :: nat) ^ 32" using assms(5) by (intro pow_split) simp
  finally have b: "2 ^ (32 - k) * unat ?q \<le> (2 ^ 32 - 1) * 2 ^ 32" .
  then have "unat (push_bit (32 - k) ?q) = 2 ^ (32 - k) * unat ?q"
    using unat_or_push_mod [of "0 :: u64" "32 - k" ?q] assms(5) by simp
  then have t: "unat ?t = unat temp + 2 ^ (32 - k) * (unat s + unat p * unat f)"
    using b Cons.prems unfolding q by (subst unat_plus_small) simp_all
  have c: "unat (drop_bit 32 ?t) < 2 ^ 32" unfolding unat_drop_32 using unat_u64_less [of ?t] by simp
  have "words_val (mont_shift_limbs k temp f (s # ss) (p # ps)) =
      unat (ucast ?t :: u32) + 2 ^ 32 * (unat (drop_bit 32 ?t) + 2 ^ (32 - k) * (words_val ss + unat f * words_val ps))"
    using Cons.IH [OF c] by (simp add: Let_def)
  also have "\<dots> = unat ?t + 2 ^ 32 * (2 ^ (32 - k) * (words_val ss + unat f * words_val ps))"
    unfolding limb_carry [of ?t, symmetric] by (simp only: add_mult_distrib2 add.assoc)
  also have "\<dots> = unat temp + 2 ^ (32 - k) * (words_val (s # ss) + unat f * words_val (p # ps))"
    unfolding t words_val.simps by (simp only: add_mult_distrib add_mult_distrib2 mult_ac add_ac)
  finally show ?case using Cons.IH [OF c] by (simp add: Let_def)
qed

lemma take_bit_fma:
  assumes "k \<le> 32"
  shows "take_bit k (a + b * take_bit k c) = take_bit k (a + b * (c :: u32))"
proof -
  have "(2 :: nat) ^ k dvd 2 ^ 32" using assms by (intro le_imp_power_dvd)
  moreover have "(x + y * (z mod m)) mod m = (x + y * z) mod m" for x y z m :: nat by (metis mod_add_right_eq mod_mult_right_eq)
  ultimately show ?thesis
    unfolding word_unat_eq_iff unsigned_take_bit_eq unat_limb_sum take_bit_eq_mod [where ?'a = nat]
    by (simp only: mod_mod_cancel)
qed

lemma mont_bits_val:
  assumes "length s = 8" "length pp = 8" "ninv * pp ! 0 = - 1" "0 < k" "k < 32"
  shows "\<exists>r f. mont_bits pp ninv s k = Some r \<and> length r = 8 \<and> f < 2 ^ k \<and> 2 ^ k * words_val r = words_val s + f * words_val pp"
proof -
  obtain s0 ss where s: "s = s0 # ss" "length ss = 7" using assms(1) by (cases s) auto
  obtain p0 ps where p: "pp = p0 # ps" "length ps = 7" using assms(2) by (cases pp) auto
  let ?f = "take_bit k (ninv * s0)"
  let ?t = "ucast s0 + ucast p0 * ucast ?f :: u64"
  have m: "push_bit k 1 - 1 = (mask k :: u32)" by (simp add: mask_eq_exp_minus_1)
  have f: "unat ?f < 2 ^ k" by (simp add: unsigned_take_bit_eq)
  have t: "unat ?t = unat s0 + unat p0 * unat ?f" by (rule unat_limb_prod)
  have "p0 * (ninv * s0) = (ninv * p0) * s0" by (simp only: mult_ac)
  also have "ninv * p0 = - 1" using assms(3) p by simp
  finally have "s0 + p0 * (ninv * s0) = 0" by simp
  moreover have "take_bit k (s0 + p0 * ?f) = take_bit k (s0 + p0 * (ninv * s0))"
    using assms(5) by (intro take_bit_fma) simp
  ultimately have z: "take_bit k (s0 + p0 * ?f) = 0" by simp
  then have "take_bit k (unat (s0 + p0 * ?f)) = 0" by (metis unsigned_take_bit_eq unsigned_0)
  then have "(unat s0 + unat p0 * unat ?f) mod 2 ^ 32 mod 2 ^ k = 0" unfolding unat_limb_sum take_bit_eq_mod .
  moreover have "(2 :: nat) ^ k dvd 2 ^ 32" using assms(5) by (intro le_imp_power_dvd) simp
  ultimately have d: "unat ?t mod 2 ^ k = 0" unfolding t by (simp only: mod_mod_cancel)
  have c0: "unat (drop_bit k ?t) = unat ?t div 2 ^ k" by (simp only: unat_drop_bit)
  then have c: "2 ^ k * unat (drop_bit k ?t) = unat ?t" using d mod_mult_div_eq [of "unat ?t" "2 ^ k"] by simp
  have "unat p0 * unat ?f \<le> (2 ^ 32 - 1) * (2 ^ k - 1)" using unat_u32_less [of p0] f by (intro mult_mono) simp_all
  also have "(2 ^ 32 - 1) * (2 ^ k - 1) + (2 ^ 32 - 1) = (2 ^ 32 - 1) * (2 :: nat) ^ k" by (simp add: algebra_simps)
  finally have "unat ?t \<le> (2 ^ 32 - 1) * 2 ^ k" unfolding t using unat_u32_less [of s0] by simp
  then have "unat ?t < 2 ^ 32 * 2 ^ k" by (rule le_less_trans) simp
  then have lt: "unat (drop_bit k ?t) < 2 ^ 32" unfolding c0 by (rule less_mult_imp_div_less)
  let ?r = "mont_shift_limbs k (drop_bit k ?t) ?f ss ps"
  have r: "length ?r = 8" "words_val ?r = unat (drop_bit k ?t) + 2 ^ (32 - k) * (words_val ss + unat ?f * words_val ps)"
    using mont_shift_limbs_val [of ss ps "drop_bit k ?t" ?f k] lt f s p assms by simp_all
  have "2 ^ k * words_val ?r = unat ?t + (2 ^ (32 - k) * 2 ^ k) * (words_val ss + unat ?f * words_val ps)"
    unfolding r(2) add_mult_distrib2 c by (simp only: mult_ac)
  also have "2 ^ (32 - k) * 2 ^ k = (2 :: nat) ^ 32" using assms(5) by (intro pow_split) simp
  also have "unat ?t + 2 ^ 32 * (words_val ss + unat ?f * words_val ps) = words_val s + unat ?f * words_val pp"
    unfolding t s p words_val.simps by (simp only: add_mult_distrib add_mult_distrib2 mult_ac add_ac)
  finally have v: "2 ^ k * words_val ?r = words_val s + unat ?f * words_val pp" .
  have "mont_bits pp ninv s k = Some ?r"
    by (simp only: mont_bits_def Let_def s p nth_Cons_0 list.sel m take_bit_eq_mask [symmetric] z) simp
  then show ?thesis using r(1) v f by blast
qed

section \<open>The inverse\<close>

lemma inverse_loop_start:
  assumes "length pp = 8" "length xs = 8" "2 ^ 224 \<le> words_val pp" "odd (words_val pp)" "0 < words_val xs" "coprime (words_val xs) (words_val pp)"
  shows "\<exists>us k. inverse_loop \<lparr> limbs = pp @ [1], len1 = 8 \<rparr> \<lparr> limbs = xs @ [0], len1 = 8 \<rparr> False 0 = Some (us, k) \<and> inverse_end (words_val pp) (words_val xs) us k"
proof -
  let ?us = "\<lparr> limbs = pp @ [1], len1 = 8 \<rparr>" and ?vr = "\<lparr> limbs = xs @ [0], len1 = 8 \<rparr>"
  have f: "first_part ?us = words_val pp" "second_part ?us = 1" "first_part ?vr = words_val xs" "second_part ?vr = 0" "combo_ok ?us" "combo_ok ?vr"
    using assms(1,2) by (simp_all add: first_part_def second_part_def combo_ok_def)
  have t: "top_ok ?us" using top_ok_bound [OF f(5)] f(1) assms(3) by simp
  have c: "combos (words_val pp) (words_val xs) ?us ?vr 0"
    using f assms(3-6) by (simp add: combos_def nums_def coprime_commute)
  have h: "if False then halves ?us ?vr else halves ?vr ?us" using f t assms(4) by (simp add: halves_def)
  have "words_val pp < 2 ^ 256" using words_val_less [of pp] assms(1) by simp
  from inverse_loop_val [OF this c h] show ?thesis .
qed

lemma neg_inverse_start:
  assumes "odd (unat p)"
  shows "\<exists>r. neg_inverse_loop (p - 1) (p - 2) = Some r \<and> r * p = - 1"
proof (rule neg_inverse_loop_val [of 1])
  have "p \<noteq> 0" using assms by auto
  then have "unat (p - 1) = unat p - 1" by (simp add: unat_minus_one)
  then show "2 ^ 1 dvd unat (p - 1)" using assms by simp
  show "(p - 2) * p = (p - 1) * (p - 1) - 1" by (simp add: algebra_simps)
qed simp_all

text \<open>The fast inverse of nine digits, normal or not, that denote a number without a common divisor with the odd modulus: no assertion fails, the loops end, and the result is the
  inverse below the modulus.\<close>

lemma bn_inverse_val:
  assumes x: "length x = 9" "coprime (bn_val x) (bn_val p)" and p: "prime_ok p" "odd (bn_val p)"
  shows "\<exists>r. bn_inverse x p = Some r \<and> bignum r \<and> bn_val r < bn_val p \<and> bn_val x * bn_val r mod bn_val p = 1"
proof -
  let ?P = "bn_val p"
  have P: "2 ^ 224 < ?P" "?P < 2 ^ 256" "bignum p" using p(1) by (simp_all add: prime_ok_def)
  note f = bn_fast_mod_val [OF x(1) p(1)]
  obtain y where y: "bn_mod (bn_fast_mod x p) p = Some y" "bignum y" "bn_val y = bn_val x mod ?P"
    using bn_mod_val [OF f(1) P(3) f(2)] f(3) by auto
  have yc: "coprime (bn_val y) ?P" using x(2) unfolding y(3) by (simp add: coprime_iff_gcd_eq_1 gcd_red_nat [symmetric] gcd.commute)
  have y0: "0 < bn_val y" using yc P(1) by (cases "bn_val y = 0") auto
  have y256: "bn_val y < 2 ^ 256" using y(3) P(1,2) mod_less_divisor [of ?P "bn_val x"] by linarith
  let ?pp = "to_limbs p" and ?xs = "to_limbs y"
  note pl = to_limbs_val [OF P(3,2)] and yl = to_limbs_val [OF y(2) y256]
  obtain us k where l: "inverse_loop \<lparr> limbs = ?pp @ [1], len1 = 8 \<rparr> \<lparr> limbs = ?xs @ [0], len1 = 8 \<rparr> False 0 = Some (us, k)"
    "inverse_end ?P (bn_val y) us k"
    using inverse_loop_start [of ?pp ?xs] pl yl P(1) p(2) y0 yc by auto
  have op: "odd (words_val ?pp)" using p(2) pl by simp
  then have p0: "odd (unat (?pp ! 0))" using pl(1) by (cases ?pp) simp_all
  obtain n where n: "neg_inverse_loop (?pp ! 0 - 1) (?pp ! 0 - 2) = Some n" "n * ?pp ! 0 = - 1" using neg_inverse_start [OF p0] by blast
  have a: "?pp ! 0 AND 1 \<noteq> 0" using words_val_odd [of ?pp] pl(1) op by (cases "?pp = []") simp_all
  let ?s = "take 8 (rev (limbs us))"
  have u: "length (limbs us) = 9" "len1 us = 1" using l(2) by (simp_all add: inverse_end_def combo_ok_def)
  have s: "length ?s = 8" "words_val ?s = second_part us" using u by (simp_all add: second_part_def take_rev)
  obtain s1 k1 where w: "mont_words ?pp n ?s k = Some (s1, k1)" "k1 < 32" "length s1 = 8" "words_val s1 \<le> ?P" "int ?P dvd int (bn_val y) * int (words_val s1) - 2 ^ k1"
    using mont_words_val [OF pl(1) n(2), of ?s "bn_val y" k] pl(2) p(2) s l(2) by (auto simp: inverse_end_def)
  have "\<exists>s2. (if k1 > 0 then mont_bits ?pp n s1 k1 else Some s1) = Some s2 \<and> length s2 = 8 \<and> words_val s2 \<le> ?P \<and> int ?P dvd int (bn_val y) * int (words_val s2) - 1"
  proof (cases "k1 > 0")
    case True
    obtain s2 g where b: "mont_bits ?pp n s1 k1 = Some s2" "length s2 = 8" "g < 2 ^ k1" "2 ^ k1 * words_val s2 = words_val s1 + g * words_val ?pp"
      using mont_bits_val [OF w(3) pl(1) n(2) True w(2)] by blast
    have "words_val s2 \<le> ?P" "int ?P dvd int (bn_val y) * int (words_val s2) - 2 ^ 0"
      using mont_nums [OF p(2) b(4) [unfolded pl(2)] b(3) w(4), of "bn_val y" 0] w(5) by simp_all
    then show ?thesis using b True by simp
  next
    case False
    then show ?thesis using w by simp
  qed
  then obtain s2 where s2: "(if k1 > 0 then mont_bits ?pp n s1 k1 else Some s1) = Some s2" "length s2 = 8" "words_val s2 \<le> ?P"
    "int ?P dvd int (bn_val y) * int (words_val s2) - 1" by blast
  note o = of_limbs_val [OF s2(2)]
  have "bn_inverse x p = Some (of_limbs s2)"
    unfolding bn_inverse_def using y(1) l(1) a n(1) w(1) s2(1) by (simp add: Let_def del: if_split)
  moreover have "words_val s2 \<noteq> ?P"
  proof
    assume "words_val s2 = ?P"
    then have "int ?P dvd 1" using s2(4) by (simp add: dvd_diff_right_iff)
    then show False using P(1) by simp
  qed
  moreover have "bn_val x * words_val s2 mod ?P = 1"
  proof -
    have "int (bn_val y * words_val s2) mod int ?P = 1 mod int ?P" using s2(4) by (simp add: mod_eq_dvd_iff)
    then have "int (bn_val y * words_val s2 mod ?P) = 1" using P(1) by (simp add: zmod_int)
    then have "bn_val y * words_val s2 mod ?P = 1" by (simp only: of_nat_eq_1_iff)
    then show ?thesis unfolding y(3) by (simp only: mod_mult_left_eq)
  qed
  ultimately show ?thesis using o s2(3) by (intro exI [of _ "of_limbs s2"]) simp
qed

lemma adjust_len_zero: "n \<le> length a \<Longrightarrow> words_val (take n a) = 0 \<Longrightarrow> adjust_len a n = None"
proof (induction n)
  case (Suc n)
  then have "words_val (take n a) + 2 ^ (32 * n) * unat (a ! n) = 0" using words_val_take_Suc [of n a] by simp
  then show ?case using Suc by (simp add: unat_eq_0)
qed simp

text \<open>For a multiple of the modulus, the code reads in front of its array.\<close>

lemma bn_inverse_zero:
  assumes "length x = 9" "prime_ok p" "bn_val x mod bn_val p = 0"
  shows "bn_inverse x p = None"
proof -
  note f = bn_fast_mod_val [OF assms(1,2)]
  have P: "bignum p" "0 < bn_val p" using assms(2) by (simp_all add: prime_ok_def)
  obtain y where y: "bn_mod (bn_fast_mod x p) p = Some y" "bignum y" "bn_val y = 0"
    using bn_mod_val [OF f(1) P(1) f(2)] f(3) assms(3) by auto
  have "bn_val y < 2 ^ 256" using y(3) by simp
  note l = to_limbs_val [OF y(2) this]
  have "make_odd \<lparr> limbs = to_limbs y @ [0], len1 = 8 \<rparr> 0 = None"
    using l y(3) by (simp add: make_odd_def adjust_len_zero)
  then have "inverse_round \<lparr> limbs = to_limbs p @ [1], len1 = 8 \<rparr> \<lparr> limbs = to_limbs y @ [0], len1 = 8 \<rparr> False 0 = None"
    by (simp add: inverse_round_def)
  then have "inverse_loop \<lparr> limbs = to_limbs p @ [1], len1 = 8 \<rparr> \<lparr> limbs = to_limbs y @ [0], len1 = 8 \<rparr> False 0 = None"
    by (subst inverse_loop.simps) simp
  then show ?thesis using y(1) by (simp add: bn_inverse_def Let_def)
qed

section \<open>Property\<close>

text \<open>C7: The fast inverse, of any nine digits that denote a number without a common divisor with the odd modulus: the loops end, no assertion
  fails, and the result is the normal number below the modulus whose product with the input is 1.\<close>

theorem bn_inverse_result:
  assumes "length x = 9" "prime_ok p" "odd (bn_val p)" "coprime (bn_val x) (bn_val p)"
  shows "\<exists>r. bn_inverse x p = Some r \<and> bignum r \<and> bn_val r < bn_val p \<and> bn_val x * bn_val r mod bn_val p = 1"
  using assms by (intro bn_inverse_val)

theorem bn_inverse_result_witness:
  "\<exists>r. bn_inverse [2, 0, 0, 0, 0, 0, 0, 0, 0] (curve_prime (secp256k1 [])) = Some r \<and> bignum r \<and>
    bn_val r < bn_val (curve_prime (secp256k1 [])) \<and> 2 * bn_val r mod bn_val (curve_prime (secp256k1 [])) = 1"
  using bn_inverse_result [of "[2, 0, 0, 0, 0, 0, 0, 0, 0]" "curve_prime (secp256k1 [])"]
  by (simp add: secp256k1_prime_ok secp256k1_prime)

end
