(* ===== verification/Field.thy ===== *)
theory Field
  imports Bignum_Inverse
begin

text \<open>
  Numbers of nine digits as elements of the field: \<open>fe p b x v\<close> says that \<open>x\<close> is normal, at most \<open>b\<close> times the modulus, and congruent to \<open>v\<close>. One
  lemma for each operation of the code keeps track of the factor and of the element.
\<close>

section \<open>Congruence\<close>

definition cg :: "nat \<Rightarrow> int \<Rightarrow> int \<Rightarrow> bool" where
  "cg P a b \<longleftrightarrow> int P dvd a - b"

lemma cg_refl [simp]: "cg P a a"
  by (simp add: cg_def)

lemma cg_sym: "cg P a b \<Longrightarrow> cg P b a"
  unfolding cg_def by (metis dvd_minus_iff minus_diff_eq)

lemma cg_trans [trans]: "cg P a b \<Longrightarrow> cg P b c \<Longrightarrow> cg P a c"
  unfolding cg_def using dvd_add [of "int P" "a - b" "b - c"] by simp

lemma cg_left: "cg P a b \<Longrightarrow> cg P a c \<longleftrightarrow> cg P b c"
  by (blast intro: cg_trans cg_sym)

lemma cg_right: "cg P a b \<Longrightarrow> cg P c a \<longleftrightarrow> cg P c b"
  by (blast intro: cg_trans cg_sym)

lemma cg_add: "cg P a b \<Longrightarrow> cg P c d \<Longrightarrow> cg P (a + c) (b + d)"
  unfolding cg_def using dvd_add [of "int P" "a - b" "c - d"] by (simp add: algebra_simps)

lemma cg_diff: "cg P a b \<Longrightarrow> cg P c d \<Longrightarrow> cg P (a - c) (b - d)"
  unfolding cg_def using dvd_diff [of "int P" "a - b" "c - d"] by (simp add: algebra_simps)

lemma cg_mult: "cg P a b \<Longrightarrow> cg P c d \<Longrightarrow> cg P (a * c) (b * d)"
proof -
  assume "cg P a b" "cg P c d"
  then have "int P dvd (a - b) * c + b * (c - d)" unfolding cg_def by (intro dvd_add dvd_mult dvd_mult2)
  then show ?thesis by (simp add: cg_def algebra_simps)
qed

lemma cg_power: "cg P a b \<Longrightarrow> cg P (a ^ n) (b ^ n)"
  by (induction n) (simp_all add: cg_mult)

lemma cg_minus: "cg P a b \<Longrightarrow> cg P (- a) (- b)"
  using cg_diff [of P 0 0 a b] by simp

lemmas cg_ops = cg_add cg_diff cg_mult cg_power cg_minus

lemma cg_cancel:
  assumes "coprime c (int P)" "cg P (c * a) (c * b)"
  shows "cg P a b"
proof -
  have "int P dvd c * (a - b)" using assms(2) by (simp add: cg_def right_diff_distrib)
  then show ?thesis unfolding cg_def using assms(1) by (simp add: coprime_dvd_mult_right_iff coprime_commute)
qed

lemma cg_int_mod: "cg P (int x) (int y) \<longleftrightarrow> x mod P = y mod P"
  unfolding cg_def mod_eq_dvd_iff [symmetric] by (metis of_nat_eq_iff zmod_int)

lemma cg_small: "x < P \<Longrightarrow> y < P \<Longrightarrow> cg P (int x) (int y) \<longleftrightarrow> x = y"
  by (simp add: cg_int_mod)

section \<open>Elements\<close>

definition fe :: "bignum256 \<Rightarrow> nat \<Rightarrow> bignum256 \<Rightarrow> int \<Rightarrow> bool" where
  "fe p b x v \<longleftrightarrow> bignum x \<and> bn_val x \<le> b * bn_val p \<and> cg (bn_val p) (int (bn_val x)) v"

lemma feD: "fe p b x v \<Longrightarrow> bignum x" "fe p b x v \<Longrightarrow> bn_val x \<le> b * bn_val p" "fe p b x v \<Longrightarrow> cg (bn_val p) (int (bn_val x)) v"
  by (simp_all add: fe_def)

lemma fe_self: "bignum x \<Longrightarrow> bn_val x \<le> b * bn_val p \<Longrightarrow> fe p b x (int (bn_val x))"
  by (simp add: fe_def)

lemma fe_cg: "fe p b x v \<Longrightarrow> cg (bn_val p) v w \<Longrightarrow> fe p b x w"
  unfolding fe_def using cg_trans by blast

lemma fe_mono: "fe p b x v \<Longrightarrow> b \<le> c \<Longrightarrow> fe p c x v"
  unfolding fe_def by (meson le_trans mult_le_mono1)

text \<open>The moduli.\<close>

definition modulus :: "bignum256 \<Rightarrow> bool" where
  "modulus p \<longleftrightarrow> prime_ok p \<and> odd (bn_val p)"

lemma modulusD: "modulus p \<Longrightarrow> prime_ok p" "modulus p \<Longrightarrow> odd (bn_val p)" "modulus p \<Longrightarrow> bignum p"
  "modulus p \<Longrightarrow> 2 ^ 224 < bn_val p" "modulus p \<Longrightarrow> bn_val p < 2 ^ 256" "modulus p \<Longrightarrow> 0 < bn_val p"
  by (auto simp: modulus_def prime_ok_def)

lemma factor_bound: "(P :: nat) < 2 ^ 256 \<Longrightarrow> b \<le> 64 \<Longrightarrow> b * P < 2 ^ 262"
proof -
  assume "P < 2 ^ 256" "b \<le> 64"
  then have "b * P \<le> 64 * P" by (intro mult_right_mono) simp_all
  also have "64 * P < 64 * 2 ^ 256" using \<open>P < 2 ^ 256\<close> by simp
  finally show ?thesis by simp
qed

lemma fe_bound: "modulus p \<Longrightarrow> fe p b x v \<Longrightarrow> b \<le> 64 \<Longrightarrow> bn_val x < 2 ^ 262"
  using factor_bound [OF modulusD(5)] feD(2) le_less_trans by blast

text \<open>An element below the modulus.\<close>

definition fr :: "bignum256 \<Rightarrow> bignum256 \<Rightarrow> int \<Rightarrow> bool" where
  "fr p x v \<longleftrightarrow> bignum x \<and> bn_val x < bn_val p \<and> cg (bn_val p) (int (bn_val x)) v"

lemma fr_fe: "fr p x v \<Longrightarrow> fe p 1 x v"
  by (simp add: fr_def fe_def)

lemma fr_cg: "fr p x v \<Longrightarrow> cg (bn_val p) v w \<Longrightarrow> fr p x w"
  unfolding fr_def using cg_trans by blast

lemma fr_unique:
  assumes "fr p x v" "fr p y v"
  shows "x = y"
proof -
  have "cg (bn_val p) (int (bn_val x)) (int (bn_val y))" using assms cg_trans cg_sym unfolding fr_def by blast
  then have "bn_val x = bn_val y" using assms by (simp add: fr_def cg_small)
  then show ?thesis using assms bn_val_inj [of x y] by (simp add: fr_def bignum_def)
qed

lemma multiply_strict:
  assumes "modulus p" "fe p b x v" "fe p c y w" "b \<le> 64" "c \<le> 64"
  shows "\<exists>r. bn_multiply x y p = Some r \<and> fe p 2 r (v * w) \<and> bn_val r < 2 * bn_val p"
proof -
  have "bn_val x * bn_val y \<le> bn_val x * (c * bn_val p)" using feD(2) [OF assms(3)] by (intro mult_left_mono) simp_all
  also have "\<dots> \<le> bn_val x * (64 * bn_val p)" using assms(5) by (intro mult_left_mono mult_right_mono) simp_all
  also have "\<dots> = (64 * bn_val x) * bn_val p" by (simp only: mult_ac)
  also have "\<dots> < 2 ^ 271 * bn_val p"
    using fe_bound [OF assms(1,2,4)] modulusD(6) [OF assms(1)] by (intro mult_strict_right_mono) simp_all
  finally have "bn_val x * bn_val y < 2 ^ 271 * bn_val p" .
  then obtain r where r: "bn_multiply x y p = Some r" "bignum r" "bn_val r < 2 * bn_val p" "bn_val r mod bn_val p = bn_val x * bn_val y mod bn_val p"
    using bn_multiply_reduces [OF feD(1) [OF assms(2)] feD(1) [OF assms(3)] modulusD(1) [OF assms(1)]] by blast
  have "cg (bn_val p) (int (bn_val r)) (int (bn_val x * bn_val y))" using r(4) by (simp only: cg_int_mod)
  also have "cg (bn_val p) (int (bn_val x * bn_val y)) (v * w)" using cg_mult [OF feD(3) [OF assms(2)] feD(3) [OF assms(3)]] by simp
  finally show ?thesis using r by (auto simp: fe_def)
qed

lemma fe_multiply:
  assumes "modulus p" "fe p b x v" "fe p c y w" "b \<le> 64" "c \<le> 64"
  shows "\<exists>r. bn_multiply x y p = Some r \<and> fe p 2 r (v * w)"
  using multiply_strict [OF assms] by blast

lemma fe_fast_mod:
  assumes "modulus p" "fe p b x v"
  shows "fe p 2 (bn_fast_mod x p) v"
proof -
  have l: "length x = 9" using feD(1) [OF assms(2)] by (simp add: bignum_def)
  note f = bn_fast_mod_val [OF l modulusD(1) [OF assms(1)]]
  have "cg (bn_val p) (int (bn_val (bn_fast_mod x p))) (int (bn_val x))" using f(3) by (simp only: cg_int_mod)
  then show ?thesis using f(1,2) cg_trans feD(3) [OF assms(2)] by (auto simp: fe_def)
qed

lemma fr_mod:
  assumes "modulus p" "fe p b x v" "bn_val x < 2 * bn_val p"
  shows "\<exists>r. bn_mod x p = Some r \<and> fr p r v"
proof -
  obtain r where r: "bn_mod x p = Some r" "bignum r" "bn_val r = bn_val x mod bn_val p"
    using bn_mod_val [OF feD(1) [OF assms(2)] modulusD(3) [OF assms(1)] assms(3)] by blast
  have "cg (bn_val p) (int (bn_val r)) (int (bn_val x))" unfolding cg_int_mod r(3) by simp
  then have "cg (bn_val p) (int (bn_val r)) v" using cg_trans feD(3) [OF assms(2)] by blast
  moreover have "bn_val r < bn_val p" using r(3) modulusD(6) [OF assms(1)] by simp
  ultimately show ?thesis using r by (auto simp: fr_def)
qed

lemma fr_reduce:
  assumes "modulus p" "fe p b x v"
  shows "\<exists>r. bn_mod (bn_fast_mod x p) p = Some r \<and> fr p r v"
  using feD(1) [OF assms(2)] bn_fast_mod_val(2) [of x p] modulusD(1) [OF assms(1)]
  by (intro fr_mod [OF assms(1) fe_fast_mod [OF assms]]) (simp add: bignum_def)

lemma fe_add:
  assumes "modulus p" "fe p b x v" "fe p c y w" "b + c \<le> 64"
  shows "fe p (b + c) (bn_add x y) (v + w)"
proof -
  have l: "bn_val x + bn_val y \<le> (b + c) * bn_val p" using feD(2) [OF assms(2)] feD(2) [OF assms(3)] by (simp add: add_mult_distrib)
  also have "(b + c) * bn_val p < 2 ^ 262" by (rule factor_bound [OF modulusD(5) [OF assms(1)] assms(4)])
  finally have "bn_val (bn_add x y) = bn_val x + bn_val y" "bignum (bn_add x y)"
    using bn_add_val [OF feD(1) [OF assms(2)] feD(1) [OF assms(3)]] by simp_all
  then show ?thesis using l cg_add [OF feD(3) [OF assms(2)] feD(3) [OF assms(3)]] by (simp add: fe_def)
qed

lemma fe_subtractmod:
  assumes "modulus p" "fe p b x v" "fe p 2 y w" "b \<le> 62"
  shows "fe p (b + 2) (bn_subtractmod x y p) (v - w)" "bn_val (bn_subtractmod x y p) + bn_val y = bn_val x + 2 * bn_val p"
proof -
  have y: "bn_val y \<le> 2 * bn_val p" using feD(2) [OF assms(3)] by simp
  have l: "bn_val x + 2 * bn_val p \<le> (b + 2) * bn_val p" using feD(2) [OF assms(2)] by (simp add: add_mult_distrib)
  also have "(b + 2) * bn_val p < 2 ^ 262" using assms(4) by (intro factor_bound [OF modulusD(5) [OF assms(1)]]) simp
  finally have "bn_val x + 2 * bn_val p < 2 ^ 270" by simp
  note s = subtractmod_exact [OF feD(1) [OF assms(2)] feD(1) [OF assms(3)] modulusD(3) [OF assms(1)] y this]
  then have "int (bn_val (bn_subtractmod x y p)) = int (bn_val x) - int (bn_val y) + 2 * int (bn_val p)" by linarith
  then have "cg (bn_val p) (int (bn_val (bn_subtractmod x y p))) (int (bn_val x) - int (bn_val y))" by (simp add: cg_def)
  also have "cg (bn_val p) (int (bn_val x) - int (bn_val y)) (v - w)" by (rule cg_diff [OF feD(3) [OF assms(2)] feD(3) [OF assms(3)]])
  finally show "fe p (b + 2) (bn_subtractmod x y p) (v - w)"
    using s l bn_subtractmod_val(1) [OF feD(1) [OF assms(2)] feD(1) [OF assms(3)] modulusD(3) [OF assms(1)]] by (simp add: fe_def)
  show "bn_val (bn_subtractmod x y p) + bn_val y = bn_val x + 2 * bn_val p" by (rule s)
qed

lemma fe_mult_k:
  assumes "modulus p" "fe p b x v" "unat k \<le> 4"
  shows "fe p 2 (bn_mult_k x k p) (int (unat k) * v)"
proof -
  have n: "normal x" "length x = 9" using feD(1) [OF assms(2)] by (simp_all add: bignum_def)
  note f = bn_fast_mod_val [of "map (\<lambda>d. ucast k * d) x", OF _ modulusD(1) [OF assms(1)]]
  have "bn_val (bn_mult_k x k p) mod bn_val p = unat k * bn_val x mod bn_val p"
    using f(3) n bn_val_times [OF assms(3) n(1)] by (simp add: bn_mult_k_def)
  then have "cg (bn_val p) (int (bn_val (bn_mult_k x k p))) (int (unat k * bn_val x))" by (simp only: cg_int_mod)
  also have "cg (bn_val p) (int (unat k * bn_val x)) (int (unat k) * v)" using cg_mult [OF cg_refl feD(3) [OF assms(2)]] by simp
  finally show ?thesis using f(1,2) n by (simp add: fe_def bn_mult_k_def)
qed

lemma fe_lshift:
  assumes "modulus p" "fe p b x v" "b \<le> 32"
  shows "fe p (2 * b) (bn_lshift x) (2 * v)"
proof -
  have l: "2 * bn_val x \<le> 2 * b * bn_val p" using feD(2) [OF assms(2)] by simp
  also have "2 * b * bn_val p < 2 ^ 262" using assms(3) by (intro factor_bound [OF modulusD(5) [OF assms(1)]]) simp
  finally have "bn_val (bn_lshift x) = 2 * bn_val x" using bn_lshift_val(2) [OF feD(1) [OF assms(2)]] by simp
  then show ?thesis using l bn_lshift_val(1) [OF feD(1) [OF assms(2)]] cg_mult [OF cg_refl feD(3) [OF assms(2)], of 2] by (simp add: fe_def)
qed

lemma cg_half:
  assumes "odd P" "cg P (2 * a) (2 * b)"
  shows "cg P a b"
proof (rule cg_cancel [OF _ assms(2)])
  show "coprime 2 (int P)" using assms(1) by simp
qed

lemma fe_mult_half:
  assumes "modulus p" "fe p (2 * b) x (2 * v)" "0 < b"
  shows "fe p (b + 1) (bn_mult_half x p) v"
proof -
  note h = bn_mult_half_val [OF feD(1) [OF assms(2)] modulusD(3,2) [OF assms(1)]]
  have "2 * bn_val (bn_mult_half x p) \<le> bn_val x + bn_val p" unfolding h(2) by simp
  also have "\<dots> \<le> 2 * b * bn_val p + bn_val p" using feD(2) [OF assms(2)] by simp
  also have "\<dots> \<le> 2 * ((b + 1) * bn_val p)" by (simp add: add_mult_distrib)
  finally have l: "bn_val (bn_mult_half x p) \<le> (b + 1) * bn_val p" by simp
  have "2 * int (bn_val (bn_mult_half x p)) = int (bn_val x) + (if odd (bn_val x) then int (bn_val p) else 0)"
    using arg_cong [OF h(2), of int] by (cases "odd (bn_val x)") simp_all
  then have "cg (bn_val p) (2 * int (bn_val (bn_mult_half x p))) (int (bn_val x))" by (simp add: cg_def)
  then have "cg (bn_val p) (2 * int (bn_val (bn_mult_half x p))) (2 * v)" using cg_trans feD(3) [OF assms(2)] by blast
  then show ?thesis using l h(1) cg_half [OF modulusD(2) [OF assms(1)]] by (simp add: fe_def)
qed

lemma fe_inverse:
  assumes "modulus p" "fe p b x v" "coprime v (int (bn_val p))"
  shows "\<exists>r w. bn_inverse x p = Some r \<and> fr p r w \<and> cg (bn_val p) (v * w) 1"
proof -
  have l: "length x = 9" using feD(1) [OF assms(2)] by (simp add: bignum_def)
  have "int (bn_val x) mod int (bn_val p) = v mod int (bn_val p)" using feD(3) [OF assms(2)] unfolding cg_def by (simp add: mod_eq_dvd_iff)
  then have "gcd (int (bn_val x)) (int (bn_val p)) = gcd v (int (bn_val p))" by (simp only: gcd_red_int [of "int (bn_val x)"] gcd_red_int [of v])
  then have "coprime (int (bn_val x)) (int (bn_val p))" using assms(3) by (simp add: coprime_iff_gcd_eq_1)
  then have "coprime (bn_val x) (bn_val p)" by simp
  then obtain r where r: "bn_inverse x p = Some r" "bignum r" "bn_val r < bn_val p" "bn_val x * bn_val r mod bn_val p = 1"
    using bn_inverse_val [OF l _ modulusD(1,2) [OF assms(1)]] by blast
  have "bn_val x * bn_val r mod bn_val p = 1 mod bn_val p" using r(4) modulusD(4) [OF assms(1)] by simp
  then have "cg (bn_val p) (int (bn_val x * bn_val r)) (int 1)" unfolding cg_int_mod .
  then have "cg (bn_val p) (int (bn_val x) * int (bn_val r)) 1" by simp
  then have "cg (bn_val p) (v * int (bn_val r)) 1"
    using cg_mult [OF cg_sym [OF feD(3) [OF assms(2)]] cg_refl] cg_trans by blast
  moreover have "fr p r (int (bn_val r))" using r by (simp add: fr_def)
  ultimately show ?thesis using r(1) by blast
qed

text \<open>The half of any element.\<close>

lemma fe_half:
  assumes "modulus p" "fe p (2 * b) x v" "0 < b"
  shows "\<exists>w. fe p (b + 1) (bn_mult_half x p) w \<and> cg (bn_val p) (2 * w) v"
proof -
  let ?w = "v * ((int (bn_val p) + 1) div 2)"
  have "2 * ((int (bn_val p) + 1) div 2) = int (bn_val p) + 1" using modulusD(2) [OF assms(1)] by (intro dvd_mult_div_cancel) simp
  then have "2 * ?w = v + int (bn_val p) * v" by (simp add: algebra_simps)
  then have w: "cg (bn_val p) (2 * ?w) v" by (simp add: cg_def)
  show ?thesis using fe_mult_half [OF assms(1) fe_cg [OF assms(2) cg_sym [OF w]] assms(3)] w by blast
qed

text \<open>A positive number stays positive when it is reduced.\<close>

lemma fast_mod_pos:
  assumes "modulus p" "bignum x" "0 < bn_val x"
  shows "0 < bn_val (bn_fast_mod x p)"
proof -
  let ?c = "unat (x ! 8) div 2 ^ 16"
  have l: "length x = 9" using assms(2) by (simp add: bignum_def)
  have e: "bn_val (bn_fast_mod x p) = bn_val x - ?c * bn_val p" by (rule bn_fast_mod_exact [OF l modulusD(1) [OF assms(1)]])
  have "2 ^ 240 * (?c * 2 ^ 16) \<le> 2 ^ 240 * unat (x ! 8)" by (intro mult_left_mono) simp_all
  also have "\<dots> \<le> bn_val x" using bn_val_last [OF l] by simp
  finally have "?c * 2 ^ 256 \<le> bn_val x" by simp
  moreover have "?c = 0 \<or> ?c * bn_val p < ?c * 2 ^ 256" using modulusD(5) [OF assms(1)] by (cases "?c = 0") simp_all
  moreover have "c * Q \<le> x \<Longrightarrow> c = 0 \<or> c * P < c * Q \<Longrightarrow> 0 < x \<Longrightarrow> 0 < x - c * P" for c P Q x :: nat by (elim disjE) (simp, linarith)
  ultimately show ?thesis unfolding e using assms(3) by blast
qed

text \<open>Subtraction of a small number: it may wrap in the lowest digit, and the addition of the modulus undoes that.\<close>

lemma fe_subi:
  assumes "modulus p" "fe p b x v" "b \<le> 62" "k \<le> p ! 0"
  shows "\<exists>r. bn_subi x k p = Some r \<and> fe p (b + 1) r (v - int (unat k))"
proof -
  obtain x0 xs p0 ps where d: "x = x0 # xs" "p = p0 # ps" "length xs = 8" "length ps = 8"
    using feD(1) [OF assms(2)] modulusD(3) [OF assms(1)] by (cases x; cases p) (simp_all add: bignum_def)
  let ?q = "(p0 - k) # ps"
  have k: "unat (p0 - k) + unat k = unat p0" using assms(4) by (simp add: d unat_sub word_le_nat_alt)
  have q: "bignum ?q" "bn_val ?q + unat k = bn_val p" using modulusD(3) [OF assms(1)] k by (simp_all add: d bignum_def)
  have w: "x0 - k + p0 = x0 + (p0 - k)" by simp
  have e: "bn_subi x k p = Some (bn_add x ?q)" using assms(4) by (simp add: bn_subi_def bn_add_def d Let_def w)
  have l: "bn_val x + bn_val ?q \<le> (b + 1) * bn_val p" using q(2) feD(2) [OF assms(2)] by simp
  also have "(b + 1) * bn_val p < 2 ^ 262" using assms(3) by (intro factor_bound [OF modulusD(5) [OF assms(1)]]) simp
  finally have a: "bn_val (bn_add x ?q) = bn_val x + bn_val ?q" "bignum (bn_add x ?q)"
    using bn_add_val [OF feD(1) [OF assms(2)] q(1)] by simp_all
  have "int (bn_val x + bn_val ?q) = int (bn_val x) - int (unat k) + int (bn_val p)" unfolding of_nat_add using q(2) by linarith
  then have "cg (bn_val p) (int (bn_val (bn_add x ?q))) (int (bn_val x) - int (unat k))" unfolding a by (simp add: cg_def)
  then have "cg (bn_val p) (int (bn_val (bn_add x ?q))) (v - int (unat k))"
    using cg_diff [OF feD(3) [OF assms(2)] cg_refl] cg_trans by blast
  then show ?thesis using e a l by (simp add: fe_def)
qed

lemma fe_addmod:
  assumes "modulus p" "fe p b x v" "fe p c y w"
  shows "fe p 2 (bn_addmod x y p) (v + w)"
proof -
  have n: "normal x" "normal y" "length x = 9" "length y = 9" using feD(1) [OF assms(2)] feD(1) [OF assms(3)] by (simp_all add: bignum_def)
  note f = bn_fast_mod_val [of "map2 (+) x y", OF _ modulusD(1) [OF assms(1)]]
  have "bn_val (bn_addmod x y p) mod bn_val p = (bn_val x + bn_val y) mod bn_val p"
    using f(3) n bn_val_map2_plus [of x y] by (simp add: bn_addmod_def)
  then have "cg (bn_val p) (int (bn_val (bn_addmod x y p))) (int (bn_val x + bn_val y))" by (simp only: cg_int_mod)
  also have "cg (bn_val p) (int (bn_val x + bn_val y)) (v + w)" using cg_add [OF feD(3) [OF assms(2)] feD(3) [OF assms(3)]] by simp
  finally show ?thesis using f(1,2) n by (simp add: fe_def bn_addmod_def)
qed

end
