(* ===== verification/Ecdsa_Point.thy ===== *)
theory Ecdsa_Point
  imports Curve Bignum_Inv Rand
begin

text \<open>
  The point arithmetic of \<open>src/crypto/ecdsa.c\<close>: points in affine coordinates, points in randomised Jacobian coordinates, and the two
  multiplications by a scalar. \<open>None\<close> stands for a failed assertion. The operations that draw random numbers take and return the seed of the
  generator.
\<close>

section \<open>Affine points\<close>

definition point_copy :: "curve_point \<Rightarrow> curve_point" where
  "point_copy cp1 = cp1"

definition point_set_infinity :: curve_point where
  "point_set_infinity = \<lparr> pt_x = bn_zero, pt_y = bn_zero \<rparr>"

definition point_is_infinity :: "curve_point \<Rightarrow> bool" where
  "point_is_infinity p \<longleftrightarrow> bn_is_zero (pt_x p) \<and> bn_is_zero (pt_y p)"

definition point_is_equal :: "curve_point \<Rightarrow> curve_point \<Rightarrow> bool" where
  "point_is_equal p1 p2 \<longleftrightarrow> bn_is_equal (pt_x p1) (pt_x p2) \<and> bn_is_equal (pt_y p1) (pt_y p2)"

definition point_is_negative_of :: "curve_point \<Rightarrow> curve_point \<Rightarrow> bool" where
  "point_is_negative_of p1 p2 \<longleftrightarrow>
     (if \<not> bn_is_equal (pt_x p1) (pt_x p2) then False
      else if bn_is_zero (pt_y p1) then False
      else \<not> bn_is_equal (pt_y p1) (pt_y p2))"

definition point_double :: "ecdsa_curve \<Rightarrow> curve_point \<Rightarrow> curve_point option" where
  "point_double curve cp =
     (if point_is_infinity cp then Some cp
      else if bn_is_zero (pt_y cp) then Some point_set_infinity
      else let prime = curve_prime curve in do {
        lambda \<leftarrow> bn_inverse (bn_mult_k (pt_y cp) 2 prime) prime;
        xr \<leftarrow> bn_multiply (pt_x cp) (pt_x cp) prime;
        let xr = bn_mult_k xr 3 prime;
        xr \<leftarrow> bn_subi xr (word_of_int (- coeff_a curve)) prime;
        lambda \<leftarrow> bn_multiply xr lambda prime;
        xr \<leftarrow> bn_multiply lambda lambda prime;
        let yr = bn_lshift (pt_x cp);
        xr \<leftarrow> bn_mod (bn_fast_mod (bn_subtractmod xr yr prime) prime) prime;
        yr \<leftarrow> bn_multiply lambda (bn_subtractmod (pt_x cp) xr prime) prime;
        yr \<leftarrow> bn_mod (bn_fast_mod (bn_subtractmod yr (pt_y cp) prime) prime) prime;
        Some \<lparr> pt_x = xr, pt_y = yr \<rparr>
      })"

definition point_add :: "ecdsa_curve \<Rightarrow> curve_point \<Rightarrow> curve_point \<Rightarrow> curve_point option" where
  "point_add curve cp1 cp2 =
     (if point_is_infinity cp1 then Some cp2
      else if point_is_infinity cp2 then Some (point_copy cp1)
      else if point_is_equal cp1 cp2 then point_double curve cp2
      else if point_is_negative_of cp1 cp2 then Some point_set_infinity
      else let prime = curve_prime curve in do {
        iv \<leftarrow> bn_inverse (bn_subtractmod (pt_x cp2) (pt_x cp1) prime) prime;
        lambda \<leftarrow> bn_multiply iv (bn_subtractmod (pt_y cp2) (pt_y cp1) prime) prime;
        xr \<leftarrow> bn_multiply lambda lambda prime;
        let yr = bn_addmod (pt_x cp1) (pt_x cp2) prime;
        xr \<leftarrow> bn_mod (bn_fast_mod (bn_subtractmod xr yr prime) prime) prime;
        yr \<leftarrow> bn_multiply lambda (bn_subtractmod (pt_x cp1) xr prime) prime;
        yr \<leftarrow> bn_mod (bn_fast_mod (bn_subtractmod yr (pt_y cp1) prime) prime) prime;
        Some \<lparr> pt_x = xr, pt_y = yr \<rparr>
      })"

fun negate_loop :: "u32 \<Rightarrow> u32 \<Rightarrow> u32 list \<Rightarrow> u32 list \<Rightarrow> u32 list" where
  "negate_loop cond tmp (a # as) (p # ps) =
     (let tmp = tmp + (0x3fffffff + 2 * p - a)
      in (((tmp AND 0x3fffffff) AND cond) OR (a AND NOT cond)) # negate_loop cond (drop_bit 30 tmp) as ps)"
| "negate_loop cond tmp _ _ = []"

definition conditional_negate :: "u32 \<Rightarrow> bignum256 \<Rightarrow> bignum256 \<Rightarrow> bignum256 option" where
  "conditional_negate cond a prime =
     (if \<not> a ! 8 < 0x20000 then None
      else let a = negate_loop cond 1 a prime in if \<not> a ! 8 < 0x20000 then None else Some a)"

section \<open>Jacobian points\<close>

record jacobian_curve_point =
  j_x :: bignum256
  j_y :: bignum256
  j_z :: bignum256

fun random_digits :: "nat \<Rightarrow> u32 \<Rightarrow> u32 list \<times> u32" where
  "random_digits 0 seed = (let (x, seed) = random32 seed in ([x AND 0xFFFF], seed))"
| "random_digits (Suc n) seed =
     (let (x, seed) = random32 seed; (xs, seed) = random_digits n seed in ((x AND 0x3FFFFFFF) # xs, seed))"

partial_function (option) generate_k_random :: "bignum256 \<Rightarrow> u32 \<Rightarrow> (bignum256 \<times> u32) option" where
  "generate_k_random prime seed =
     (let (k, seed) = random_digits 8 seed
      in if bn_is_zero k \<or> \<not> bn_is_less k prime then generate_k_random prime seed else Some (k, seed))"

declare generate_k_random.simps [code]

definition curve_to_jacobian :: "curve_point \<Rightarrow> bignum256 \<Rightarrow> u32 \<Rightarrow> (jacobian_curve_point \<times> u32) option" where
  "curve_to_jacobian p prime seed = do {
     (z, seed) \<leftarrow> generate_k_random prime seed;
     x \<leftarrow> bn_multiply z z prime;
     y \<leftarrow> bn_multiply z x prime;
     x \<leftarrow> bn_multiply (pt_x p) x prime;
     y \<leftarrow> bn_multiply (pt_y p) y prime;
     Some (\<lparr> j_x = x, j_y = y, j_z = z \<rparr>, seed)
   }"

definition jacobian_to_curve :: "jacobian_curve_point \<Rightarrow> bignum256 \<Rightarrow> curve_point option" where
  "jacobian_to_curve jp prime = do {
     y \<leftarrow> bn_inverse (j_z jp) prime;
     x \<leftarrow> bn_multiply y y prime;
     y \<leftarrow> bn_multiply x y prime;
     x \<leftarrow> bn_multiply (j_x jp) x prime;
     y \<leftarrow> bn_multiply (j_y jp) y prime;
     x \<leftarrow> bn_mod x prime;
     y \<leftarrow> bn_mod y prime;
     Some \<lparr> pt_x = x, pt_y = y \<rparr>
   }"

definition point_jacobian_add :: "curve_point \<Rightarrow> jacobian_curve_point \<Rightarrow> ecdsa_curve \<Rightarrow> jacobian_curve_point option" where
  "point_jacobian_add p1 p2 curve =
     (let prime = curve_prime curve; a = coeff_a curve in
      if \<not> (- 3 \<le> a \<and> a \<le> 0) then None else do {
        xz \<leftarrow> bn_multiply (j_z p2) (j_z p2) prime;
        yz \<leftarrow> bn_multiply xz (j_z p2) prime;
        az \<leftarrow> (if a \<noteq> 0 then bn_multiply xz xz prime \<bind> (\<lambda>az. Some (bn_mult_k az (word_of_int (- a)) prime)) else Some []);
        xz \<leftarrow> bn_multiply (pt_x p1) xz prime;
        let h = bn_fast_mod (bn_subtractmod xz (j_x p2) prime) prime;
        let xz = bn_add xz (j_x p2);
        let is_doubling = bn_is_equal h prime;
        yz \<leftarrow> bn_multiply (pt_y p1) yz prime;
        let r = bn_subtractmod yz (j_y p2) prime;
        let yz = bn_add yz (j_y p2);
        r2 \<leftarrow> bn_multiply (j_x p2) (j_x p2) prime;
        let r2 = bn_mult_k r2 3 prime;
        let r2 = (if a \<noteq> 0 then bn_subtractmod r2 az prime else r2);
        r \<leftarrow> bn_cmov (of_bool is_doubling) r2 r;
        h \<leftarrow> bn_cmov (of_bool is_doubling) yz h;
        hsqx \<leftarrow> bn_multiply h h prime;
        hcby \<leftarrow> bn_multiply hsqx h prime;
        hsqx \<leftarrow> bn_multiply xz hsqx prime;
        hcby \<leftarrow> bn_multiply yz hcby prime;
        z \<leftarrow> bn_multiply h (j_z p2) prime;
        x \<leftarrow> bn_multiply r r prime;
        let x = bn_fast_mod (bn_subtractmod x hsqx prime) prime;
        let y = bn_subtractmod (bn_subtractmod hsqx x prime) x prime;
        y \<leftarrow> bn_multiply r y prime;
        let y = bn_fast_mod (bn_mult_half (bn_subtractmod y hcby prime) prime) prime;
        Some \<lparr> j_x = x, j_y = y, j_z = z \<rparr>
      })"

definition point_jacobian_double :: "jacobian_curve_point \<Rightarrow> ecdsa_curve \<Rightarrow> jacobian_curve_point option" where
  "point_jacobian_double p curve =
     (let prime = curve_prime curve; a = coeff_a curve in
      if \<not> (- 3 \<le> a \<and> a \<le> 0) then None else do {
        m \<leftarrow> bn_multiply (j_x p) (j_x p) prime;
        let m = bn_mult_k m 3 prime;
        az4 \<leftarrow> bn_multiply (j_z p) (j_z p) prime;
        az4 \<leftarrow> bn_multiply az4 az4 prime;
        let az4 = bn_mult_k az4 (word_of_int (- a)) prime;
        let m = bn_mult_half (bn_subtractmod m az4 prime) prime;
        msq \<leftarrow> bn_multiply m m prime;
        ysq \<leftarrow> bn_multiply (j_y p) (j_y p) prime;
        xysq \<leftarrow> bn_multiply (j_x p) ysq prime;
        z \<leftarrow> bn_multiply (j_y p) (j_z p) prime;
        let x = bn_fast_mod (bn_lshift xysq) prime;
        let x = bn_fast_mod (bn_subtractmod msq x prime) prime;
        let y = bn_subtractmod xysq x prime;
        y \<leftarrow> bn_multiply m y prime;
        ysq \<leftarrow> bn_multiply ysq ysq prime;
        let y = bn_fast_mod (bn_subtractmod y ysq prime) prime;
        Some \<lparr> j_x = x, j_y = y, j_z = z \<rparr>
      })"

end
