(* ===== verification/Ecdsa.thy ===== *)
theory Ecdsa
  imports Ecdsa_Point Hmac_Drbg
begin

text \<open>
  The multiplications by a scalar of \<open>src/crypto/ecdsa.c\<close>, the public key and the signature. A scalar is first made odd and recoded in 64 odd
  digits between -15 and 15; the digits select from a table of odd multiples of the point.
\<close>

section \<open>Recoding\<close>

fun odd_scalar_loop :: "u32 \<Rightarrow> u32 \<Rightarrow> u32 list \<Rightarrow> u32 list \<Rightarrow> u32 list" where
  "odd_scalar_loop is_even tmp [k] (n # ns) = [tmp + 0xffff + k - (n AND is_even)]"
| "odd_scalar_loop is_even tmp (k # ks) (n # ns) =
     (let tmp = tmp + (0x3fffffff + k - (n AND is_even))
      in (tmp AND 0x3fffffff) # odd_scalar_loop is_even (drop_bit 30 tmp) ks ns)"
| "odd_scalar_loop is_even tmp _ _ = []"

text \<open>\<open>k + 2 ^ 256\<close>, less the order if \<open>k\<close> is even; and whether \<open>k\<close> has a digit that is not 0.\<close>

definition odd_scalar :: "bignum256 \<Rightarrow> bignum256 \<Rightarrow> (bignum256 \<times> bool) option" where
  "odd_scalar k n =
     (let is_even = (k ! 0 AND 1) - 1;
          a = odd_scalar_loop is_even 1 k n;
          is_non_zero = fold (\<lambda>d r. r OR d) k 0
      in if a ! 0 AND 1 = 0 then None else Some (a, is_non_zero \<noteq> 0))"

section \<open>Multiplication of any point\<close>

text \<open>\<open>pmult\<close>: the point and its odd multiples up to the fifteenth.\<close>

fun odd_multiples :: "ecdsa_curve \<Rightarrow> nat \<Rightarrow> curve_point \<Rightarrow> curve_point \<Rightarrow> curve_point list option" where
  "odd_multiples curve 0 p2 p = Some [p]"
| "odd_multiples curve (Suc n) p2 p = do {
     p' \<leftarrow> point_add curve p p2;
     ps \<leftarrow> odd_multiples curve n p2 p';
     Some (p # ps)
   }"

text \<open>The window over the digits: the index of \<open>aptr\<close>, \<open>abits\<close> and \<open>ashift\<close>. The next five bits end four places further down.\<close>

definition next_bits :: "bignum256 \<Rightarrow> nat \<times> u32 \<times> int \<Rightarrow> u32 \<times> (nat \<times> u32 \<times> int)" where
  "next_bits a = (\<lambda>(idx, abits, ashift).
     let ashift = ashift - 4 in
     if ashift < 0 then
       let bits = push_bit (nat (- ashift)) abits;
           idx = idx - 1;
           abits = a ! idx;
           ashift = ashift + 30
       in (bits OR drop_bit (nat ashift) abits, (idx, abits, ashift))
     else (drop_bit (nat ashift) abits, (idx, abits, ashift)))"

fun point_multiply_loop ::
  "ecdsa_curve \<Rightarrow> bignum256 \<Rightarrow> curve_point list \<Rightarrow> nat \<Rightarrow> nat \<times> u32 \<times> int \<Rightarrow> u32 \<Rightarrow> jacobian_curve_point \<Rightarrow>
   (u32 \<times> jacobian_curve_point) option" where
  "point_multiply_loop curve a pmult 0 w sign jres = Some (sign, jres)"
| "point_multiply_loop curve a pmult (Suc i) w sign jres = do {
     jres \<leftarrow> point_jacobian_double jres curve;
     jres \<leftarrow> point_jacobian_double jres curve;
     jres \<leftarrow> point_jacobian_double jres curve;
     jres \<leftarrow> point_jacobian_double jres curve;
     let (bits, w) = next_bits a w;
     let bits = bits AND 31;
     let nsign = drop_bit 4 bits - 1;
     let bits = (bits XOR nsign) AND 15;
     z \<leftarrow> conditional_negate (sign XOR nsign) (j_z jres) (curve_prime curve);
     jres \<leftarrow> point_jacobian_add (pmult ! unat (drop_bit 1 bits)) (jres\<lparr> j_z := z \<rparr>) curve;
     point_multiply_loop curve a pmult i w nsign jres
   }"

definition point_multiply :: "ecdsa_curve \<Rightarrow> bignum256 \<Rightarrow> curve_point \<Rightarrow> u32 \<Rightarrow> (curve_point \<times> u32) option" where
  "point_multiply curve k p seed =
     (if \<not> bn_is_less k (curve_order curve) then None else do {
        (a, is_non_zero) \<leftarrow> odd_scalar k (curve_order curve);
        if \<not> is_non_zero then Some (point_set_infinity, seed) else do {
          p2 \<leftarrow> point_double curve p;
          pmult \<leftarrow> odd_multiples curve 7 p2 p;
          let bits = drop_bit 12 (a ! 8);
          let sign = drop_bit 4 bits - 1;
          let bits = (bits XOR sign) AND 15;
          (jres, seed) \<leftarrow> curve_to_jacobian (pmult ! unat (drop_bit 1 bits)) (curve_prime curve) seed;
          (sign, jres) \<leftarrow> point_multiply_loop curve a pmult 63 (8, a ! 8, 12) sign jres;
          z \<leftarrow> conditional_negate sign (j_z jres) (curve_prime curve);
          res \<leftarrow> jacobian_to_curve (jres\<lparr> j_z := z \<rparr>) (curve_prime curve);
          Some (res, seed)
        }
      })"

section \<open>Multiplication of the base point\<close>

definition low_digit :: "bignum256 \<Rightarrow> u32" where
  "low_digit a = (let lowbits = a ! 0 AND (push_bit 5 1 - 1) in (lowbits XOR (drop_bit 4 lowbits - 1)) AND 15)"

fun shift_4 :: "u32 list \<Rightarrow> u32 list" where
  "shift_4 (d # d' # ds) = (drop_bit 4 d OR push_bit 26 (d' AND 0xf)) # shift_4 (d' # ds)"
| "shift_4 [d] = [drop_bit 4 d]"
| "shift_4 [] = []"

fun scalar_multiply_loop ::
  "ecdsa_curve \<Rightarrow> nat list \<Rightarrow> bignum256 \<Rightarrow> jacobian_curve_point \<Rightarrow> (bignum256 \<times> jacobian_curve_point) option" where
  "scalar_multiply_loop curve [] a jres = Some (a, jres)"
| "scalar_multiply_loop curve (i # is) a jres =
     (let a = shift_4 a; lowbits = low_digit a in do {
        y \<leftarrow> conditional_negate ((lowbits AND 1) - 1) (j_y jres) (curve_prime curve);
        jres \<leftarrow> point_jacobian_add (precomputed curve ! i ! unat (drop_bit 1 lowbits)) (jres\<lparr> j_y := y \<rparr>) curve;
        scalar_multiply_loop curve is a jres
      })"

definition scalar_multiply :: "ecdsa_curve \<Rightarrow> bignum256 \<Rightarrow> u32 \<Rightarrow> (curve_point \<times> u32) option" where
  "scalar_multiply curve k seed =
     (if \<not> bn_is_less k (curve_order curve) then None else do {
        (a, is_non_zero) \<leftarrow> odd_scalar k (curve_order curve);
        if \<not> is_non_zero then Some (point_set_infinity, seed) else do {
          (jres, seed) \<leftarrow> curve_to_jacobian (precomputed curve ! 0 ! unat (drop_bit 1 (low_digit a))) (curve_prime curve) seed;
          (a, jres) \<leftarrow> scalar_multiply_loop curve [1..<64] a jres;
          y \<leftarrow> conditional_negate ((drop_bit 4 (a ! 0) AND 1) - 1) (j_y jres) (curve_prime curve);
          res \<leftarrow> jacobian_to_curve (jres\<lparr> j_y := y \<rparr>) (curve_prime curve);
          Some (res, seed)
        }
      })"

text \<open>The build without the table.\<close>

definition scalar_multiply_small :: "ecdsa_curve \<Rightarrow> bignum256 \<Rightarrow> u32 \<Rightarrow> (curve_point \<times> u32) option" where
  "scalar_multiply_small curve k seed = point_multiply curve k (base_point curve) seed"

section \<open>Keys and signatures\<close>

definition ecdsa_get_public_key65 ::
  "ecdsa_curve \<Rightarrow> byte list \<Rightarrow> byte list \<Rightarrow> u32 \<Rightarrow> (byte list \<times> u32) option" where
  "ecdsa_get_public_key65 curve priv_key pub_key seed = do {
     bytes \<leftarrow> mem_read priv_key 0 32;
     k \<leftarrow> bn_read_be bytes;
     (R, seed) \<leftarrow> scalar_multiply curve k seed;
     pub_key \<leftarrow> mem_put pub_key 0 0x04;
     pub_key \<leftarrow> bn_write_be (pt_x R) pub_key 1;
     pub_key \<leftarrow> bn_write_be (pt_y R) pub_key 33;
     Some (pub_key, seed)
   }"

text \<open>
  The values of one attempt with the number \<open>k\<close> and the point \<open>R\<close>: the recovery byte, \<open>r\<close>, and \<open>s\<close>, or \<open>Null\<close> when one of them is zero and the attempt is
  given up.
\<close>

definition sign_point ::
  "ecdsa_curve \<Rightarrow> byte list \<Rightarrow> bignum256 \<Rightarrow> bignum256 \<Rightarrow> curve_point \<Rightarrow> u32 \<Rightarrow> ((byte \<times> bignum256 \<times> bignum256) ptr \<times> u32) option" where
  "sign_point curve priv_key z k R seed =
     (let n = curve_order curve;
          recid = (ucast (pt_y R ! 0 AND 1) :: byte);
          (rx, recid) = (if \<not> bn_is_less (pt_x R) n then (bn_subtract (pt_x R) n, recid OR 2) else (pt_x R, recid))
      in if bn_is_zero rx then Some (Null, seed) else do {
          (randk, seed) \<leftarrow> generate_k_random n seed;
          k \<leftarrow> bn_multiply randk k n;
          k \<leftarrow> bn_inverse k n;
          bytes \<leftarrow> mem_read priv_key 0 32;
          s \<leftarrow> bn_read_be bytes;
          s \<leftarrow> bn_multiply rx s n;
          let s = bn_add s z;
          s \<leftarrow> bn_multiply k s n;
          s \<leftarrow> bn_multiply randk s n;
          s \<leftarrow> bn_mod s n;
          if bn_is_zero s then Some (Null, seed)
          else let (s, recid) = (if bn_is_less (order_half curve) s then (bn_subtract n s, recid XOR 1) else (s, recid))
            in Some (Ptr (recid, rx, s), seed)
        })"

definition sign_with ::
  "ecdsa_curve \<Rightarrow> byte list \<Rightarrow> bignum256 \<Rightarrow> bignum256 \<Rightarrow> u32 \<Rightarrow> ((byte \<times> bignum256 \<times> bignum256) ptr \<times> u32) option" where
  "sign_with curve priv_key z k seed = do {
     (R, seed) \<leftarrow> scalar_multiply curve k seed;
     sign_point curve priv_key z k R seed
   }"

text \<open>
  The rest of an attempt with the number \<open>k\<close>: either the next one is due, with what is in the buffer by then, or the call ends with the return value, the
  signature, the recovery byte and the seed. \<open>is_canonical\<close> is the optional function of the caller.
\<close>

definition sign_attempt ::
  "ecdsa_curve \<Rightarrow> byte list \<Rightarrow> bignum256 \<Rightarrow> (byte \<Rightarrow> byte list \<Rightarrow> bool) ptr \<Rightarrow> bignum256 \<Rightarrow> byte list \<Rightarrow> byte ptr \<Rightarrow> u32 \<Rightarrow>
   ((byte list \<times> u32) + (int \<times> byte list \<times> byte ptr \<times> u32)) option" where
  "sign_attempt curve priv_key z is_canonical k sig pby seed = do {
     (res, seed) \<leftarrow> sign_with curve priv_key z k seed;
     case res of
       Null \<Rightarrow> Some (Inl (sig, seed))
     | Ptr (recid, rx, s) \<Rightarrow> do {
         sig \<leftarrow> bn_write_be rx sig 0;
         sig \<leftarrow> bn_write_be s sig 32;
         if (case is_canonical of Null \<Rightarrow> False | Ptr f \<Rightarrow> \<not> f recid sig) then Some (Inl (sig, seed))
         else Some (Inr (0, sig, (case pby of Null \<Rightarrow> Null | Ptr _ \<Rightarrow> Ptr recid), seed))
       }
   }"

text \<open>The attempts; the first argument is how many are left.\<close>

fun sign_loop ::
  "nat \<Rightarrow> ecdsa_curve \<Rightarrow> bool \<Rightarrow> byte list \<Rightarrow> byte list \<Rightarrow> bignum256 \<Rightarrow> (byte \<Rightarrow> byte list \<Rightarrow> bool) ptr \<Rightarrow>
   HMAC_DRBG_CTX \<Rightarrow> byte list \<Rightarrow> byte ptr \<Rightarrow> u32 \<Rightarrow> (int \<times> byte list \<times> byte ptr \<times> u32) option" where
  "sign_loop 0 curve big junk priv_key z is_canonical rng sig pby seed = Some (- 1, sig, pby, seed)"
| "sign_loop (Suc i) curve big junk priv_key z is_canonical rng sig pby seed = do {
     (k, rng) \<leftarrow> generate_k_rfc6979 big junk rng;
     if bn_is_zero k \<or> \<not> bn_is_less k (curve_order curve)
     then sign_loop i curve big junk priv_key z is_canonical rng sig pby seed
     else do {
       out \<leftarrow> sign_attempt curve priv_key z is_canonical k sig pby seed;
       case out of
         Inl (sig, seed) \<Rightarrow> sign_loop i curve big junk priv_key z is_canonical rng sig pby seed
       | Inr r \<Rightarrow> Some r
     }
   }"

definition ecdsa_sign_digest ::
  "ecdsa_curve \<Rightarrow> bool \<Rightarrow> byte list \<Rightarrow> HMAC_DRBG_CTX \<Rightarrow> byte list \<Rightarrow> byte list \<Rightarrow> byte list \<Rightarrow> byte ptr \<Rightarrow>
   (byte \<Rightarrow> byte list \<Rightarrow> bool) ptr \<Rightarrow> u32 \<Rightarrow> (int \<times> byte list \<times> byte ptr \<times> u32) option" where
  "ecdsa_sign_digest curve big junk raw_rng priv_key digest sig pby is_canonical seed = do {
     rng \<leftarrow> init_rfc6979 big junk priv_key digest raw_rng;
     bytes \<leftarrow> mem_read digest 0 32;
     z \<leftarrow> bn_read_be bytes;
     sign_loop 10000 curve big junk priv_key z is_canonical rng sig pby seed
   }"

text \<open>The build without \<open>USE_RFC6979\<close>: the number comes from the random generator.\<close>

fun sign_loop_random ::
  "nat \<Rightarrow> ecdsa_curve \<Rightarrow> byte list \<Rightarrow> bignum256 \<Rightarrow> (byte \<Rightarrow> byte list \<Rightarrow> bool) ptr \<Rightarrow> byte list \<Rightarrow> byte ptr \<Rightarrow> u32 \<Rightarrow>
   (int \<times> byte list \<times> byte ptr \<times> u32) option" where
  "sign_loop_random 0 curve priv_key z is_canonical sig pby seed = Some (- 1, sig, pby, seed)"
| "sign_loop_random (Suc i) curve priv_key z is_canonical sig pby seed = do {
     (k, seed) \<leftarrow> generate_k_random (curve_order curve) seed;
     out \<leftarrow> sign_attempt curve priv_key z is_canonical k sig pby seed;
     case out of
       Inl (sig, seed) \<Rightarrow> sign_loop_random i curve priv_key z is_canonical sig pby seed
     | Inr r \<Rightarrow> Some r
   }"

definition ecdsa_sign_digest_random ::
  "ecdsa_curve \<Rightarrow> byte list \<Rightarrow> byte list \<Rightarrow> byte list \<Rightarrow> byte ptr \<Rightarrow> (byte \<Rightarrow> byte list \<Rightarrow> bool) ptr \<Rightarrow> u32 \<Rightarrow>
   (int \<times> byte list \<times> byte ptr \<times> u32) option" where
  "ecdsa_sign_digest_random curve priv_key digest sig pby is_canonical seed = do {
     bytes \<leftarrow> mem_read digest 0 32;
     z \<leftarrow> bn_read_be bytes;
     sign_loop_random 10000 curve priv_key z is_canonical sig pby seed
   }"

end
