(* ===== verification/Point_Laws.thy ===== *)
theory Point_Laws
  imports Ecdsa_Point Field
begin

text \<open>
  What the point operations of \<open>src/crypto/ecdsa.c\<close> compute in the field: negation, the formulas of the affine operations, and that doubling and
  addition in Jacobian coordinates are the same formulas on the affine points they represent, whatever the denominator.
\<close>

section \<open>Negation\<close>

lemma negate_loop_subtractmod:
  "length a = length p \<Longrightarrow> negate_loop (- 1) tmp a p = bn_subtractmod_loop tmp (replicate (length a) 0) a p"
  by (induction a p arbitrary: tmp rule: list_induct2) (simp_all add: Let_def LIMB_def)

lemma negate_loop_keep: "length a = length p \<Longrightarrow> negate_loop 0 tmp a p = a"
  by (induction a p arbitrary: tmp rule: list_induct2) (simp_all add: Let_def)

lemma top_digit_bound:
  assumes "modulus p" "fe p 2 a v"
  shows "a ! 8 < 0x20000"
proof -
  have "2 ^ 240 * unat (a ! 8) \<le> bn_val a" using bn_val_last [of a] feD(1) [OF assms(2)] by (simp add: bignum_def)
  also have "\<dots> \<le> 2 * bn_val p" by (rule feD(2) [OF assms(2)])
  also have "\<dots> < 2 ^ 257" using modulusD(5) [OF assms(1)] by simp
  finally have "unat (a ! 8) < 2 ^ 17" by simp
  then show ?thesis by (simp add: word_less_nat_alt)
qed

lemma conditional_negate_val:
  assumes "modulus p" "fe p 2 a v" "c = 0 \<or> c = - 1"
  shows "\<exists>r. conditional_negate c a p = Some r \<and> fe p 2 r (if c = 0 then v else - v)"
proof -
  have l: "length a = length p" "length a = 9" using feD(1) [OF assms(2)] modulusD(3) [OF assms(1)] by (simp_all add: bignum_def)
  have z: "fe p 0 bn_zero 0" by (simp add: fe_def bn_zero_def bignum_def)
  have n: "fe p 2 (bn_subtractmod bn_zero a p) (- v)" using fe_subtractmod(1) [OF assms(1) z assms(2)] by (simp only: add_0 diff_0)
  have "negate_loop (- 1) 1 a p = bn_subtractmod bn_zero a p"
    using negate_loop_subtractmod [OF l(1)] l by (simp add: bn_subtractmod_def bn_zero_def)
  then show ?thesis
    using assms(3) n negate_loop_keep [OF l(1), of 1] top_digit_bound [OF assms(1,2)] top_digit_bound [OF assms(1) n] assms(2)
    by (auto simp: conditional_negate_def Let_def)
qed

lemma fast_mod_strict: "modulus p \<Longrightarrow> fe p b x v \<Longrightarrow> bn_val (bn_fast_mod x p) < 2 * bn_val p"
  using bn_fast_mod_val(2) [of x p] by (simp add: modulusD fe_def bignum_def)

section \<open>Doubling in Jacobian coordinates\<close>

text \<open>The point \<open>(x, y)\<close> with the denominator \<open>z\<close>.\<close>

definition jrep :: "bignum256 \<Rightarrow> jacobian_curve_point \<Rightarrow> int \<Rightarrow> int \<Rightarrow> int \<Rightarrow> bool" where
  "jrep p J x y z \<longleftrightarrow> fe p 2 (j_x J) (x * z ^ 2) \<and> bn_val (j_x J) < 2 * bn_val p \<and> fe p 2 (j_y J) (y * z ^ 3) \<and> fe p 2 (j_z J) z"

definition curve_ok :: "ecdsa_curve \<Rightarrow> bool" where
  "curve_ok curve \<longleftrightarrow> modulus (curve_prime curve) \<and> 3 \<le> curve_prime curve ! 0 \<and> - 3 \<le> coeff_a curve \<and> coeff_a curve \<le> 0"

lemma coeff_byte: "- 3 \<le> a \<Longrightarrow> a \<le> 0 \<Longrightarrow> int (unat (word_of_int (- a) :: byte)) = - a \<and> unat (word_of_int (- a) :: byte) \<le> 4"
proof -
  assume "- 3 \<le> a" "a \<le> 0"
  then consider "a = - 3" | "a = - 2" | "a = - 1" | "a = 0" by linarith
  then show ?thesis by cases simp_all
qed

lemma jacobian_double:
  assumes c: "curve_ok curve" and j: "jrep (curve_prime curve) J x y z" and l: "cg (bn_val (curve_prime curve)) (2 * y * l) (3 * x ^ 2 + coeff_a curve)"
  shows "\<exists>J'. point_jacobian_double J curve = Some J' \<and> jrep (curve_prime curve) J' (l ^ 2 - 2 * x) (l * (x - (l ^ 2 - 2 * x)) - y) (y * z ^ 4)"
proof -
  let ?p = "curve_prime curve" and ?a = "coeff_a curve"
  have P: "modulus ?p" and a: "- 3 \<le> ?a" "?a \<le> 0" using c by (simp_all add: curve_ok_def)
  have X: "fe ?p 2 (j_x J) (x * z ^ 2)" and Y: "fe ?p 2 (j_y J) (y * z ^ 3)" and Z: "fe ?p 2 (j_z J) z" using j by (simp_all add: jrep_def)
  note mul = fe_multiply [OF P]
  obtain m where m: "bn_multiply (j_x J) (j_x J) ?p = Some m" "fe ?p 2 m (x * z ^ 2 * (x * z ^ 2))" using mul [OF X X] by auto
  let ?m1 = "bn_mult_k m 3 ?p"
  have m1: "fe ?p 2 ?m1 (3 * (x * z ^ 2 * (x * z ^ 2)))" using fe_mult_k [OF P m(2), of 3] by simp
  obtain z2 where z2: "bn_multiply (j_z J) (j_z J) ?p = Some z2" "fe ?p 2 z2 (z * z)" using mul [OF Z Z] by auto
  obtain z4 where z4: "bn_multiply z2 z2 ?p = Some z4" "fe ?p 2 z4 (z * z * (z * z))" using mul [OF z2(2) z2(2)] by auto
  let ?az = "bn_mult_k z4 (word_of_int (- ?a)) ?p"
  have az: "fe ?p 2 ?az (- ?a * (z * z * (z * z)))" using fe_mult_k [OF P z4(2), of "word_of_int (- ?a)"] coeff_byte [OF a] by simp
  let ?m2 = "bn_subtractmod ?m1 ?az ?p"
  have "fe ?p 4 ?m2 (3 * (x * z ^ 2 * (x * z ^ 2)) - - ?a * (z * z * (z * z)))" using fe_subtractmod(1) [OF P m1 az] by simp
  moreover have "cg (bn_val ?p) (3 * (x * z ^ 2 * (x * z ^ 2)) - - ?a * (z * z * (z * z))) (2 * (y * l * z ^ 4))"
  proof -
    have e: "3 * (x * z ^ 2 * (x * z ^ 2)) - - ?a * (z * z * (z * z)) = (3 * x ^ 2 + ?a) * z ^ 4" "2 * (y * l * z ^ 4) = (2 * y * l) * z ^ 4"
      by algebra+
    show ?thesis unfolding e by (rule cg_mult [OF cg_sym [OF l] cg_refl])
  qed
  ultimately have "fe ?p (2 * 2) ?m2 (2 * (y * l * z ^ 4))" using fe_cg by simp
  then have m3: "fe ?p 3 (bn_mult_half ?m2 ?p) (y * l * z ^ 4)" using fe_mult_half [OF P, of 2] by simp
  let ?m3 = "bn_mult_half ?m2 ?p"
  obtain ms where ms: "bn_multiply ?m3 ?m3 ?p = Some ms" "fe ?p 2 ms (y * l * z ^ 4 * (y * l * z ^ 4))" using mul [OF m3 m3] by auto
  obtain ys where ys: "bn_multiply (j_y J) (j_y J) ?p = Some ys" "fe ?p 2 ys (y * z ^ 3 * (y * z ^ 3))" using mul [OF Y Y] by auto
  obtain xy where xy: "bn_multiply (j_x J) ys ?p = Some xy" "fe ?p 2 xy (x * z ^ 2 * (y * z ^ 3 * (y * z ^ 3)))" using mul [OF X ys(2)] by auto
  obtain zz where zz: "bn_multiply (j_y J) (j_z J) ?p = Some zz" "fe ?p 2 zz (y * z ^ 3 * z)" using mul [OF Y Z] by auto
  let ?x1 = "bn_fast_mod (bn_lshift xy) ?p"
  have x1: "fe ?p 2 ?x1 (2 * (x * z ^ 2 * (y * z ^ 3 * (y * z ^ 3))))" using fe_fast_mod [OF P fe_lshift [OF P xy(2)]] by simp
  let ?x2 = "bn_fast_mod (bn_subtractmod ms ?x1 ?p) ?p"
  have "fe ?p 2 ?x2 (y * l * z ^ 4 * (y * l * z ^ 4) - 2 * (x * z ^ 2 * (y * z ^ 3 * (y * z ^ 3))))"
    using fe_fast_mod [OF P fe_subtractmod(1) [OF P ms(2) x1]] by simp
  also have "y * l * z ^ 4 * (y * l * z ^ 4) - 2 * (x * z ^ 2 * (y * z ^ 3 * (y * z ^ 3))) = (l ^ 2 - 2 * x) * (y * z ^ 4) ^ 2" by algebra
  finally have x2: "fe ?p 2 ?x2 ((l ^ 2 - 2 * x) * (y * z ^ 4) ^ 2)" .
  let ?y1 = "bn_subtractmod xy ?x2 ?p"
  have y1: "fe ?p 4 ?y1 (x * z ^ 2 * (y * z ^ 3 * (y * z ^ 3)) - (l ^ 2 - 2 * x) * (y * z ^ 4) ^ 2)"
    using fe_subtractmod(1) [OF P xy(2) x2] by simp
  obtain y2 where y2: "bn_multiply ?m3 ?y1 ?p = Some y2"
    "fe ?p 2 y2 (y * l * z ^ 4 * (x * z ^ 2 * (y * z ^ 3 * (y * z ^ 3)) - (l ^ 2 - 2 * x) * (y * z ^ 4) ^ 2))" using mul [OF m3 y1] by auto
  obtain y4 where y4: "bn_multiply ys ys ?p = Some y4" "fe ?p 2 y4 (y * z ^ 3 * (y * z ^ 3) * (y * z ^ 3 * (y * z ^ 3)))" using mul [OF ys(2) ys(2)] by auto
  let ?y3 = "bn_fast_mod (bn_subtractmod y2 y4 ?p) ?p"
  have "fe ?p 2 ?y3 (y * l * z ^ 4 * (x * z ^ 2 * (y * z ^ 3 * (y * z ^ 3)) - (l ^ 2 - 2 * x) * (y * z ^ 4) ^ 2)
      - y * z ^ 3 * (y * z ^ 3) * (y * z ^ 3 * (y * z ^ 3)))"
    using fe_fast_mod [OF P fe_subtractmod(1) [OF P y2(2) y4(2)]] by simp
  also have "y * l * z ^ 4 * (x * z ^ 2 * (y * z ^ 3 * (y * z ^ 3)) - (l ^ 2 - 2 * x) * (y * z ^ 4) ^ 2)
      - y * z ^ 3 * (y * z ^ 3) * (y * z ^ 3 * (y * z ^ 3)) = (l * (x - (l ^ 2 - 2 * x)) - y) * (y * z ^ 4) ^ 3" by algebra
  finally have y3: "fe ?p 2 ?y3 ((l * (x - (l ^ 2 - 2 * x)) - y) * (y * z ^ 4) ^ 3)" .
  have xs: "bn_val ?x2 < 2 * bn_val ?p" by (rule fast_mod_strict [OF P fe_subtractmod(1) [OF P ms(2) x1]]) simp
  have zz': "fe ?p 2 zz (y * z ^ 4)" using zz(2) by (simp add: power4_eq_xxxx power3_eq_cube mult.assoc)
  show ?thesis
    using a m(1) z2(1) z4(1) ms(1) ys(1) xy(1) zz(1) y2(1) y4(1) x2 xs y3 zz'
    by (simp add: point_jacobian_double_def Let_def jrep_def)
qed

section \<open>Addition in Jacobian coordinates\<close>

text \<open>The slope of the line through two points, the tangent if they are the same.\<close>

definition slope :: "nat \<Rightarrow> int \<Rightarrow> int \<times> int \<Rightarrow> int \<times> int \<Rightarrow> int \<Rightarrow> bool" where
  "slope P a = (\<lambda>(x1, y1) (x2, y2) l. cg P (l * (x1 - x2)) (y1 - y2) \<and> (cg P x1 x2 \<longrightarrow> cg P (2 * y2 * l) (3 * x2 ^ 2 + a)))"

text \<open>The test for doubling: the difference, reduced, is the modulus itself.\<close>

lemma is_doubling_val:
  assumes "modulus p" "fe p 2 u v" "fe p 2 t w" "bn_val t < 2 * bn_val p"
  shows "bn_is_equal (bn_fast_mod (bn_subtractmod u t p) p) p \<longleftrightarrow> cg (bn_val p) v w"
proof -
  let ?s = "bn_subtractmod u t p" and ?h = "bn_fast_mod (bn_subtractmod u t p) p"
  have s: "fe p 4 ?s (v - w)" using fe_subtractmod(1) [OF assms(1-3)] by simp
  have h: "fe p 2 ?h (v - w)" using fe_fast_mod [OF assms(1) s] .
  have lt: "bn_val ?h < 2 * bn_val p" by (rule fast_mod_strict [OF assms(1) s])
  have e: "bn_is_equal ?h p \<longleftrightarrow> bn_val ?h = bn_val p" using bn_is_equal_val feD(1) [OF h] modulusD(3) [OF assms(1)] by blast
  have "cg (bn_val p) v w \<longleftrightarrow> cg (bn_val p) (v - w) 0" by (simp add: cg_def)
  also have "\<dots> \<longleftrightarrow> cg (bn_val p) (int (bn_val ?h)) 0" using feD(3) [OF h] cg_trans cg_sym by blast
  also have "\<dots> \<longleftrightarrow> bn_val p dvd bn_val ?h" by (simp add: cg_def)
  also have "\<dots> \<longleftrightarrow> bn_val ?h = bn_val p \<or> bn_val ?h = 0"
  proof
    assume "bn_val p dvd bn_val ?h"
    then obtain k where k: "bn_val ?h = bn_val p * k" ..
    then have "k < 2" using lt by simp
    then have "k = 0 \<or> k = 1" by auto
    then show "bn_val ?h = bn_val p \<or> bn_val ?h = 0" using k by auto
  qed auto
  finally have c: "cg (bn_val p) v w \<longleftrightarrow> bn_val ?h = bn_val p \<or> bn_val ?h = 0" .
  have "0 < bn_val ?s" using fe_subtractmod(2) [OF assms(1-3)] assms(4) by simp
  then have "bn_val ?h \<noteq> 0" using fast_mod_pos [OF assms(1) feD(1) [OF s]] by simp
  then show ?thesis unfolding e c by simp
qed

text \<open>The conclusion of addition from its intermediate values: \<open>r\<close> is the slope times \<open>h\<close> and the denominator, and the new denominator is \<open>h * z\<close>.\<close>

lemma jacobian_add:
  assumes c: "curve_ok curve" and p1: "fe (curve_prime curve) 2 (pt_x p1) x1" "fe (curve_prime curve) 2 (pt_y p1) y1"
    and j: "jrep (curve_prime curve) J x2 y2 z" and z: "coprime z (int (bn_val (curve_prime curve)))"
    and l: "slope (bn_val (curve_prime curve)) (coeff_a curve) (x1, y1) (x2, y2) l"
  shows "\<exists>J'. point_jacobian_add p1 J curve = Some J' \<and>
    jrep (curve_prime curve) J' (l ^ 2 - x1 - x2) (l * (x1 - (l ^ 2 - x1 - x2)) - y1)
      ((if cg (bn_val (curve_prime curve)) x1 x2 then (y1 + y2) * z ^ 3 else (x1 - x2) * z ^ 2) * z)"
proof -
  let ?p = "curve_prime curve" and ?a = "coeff_a curve"
  let ?P = "bn_val ?p"
  have P: "modulus ?p" and a: "- 3 \<le> ?a" "?a \<le> 0" using c by (simp_all add: curve_ok_def)
  have X: "fe ?p 2 (j_x J) (x2 * z ^ 2)" "bn_val (j_x J) < 2 * ?P" and Y: "fe ?p 2 (j_y J) (y2 * z ^ 3)" and Z: "fe ?p 2 (j_z J) z"
    using j by (simp_all add: jrep_def)
  note mul = fe_multiply [OF P]
  let ?D = "cg ?P x1 x2"
  obtain z2 where z2: "bn_multiply (j_z J) (j_z J) ?p = Some z2" "fe ?p 2 z2 (z ^ 2)" using mul [OF Z Z] by (auto simp: power2_eq_square)
  obtain z3 where z3: "bn_multiply z2 (j_z J) ?p = Some z3" "fe ?p 2 z3 (z ^ 3)" using mul [OF z2(2) Z] by (auto simp: power2_eq_square power3_eq_cube)
  obtain z4 where z4: "bn_multiply z2 z2 ?p = Some z4" "fe ?p 2 z4 (z ^ 4)" using mul [OF z2(2) z2(2)] by (auto simp: power2_eq_square power4_eq_xxxx mult.assoc)
  let ?az = "bn_mult_k z4 (word_of_int (- ?a)) ?p"
  have az: "fe ?p 2 ?az (- ?a * z ^ 4)" using fe_mult_k [OF P z4(2), of "word_of_int (- ?a)"] coeff_byte [OF a] by simp
  obtain x1' where x1': "bn_multiply (pt_x p1) z2 ?p = Some x1'" "fe ?p 2 x1' (x1 * z ^ 2)" using mul [OF p1(1) z2(2)] by auto
  let ?hg = "bn_fast_mod (bn_subtractmod x1' (j_x J) ?p) ?p"
  have h0: "fe ?p 2 ?hg (x1 * z ^ 2 - x2 * z ^ 2)" using fe_fast_mod [OF P fe_subtractmod(1) [OF P x1'(2) X(1)]] by simp
  have zz: "coprime (z ^ 2) (int ?P)" using z by simp
  have D: "bn_is_equal ?hg ?p \<longleftrightarrow> ?D"
  proof -
    have "cg ?P (x1 * z ^ 2) (x2 * z ^ 2) \<longleftrightarrow> ?D"
      using cg_cancel [OF zz, of x1 x2] cg_mult [OF cg_refl, of ?P x1 x2 "z ^ 2"] by (auto simp: mult.commute)
    then show ?thesis using is_doubling_val [OF P x1'(2) X] by simp
  qed
  let ?xs = "bn_add x1' (j_x J)"
  have xs: "fe ?p 4 ?xs (x1 * z ^ 2 + x2 * z ^ 2)" using fe_add [OF P x1'(2) X(1)] by simp
  obtain y1' where y1': "bn_multiply (pt_y p1) z3 ?p = Some y1'" "fe ?p 2 y1' (y1 * z ^ 3)" using mul [OF p1(2) z3(2)] by auto
  let ?rg = "bn_subtractmod y1' (j_y J) ?p" and ?ys = "bn_add y1' (j_y J)"
  have r0: "fe ?p 4 ?rg (y1 * z ^ 3 - y2 * z ^ 3)" using fe_subtractmod(1) [OF P y1'(2) Y] by simp
  have ys: "fe ?p 4 ?ys (y1 * z ^ 3 + y2 * z ^ 3)" using fe_add [OF P y1'(2) Y] by simp
  obtain q where q: "bn_multiply (j_x J) (j_x J) ?p = Some q" "fe ?p 2 q (x2 * z ^ 2 * (x2 * z ^ 2))" using mul [OF X(1) X(1)] by auto
  let ?q3 = "bn_mult_k q 3 ?p"
  let ?r2 = "if ?a \<noteq> 0 then bn_subtractmod ?q3 ?az ?p else ?q3"
  have q3: "fe ?p 2 ?q3 (3 * (x2 * z ^ 2 * (x2 * z ^ 2)))" using fe_mult_k [OF P q(2), of 3] by simp
  have r2: "fe ?p 4 ?r2 ((3 * x2 ^ 2 + ?a) * z ^ 4)"
  proof (cases "?a = 0")
    case True
    then have e: "3 * (x2 * z ^ 2 * (x2 * z ^ 2)) = (3 * x2 ^ 2 + ?a) * z ^ 4" by algebra
    show ?thesis using fe_mono [OF q3 [unfolded e], of 4] True by simp
  next
    case False
    have "3 * (x2 * z ^ 2 * (x2 * z ^ 2)) - (- ?a * z ^ 4) = (3 * x2 ^ 2 + ?a) * z ^ 4" by algebra
    then show ?thesis using fe_subtractmod(1) [OF P q3 az] False by simp
  qed
  let ?r = "if ?D then ?r2 else ?rg" and ?h = "if ?D then ?ys else ?hg"
  let ?hv = "if ?D then (y1 + y2) * z ^ 3 else (x1 - x2) * z ^ 2"
  have s1: "cg ?P (l * (x1 - x2)) (y1 - y2)" using l by (simp add: slope_def)
  have h: "fe ?p 4 ?h ?hv" using ys fe_mono [OF h0, of 4] by (simp add: algebra_simps)
  have r: "fe ?p 4 ?r (l * ?hv * z)"
  proof (cases ?D)
    case True
    have "cg ?P (l * (x1 - x2)) (l * 0)" using True by (intro cg_mult) (simp_all add: cg_def)
    then have "cg ?P (y1 - y2) (l * 0)" by (rule cg_trans [OF cg_sym [OF s1]])
    then have y: "cg ?P y1 y2" by (simp add: cg_def)
    have "cg ?P ((y1 + y2) * l) (2 * y2 * l)"
      using cg_mult [OF cg_add [OF y cg_refl, of y2] cg_refl, of l] by simp
    also have "cg ?P (2 * y2 * l) (3 * x2 ^ 2 + ?a)" using l True by (simp add: slope_def)
    finally have "cg ?P ((y1 + y2) * l * z ^ 4) ((3 * x2 ^ 2 + ?a) * z ^ 4)" by (rule cg_mult) simp
    moreover have "(y1 + y2) * l * z ^ 4 = l * ((y1 + y2) * z ^ 3) * z" by algebra
    ultimately have "cg ?P ((3 * x2 ^ 2 + ?a) * z ^ 4) (l * ((y1 + y2) * z ^ 3) * z)" using cg_sym by simp
    then show ?thesis using fe_cg [OF r2] True by simp
  next
    case False
    have "cg ?P (l * (x1 - x2) * z ^ 3) ((y1 - y2) * z ^ 3)" by (rule cg_mult [OF s1 cg_refl])
    moreover have "l * (x1 - x2) * z ^ 3 = l * ((x1 - x2) * z ^ 2) * z" "(y1 - y2) * z ^ 3 = y1 * z ^ 3 - y2 * z ^ 3" by algebra+
    ultimately have "cg ?P (y1 * z ^ 3 - y2 * z ^ 3) (l * ((x1 - x2) * z ^ 2) * z)" using cg_sym by simp
    then show ?thesis using fe_cg [OF r0] False by simp
  qed
  have len: "length ?r2 = length ?rg" "length ?ys = length ?hg"
    using feD(1) [OF r2] feD(1) [OF r0] feD(1) [OF ys] feD(1) [OF h0] by (simp_all only: bignum_def)
  have cm: "bn_cmov (of_bool ?D) ?r2 ?rg = Some ?r" "bn_cmov (of_bool ?D) ?ys ?hg = Some ?h"
    by (simp_all only: bn_cmov_eq [OF len(1)] bn_cmov_eq [OF len(2)])
  define H R G where "H = ?hv" and "R = ?r" and "G = ?h"
  note h = h [folded H_def G_def] and r = r [folded H_def R_def] and cm = cm [folded G_def R_def, folded D]
  obtain hs where hs: "bn_multiply G G ?p = Some hs" "fe ?p 2 hs (H * H)" using mul [OF h h] by auto
  obtain hc where hc: "bn_multiply hs G ?p = Some hc" "fe ?p 2 hc (H * H * H)" using mul [OF hs(2) h] by auto
  obtain hx where hx: "bn_multiply ?xs hs ?p = Some hx" "fe ?p 2 hx ((x1 * z ^ 2 + x2 * z ^ 2) * (H * H))" using mul [OF xs hs(2)] by auto
  obtain hy where hy: "bn_multiply ?ys hc ?p = Some hy" "fe ?p 2 hy ((y1 * z ^ 3 + y2 * z ^ 3) * (H * H * H))" using mul [OF ys hc(2)] by auto
  obtain zn where zn: "bn_multiply G (j_z J) ?p = Some zn" "fe ?p 2 zn (H * z)" using mul [OF h Z] by auto
  obtain rr where rr: "bn_multiply R R ?p = Some rr" "fe ?p 2 rr (l * H * z * (l * H * z))" using mul [OF r r] by auto
  let ?x = "bn_fast_mod (bn_subtractmod rr hx ?p) ?p" and ?x3 = "l ^ 2 - x1 - x2"
  note sx = fe_subtractmod(1) [OF P rr(2) hx(2)]
  have "l * H * z * (l * H * z) - (x1 * z ^ 2 + x2 * z ^ 2) * (H * H) = ?x3 * (H * z) ^ 2" by algebra
  then have x: "fe ?p 2 ?x (?x3 * (H * z) ^ 2)" using fe_fast_mod [OF P sx] by simp
  have xlt: "bn_val ?x < 2 * ?P" by (rule fast_mod_strict [OF P sx]) simp
  let ?yd = "bn_subtractmod (bn_subtractmod hx ?x ?p) ?x ?p"
  have y0: "fe ?p 6 ?yd ((x1 * z ^ 2 + x2 * z ^ 2) * (H * H) - ?x3 * (H * z) ^ 2 - ?x3 * (H * z) ^ 2)"
    using fe_subtractmod(1) [OF P fe_subtractmod(1) [OF P hx(2) x] x] by simp
  obtain yn where yn: "bn_multiply R ?yd ?p = Some yn"
    "fe ?p 2 yn (l * H * z * ((x1 * z ^ 2 + x2 * z ^ 2) * (H * H) - ?x3 * (H * z) ^ 2 - ?x3 * (H * z) ^ 2))" using mul [OF r y0] by auto
  let ?v = "l * H * z * ((x1 * z ^ 2 + x2 * z ^ 2) * (H * H) - ?x3 * (H * z) ^ 2 - ?x3 * (H * z) ^ 2) - (y1 * z ^ 3 + y2 * z ^ 3) * (H * H * H)"
  let ?w = "(l * (x1 - ?x3) - y1) * (H * z) ^ 3"
  have sy: "fe ?p (2 * 2) (bn_subtractmod yn hy ?p) ?v" using fe_subtractmod(1) [OF P yn(2) hy(2)] by simp
  have "?v - 2 * ?w = - (l * (x1 - x2) - (y1 - y2)) * (H * z) ^ 3" by algebra
  then have "cg ?P ?v (2 * ?w)" using s1 unfolding cg_def by (metis dvd_minus_iff dvd_mult2)
  then have y: "fe ?p 2 (bn_fast_mod (bn_mult_half (bn_subtractmod yn hy ?p) ?p) ?p) ?w"
    using fe_fast_mod [OF P fe_mult_half [OF P fe_cg [OF sy]]] by simp
  note steps = z2(1) z3(1) z4(1) x1'(1) y1'(1) q(1) hs(1) hc(1) hx(1) hy(1) zn(1) rr(1) yn(1)
  have "point_jacobian_add p1 J curve = Some \<lparr> j_x = ?x, j_y = bn_fast_mod (bn_mult_half (bn_subtractmod yn hy ?p) ?p) ?p, j_z = zn \<rparr>"
    using a steps cm by (cases "?a = 0") (simp_all add: point_jacobian_add_def Let_def)
  then show ?thesis using x xlt y zn(2) by (simp add: jrep_def H_def)
qed

section \<open>The affine operations\<close>

text \<open>A point with the affine coordinates \<open>(x, y)\<close>.\<close>

definition arep :: "bignum256 \<Rightarrow> curve_point \<Rightarrow> int \<Rightarrow> int \<Rightarrow> bool" where
  "arep p c x y \<longleftrightarrow> fr p (pt_x c) x \<and> fr p (pt_y c) y"

lemma fr_zero:
  assumes "modulus p" "fr p c x"
  shows "bn_is_zero c \<longleftrightarrow> cg (bn_val p) x 0"
proof -
  have c: "cg (bn_val p) (int (bn_val c)) x" "bn_val c < bn_val p" using assms(2) by (simp_all add: fr_def)
  have "cg (bn_val p) (int (bn_val c)) (int 0) \<longleftrightarrow> bn_val c = 0" by (rule cg_small [OF c(2) modulusD(6) [OF assms(1)]])
  then show ?thesis using cg_left [OF c(1), of 0] by (simp add: bn_is_zero_val)
qed

lemma fr_equal:
  assumes "fr p c x" "fr p d y"
  shows "bn_is_equal c d \<longleftrightarrow> cg (bn_val p) x y"
proof -
  have c: "cg (bn_val p) (int (bn_val c)) x" "bn_val c < bn_val p" and d: "cg (bn_val p) (int (bn_val d)) y" "bn_val d < bn_val p"
    using assms by (simp_all add: fr_def)
  have "bn_is_equal c d \<longleftrightarrow> bn_val c = bn_val d" using assms by (intro bn_is_equal_val) (simp_all add: fr_def)
  then show ?thesis using cg_small [OF c(2) d(2)] cg_left [OF c(1), of "int (bn_val d)"] cg_right [OF d(1), of x] by simp
qed

lemma affine_double:
  assumes c: "curve_ok curve" and p: "arep (curve_prime curve) cp x y" and y: "coprime y (int (bn_val (curve_prime curve)))"
  shows "\<exists>R l. point_double curve cp = Some R \<and> cg (bn_val (curve_prime curve)) (2 * y * l) (3 * x ^ 2 + coeff_a curve) \<and>
    arep (curve_prime curve) R (l ^ 2 - 2 * x) (l * (x - (l ^ 2 - 2 * x)) - y)"
proof -
  let ?p = "curve_prime curve" and ?a = "coeff_a curve"
  have P: "modulus ?p" and a: "- 3 \<le> ?a" "?a \<le> 0" "3 \<le> ?p ! 0" using c by (simp_all add: curve_ok_def)
  have X: "fe ?p 1 (pt_x cp) x" and Y: "fe ?p 1 (pt_y cp) y" using p fr_fe by (simp_all add: arep_def)
  note mul = fe_multiply [OF P]
  have "\<not> cg (bn_val ?p) y 0"
  proof
    assume "cg (bn_val ?p) y 0"
    then have "int (bn_val ?p) dvd 1" using y by (simp add: cg_def coprime_absorb_right coprime_commute)
    then show False using modulusD(4) [OF P] by simp
  qed
  then have nz: "\<not> bn_is_zero (pt_y cp)" using fr_zero [OF P, of "pt_y cp" y] p by (simp add: arep_def)
  have y2: "fe ?p 2 (bn_mult_k (pt_y cp) 2 ?p) (2 * y)" using fe_mult_k [OF P Y, of 2] by simp
  have "coprime (2 * y) (int (bn_val ?p))" using y modulusD(2) [OF P] by simp
  then obtain iv w where iv: "bn_inverse (bn_mult_k (pt_y cp) 2 ?p) ?p = Some iv" "fr ?p iv w" "cg (bn_val ?p) (2 * y * w) 1"
    using fe_inverse [OF P y2] by blast
  obtain xx where xx: "bn_multiply (pt_x cp) (pt_x cp) ?p = Some xx" "fe ?p 2 xx (x * x)" using mul [OF X X] by auto
  have x3: "fe ?p 2 (bn_mult_k xx 3 ?p) (3 * (x * x))" using fe_mult_k [OF P xx(2), of 3] by simp
  have "unat (word_of_int (- ?a) :: u32) \<le> 3"
  proof -
    consider "?a = - 3" | "?a = - 2" | "?a = - 1" | "?a = 0" using a by linarith
    then show ?thesis by cases simp_all
  qed
  moreover have "3 \<le> unat (?p ! 0)" using a(3) by (simp add: word_le_nat_alt)
  ultimately have k: "word_of_int (- ?a) \<le> ?p ! 0" by (simp add: word_le_nat_alt)
  have ka: "int (unat (word_of_int (- ?a) :: u32)) = - ?a"
  proof -
    consider "?a = - 3" | "?a = - 2" | "?a = - 1" | "?a = 0" using a by linarith
    then show ?thesis by cases simp_all
  qed
  obtain xa where xa: "bn_subi (bn_mult_k xx 3 ?p) (word_of_int (- ?a)) ?p = Some xa" "fe ?p 3 xa (3 * (x * x) + ?a)"
    using fe_subi [OF P x3 _ k] ka by auto
  define l where "l = (3 * (x * x) + ?a) * w"
  obtain la where la: "bn_multiply xa iv ?p = Some la" "fe ?p 2 la l" using mul [OF xa(2) fr_fe [OF iv(2)]] by (auto simp: l_def)
  obtain ll where ll: "bn_multiply la la ?p = Some ll" "fe ?p 2 ll (l * l)" using mul [OF la(2) la(2)] by auto
  have x2: "fe ?p 2 (bn_lshift (pt_x cp)) (2 * x)" using fe_lshift [OF P X] by simp
  obtain xr where xr: "bn_mod (bn_fast_mod (bn_subtractmod ll (bn_lshift (pt_x cp)) ?p) ?p) ?p = Some xr" "fr ?p xr (l * l - 2 * x)"
    using fr_reduce [OF P fe_subtractmod(1) [OF P ll(2) x2]] by auto
  have d: "fe ?p 4 (bn_subtractmod (pt_x cp) xr ?p) (x - (l * l - 2 * x))"
    using fe_subtractmod(1) [OF P fe_mono [OF X, of 2] fe_mono [OF fr_fe [OF xr(2)]]] by simp
  obtain yr where yr: "bn_multiply la (bn_subtractmod (pt_x cp) xr ?p) ?p = Some yr" "fe ?p 2 yr (l * (x - (l * l - 2 * x)))"
    using mul [OF la(2) d] by auto
  obtain yo where yo: "bn_mod (bn_fast_mod (bn_subtractmod yr (pt_y cp) ?p) ?p) ?p = Some yo" "fr ?p yo (l * (x - (l * l - 2 * x)) - y)"
    using fr_reduce [OF P fe_subtractmod(1) [OF P yr(2) fe_mono [OF Y]]] by auto
  have e: "2 * y * l = (2 * y * w) * (3 * x ^ 2 + ?a)" unfolding l_def by algebra
  have s: "cg (bn_val ?p) (2 * y * l) (3 * x ^ 2 + ?a)" unfolding e using cg_mult [OF iv(3) cg_refl, of "3 * x ^ 2 + ?a"] by simp
  have "point_double curve cp = Some \<lparr> pt_x = xr, pt_y = yo \<rparr>"
    using nz iv(1) xx(1) xa(1) la(1) ll(1) xr(1) yr(1) yo(1) by (simp add: point_double_def point_is_infinity_def Let_def)
  then show ?thesis using s xr(2) yo(2) by (auto simp: arep_def power2_eq_square)
qed

lemma affine_add:
  assumes c: "curve_ok curve" and p1: "arep (curve_prime curve) c1 x1 y1" and p2: "arep (curve_prime curve) c2 x2 y2"
    and n: "\<not> point_is_infinity c1" "\<not> point_is_infinity c2" and d: "coprime (x2 - x1) (int (bn_val (curve_prime curve)))"
  shows "\<exists>R l. point_add curve c1 c2 = Some R \<and> cg (bn_val (curve_prime curve)) (l * (x2 - x1)) (y2 - y1) \<and>
    arep (curve_prime curve) R (l ^ 2 - x1 - x2) (l * (x1 - (l ^ 2 - x1 - x2)) - y1)"
proof -
  let ?p = "curve_prime curve"
  have P: "modulus ?p" using c by (simp_all add: curve_ok_def)
  have X1: "fe ?p 1 (pt_x c1) x1" and Y1: "fe ?p 1 (pt_y c1) y1" and X2: "fe ?p 1 (pt_x c2) x2" and Y2: "fe ?p 1 (pt_y c2) y2"
    using p1 p2 fr_fe by (simp_all add: arep_def)
  note mul = fe_multiply [OF P]
  have "\<not> cg (bn_val ?p) x1 x2"
  proof
    assume "cg (bn_val ?p) x1 x2"
    then have "int (bn_val ?p) dvd x2 - x1" using cg_sym by (simp add: cg_def)
    then have "int (bn_val ?p) dvd 1" using d by (simp add: coprime_absorb_right coprime_commute)
    then show False using modulusD(4) [OF P] by simp
  qed
  then have ne: "\<not> bn_is_equal (pt_x c1) (pt_x c2)" using fr_equal [of ?p "pt_x c1" x1 "pt_x c2" x2] p1 p2 by (simp add: arep_def)
  have s: "fe ?p 4 (bn_subtractmod (pt_x c2) (pt_x c1) ?p) (x2 - x1)" using fe_subtractmod(1) [OF P fe_mono [OF X2, of 2] fe_mono [OF X1]] by simp
  obtain iv w where iv: "bn_inverse (bn_subtractmod (pt_x c2) (pt_x c1) ?p) ?p = Some iv" "fr ?p iv w" "cg (bn_val ?p) ((x2 - x1) * w) 1"
    using fe_inverse [OF P s d] by blast
  have t: "fe ?p 4 (bn_subtractmod (pt_y c2) (pt_y c1) ?p) (y2 - y1)" using fe_subtractmod(1) [OF P fe_mono [OF Y2, of 2] fe_mono [OF Y1]] by simp
  define l where "l = w * (y2 - y1)"
  obtain la where la: "bn_multiply iv (bn_subtractmod (pt_y c2) (pt_y c1) ?p) ?p = Some la" "fe ?p 2 la l"
    using mul [OF fr_fe [OF iv(2)] t] by (auto simp: l_def)
  obtain ll where ll: "bn_multiply la la ?p = Some ll" "fe ?p 2 ll (l * l)" using mul [OF la(2) la(2)] by auto
  have xs: "fe ?p 2 (bn_addmod (pt_x c1) (pt_x c2) ?p) (x1 + x2)" by (rule fe_addmod [OF P X1 X2])
  let ?x3 = "l ^ 2 - x1 - x2"
  have e: "l * l - (x1 + x2) = ?x3" by algebra
  obtain xr where xr: "bn_mod (bn_fast_mod (bn_subtractmod ll (bn_addmod (pt_x c1) (pt_x c2) ?p) ?p) ?p) ?p = Some xr" "fr ?p xr ?x3"
    using fr_reduce [OF P fe_subtractmod(1) [OF P ll(2) xs]] unfolding e by auto
  have dx: "fe ?p 4 (bn_subtractmod (pt_x c1) xr ?p) (x1 - ?x3)"
    using fe_subtractmod(1) [OF P fe_mono [OF X1, of 2] fe_mono [OF fr_fe [OF xr(2)]]] by simp
  obtain yr where yr: "bn_multiply la (bn_subtractmod (pt_x c1) xr ?p) ?p = Some yr" "fe ?p 2 yr (l * (x1 - ?x3))"
    using mul [OF la(2) dx] by auto
  obtain yo where yo: "bn_mod (bn_fast_mod (bn_subtractmod yr (pt_y c1) ?p) ?p) ?p = Some yo" "fr ?p yo (l * (x1 - ?x3) - y1)"
    using fr_reduce [OF P fe_subtractmod(1) [OF P yr(2) fe_mono [OF Y1]]] by auto
  have el: "l * (x2 - x1) = ((x2 - x1) * w) * (y2 - y1)" unfolding l_def by algebra
  have sl: "cg (bn_val ?p) (l * (x2 - x1)) (y2 - y1)" unfolding el using cg_mult [OF iv(3) cg_refl, of "y2 - y1"] by simp
  have "point_add curve c1 c2 = Some \<lparr> pt_x = xr, pt_y = yo \<rparr>"
    using n ne iv(1) la(1) ll(1) xr(1) yr(1) yo(1) by (simp add: point_add_def point_is_equal_def point_is_negative_of_def Let_def)
  then show ?thesis using sl xr(2) yo(2) by (auto simp: arep_def)
qed

end
