(* ===== verification/Scalar_Laws.thy ===== *)
theory Scalar_Laws
  imports Point_Laws Ecdsa
begin

text \<open>
  What the scalar multiplications and the signature of \<open>src/crypto/ecdsa.c\<close> compute: the random denominators, the recoding of the scalar, the sum of
  points it stands for, and the equation of a signature.
\<close>

section \<open>Random numbers below a modulus\<close>

text \<open>
  The moduli of the curve have only ones in their upper digits. A draw is outside their range only if two successive numbers of the
  generator end in 30 ones, or in 30 zeros; the generator never gives that, so the loop of \<open>generate_k_random\<close> runs once.
\<close>

lemma unat_low30: "unat (x AND 0x3FFFFFFF :: u32) = unat x mod 2 ^ 30"
proof -
  have "x AND 0x3FFFFFFF = take_bit 30 x" by (simp add: take_bit_eq_mask mask_numeral)
  then show ?thesis by (simp only: unsigned_take_bit_eq take_bit_eq_mod [where ?'a = nat])
qed

lemma unat_low16: "unat (x AND 0xFFFF :: u32) = unat x mod 2 ^ 16"
proof -
  have "x AND 0xFFFF = take_bit 16 x" by (simp add: take_bit_eq_mask mask_numeral)
  then show ?thesis by (simp only: unsigned_take_bit_eq take_bit_eq_mod [where ?'a = nat])
qed

lemma lcg_low: "unat (lcg x) mod 2 ^ 30 = (1664525 * (unat x mod 2 ^ 30) + 1013904223) mod 2 ^ 30"
proof -
  have "unat (lcg x) = (1664525 * unat x + 1013904223) mod 2 ^ 32"
    by (simp add: lcg_def unat_word_ariths mod_simps)
  then have "unat (lcg x) mod 2 ^ 30 = (1664525 * unat x + 1013904223) mod 2 ^ 30"
    by (simp only: mod_mod_cancel [of "2 ^ 30" "2 ^ 32"] le_imp_power_dvd)
  then show ?thesis by (metis mod_add_left_eq mod_mult_right_eq)
qed

lemma random_digits_8:
  "random_digits 8 seed = (map (\<lambda>i. (lcg ^^ Suc i) seed AND 0x3FFFFFFF) [0..<8] @ [(lcg ^^ 9) seed AND 0xFFFF], (lcg ^^ 9) seed)"
proof -
  have "random_digits n s = (map (\<lambda>i. (lcg ^^ Suc i) s AND 0x3FFFFFFF) [0..<n] @ [(lcg ^^ Suc n) s AND 0xFFFF], (lcg ^^ Suc n) s)" for n s
  proof (induction n arbitrary: s)
    case (Suc n)
    have u: "map f [0..<Suc n] = f 0 # map (f \<circ> Suc) [0..<n]" for f :: "nat \<Rightarrow> u32" by (simp only: map_upt_Suc comp_def)
    show ?case unfolding random_digits.simps Suc u by (simp add: random32_eq funpow_swap1 Let_def)
  qed (simp add: random32_eq)
  from this [of 8 seed] show ?thesis by simp
qed

text \<open>The upper digits of the moduli.\<close>

definition top_ones :: "bignum256 \<Rightarrow> bool" where
  "top_ones p \<longleftrightarrow> bignum p \<and> 2 ^ 256 - 2 ^ 180 \<le> bn_val p \<and> bn_val p < 2 ^ 256"

lemma bn_val_zero_nth: "bn_val a = 0 \<Longrightarrow> i < length a \<Longrightarrow> unat (a ! i) = 0"
  by (induction a arbitrary: i) (auto simp: nth_Cons split: nat.splits)

lemma drop_6_of_9: "length a = 9 \<Longrightarrow> drop 6 a = [a ! 6, a ! 7, a ! 8]"
  using Cons_nth_drop_Suc [of 6 a] Cons_nth_drop_Suc [of 7 a] Cons_nth_drop_Suc [of 8 a] by simp

lemma generate_k_random_val:
  assumes "top_ones p"
  shows "\<exists>k. generate_k_random p seed = Some (k, (lcg ^^ 9) seed) \<and> bignum k \<and> 0 < bn_val k \<and> bn_val k < bn_val p"
proof -
  let ?x = "\<lambda>i. (lcg ^^ Suc i) seed AND 0x3FFFFFFF"
  let ?k = "map ?x [0..<8] @ [(lcg ^^ 9) seed AND 0xFFFF]"
  have n: "bignum ?k" by (simp add: bignum_def normal_def list_all_iff unat_low30 unat_low16 less_trans [OF mod_less_divisor] del: upt_rec_numeral)
  have len: "length ?k = 9" by simp
  have nth: "?k ! i = ?x i" if "i < 8" for i using that by (simp add: nth_append del: upt_rec_numeral)
  have low: "unat (?k ! i) = unat ((lcg ^^ Suc i) seed) mod 2 ^ 30" if "i < 8" for i unfolding nth [OF that] unat_low30 ..
  have succ: "unat (?k ! Suc i) = (1664525 * unat (?k ! i) + 1013904223) mod 2 ^ 30" if "i < 7" for i
    using that low [of i] low [of "Suc i"] lcg_low [of "(lcg ^^ Suc i) seed"] by simp
  have "bn_val ?k \<noteq> 0"
  proof
    assume "bn_val ?k = 0"
    then have "unat (?k ! 0) = 0" "unat (?k ! 1) = 0" using len by (intro bn_val_zero_nth; simp)+
    then show False using succ [of 0] by simp
  qed
  moreover have "bn_val ?k < bn_val p"
  proof (rule ccontr)
    assume "\<not> bn_val ?k < bn_val p"
    then have "2 ^ 256 - 2 ^ 180 \<le> bn_val ?k" using assms by (simp add: top_ones_def)
    then have "(2 ^ 256 - 2 ^ 180) div 2 ^ 180 \<le> bn_val ?k div 2 ^ 180" by (rule div_le_mono)
    moreover have "bn_val ?k div 2 ^ 180 = bn_val (drop 6 ?k)" using bn_val_drop [of ?k 6] n by (simp add: bignum_def)
    moreover have "drop 6 ?k = [?k ! 6, ?k ! 7, ?k ! 8]" by (rule drop_6_of_9 [OF len])
    ultimately have b: "2 ^ 76 - 1 \<le> unat (?k ! 6) + 2 ^ 30 * (unat (?k ! 7) + 2 ^ 30 * unat (?k ! 8))" by simp
    have "?k ! 8 = (lcg ^^ 9) seed AND 0xFFFF" by (simp add: nth_append del: upt_rec_numeral)
    then have "unat (?k ! 8) < 2 ^ 16" unfolding unat_low16 [symmetric] by (simp only: unat_low16) simp
    moreover have "unat (?k ! 7) < 2 ^ 30" "unat (?k ! 6) < 2 ^ 30" using low by simp_all
    ultimately have "unat (?k ! 6) = 2 ^ 30 - 1" "unat (?k ! 7) = 2 ^ 30 - 1" using b by simp_all
    then show False using succ [of 6] by simp
  qed
  moreover have "generate_k_random p seed = (if bn_is_zero ?k \<or> \<not> bn_is_less ?k p then generate_k_random p ((lcg ^^ 9) seed) else Some (?k, (lcg ^^ 9) seed))"
    by (subst generate_k_random.simps) (simp only: random_digits_8 Let_def prod.case)
  ultimately show ?thesis using n bn_is_less_val [of ?k p] bn_is_zero_val [of ?k] assms by (auto simp: top_ones_def)
qed

section \<open>To Jacobian coordinates and back\<close>

lemma curve_to_jacobian_val:
  assumes P: "modulus p" and c: "fe p 2 (pt_x c) x" "fe p 2 (pt_y c) y"
    and k: "generate_k_random p seed = Some (k, seed')" "bignum k" "bn_val k < bn_val p"
  shows "\<exists>J. curve_to_jacobian c p seed = Some (J, seed') \<and> jrep p J x y (int (bn_val k))"
proof -
  let ?z = "int (bn_val k)"
  have Z: "fe p 1 k ?z" using k by (intro fe_self) simp_all
  note mul = fe_multiply [OF P]
  obtain x1 where x1: "bn_multiply k k p = Some x1" "fe p 2 x1 (?z ^ 2)" using mul [OF Z Z] by (auto simp: power2_eq_square)
  obtain y1 where y1: "bn_multiply k x1 p = Some y1" "fe p 2 y1 (?z ^ 3)" using mul [OF Z x1(2)] by (auto simp: power2_eq_square power3_eq_cube mult.assoc)
  obtain x2 where x2: "bn_multiply (pt_x c) x1 p = Some x2" "fe p 2 x2 (x * ?z ^ 2)" "bn_val x2 < 2 * bn_val p"
    using multiply_strict [OF P c(1) x1(2)] by auto
  obtain y2 where y2: "bn_multiply (pt_y c) y1 p = Some y2" "fe p 2 y2 (y * ?z ^ 3)" using mul [OF c(2) y1(2)] by auto
  have "curve_to_jacobian c p seed = Some (\<lparr> j_x = x2, j_y = y2, j_z = k \<rparr>, seed')"
    using k(1) x1(1) y1(1) x2(1) y2(1) by (simp add: curve_to_jacobian_def)
  then show ?thesis using x2 y2 fe_mono [OF Z, of 2] by (simp add: jrep_def)
qed

lemma jacobian_to_curve_val:
  assumes P: "modulus p" and J: "jrep p J x y z" and z: "coprime z (int (bn_val p))"
  shows "\<exists>R. jacobian_to_curve J p = Some R \<and> arep p R x y"
proof -
  have X: "fe p 2 (j_x J) (x * z ^ 2)" and Y: "fe p 2 (j_y J) (y * z ^ 3)" and Z: "fe p 2 (j_z J) z" using J by (simp_all add: jrep_def)
  obtain iv w where iv: "bn_inverse (j_z J) p = Some iv" "fr p iv w" "cg (bn_val p) (z * w) 1" using fe_inverse [OF P Z z] by blast
  note W = fr_fe [OF iv(2)]
  obtain x1 where x1: "bn_multiply iv iv p = Some x1" "fe p 2 x1 (w ^ 2)" using fe_multiply [OF P W W] by (auto simp: power2_eq_square)
  obtain y1 where y1: "bn_multiply x1 iv p = Some y1" "fe p 2 y1 (w ^ 3)" using fe_multiply [OF P x1(2) W] by (auto simp: power2_eq_square power3_eq_cube)
  obtain x2 where x2: "bn_multiply (j_x J) x1 p = Some x2" "fe p 2 x2 (x * z ^ 2 * w ^ 2)" "bn_val x2 < 2 * bn_val p"
    using multiply_strict [OF P X x1(2)] by auto
  obtain y2 where y2: "bn_multiply (j_y J) y1 p = Some y2" "fe p 2 y2 (y * z ^ 3 * w ^ 3)" "bn_val y2 < 2 * bn_val p"
    using multiply_strict [OF P Y y1(2)] by auto
  obtain x3 where x3: "bn_mod x2 p = Some x3" "fr p x3 (x * z ^ 2 * w ^ 2)" using fr_mod [OF P x2(2,3)] by blast
  obtain y3 where y3: "bn_mod y2 p = Some y3" "fr p y3 (y * z ^ 3 * w ^ 3)" using fr_mod [OF P y2(2,3)] by blast
  have e: "x * z ^ 2 * w ^ 2 = x * (z * w) ^ 2" "y * z ^ 3 * w ^ 3 = y * (z * w) ^ 3" by algebra+
  have "cg (bn_val p) (x * (z * w) ^ 2) (x * 1 ^ 2)" "cg (bn_val p) (y * (z * w) ^ 3) (y * 1 ^ 3)"
    using iv(3) by (intro cg_mult cg_power cg_refl; assumption)+
  then have "fr p x3 x" "fr p y3 y" using fr_cg [OF x3(2) [unfolded e]] fr_cg [OF y3(2) [unfolded e]] by simp_all
  moreover have "jacobian_to_curve J p = Some \<lparr> pt_x = x3, pt_y = y3 \<rparr>"
    using iv(1) x1(1) y1(1) x2(1) y2(1) x3(1) y3(1) by (simp add: jacobian_to_curve_def)
  ultimately show ?thesis by (simp add: arep_def)
qed

section \<open>Recoding of the scalar\<close>

lemma odd_scalar_loop_val:
  assumes "length ks = length ns" "ks \<noteq> []" "normal ks" "normal ns" "last ns < 2 ^ 16" "unat tmp \<le> 2" "e = 0 \<or> e = - 1"
  shows "length (odd_scalar_loop e tmp ks ns) = length ks \<and>
    bn_val (odd_scalar_loop e tmp ks ns) + (if e = 0 then 0 else bn_val ns) + 1 = unat tmp + 2 ^ (30 * (length ks - 1)) * 2 ^ 16 + bn_val ks \<and>
    normal (butlast (odd_scalar_loop e tmp ks ns))"
  using assms
proof (induction e tmp ks ns rule: odd_scalar_loop.induct)
  case (1 e tmp k n ns)
  let ?n = "n AND e"
  have n: "unat n < 2 ^ 16" "unat k < 2 ^ 30" "ns = []" using 1 by (simp_all add: word_less_nat_alt)
  have m: "unat ?n = (if e = 0 then 0 else unat n)" using 1(7) by auto
  have "unat (tmp + 0xffff + k) = unat tmp + 0xffff + unat k" using 1(6) n by (simp add: unat_plus_small)
  then have "unat (tmp + 0xffff + k - ?n) = unat tmp + 0xffff + unat k - unat ?n" using n m by (subst unat_sub) (auto simp: word_le_nat_alt)
  then show ?case using n m by simp
next
  case (2 e tmp k k' ks n ns)
  let ?n = "n AND e" and ?t = "tmp + (0x3fffffff + k - (n AND e))"
  have n: "unat n < 2 ^ 30" "unat k < 2 ^ 30" using 2 by simp_all
  have m: "unat ?n = (if e = 0 then 0 else unat n)" using 2(8) by auto
  have "unat (0x3fffffff + k) = 0x3fffffff + unat k" using n by (simp add: unat_plus_small)
  then have "unat (0x3fffffff + k - ?n) = 0x3fffffff + unat k - unat ?n" using n m by (subst unat_sub) (auto simp: word_le_nat_alt)
  then have t: "unat ?t = unat tmp + (0x3fffffff + unat k - unat ?n)" using n m 2(7) by (subst unat_plus_small) auto
  then have t': "unat ?t + unat ?n = unat tmp + 0x3fffffff + unat k" using n m by auto
  have d: "unat (drop_bit 30 ?t) = unat ?t div 2 ^ 30" by (simp only: unat_drop_bit)
  have "unat (drop_bit 30 ?t) \<le> 2" unfolding d using t n 2(7) by (simp add: less_Suc_eq_le [symmetric] div_less_iff_less_mult)
  moreover obtain n' ns' where ns: "ns = n' # ns'" using 2(2) by (cases ns) auto
  ultimately have ih: "length (odd_scalar_loop e (drop_bit 30 ?t) (k' # ks) ns) = length (k' # ks)"
      "bn_val (odd_scalar_loop e (drop_bit 30 ?t) (k' # ks) ns) + (if e = 0 then 0 else bn_val ns) + 1
        = unat ?t div 2 ^ 30 + 2 ^ (30 * length ks) * 2 ^ 16 + bn_val (k' # ks)"
      "normal (butlast (odd_scalar_loop e (drop_bit 30 ?t) (k' # ks) ns))"
    using "2.IH" "2.prems" d by (simp_all del: odd_scalar_loop.simps)
  have s: "unat (?t AND 0x3fffffff) + 2 ^ 30 * (unat ?t div 2 ^ 30) = unat ?t" unfolding unat_low30 by (rule mod_mult_div_eq)
  have w: "length (odd_scalar_loop e tmp (k # k' # ks) (n # ns)) = length (k # k' # ks)" using ih(1) by (simp add: Let_def)
  have v: "bn_val (odd_scalar_loop e tmp (k # k' # ks) (n # ns)) = unat (?t AND 0x3fffffff) + 2 ^ 30 * bn_val (odd_scalar_loop e (drop_bit 30 ?t) (k' # ks) ns)"
    by (simp add: Let_def)
  have ne: "odd_scalar_loop e (drop_bit 30 ?t) (k' # ks) ns \<noteq> []" using ih(1) by auto
  have b: "butlast (odd_scalar_loop e tmp (k # k' # ks) (n # ns)) = (?t AND 0x3fffffff) # butlast (odd_scalar_loop e (drop_bit 30 ?t) (k' # ks) ns)"
    using ne by (simp add: Let_def)
  have "unat (?t AND 0x3fffffff) < 2 ^ 30" unfolding unat_low30 by simp
  then have nb: "normal (butlast (odd_scalar_loop e tmp (k # k' # ks) (n # ns)))" unfolding b using ih(3) by simp
  have p: "2 ^ (30 * (length (k # k' # ks) - 1)) = (2 ^ 30 * 2 ^ (30 * length ks) :: nat)" by (simp add: power_add)
  have bk: "bn_val (k # k' # ks) = unat k + 2 ^ 30 * bn_val (k' # ks)" "bn_val (n # ns) = unat n + 2 ^ 30 * bn_val ns" by simp_all
  have arith: "m1 + 2 ^ 30 * R + (if e0 then 0 else un + 2 ^ 30 * N) + 1 = ut + 2 ^ 30 * Pw * 2 ^ 16 + (uk + 2 ^ 30 * K)"
    if "R + (if e0 then 0 else N) + 1 = q + Pw * 2 ^ 16 + K" "m1 + 2 ^ 30 * q = T" "T + um = ut + 0x3fffffff + uk" "um = (if e0 then 0 else un)"
    for m1 R q Pw K T um ut uk un N :: nat and e0 
  proof (cases e0)
    case True
    show ?thesis using that unfolding if_P [OF True] by simp
  next
    case False
    show ?thesis using that unfolding if_not_P [OF False] by simp
  qed
  show ?case using w nb arith [OF ih(2) s t' m] unfolding v p bk by (simp only: simp_thms)
qed simp_all

text \<open>The odd number of the scalar, and whether the scalar is zero.\<close>

lemma last_digit_small:
  assumes "bignum n" "bn_val n < 2 ^ 256"
  shows "unat (n ! 8) < 2 ^ 16"
proof -
  have "2 ^ 240 * unat (n ! 8) \<le> bn_val n" using bn_val_last [of n] assms(1) by (simp add: bignum_def)
  then have "2 ^ 240 * unat (n ! 8) < 2 ^ 256" using assms(2) by linarith
  then show ?thesis by simp
qed

lemma odd_first: "a \<noteq> [] \<Longrightarrow> odd (bn_val a) \<longleftrightarrow> a ! 0 AND 1 = 1"
  by (cases a) (simp_all add: and_1_if)

lemma odd_scalar_val:
  assumes k: "bignum k" "bn_val k < bn_val n" and n: "bignum n" "odd (bn_val n)" "bn_val n < 2 ^ 256"
  shows "\<exists>a. odd_scalar k n = Some (a, bn_val k \<noteq> 0) \<and> bignum a \<and> odd (bn_val a) \<and>
    bn_val a + (if odd (bn_val k) then 0 else bn_val n) = 2 ^ 256 + bn_val k"
proof -
  define e where "e = (k ! 0 AND 1) - 1"
  have l: "length k = 9" "length n = 9" "normal k" "normal n" using k n by (simp_all add: bignum_def)
  have ne: "k \<noteq> []" "n \<noteq> []" using l by auto
  have e: "e = (if odd (bn_val k) then 0 else - 1)" using odd_first [OF ne(1)] and_1_if [of "k ! 0"] by (auto simp: e_def split: if_splits)
  let ?a = "odd_scalar_loop e 1 k n"
  have "unat (last n) < 2 ^ 16" using last_digit_small [OF n(1,3)] l ne by (simp add: last_conv_nth)
  then have "last n < 2 ^ 16" by (simp add: word_less_nat_alt)
  then have a: "length ?a = length k"
      "bn_val ?a + (if e = 0 then 0 else bn_val n) + 1 = unat (1 :: u32) + 2 ^ (30 * (length k - 1)) * 2 ^ 16 + bn_val k"
      "normal (butlast ?a)"
    using odd_scalar_loop_val [of k n 1 e] l ne e by auto
  have v: "bn_val ?a + (if odd (bn_val k) then 0 else bn_val n) = 2 ^ 256 + bn_val k" using a(2) l e by (simp split: if_splits)
  have lt: "bn_val ?a < 2 ^ 257" using v k(2) n(3) by (simp split: if_splits)
  have la: "length ?a = 9" using a(1) l by simp
  have "2 ^ 240 * unat (?a ! 8) \<le> bn_val ?a" using bn_val_last [OF la] by simp
  then have "2 ^ 240 * unat (?a ! 8) < 2 ^ 257" using lt by linarith
  then have "unat (?a ! 8) < 2 ^ 30" by simp
  moreover have "?a ! 8 = last ?a" using la by (simp add: last_conv_nth flip: length_0_conv)
  moreover have "?a = butlast ?a @ [last ?a]" using la by (simp flip: length_0_conv)
  ultimately have na: "normal ?a" using a(3) normal_append by (metis normal_simps)
  have od: "odd (bn_val ?a)"
  proof (cases "odd (bn_val k)")
    case True
    then have "bn_val ?a = 2 ^ 256 + bn_val k" using v by simp
    then show ?thesis using True by simp
  next
    case False
    then have "bn_val ?a + bn_val n = 2 ^ 256 + bn_val k" using v by simp
    then have "even (bn_val ?a + bn_val n)" using False by simp
    then show ?thesis using n(2) by simp
  qed
  have ane: "?a \<noteq> []" using la by auto
  have "fold (\<lambda>d r. r OR d) k 0 \<noteq> 0 \<longleftrightarrow> bn_val k \<noteq> 0"
    using bn_is_zero_val [of k] by (simp add: bn_is_zero_def)
  then have "odd_scalar k n = Some (?a, bn_val k \<noteq> 0)"
    using od odd_first [OF ane] by (simp add: odd_scalar_def Let_def flip: e_def)
  then show ?thesis using v la na od by (auto simp: bignum_def)
qed

lemma shift_4_val:
  assumes "normal a"
  shows "length (shift_4 a) = length a \<and> normal (shift_4 a) \<and> bn_val (shift_4 a) = bn_val a div 16"
  using assms
proof (induction a rule: shift_4.induct)
  case (1 d d' ds)
  have d: "unat d < 2 ^ 30" "unat d' < 2 ^ 30" using 1(2) by simp_all
  have u: "unat (drop_bit 4 d) = unat d div 16" by (simp add: unat_drop_bit)
  have "d' AND 0xf = take_bit 4 d'" by (simp add: take_bit_eq_mask mask_numeral)
  then have v: "unat (d' AND 0xf) = unat d' mod 16" by (simp only: unsigned_take_bit_eq take_bit_eq_mod [where ?'a = nat]) simp
  have lt: "unat d div 16 < 2 ^ 26" using d(1) by (simp add: div_less_iff_less_mult)
  have m16: "unat d' mod 16 < 16" by simp
  have w: "unat (drop_bit 4 d OR push_bit 26 (d' AND 0xf)) = unat d div 16 + 2 ^ 26 * (unat d' mod 16)"
    using unat_or_push [of "drop_bit 4 d" 26 "d' AND 0xf"] lt m16 unfolding u v by simp
  have ih: "length (shift_4 (d' # ds)) = length (d' # ds)" "normal (shift_4 (d' # ds))" "bn_val (shift_4 (d' # ds)) = bn_val (d' # ds) div 16"
    using 1 by simp_all
  have md: "(unat d' + 2 ^ 30 * bn_val ds) mod 16 = unat d' mod 16"
  proof -
    have "(2 :: nat) ^ 30 * bn_val ds = 16 * (2 ^ 26 * bn_val ds)" by simp
    then show ?thesis by (simp only: mod_mult_self2)
  qed
  have ar: "(x + 2 ^ 30 * y) div 16 = x div 16 + 2 ^ 26 * (y mod 16) + 2 ^ 30 * (y div 16)" for x y :: nat
  proof -
    have "x + 2 ^ 30 * y = x + 16 * (2 ^ 26 * y)" by simp
    then have "(x + 2 ^ 30 * y) div 16 = x div 16 + 2 ^ 26 * y" by (simp only: div_mult_self2)
    moreover have "2 ^ 26 * y = 2 ^ 26 * r + 2 ^ 30 * q" if "r + 16 * q = y" for r q unfolding that [symmetric] by simp
    note this [OF mod_mult_div_eq [of y 16]]
    ultimately show ?thesis by simp
  qed
  have b: "bn_val (d # d' # ds) = unat d + 2 ^ 30 * bn_val (d' # ds)" "bn_val (d' # ds) mod 16 = unat d' mod 16"
    using md by simp_all
  have s: "shift_4 (d # d' # ds) = (drop_bit 4 d OR push_bit 26 (d' AND 0xf)) # shift_4 (d' # ds)" by simp
  have "unat d div 16 + 2 ^ 26 * (unat d' mod 16) < 2 ^ 30" using lt m16 by simp
  moreover have "bn_val (shift_4 (d # d' # ds)) = bn_val (d # d' # ds) div 16" unfolding s b(1) ar b(2) using w ih(3) by simp
  ultimately show ?case using ih w unfolding s by simp
next
  case (2 d)
  then show ?case by (simp add: unat_drop_bit)
qed simp

lemma shift_4_bignum: "bignum a \<Longrightarrow> bignum ((shift_4 ^^ i) a) \<and> bn_val ((shift_4 ^^ i) a) = bn_val a div 16 ^ i"
  by (induction i) (auto simp: bignum_def shift_4_val power_Suc2 div_mult2_eq simp del: power_Suc)

text \<open>The digit at a position: an odd number between -15 and 15.\<close>

definition signed_digit :: "nat \<Rightarrow> int" where
  "signed_digit x = 2 * int (x mod 32 div 2) - 15"

lemma low_digit_cases:
  "\<forall>m \<in> set [0..<32]. let w = of_nat m :: u32; d = (w XOR (drop_bit 4 w - 1)) AND 15 in
     unat (drop_bit 1 d) = (if 16 \<le> m then m div 2 - 8 else 7 - m div 2) \<and> (d AND 1) - 1 = (if odd m \<longleftrightarrow> 16 \<le> m then 0 else - 1)"
  by code_simp

lemma low_digit_val:
  assumes "bignum a"
  shows "unat (drop_bit 1 (low_digit a)) < 8"
    "int (2 * unat (drop_bit 1 (low_digit a)) + 1) = \<bar>signed_digit (bn_val a)\<bar>"
    "(low_digit a AND 1) - 1 = (if odd (bn_val a) \<longleftrightarrow> 0 < signed_digit (bn_val a) then 0 else - 1)"
proof -
  obtain d ds where a: "a = d # ds" using assms by (cases a) (simp_all add: bignum_def)
  define m where "m = bn_val a mod 32"
  have m: "m < 32" by (simp add: m_def)
  have p: "push_bit 5 1 - 1 = (mask 5 :: u32)" by (simp add: mask_numeral)
  have "unat (a ! 0 AND (push_bit 5 1 - 1)) = unat d mod 32" unfolding p take_bit_eq_mask [symmetric] by (simp only: a nth_Cons_0 unsigned_take_bit_eq take_bit_eq_mod [where ?'a = nat]) simp
  also have "\<dots> = m"
  proof -
    have "bn_val a = unat d + 32 * (2 ^ 25 * bn_val ds)" by (simp add: a)
    then show ?thesis unfolding m_def by (simp only: mod_mult_self2)
  qed
  finally have w: "a ! 0 AND (push_bit 5 1 - 1) = of_nat m" by (metis of_nat_unat ucast_id)
  have o: "odd (bn_val a) \<longleftrightarrow> odd m" unfolding m_def by (simp add: dvd_mod_iff)
  have c: "unat (drop_bit 1 (low_digit a)) = (if 16 \<le> m then m div 2 - 8 else 7 - m div 2)" "(low_digit a AND 1) - 1 = (if odd m \<longleftrightarrow> 16 \<le> m then 0 else - 1)"
    using low_digit_cases [THEN bspec, of m] m unfolding low_digit_def Let_def w by simp_all
  have s: "signed_digit (bn_val a) = 2 * int (m div 2) - 15" by (simp add: signed_digit_def m_def)
  have md: "m div 2 < 16" "16 \<le> m \<longleftrightarrow> 8 \<le> m div 2" using m by linarith+
  show "unat (drop_bit 1 (low_digit a)) < 8" unfolding c(1) using md by auto
  show "int (2 * unat (drop_bit 1 (low_digit a)) + 1) = \<bar>signed_digit (bn_val a)\<bar>" unfolding c s using md by auto
  show "(low_digit a AND 1) - 1 = (if odd (bn_val a) \<longleftrightarrow> 0 < signed_digit (bn_val a) then 0 else - 1)" unfolding c s o using md by auto
qed

text \<open>The digits before a position, summed: what is missing of the scalar is a carry.\<close>

lemma signed_digit_carry: "signed_digit x = int (x mod 16) + (1 - int (x mod 2)) - 16 * (1 - int (x div 16 mod 2))"
proof -
  have "x mod 32 = x mod 16 + 16 * (x div 16 mod 2)" using mod_mult2_eq [of x 16 2] by simp
  moreover have "x mod 16 = 2 * (x mod 16 div 2) + x mod 16 mod 2" by simp
  moreover have "x mod 16 mod 2 = x mod 2" by (simp add: mod_mod_cancel)
  moreover have "x mod 32 div 2 = x mod 16 div 2 + 8 * (x div 16 mod 2)" unfolding calculation(1)
    using div_mult_self2 [of 2 "x mod 16" "8 * (x div 16 mod 2)"] by simp
  ultimately have "2 * (x mod 32 div 2) + x mod 2 = x mod 16 + 16 * (x div 16 mod 2)" by simp
  then have "int (2 * (x mod 32 div 2) + x mod 2) = int (x mod 16 + 16 * (x div 16 mod 2))" by (simp only:)
  then show ?thesis unfolding signed_digit_def of_nat_add of_nat_mult by simp
qed

lemma signed_digit_sum:
  "(\<Sum>j<i. signed_digit (x div 16 ^ j) * 16 ^ j) = int (x mod 16 ^ i) + (1 - int (x mod 2)) - 16 ^ i * (1 - int (x div 16 ^ i mod 2))"
proof (induction i)
  case (Suc i)
  have "x mod 16 ^ Suc i = 16 ^ i * (x div 16 ^ i mod 16) + x mod 16 ^ i" unfolding power_Suc2 by (rule mod_mult2_eq)
  moreover have "x div 16 ^ Suc i = x div 16 ^ i div 16" unfolding power_Suc2 by (rule div_mult2_eq)
  ultimately show ?case unfolding sum.lessThan_Suc Suc signed_digit_carry [of "x div 16 ^ i"] by (simp add: algebra_simps)
qed simp

lemma signed_digit_total:
  assumes "odd x" "x < 2 ^ 257"
  shows "(\<Sum>j<64. signed_digit (x div 16 ^ j) * 16 ^ j) = int x - 2 ^ 256"
proof -
  have p: "(16 :: nat) ^ 64 = 2 ^ 256" "(16 :: int) ^ 64 = 2 ^ 256" by simp_all
  have "x div 2 ^ 256 < 2" using assms(2) by (simp add: div_less_iff_less_mult)
  then have "x div 16 ^ 64 mod 2 = x div 2 ^ 256" unfolding p by (rule mod_less)
  moreover have "int x = int (x mod 2 ^ 256) + 2 ^ 256 * int (x div 2 ^ 256)"
    using mod_mult_div_eq [of x "2 ^ 256"] by (metis of_nat_add of_nat_mult of_nat_numeral of_nat_power)
  moreover have "x mod 2 = 1" using assms(1) by (simp add: odd_iff_mod_2_eq_one)
  ultimately show ?thesis unfolding signed_digit_sum p by simp
qed

end
