(* ===== verification/Scalar_Mult.thy ===== *)
theory Scalar_Mult
  imports Scalar_Laws
begin

text \<open>
  What the multiplication of the base point in \<open>src/crypto/ecdsa.c\<close> computes: sums of points as relations of coordinates, the additions of the loop
  over the signed digits of the scalar, and the result as a multiple of the point the table was made for.
\<close>

section \<open>Sums of points\<close>

text \<open>
  The sum of two points by the chord or the tangent, as a relation of coordinates modulo the prime. The last condition keeps the new denominator
  invertible.
\<close>

definition point_sum :: "nat \<Rightarrow> int \<Rightarrow> int \<times> int \<Rightarrow> int \<times> int \<Rightarrow> int \<times> int \<Rightarrow> bool" where
  "point_sum P a p q r \<longleftrightarrow> (\<exists>l. slope P a p q l \<and> cg P (fst r) (l ^ 2 - fst p - fst q) \<and> cg P (snd r) (l * (fst p - fst r) - snd p)) \<and>
     coprime (if cg P (fst p) (fst q) then snd p + snd q else fst p - fst q) (int P)"

definition neg_point :: "int \<times> int \<Rightarrow> int \<times> int" where
  "neg_point p = (fst p, - snd p)"

lemma point_sum_neg:
  assumes "point_sum P a p q r"
  shows "point_sum P a (neg_point p) (neg_point q) (neg_point r)"
proof -
  obtain l where l: "slope P a p q l" "cg P (fst r) (l ^ 2 - fst p - fst q)" "cg P (snd r) (l * (fst p - fst r) - snd p)"
    using assms by (auto simp: point_sum_def)
  have "slope P a (neg_point p) (neg_point q) (- l)"
    using l(1) cg_minus [of P "l * (fst p - fst q)" "snd p - snd q"] by (simp add: slope_def neg_point_def split_beta)
  moreover have "cg P (- snd r) (- l * (fst p - fst r) - - snd p)" using cg_minus [OF l(3)] by simp
  moreover have "coprime (if cg P (fst p) (fst q) then - snd p + - snd q else fst p - fst q) (int P)"
    using assms coprime_minus_left_iff [of "snd p + snd q" "int P"] unfolding point_sum_def by (cases "cg P (fst p) (fst q)") simp_all
  ultimately show ?thesis using l(2) unfolding point_sum_def by (intro conjI exI [of _ "- l"]) (simp_all only: neg_point_def fst_conv snd_conv power2_minus)
qed

lemma jrep_cg: "jrep p J x y z \<Longrightarrow> cg (bn_val p) x' x \<Longrightarrow> cg (bn_val p) y' y \<Longrightarrow> jrep p J x' y' z"
  unfolding jrep_def using fe_cg cg_mult [OF cg_sym cg_refl] by blast

lemma jacobian_sum:
  assumes c: "curve_ok curve" and p: "arep (curve_prime curve) cp (fst p) (snd p)"
    and j: "jrep (curve_prime curve) J (fst q) (snd q) z" and z: "coprime z (int (bn_val (curve_prime curve)))"
    and s: "point_sum (bn_val (curve_prime curve)) (coeff_a curve) p q r"
  shows "\<exists>J' z'. point_jacobian_add cp J curve = Some J' \<and> jrep (curve_prime curve) J' (fst r) (snd r) z' \<and>
    coprime z' (int (bn_val (curve_prime curve)))"
proof -
  let ?p = "curve_prime curve"
  let ?P = "bn_val ?p"
  obtain l where l: "slope ?P (coeff_a curve) p q l" "cg ?P (fst r) (l ^ 2 - fst p - fst q)" "cg ?P (snd r) (l * (fst p - fst r) - snd p)"
    and h: "coprime (if cg ?P (fst p) (fst q) then snd p + snd q else fst p - fst q) (int ?P)"
    using s by (auto simp: point_sum_def)
  have "fe ?p 2 (pt_x cp) (fst p)" "fe ?p 2 (pt_y cp) (snd p)" using p fe_mono [OF fr_fe, of ?p _ _ 2] by (simp_all add: arep_def)
  then obtain J' where J: "point_jacobian_add cp J curve = Some J'"
    "jrep ?p J' (l ^ 2 - fst p - fst q) (l * (fst p - (l ^ 2 - fst p - fst q)) - snd p)
      ((if cg ?P (fst p) (fst q) then (snd p + snd q) * z ^ 3 else (fst p - fst q) * z ^ 2) * z)"
    using jacobian_add [OF c _ _ j z, of cp "fst p" "snd p" l] l(1) by auto
  have "cg ?P (l * (fst p - fst r) - snd p) (l * (fst p - (l ^ 2 - fst p - fst q)) - snd p)" by (intro cg_diff cg_mult cg_refl l(2))
  then have "jrep ?p J' (fst r) (snd r) ((if cg ?P (fst p) (fst q) then (snd p + snd q) * z ^ 3 else (fst p - fst q) * z ^ 2) * z)"
    by (intro jrep_cg [OF J(2)] l(2) cg_trans [OF l(3)])
  moreover have "coprime ((if cg ?P (fst p) (fst q) then (snd p + snd q) * z ^ 3 else (fst p - fst q) * z ^ 2) * z) (int ?P)"
    using h z by (auto split: if_splits)
  ultimately show ?thesis using J(1) by blast
qed

lemma jacobian_flip:
  assumes "modulus p" "jrep p J x y z" "c = 0 \<or> c = - 1"
  shows "\<exists>y'. conditional_negate c (j_y J) p = Some y' \<and> jrep p (J\<lparr> j_y := y' \<rparr>) x (if c = 0 then y else - y) z"
proof -
  have "fe p 2 (j_y J) (y * z ^ 3)" using assms(2) by (simp add: jrep_def)
  then obtain y' where y: "conditional_negate c (j_y J) p = Some y'" "fe p 2 y' (if c = 0 then y * z ^ 3 else - (y * z ^ 3))"
    using conditional_negate_val [OF assms(1) _ assms(3)] by blast
  have "fe p 2 y' ((if c = 0 then y else - y) * z ^ 3)" using y(2) by (cases "c = 0") simp_all
  then show ?thesis using y(1) assms(2) by (simp add: jrep_def)
qed

section \<open>The multiplication of the base point\<close>

text \<open>The sum of the signed digits before a position.\<close>

definition digit_sum :: "nat \<Rightarrow> nat \<Rightarrow> int" where
  "digit_sum x i = (\<Sum>j<i. signed_digit (x div 16 ^ j) * 16 ^ j)"

lemma digit_sum_Suc: "digit_sum x (Suc i) = digit_sum x i + signed_digit (x div 16 ^ i) * 16 ^ i"
  by (simp add: digit_sum_def)

lemma digit_positive: "0 < signed_digit x \<longleftrightarrow> odd (x div 16)"
proof -
  have "x mod 32 = x mod 16 + 16 * (x div 16 mod 2)" using mod_mult2_eq [of x 16 2] by simp
  moreover have "2 * (x mod 32 div 2) + x mod 32 mod 2 = x mod 32" "x mod 32 mod 2 < 2" "x mod 16 < 16" by simp_all
  ultimately have "8 \<le> x mod 32 div 2 \<longleftrightarrow> x div 16 mod 2 \<noteq> 0" by (cases "x div 16 mod 2 = 0") linarith+
  then show ?thesis unfolding signed_digit_def odd_iff_mod_2_eq_one by auto
qed

lemma digit_not_zero: "signed_digit x \<noteq> 0"
proof -
  have "odd (signed_digit x)" by (simp add: signed_digit_def)
  then show ?thesis by auto
qed

text \<open>
  The multiples of a point: the table holds the odd multiples of its powers of 16, negation is negation of the second coordinate, and each
  addition that the digits of \<open>x\<close> ask for is the sum by chord or tangent.
\<close>

definition table_of :: "ecdsa_curve \<Rightarrow> (int \<Rightarrow> int \<times> int) \<Rightarrow> bool" where
  "table_of curve M \<longleftrightarrow> (\<forall>m. M (- m) = neg_point (M m)) \<and>
     (\<forall>i < 64. \<forall>j < 8. let p = M (int (2 * j + 1) * 16 ^ i) in arep (curve_prime curve) (precomputed curve ! i ! j) (fst p) (snd p))"

definition table_sums :: "ecdsa_curve \<Rightarrow> (int \<Rightarrow> int \<times> int) \<Rightarrow> nat \<Rightarrow> bool" where
  "table_sums curve M x \<longleftrightarrow> (\<forall>i \<in> {1..<64}. point_sum (bn_val (curve_prime curve)) (coeff_a curve)
     (M (signed_digit (x div 16 ^ i) * 16 ^ i)) (M (digit_sum x i)) (M (digit_sum x (Suc i))))"

lemma table_entry:
  assumes "table_of curve M" "bignum a" "i < 64"
  defines "p \<equiv> M (\<bar>signed_digit (bn_val a)\<bar> * 16 ^ i)"
  shows "arep (curve_prime curve) (precomputed curve ! i ! unat (drop_bit 1 (low_digit a))) (fst p) (snd p)"
proof -
  have "p = M (int (2 * unat (drop_bit 1 (low_digit a)) + 1) * 16 ^ i)" unfolding p_def low_digit_val(2) [OF assms(2)] ..
  then show ?thesis using assms(1,3) low_digit_val(1) [OF assms(2)] unfolding table_of_def Let_def by simp
qed

lemma scalar_multiply_loop_val:
  assumes c: "curve_ok curve" and t: "table_of curve M" "table_sums curve M x" and i: "i \<le> 63"
    and a: "bignum a" "bn_val a = x div 16 ^ i"
    and J: "jrep (curve_prime curve) J (fst (M (sgn (signed_digit (x div 16 ^ i)) * digit_sum x (Suc i))))
      (snd (M (sgn (signed_digit (x div 16 ^ i)) * digit_sum x (Suc i)))) z" "coprime z (int (bn_val (curve_prime curve)))"
  shows "\<exists>a' J' z'. scalar_multiply_loop curve [Suc i..<64] a J = Some (a', J') \<and> bignum a' \<and> bn_val a' = x div 16 ^ 63 \<and>
    jrep (curve_prime curve) J' (fst (M (sgn (signed_digit (x div 16 ^ 63)) * digit_sum x 64))) (snd (M (sgn (signed_digit (x div 16 ^ 63)) * digit_sum x 64))) z' \<and>
    coprime z' (int (bn_val (curve_prime curve)))"
  using i a J
proof (induction i arbitrary: a J z rule: inc_induct)
  case base
  then show ?case by auto
next
  case (step i)
  let ?p = "curve_prime curve" and ?a = "shift_4 a" and ?d = "signed_digit (x div 16 ^ i)" and ?e = "signed_digit (x div 16 ^ Suc i)"
  let ?s = "digit_sum x (Suc i)"
  have P: "modulus ?p" using c by (simp add: curve_ok_def)
  have neg: "M (- m) = neg_point (M m)" for m using t(1) by (simp add: table_of_def)
  have a': "bignum ?a" "bn_val ?a = x div 16 ^ Suc i"
    using shift_4_val [of a] step.prems(1,2) by (simp_all add: bignum_def power_Suc2 div_mult2_eq del: power_Suc)
  define m where "m = (low_digit ?a AND 1) - 1"
  have m: "m = (if 0 < ?d \<longleftrightarrow> 0 < ?e then 0 else - 1)"
    unfolding m_def low_digit_val(3) [OF a'(1)] a'(2) digit_positive [of "x div 16 ^ i"] by (simp add: power_Suc2 div_mult2_eq del: power_Suc)
  have sg: "sgn ?e = (if m = 0 then sgn ?d else - sgn ?d)" using digit_not_zero [of "x div 16 ^ i"] digit_not_zero [of "x div 16 ^ Suc i"] unfolding m
    by (auto simp: sgn_if simp del: power_Suc)
  obtain y where y: "conditional_negate m (j_y J) ?p = Some y" "jrep ?p (J\<lparr> j_y := y \<rparr>) (fst (M (sgn ?e * ?s))) (snd (M (sgn ?e * ?s))) z"
  proof -
    have e: "(if m = 0 then snd (M (sgn ?d * ?s)) else - snd (M (sgn ?d * ?s))) = snd (M (sgn ?e * ?s))" "fst (M (sgn ?e * ?s)) = fst (M (sgn ?d * ?s))"
      using neg [of "sgn ?d * ?s"] unfolding sg by (simp_all add: neg_point_def)
    have "m = 0 \<or> m = - 1" unfolding m by simp
    then show ?thesis using that jacobian_flip [OF P step.prems(3), of m] unfolding e by blast
  qed
  have e: "arep ?p (precomputed curve ! Suc i ! unat (drop_bit 1 (low_digit ?a))) (fst (M (\<bar>?e\<bar> * 16 ^ Suc i))) (snd (M (\<bar>?e\<bar> * 16 ^ Suc i)))"
    using table_entry [OF t(1) a'(1), of "Suc i"] step.hyps unfolding a'(2) by simp
  have ps: "point_sum (bn_val ?p) (coeff_a curve) (M (?e * 16 ^ Suc i)) (M ?s) (M (digit_sum x (Suc (Suc i))))"
    using t(2) step.hyps by (simp add: table_sums_def del: power_Suc)
  have ps': "point_sum (bn_val ?p) (coeff_a curve) (M (\<bar>?e\<bar> * 16 ^ Suc i)) (M (sgn ?e * ?s)) (M (sgn ?e * digit_sum x (Suc (Suc i))))"
  proof (cases "0 < ?e")
    case True
    then show ?thesis using ps by (simp del: power_Suc)
  next
    case False
    then have "sgn ?e = - 1" "\<bar>?e\<bar> = - ?e" using digit_not_zero [of "x div 16 ^ Suc i"] by (simp_all add: sgn_if del: power_Suc)
    then show ?thesis using point_sum_neg [OF ps] by (simp add: neg [symmetric] del: power_Suc)
  qed
  obtain J' z' where J': "point_jacobian_add (precomputed curve ! Suc i ! unat (drop_bit 1 (low_digit ?a))) (J\<lparr> j_y := y \<rparr>) curve = Some J'"
      "jrep ?p J' (fst (M (sgn ?e * digit_sum x (Suc (Suc i))))) (snd (M (sgn ?e * digit_sum x (Suc (Suc i))))) z'" "coprime z' (int (bn_val ?p))"
    using jacobian_sum [OF c e y(2) step.prems(4) ps'] by blast
  have "scalar_multiply_loop curve [Suc i..<64] a J = scalar_multiply_loop curve [Suc (Suc i)..<64] ?a J'"
    using step.hyps y(1) J'(1) upt_conv_Cons [of "Suc i" 64] unfolding m_def by (simp add: Let_def)
  then show ?case using step.IH [OF a' J'(2,3)] by simp
qed

definition odd_number :: "nat \<Rightarrow> nat \<Rightarrow> nat" where
  "odd_number n k = 2 ^ 256 + k - (if odd k then 0 else n)"

lemma last_flip:
  assumes "bignum a"
  shows "(drop_bit 4 (a ! 0) AND 1) - 1 = (if 0 < signed_digit (bn_val a) then 0 else (- 1 :: u32))"
proof -
  obtain d ds where a: "a = d # ds" using assms by (cases a) (simp_all add: bignum_def)
  have "bn_val a = unat d + 16 * (2 ^ 26 * bn_val ds)" by (simp add: a)
  then have "bn_val a div 16 = unat d div 16 + 2 ^ 26 * bn_val ds" by (simp only: div_mult_self2)
  then have "odd (bn_val a div 16) \<longleftrightarrow> odd (unat d div 16)" by simp
  moreover have "unat (drop_bit 4 d) = unat d div 16" by (simp add: unat_drop_bit)
  ultimately show ?thesis unfolding digit_positive and_1_if by (simp add: a)
qed

text \<open>The number of a scalar that is not zero, and the sum of its digits.\<close>

lemma odd_scalar_number:
  assumes "bignum k" "0 < bn_val k" "bn_val k < bn_val n" "bignum n" "odd (bn_val n)" "bn_val n < 2 ^ 256"
  defines "x \<equiv> odd_number (bn_val n) (bn_val k)"
  shows "\<exists>a. odd_scalar k n = Some (a, True) \<and> bignum a \<and> bn_val a = x \<and> digit_sum x 64 = int (bn_val k) - (if odd (bn_val k) then 0 else int (bn_val n))"
proof -
  obtain a where a: "odd_scalar k n = Some (a, True)" "bignum a" "odd (bn_val a)"
      "bn_val a + (if odd (bn_val k) then 0 else bn_val n) = 2 ^ 256 + bn_val k"
    using odd_scalar_val [OF assms(1,3-6)] assms(2) by auto
  have x: "bn_val a = x" using a(4) by (simp add: x_def odd_number_def)
  have lt: "x < 2 ^ 257" using assms(3,6) by (simp add: x_def odd_number_def)
  have "int x + (if odd (bn_val k) then 0 else int (bn_val n)) = 2 ^ 256 + int (bn_val k)"
    using arg_cong [OF a(4), of int] unfolding x by (simp split: if_splits)
  then have "digit_sum x 64 = int (bn_val k) - (if odd (bn_val k) then 0 else int (bn_val n))"
    using signed_digit_total [of x] a(3) lt unfolding digit_sum_def x by linarith
  then show ?thesis using a x by blast
qed

lemma scalar_multiply_base:
  assumes c: "curve_ok curve" "top_ones (curve_prime curve)"
    and n: "bignum (curve_order curve)" "odd (bn_val (curve_order curve))" "bn_val (curve_order curve) < 2 ^ 256"
    and k: "bignum k" "0 < bn_val k" "bn_val k < bn_val (curve_order curve)"
    and t: "table_of curve M" "table_sums curve M (odd_number (bn_val (curve_order curve)) (bn_val k))"
    and z: "generate_k_random (curve_prime curve) seed = Some (z, seed')" "coprime (bn_val z) (bn_val (curve_prime curve))"
  shows "\<exists>R. scalar_multiply curve k seed = Some (R, seed') \<and>
    (let m = int (bn_val k) - (if odd (bn_val k) then 0 else int (bn_val (curve_order curve)))
     in arep (curve_prime curve) R (fst (M m)) (snd (M m)))"
proof -
  let ?p = "curve_prime curve" and ?n = "bn_val (curve_order curve)"
  let ?m = "int (bn_val k) - (if odd (bn_val k) then 0 else int ?n)"
  define x where "x = odd_number ?n (bn_val k)"
  have P: "modulus ?p" using c by (simp add: curve_ok_def)
  obtain a where a: "odd_scalar k (curve_order curve) = Some (a, True)" "bignum a" and x: "bn_val a = x" and total: "digit_sum x 64 = ?m"
    using odd_scalar_number [OF k n] unfolding x_def by blast
  have zr: "generate_k_random ?p seed = Some (z, seed')" "bignum z" "bn_val z < bn_val ?p"
    using generate_k_random_val [OF c(2), of seed] z(1) by auto
  have cz: "coprime (int (bn_val z)) (int (bn_val ?p))" using z(2) by simp
  let ?T = "precomputed curve ! 0 ! unat (drop_bit 1 (low_digit a))"
  have e: "arep ?p ?T (fst (M \<bar>signed_digit x\<bar>)) (snd (M \<bar>signed_digit x\<bar>))" using table_entry [OF t(1) a(2), of 0] unfolding x by simp
  have s1: "sgn (signed_digit (x div 16 ^ 0)) * digit_sum x (Suc 0) = \<bar>signed_digit x\<bar>" by (simp add: digit_sum_def sgn_mult_self_eq abs_sgn mult.commute)
  obtain J where J: "curve_to_jacobian ?T ?p seed = Some (J, seed')" "jrep ?p J (fst (M \<bar>signed_digit x\<bar>)) (snd (M \<bar>signed_digit x\<bar>)) (int (bn_val z))"
  proof -
    have "fe ?p 2 (pt_x ?T) (fst (M \<bar>signed_digit x\<bar>))" "fe ?p 2 (pt_y ?T) (snd (M \<bar>signed_digit x\<bar>))"
      using e by (auto simp: arep_def intro: fe_mono [OF fr_fe])
    then show ?thesis using that curve_to_jacobian_val [OF P _ _ zr] by blast
  qed
  let ?g = "sgn (signed_digit (x div 16 ^ 63))"
  obtain a' J' z' where l: "scalar_multiply_loop curve [1..<64] a J = Some (a', J')" "bignum a'" "bn_val a' = x div 16 ^ 63"
      "jrep ?p J' (fst (M (?g * ?m))) (snd (M (?g * ?m))) z'" "coprime z' (int (bn_val ?p))"
    using scalar_multiply_loop_val [OF c(1) t [folded x_def], of 0 a J "int (bn_val z)"] a(2) x J(2) cz unfolding s1 total by auto
  define f where "f = (drop_bit 4 (a' ! 0) AND 1) - 1"
  have f: "f = (if 0 < signed_digit (x div 16 ^ 63) then 0 else - 1)" unfolding f_def last_flip [OF l(2)] l(3) ..
  have neg: "M (- i) = neg_point (M i)" for i using t(1) by (simp add: table_of_def)
  have fl: "(if f = 0 then snd (M (?g * ?m)) else - snd (M (?g * ?m))) = snd (M ?m)" "fst (M (?g * ?m)) = fst (M ?m)"
    using digit_not_zero [of "x div 16 ^ 63"] neg [of "?m"] unfolding f by (auto simp: sgn_if neg_point_def)
  obtain y where y: "conditional_negate f (j_y J') ?p = Some y" "jrep ?p (J'\<lparr> j_y := y \<rparr>) (fst (M ?m)) (snd (M ?m)) z'"
  proof -
    have "f = 0 \<or> f = - 1" unfolding f by simp
    then show ?thesis using that jacobian_flip [OF P l(4), of f] unfolding fl by blast
  qed
  obtain R where R: "jacobian_to_curve (J'\<lparr> j_y := y \<rparr>) ?p = Some R" "arep ?p R (fst (M ?m)) (snd (M ?m))"
    using jacobian_to_curve_val [OF P y(2) l(5)] by blast
  have "bn_is_less k (curve_order curve)" using bn_is_less_val [OF k(1) n(1)] k(3) by simp
  then have "scalar_multiply curve k seed = Some (R, seed')"
    using a(1) J(1) l(1) y(1) R(1) by (simp add: scalar_multiply_def f_def)
  then show ?thesis using R(2) by (simp only: Let_def) blast
qed

text \<open>C2: Multiplying by a scalar from 1 to the order, less one, gives the coordinates of the scalar's multiple of
  the point the table was made for, whatever the random denominator is, as long as it is invertible: an even scalar less the order stands for
  the scalar.
\<close>

theorem scalar_multiply_result:
  assumes c: "curve_ok curve" "top_ones (curve_prime curve)"
    and n: "bignum (curve_order curve)" "odd (bn_val (curve_order curve))" "bn_val (curve_order curve) < 2 ^ 256"
    and k: "bignum k" "0 < bn_val k" "bn_val k < bn_val (curve_order curve)"
    and t: "table_of curve M" "table_sums curve M (odd_number (bn_val (curve_order curve)) (bn_val k))"
    and z: "generate_k_random (curve_prime curve) seed = Some (z, seed')" "coprime (bn_val z) (bn_val (curve_prime curve))"
  shows "\<exists>R. scalar_multiply curve k seed = Some (R, seed') \<and>
    (let m = int (bn_val k) - (if odd (bn_val k) then 0 else int (bn_val (curve_order curve)))
     in arep (curve_prime curve) R (fst (M m)) (snd (M m)))"
  by (rule scalar_multiply_base [OF assms])

text \<open>
  A function of the multiples for the witness: the digits of the scalar 1 are -15, 62 times, and 1; the points are chosen so that all the lines through
  them are horizontal.
\<close>

definition flat_multiple :: "int \<Rightarrow> int \<times> int" where
  "flat_multiple m = (let n = \<bar>m\<bar>;
     (x, y) = (if n = 1 then (- 3, 1) else if 16 ^ 63 \<le> n then (2, - 1)
       else if odd n then if n mod 17 = 0 then (- 3, - 1) else (1, 1)
       else (2, if odd (n mod 17) then - 1 else 1))
     in (x, sgn m * y))"

definition flat_table :: "curve_point list list" where
  "flat_table = (let P = curve_prime (secp256k1 []);
     num = (\<lambda>n. n # replicate 8 0); minus = (\<lambda>n. (P ! 0 - n) # tl P) in
     (\<lparr> pt_x = minus 3, pt_y = num 1 \<rparr> # replicate 7 \<lparr> pt_x = num 1, pt_y = num 1 \<rparr>) #
     map (\<lambda>i. replicate 8 \<lparr> pt_x = num 2, pt_y = (if odd i \<and> i \<noteq> 63 then num 1 else minus 1) \<rparr>) [1..<64])"

lemma power_16_mod: "(16 :: int) ^ i mod 17 = (if even i then 1 else 16)"
proof (induction i)
  case (Suc i)
  have "(16 :: int) ^ Suc i mod 17 = 16 * (16 ^ i mod 17) mod 17" unfolding power_Suc by (rule mod_mult_right_eq [symmetric])
  then show ?case unfolding Suc by simp
qed simp

lemma flat_row:
  assumes "1 \<le> i" "i < 64" "j < 8"
  shows "flat_multiple (int (2 * j + 1) * 16 ^ i) = (2, if odd i \<and> i \<noteq> 63 then 1 else - 1)"
proof -
  let ?m = "int (2 * j + 1) * 16 ^ i"
  have j: "j \<in> {0, 1, 2, 3, 4, 5, 6, 7}" using assms(3) by auto
  have e: "even ?m" "0 < ?m" using assms(1) by simp_all
  have m: "?m mod 17 = int (2 * j + 1) * (if even i then 1 else 16) mod 17" unfolding power_16_mod [symmetric] by (rule mod_mult_right_eq [symmetric])
  then have o: "odd (?m mod 17) \<longleftrightarrow> even i" using j by auto
  have "16 ^ 63 \<le> ?m \<longleftrightarrow> i = 63"
  proof (cases "i = 63")
    case False
    have "?m < 16 * 16 ^ i" using assms(3) by simp
    also have "16 * (16 :: int) ^ i = 16 ^ Suc i" by simp
    also have "(16 :: int) ^ Suc i \<le> 16 ^ 63" using False assms(2) by (intro power_increasing) simp_all
    finally show ?thesis using False by (simp del: power_Suc)
  qed simp
  moreover have "?m \<noteq> 1" using e(1) by (metis odd_one)
  ultimately show ?thesis using e o by (auto simp: flat_multiple_def)
qed

lemma flat_first_row: "j < 8 \<Longrightarrow> flat_multiple (int (2 * j + 1)) = (if j = 0 then (- 3, 1) else (1, 1))"
proof -
  assume "j < 8"
  then have "j \<in> {0, 1, 2, 3, 4, 5, 6, 7}" by auto
  then show ?thesis by (auto simp: flat_multiple_def)
qed

lemma flat_sum_before:
  assumes "1 \<le> i" "i < 64"
  shows "flat_multiple (1 - 16 ^ i) = (if odd i then (1, - 1) else (- 3, 1))"
proof -
  have g: "(16 :: int) ^ 1 \<le> 16 ^ i" "(16 :: int) ^ i \<le> 16 ^ 63" using assms by (intro power_increasing; simp)+
  have "(16 ^ i - 1 :: int) mod 17 = (16 ^ i mod 17 - 1) mod 17" by (rule mod_diff_left_eq [symmetric])
  then have m: "(16 ^ i - 1 :: int) mod 17 = (if even i then 0 else 15)" unfolding power_16_mod by simp
  have "odd ((16 :: int) ^ i - 1)" using assms(1) by simp
  moreover have "\<bar>1 - 16 ^ i\<bar> = (16 ^ i - 1 :: int)" "sgn (1 - 16 ^ i) = (- 1 :: int)" "(16 ^ i - 1 :: int) \<noteq> 1" "\<not> 16 ^ 63 \<le> (16 ^ i - 1 :: int)"
    using g by (simp_all add: sgn_if)
  ultimately show ?thesis unfolding flat_multiple_def Let_def by (simp add: m)
qed

lemma flat_numbers:
  assumes "bignum p" "bn_val p = 2 ^ 256 - 2 ^ 32 - 977"
  shows "fr p [1, 0, 0, 0, 0, 0, 0, 0, 0] 1" "fr p [2, 0, 0, 0, 0, 0, 0, 0, 0] 2"
  using assms by (simp_all add: fr_def bignum_def)

lemma flat_minus:
  "fr (curve_prime (secp256k1 t)) [0x3ffffc2e, 0x3ffffffb, 0x3fffffff, 0x3fffffff, 0x3fffffff, 0x3fffffff, 0x3fffffff, 0x3fffffff, 0xffff] (- 1)"
  "fr (curve_prime (secp256k1 t)) [0x3ffffc2c, 0x3ffffffb, 0x3fffffff, 0x3fffffff, 0x3fffffff, 0x3fffffff, 0x3fffffff, 0x3fffffff, 0xffff] (- 3)"
  by (simp_all add: fr_def bignum_def cg_def secp256k1_prime)

lemma flat_table_rows:
  "flat_table ! 0 = \<lparr> pt_x = [0x3ffffc2c, 0x3ffffffb, 0x3fffffff, 0x3fffffff, 0x3fffffff, 0x3fffffff, 0x3fffffff, 0x3fffffff, 0xffff],
     pt_y = [1, 0, 0, 0, 0, 0, 0, 0, 0] \<rparr> # replicate 7 \<lparr> pt_x = [1, 0, 0, 0, 0, 0, 0, 0, 0], pt_y = [1, 0, 0, 0, 0, 0, 0, 0, 0] \<rparr>"
  "1 \<le> i \<Longrightarrow> i < 64 \<Longrightarrow> flat_table ! i = replicate 8 \<lparr> pt_x = [2, 0, 0, 0, 0, 0, 0, 0, 0], pt_y = (if odd i \<and> i \<noteq> 63 then [1, 0, 0, 0, 0, 0, 0, 0, 0] else
     [0x3ffffc2e, 0x3ffffffb, 0x3fffffff, 0x3fffffff, 0x3fffffff, 0x3fffffff, 0x3fffffff, 0x3fffffff, 0xffff]) \<rparr>"
proof -
  let ?f = "\<lambda>i. replicate 8 \<lparr> pt_x = [2, 0, 0, 0, 0, 0, 0, 0, 0], pt_y = (if odd i \<and> i \<noteq> 63 then [1, 0, 0, 0, 0, 0, 0, 0, 0] else
     [0x3ffffc2e, 0x3ffffffb, 0x3fffffff, 0x3fffffff, 0x3fffffff, 0x3fffffff, 0x3fffffff, 0x3fffffff, 0xffff :: u32]) \<rparr>"
  have r: "replicate 8 (0 :: u32) = [0, 0, 0, 0, 0, 0, 0, 0]" by (simp add: numeral_eq_Suc)
  have t: "flat_table = (\<lparr> pt_x = [0x3ffffc2c, 0x3ffffffb, 0x3fffffff, 0x3fffffff, 0x3fffffff, 0x3fffffff, 0x3fffffff, 0x3fffffff, 0xffff],
      pt_y = [1, 0, 0, 0, 0, 0, 0, 0, 0] \<rparr> # replicate 7 \<lparr> pt_x = [1, 0, 0, 0, 0, 0, 0, 0, 0], pt_y = [1, 0, 0, 0, 0, 0, 0, 0, 0] \<rparr>) # map ?f [1..<64]"
    unfolding flat_table_def Let_def secp256k1_def r by (simp del: upt_rec_numeral)
  show "flat_table ! 0 = \<lparr> pt_x = [0x3ffffc2c, 0x3ffffffb, 0x3fffffff, 0x3fffffff, 0x3fffffff, 0x3fffffff, 0x3fffffff, 0x3fffffff, 0xffff],
     pt_y = [1, 0, 0, 0, 0, 0, 0, 0, 0] \<rparr> # replicate 7 \<lparr> pt_x = [1, 0, 0, 0, 0, 0, 0, 0, 0], pt_y = [1, 0, 0, 0, 0, 0, 0, 0, 0] \<rparr>"
    unfolding t by (rule nth_Cons_0)
  assume i: "1 \<le> i" "i < 64"
  then have n: "[1..<64] ! (i - 1) = i" by (simp del: upt_rec_numeral)
  have "flat_table ! i = map ?f [1..<64] ! (i - 1)" unfolding t using i(1) by (simp only: nth_Cons' One_nat_def Suc_le_eq) simp
  also have "\<dots> = ?f i" using i nth_map [of "i - 1" "[1..<64]" ?f] unfolding n by (simp del: upt_rec_numeral)
  finally show "flat_table ! i = ?f i" .
qed

lemma flat_table_of: "table_of (secp256k1 flat_table) flat_multiple"
proof -
  let ?p = "curve_prime (secp256k1 flat_table)"
  note f = flat_numbers [OF secp256k1_prime, of flat_table] flat_minus [of flat_table]
  have "flat_multiple (- m) = neg_point (flat_multiple m)" for m
    unfolding flat_multiple_def neg_point_def abs_minus_cancel sgn_minus by (simp add: Let_def split_beta)
  moreover have "arep ?p (flat_table ! i ! j) (fst p) (snd p)" if "i < 64" "j < 8" "p = flat_multiple (int (2 * j + 1) * 16 ^ i)" for i j p
  proof (cases "i = 0")
    case True
    then show ?thesis using that flat_first_row [OF that(2)] f by (cases j) (simp_all add: flat_table_rows arep_def)
  next
    case False
    then show ?thesis using that flat_row [of i j] f by (simp add: flat_table_rows arep_def)
  qed
  ultimately show ?thesis by (simp add: table_of_def Let_def)
qed

lemma flat_point_sums:
  assumes "P = 2 ^ 256 - 2 ^ 32 - 977"
  shows "point_sum P 0 (2, - 1) (1, - 1) (- 3, 1)" "point_sum P 0 (2, 1) (- 3, 1) (1, - 1)"
proof -
  have d: "\<not> cg P 2 1" "\<not> cg P 2 (- 3)" unfolding cg_def assms by simp_all
  have "coprime 5 (int P)" unfolding assms coprime_iff_gcd_eq_1 by (subst gcd.commute, subst gcd_red_int) (simp, code_simp)
  then show "point_sum P 0 (2, - 1) (1, - 1) (- 3, 1)" "point_sum P 0 (2, 1) (- 3, 1) (1, - 1)"
    unfolding point_sum_def using d by (simp_all add: slope_def exI [of _ 0])
qed

lemma flat_digits:
  assumes "x = 2 ^ 256 + 1" "1 \<le> i" "i < 64"
  shows "signed_digit (x div 16 ^ i) = (if i = 63 then 1 else - 15)" "digit_sum x i = 1 - 16 ^ i"
proof -
  have p: "(2 :: nat) ^ 256 = 16 ^ (64 - i) * 16 ^ i" using assms(3) by (simp flip: power_add)
  have g: "(1 :: nat) < 16 ^ i" using assms(2) by (intro one_less_power) simp_all
  have d: "x div 16 ^ i = 16 ^ (64 - i)" "x mod 16 ^ i = 1" 
  proof -
    have "(c * b + 1) div b = c" "(c * b + 1) mod b = 1" if "1 < b" for b c :: nat using that div_mult_self3 [of b c 1] mod_mult_self3 [of c b 1] by (simp_all only: div_less mod_less)
    then show "x div 16 ^ i = 16 ^ (64 - i)" "x mod 16 ^ i = 1" unfolding assms(1) p using g by blast+
  qed
  have e: "even ((16 :: nat) ^ (64 - i))" using assms(3) by simp
  have o: "x mod 2 = 1" unfolding assms(1) by simp
  show "digit_sum x i = 1 - 16 ^ i" unfolding digit_sum_def signed_digit_sum d using e o by (simp add: even_iff_mod_2_eq_zero)
  show "signed_digit (x div 16 ^ i) = (if i = 63 then 1 else - 15)"
  proof (cases "i = 63")
    case False
    then have "64 - i = 2 + (62 - i)" using assms(3) by simp
    then have "(16 :: nat) ^ (64 - i) = 16 ^ 2 * 16 ^ (62 - i)" by (metis power_add)
    then have "(16 :: nat) ^ (64 - i) = 32 * (8 * 16 ^ (62 - i))" by simp
    then have "(16 :: nat) ^ (64 - i) mod 32 = 0" by (simp only: mod_mult_self1_is_0)
    then show ?thesis unfolding d signed_digit_def using False by simp
  qed (unfold d, simp add: signed_digit_def)
qed

lemma flat_table_sums: "table_sums (secp256k1 flat_table) flat_multiple (2 ^ 256 + 1)"
  unfolding table_sums_def
proof
  let ?x = "2 ^ 256 + 1 :: nat" and ?P = "bn_val (curve_prime (secp256k1 flat_table))"
  fix i :: nat
  assume "i \<in> {1..<64}"
  then have i: "1 \<le> i" "i < 64" by simp_all
  note d = flat_digits [OF refl i] and s = flat_point_sums [OF secp256k1_prime(2), of flat_table]
  have a: "flat_multiple (1 - 16 ^ i) = (if odd i then (1, - 1) else (- 3, 1))" by (rule flat_sum_before [OF i])
  have neg: "flat_multiple (- m) = neg_point (flat_multiple m)" for m using flat_table_of by (simp add: table_of_def)
  show "point_sum ?P (coeff_a (secp256k1 flat_table)) (flat_multiple (signed_digit (?x div 16 ^ i) * 16 ^ i)) (flat_multiple (digit_sum ?x i))
    (flat_multiple (digit_sum ?x (Suc i)))"
  proof (cases "i = 63")
    case True
    have r: "flat_multiple (1 * 16 ^ i) = (2, - 1)" using flat_row [of i 0] True by simp
    have "digit_sum ?x (Suc i) = (1 - 16 ^ i) + 1 * 16 ^ i" unfolding digit_sum_Suc d by (simp only: True refl if_True)
    then have "digit_sum ?x (Suc i) = 1" by simp
    moreover have "flat_multiple 1 = (- 3, 1)" using flat_first_row [of 0] by simp
    ultimately show ?thesis using s(1) a r True unfolding d by simp
  next
    case False
    have r: "flat_multiple (- 15 * 16 ^ i) = (2, if odd i then - 1 else 1)" using flat_row [of i 7] neg [of "15 * 16 ^ i"] False i
      by (simp add: neg_point_def)
    have "digit_sum ?x (Suc i) = 1 - 16 ^ Suc i" using flat_digits(2) [OF refl, of "Suc i"] False i by simp
    then have b: "flat_multiple (digit_sum ?x (Suc i)) = (if even i then (1, - 1) else (- 3, 1))" using flat_sum_before [of "Suc i"] False i by simp
    show ?thesis unfolding b unfolding d using s a r False by (cases "odd i") simp_all
  qed
qed

lemma first_random:
  "random_digits 8 1 = ([1015568748, 512263643, 18219390, 879966917, 217083232, 513327423, 106356114, 241328073, 59028], (lcg ^^ 9) 1)"
proof -
  have "snd (random_digits 8 1) = (lcg ^^ 9) 1" by (simp only: random_digits_8 snd_conv)
  moreover have "random_digits 8 1 = ([1015568748, 512263643, 18219390, 879966917, 217083232, 513327423, 106356114, 241328073, 59028], 70837908)" by code_simp
  ultimately show ?thesis by (simp only: snd_conv)
qed

lemma flat_random:
  "generate_k_random (curve_prime (secp256k1 t)) 1 =
    Some ([1015568748, 512263643, 18219390, 879966917, 217083232, 513327423, 106356114, 241328073, 59028], (lcg ^^ 9) 1)"
proof -
  have "bn_is_less [1015568748, 512263643, 18219390, 879966917, 217083232, 513327423, 106356114, 241328073, 59028] (curve_prime (secp256k1 t))"
    by (subst bn_is_less_val) (simp_all add: secp256k1_prime, simp add: bignum_def)
  then show ?thesis using first_random by (subst generate_k_random.simps) (simp add: bn_is_zero_val)
qed

lemma coprime_certificate: "(z :: nat) * u = 1 + w * P \<Longrightarrow> coprime z P"
proof (rule coprimeI)
  fix c :: nat
  assume "z * u = 1 + w * P" "c dvd z" "c dvd P"
  then have "c dvd 1 + w * P" "c dvd w * P" using dvd_mult2 [of c z u] by simp_all
  then have "c dvd (1 + w * P) - w * P" by (rule dvd_diff_nat)
  then show "is_unit c" by simp
qed

lemma flat_coprime: "coprime (bn_val [1015568748, 512263643, 18219390, 879966917, 217083232, 513327423, 106356114, 241328073, 59028]) (bn_val (curve_prime (secp256k1 t)))"
  unfolding secp256k1_prime
  by (intro coprime_certificate [of _ 38116254169865071250974942922322468396024102617626889543140006656305950724308
        34331280791170468729971857794706433765338005753269984325409846016146958168769]) auto

theorem scalar_multiply_result_witness:
  "\<exists>R. scalar_multiply (secp256k1 flat_table) [1, 0, 0, 0, 0, 0, 0, 0, 0] 1 = Some (R, (lcg ^^ 9) 1) \<and>
    arep (curve_prime (secp256k1 flat_table)) R (- 3) 1"
proof -
  let ?c = "secp256k1 flat_table" and ?k = "[1, 0, 0, 0, 0, 0, 0, 0, 0] :: u32 list"
  have k: "bignum ?k" "bn_val ?k = 1" by (simp_all add: bignum_def)
  have m: "modulus (curve_prime ?c)" by (simp add: modulus_def secp256k1_prime_ok secp256k1_prime)
  have c: "curve_ok ?c" using m by (simp add: curve_ok_def) (simp add: secp256k1_def word_le_nat_alt)
  have t: "top_ones (curve_prime ?c)" by (simp add: top_ones_def secp256k1_prime)
  have f: "flat_multiple 1 = (- 3, 1)" using flat_first_row [of 0] by simp
  show ?thesis
    using scalar_multiply_result [OF c t _ _ _ k(1) _ _ flat_table_of _ flat_random flat_coprime] flat_table_sums f
    unfolding k secp256k1_order by (simp add: odd_number_def secp256k1_order)
qed

section \<open>The recoding, in both directions\<close>

lemma digits_div:
  assumes "bignum a" "i < 9"
  shows "bn_val a div 2 ^ (30 * i) = unat (a ! i) + 2 ^ 30 * bn_val (drop (Suc i) a)"
proof -
  have "drop i a = a ! i # drop (Suc i) a" using assms by (simp add: Cons_nth_drop_Suc bignum_def)
  moreover have "bn_val (drop i a) = bn_val a div 2 ^ (30 * i)" using assms(1) by (intro bn_val_drop) (simp add: bignum_def)
  ultimately show ?thesis by (metis bn_val.simps(2))
qed

lemma div_shift: "s \<le> m \<Longrightarrow> (x + 2 ^ m * y) div 2 ^ s = x div 2 ^ s + 2 ^ (m - s) * (y :: nat)"
proof -
  assume "s \<le> m"
  then have "(2 :: nat) ^ m = 2 ^ s * 2 ^ (m - s)" by (simp flip: power_add)
  then have e: "(2 :: nat) ^ m * y = 2 ^ s * (2 ^ (m - s) * y)" by (simp only: mult.assoc)
  show ?thesis unfolding e by simp
qed

lemma mod_32_shift: "5 \<le> m \<Longrightarrow> (x + 2 ^ m * y) mod 32 = x mod (32 :: nat)"
proof -
  assume "5 \<le> m"
  then have "(2 :: nat) ^ m * y = 2 ^ 5 * (2 ^ (m - 5) * y)" by (simp only: flip: power_add mult.assoc) simp
  then have "x + 2 ^ m * y = x + 32 * (2 ^ (m - 5) * y)" by simp
  then show ?thesis by (simp only: mod_mult_self2)
qed

lemma unat_low5: "unat (w AND 31 :: u32) = unat w mod 32"
proof -
  have "w AND 31 = take_bit 5 w" by (simp add: take_bit_eq_mask mask_numeral)
  then show ?thesis by (simp only: unsigned_take_bit_eq take_bit_eq_mod [where ?'a = nat]) simp
qed

lemma next_bits_val:
  assumes a: "bignum a" and i: "idx < 9" "s < 30" "4 \<le> 30 * idx + s"
  defines "pos \<equiv> 30 * idx + s - 4"
  shows "\<exists>b. next_bits a (idx, a ! idx, int s) = (b, (pos div 30, a ! (pos div 30), int (pos mod 30))) \<and> unat (b AND 31) = bn_val a div 2 ^ pos mod 32"
proof (cases "s < 4")
  case False
  then have p: "pos = (s - 4) + 30 * idx" "int s - 4 = int (s - 4)" using i(3) by (simp_all add: pos_def)
  have d: "pos div 30 = idx" "pos mod 30 = s - 4" unfolding p using i(2) by simp_all
  have "bn_val a div 2 ^ pos = bn_val a div 2 ^ (30 * idx) div 2 ^ (s - 4)" unfolding p by (simp only: power_add div_mult2_eq mult.commute [of "2 ^ (s - 4)"])
  also have "\<dots> = unat (a ! idx) div 2 ^ (s - 4) + 2 ^ (30 - (s - 4)) * bn_val (drop (Suc idx) a)"
    unfolding digits_div [OF a i(1)] using i(2) by (intro div_shift) simp
  finally have "bn_val a div 2 ^ pos mod 32 = unat (a ! idx) div 2 ^ (s - 4) mod 32" using i(2) by (simp add: mod_32_shift)
  moreover have "unat (drop_bit (s - 4) (a ! idx)) = unat (a ! idx) div 2 ^ (s - 4)" by (simp only: unat_drop_bit)
  moreover have "next_bits a (idx, a ! idx, int s) = (drop_bit (s - 4) (a ! idx), idx, a ! idx, int (s - 4))"
    unfolding next_bits_def Let_def prod.case p(2) by simp
  ultimately show ?thesis unfolding d by (simp only: unat_low5) simp
next
  case True
  then obtain j where j: "idx = Suc j" using i(3) by (cases idx) auto
  have p: "pos = (s + 26) + 30 * j" using True j by (simp add: pos_def)
  have d: "pos div 30 = j" "pos mod 30 = s + 26" unfolding p using True by simp_all
  have s: "nat (- (int s - 4)) = 4 - s" "int s - 4 + 30 = int (s + 26)" using True by simp_all
  let ?u = "drop_bit (s + 26) (a ! j)" and ?v = "a ! Suc j"
  have j9: "j < 9" "Suc j < 9" using i(1) j by simp_all
  have "unat (a ! j) < 2 ^ 30" using a j9 by (intro normal_nth) (simp_all add: bignum_def)
  moreover have "(2 :: nat) ^ 30 = 2 ^ (4 - s) * 2 ^ (s + 26)" using True by (simp flip: power_add)
  ultimately have u: "unat ?u = unat (a ! j) div 2 ^ (s + 26)" "unat ?u < 2 ^ (4 - s)"
    by (simp_all only: unat_drop_bit div_less_iff_less_mult zero_less_power zero_less_numeral)
  have "unat (?u OR push_bit (4 - s) ?v) = (unat ?u + 2 ^ (4 - s) * unat ?v) mod 2 ^ 32" using unat_or_push_mod [OF u(2), of ?v] by simp
  then have "unat (?u OR push_bit (4 - s) ?v) mod 32 = (unat ?u + 2 ^ (4 - s) * unat ?v) mod 32"
    using mod_mod_cancel [of 32 "2 ^ 32" "unat ?u + 2 ^ (4 - s) * unat ?v"] by simp
  moreover have "bn_val a div 2 ^ pos mod 32 = (unat ?u + 2 ^ (4 - s) * unat ?v) mod 32"
  proof -
    have n: "bn_val (drop (Suc j) a) = unat ?v + 2 ^ 30 * bn_val (drop (Suc (Suc j)) a)"
      using digits_div [OF a j9(2)] bn_val_drop [of a "Suc j"] a by (simp add: bignum_def)
    have "bn_val a div 2 ^ pos = bn_val a div 2 ^ (30 * j) div 2 ^ (s + 26)"
      unfolding p power_add [of _ "s + 26"] mult.commute [of "2 ^ (s + 26)"] by (rule div_mult2_eq)
    also have "\<dots> = unat ?u + 2 ^ (4 - s) * bn_val (drop (Suc j) a)"
      unfolding digits_div [OF a j9(1)] u(1) using True div_shift [of "s + 26" 30 "unat (a ! j)" "bn_val (drop (Suc j) a)"] by simp
    also have "\<dots> = unat ?u + 2 ^ (4 - s) * unat ?v + 2 ^ (4 - s + 30) * bn_val (drop (Suc (Suc j)) a)"
      unfolding n by (simp only: power_add add_mult_distrib2 add.assoc mult.assoc)
    finally show ?thesis by (simp only: mod_32_shift)
  qed
  moreover have "next_bits a (Suc j, a ! Suc j, int s) = (?u OR push_bit (4 - s) ?v, j, a ! j, int (s + 26))"
    unfolding next_bits_def Let_def prod.case s(2) nat_int using True s(1) by (simp add: or.commute)
  ultimately show ?thesis unfolding d unfolding j by (simp only: unat_low5) simp
qed

text \<open>The windows that the multiplication of any point reads, from the top.\<close>

fun window :: "bignum256 \<Rightarrow> nat \<Rightarrow> u32 \<times> (nat \<times> u32 \<times> int)" where
  "window a 0 = (drop_bit 12 (a ! 8), (8, a ! 8, 12))"
| "window a (Suc t) = next_bits a (snd (window a t))"

lemma window_val:
  assumes "bignum a" "t < 64"
  shows "unat (fst (window a t) AND 31) = bn_val a div 16 ^ (63 - t) mod 32 \<and>
    snd (window a t) = ((252 - 4 * t) div 30, a ! ((252 - 4 * t) div 30), int ((252 - 4 * t) mod 30))"
  using assms(2)
proof (induction t)
  case 0
  have "bn_val a div 2 ^ 252 = bn_val a div 2 ^ (30 * 8) div 2 ^ 12" by (simp only: flip: div_mult2_eq power_add) simp
  also have "bn_val a div 2 ^ (30 * 8) = unat (a ! 8)" using digits_div [OF assms(1), of 8] assms(1) by (simp only: bignum_def) simp
  finally show ?case by (simp add: unat_low5 unat_drop_bit)
next
  case (Suc t)
  let ?p = "252 - 4 * t"
  have p: "?p div 30 < 9" "?p mod 30 < 30" "4 \<le> 30 * (?p div 30) + ?p mod 30" using Suc.prems by (simp_all add: less_Suc_eq_le div_le_mono)
  have q: "30 * (?p div 30) + ?p mod 30 - 4 = 252 - 4 * Suc t" "(2 :: nat) ^ (252 - 4 * Suc t) = 16 ^ (63 - Suc t)"
  proof -
    have "252 - 4 * Suc t = 4 * (63 - Suc t)" using Suc.prems by simp
    then have "(2 :: nat) ^ (252 - 4 * Suc t) = (2 ^ 4) ^ (63 - Suc t)" by (simp only: power_mult)
    then show "(2 :: nat) ^ (252 - 4 * Suc t) = 16 ^ (63 - Suc t)" by simp
  qed (use Suc.prems in simp)
  show ?case using next_bits_val [OF assms(1) p] Suc unfolding q by auto
qed

text \<open>The digit a position stands for: the sign is the fifth bit, the size the table entry.\<close>

definition table_digit :: "bignum256 \<Rightarrow> int" where
  "table_digit a = (if drop_bit 4 (a ! 0) AND 1 = 1 then 1 else - 1) * int (2 * unat (drop_bit 1 (low_digit a)) + 1)"

lemma table_digit_val: "bignum a \<Longrightarrow> table_digit a = signed_digit (bn_val a)"
  using last_flip [of a] low_digit_val(2) [of a] and_1_if [of "drop_bit 4 (a ! 0)"]
  by (auto simp: table_digit_def split: if_splits)

text \<open>C6: The recoding of a scalar below the odd order: it never fails, the 64 odd digits that the multiplication of the base point reads off the number, shifted
  four bits at a time, sum up to the scalar, less the order if it is even, none is larger than the table, and the windows that the
  multiplication of any point reads from the top are the same five bits.
\<close>

theorem scalar_recoding:
  assumes "bignum k" "bn_val k < bn_val n" "bignum n" "odd (bn_val n)" "bn_val n < 2 ^ 256"
  shows "\<exists>a. odd_scalar k n = Some (a, bn_val k \<noteq> 0) \<and>
    (\<Sum>i<64. table_digit ((shift_4 ^^ i) a) * 16 ^ i) = int (bn_val k) - (if odd (bn_val k) then 0 else int (bn_val n)) \<and>
    (\<forall>i<64. unat (drop_bit 1 (low_digit ((shift_4 ^^ i) a))) < 8 \<and>
      unat (fst (window a (63 - i)) AND 31) = bn_val ((shift_4 ^^ i) a) mod 32)"
proof -
  obtain a where a: "odd_scalar k n = Some (a, bn_val k \<noteq> 0)" "bignum a" "odd (bn_val a)"
      "bn_val a + (if odd (bn_val k) then 0 else bn_val n) = 2 ^ 256 + bn_val k"
    using odd_scalar_val [OF assms] by blast
  note s = shift_4_bignum [OF a(2)]
  have lt: "bn_val a < 2 ^ 257" using a(4) assms(2,5) by (simp split: if_splits)
  have "int (bn_val a) + (if odd (bn_val k) then 0 else int (bn_val n)) = 2 ^ 256 + int (bn_val k)"
    using arg_cong [OF a(4), of int] by (simp split: if_splits)
  then have "(\<Sum>i<64. table_digit ((shift_4 ^^ i) a) * 16 ^ i) = int (bn_val k) - (if odd (bn_val k) then 0 else int (bn_val n))"
    using signed_digit_total [OF a(3) lt] s by (simp add: table_digit_val cong: sum.cong)
  moreover have "unat (drop_bit 1 (low_digit ((shift_4 ^^ i) a))) < 8" for i using s by (intro low_digit_val(1)) simp
  moreover have "unat (fst (window a (63 - i)) AND 31) = bn_val ((shift_4 ^^ i) a) mod 32" if "i < 64" for i
    using window_val [OF a(2), of "63 - i"] s [of i] that by simp
  ultimately show ?thesis using a(1) by blast
qed

theorem scalar_recoding_witness:
  "\<exists>a. odd_scalar [6, 0, 0, 0, 0, 0, 0, 0, 0] (curve_order (secp256k1 [])) = Some (a, True) \<and>
    (\<Sum>i<64. table_digit ((shift_4 ^^ i) a) * 16 ^ i) = 6 - 0xfffffffffffffffffffffffffffffffebaaedce6af48a03bbfd25e8cd0364141"
  using scalar_recoding [of "[6, 0, 0, 0, 0, 0, 0, 0, 0]" "curve_order (secp256k1 [])"]
  by (auto simp: bignum_def secp256k1_order secp256k1_order(1) [unfolded bignum_def])

section \<open>Jacobian against affine arithmetic\<close>

lemma arep_unique: "arep p c x y \<Longrightarrow> arep p d x' y' \<Longrightarrow> cg (bn_val p) x x' \<Longrightarrow> cg (bn_val p) y y' \<Longrightarrow> c = d"
  unfolding arep_def using fr_unique [OF fr_cg] by (metis curve_point.surjective old.unit.exhaust)

text \<open>C9: Doubling in Jacobian coordinates, whatever the invertible denominator, and converting back is the affine doubling, digit for digit; neither fails.
\<close>

theorem jacobian_double_equiv:
  assumes c: "curve_ok curve" and p: "arep (curve_prime curve) cp x y" and j: "jrep (curve_prime curve) J x y z"
    and y: "coprime y (int (bn_val (curve_prime curve)))" and z: "coprime z (int (bn_val (curve_prime curve)))"
  shows "\<exists>R. point_double curve cp = Some R \<and>
    point_jacobian_double J curve \<bind> (\<lambda>J'. jacobian_to_curve J' (curve_prime curve)) = Some R"
proof -
  let ?p = "curve_prime curve"
  have P: "modulus ?p" using c by (simp add: curve_ok_def)
  obtain R l where R: "point_double curve cp = Some R" "cg (bn_val ?p) (2 * y * l) (3 * x ^ 2 + coeff_a curve)"
      "arep ?p R (l ^ 2 - 2 * x) (l * (x - (l ^ 2 - 2 * x)) - y)" using affine_double [OF c p y] by blast
  obtain J' where J: "point_jacobian_double J curve = Some J'" "jrep ?p J' (l ^ 2 - 2 * x) (l * (x - (l ^ 2 - 2 * x)) - y) (y * z ^ 4)"
    using jacobian_double [OF c j R(2)] by blast
  have "coprime (y * z ^ 4) (int (bn_val ?p))" using y z by simp
  then obtain R' where R': "jacobian_to_curve J' ?p = Some R'" "arep ?p R' (l ^ 2 - 2 * x) (l * (x - (l ^ 2 - 2 * x)) - y)"
    using jacobian_to_curve_val [OF P J(2)] by blast
  show ?thesis using R(1) J(1) R'(1) arep_unique [OF R(3) R'(2) cg_refl cg_refl] by simp
qed

text \<open>C8: Adding in Jacobian coordinates two points whose first coordinates differ by an invertible number and converting back is the affine addition, digit for
  digit; neither fails.
\<close>

theorem jacobian_add_equiv:
  assumes c: "curve_ok curve" and p: "arep (curve_prime curve) c1 x1 y1" "arep (curve_prime curve) c2 x2 y2"
    and n: "\<not> point_is_infinity c1" "\<not> point_is_infinity c2" and j: "jrep (curve_prime curve) J x2 y2 z"
    and d: "coprime (x2 - x1) (int (bn_val (curve_prime curve)))" and z: "coprime z (int (bn_val (curve_prime curve)))"
  shows "\<exists>R. point_add curve c1 c2 = Some R \<and>
    point_jacobian_add c1 J curve \<bind> (\<lambda>J'. jacobian_to_curve J' (curve_prime curve)) = Some R"
proof -
  let ?p = "curve_prime curve"
  let ?P = "bn_val ?p"
  have P: "modulus ?p" using c by (simp add: curve_ok_def)
  obtain R l where R: "point_add curve c1 c2 = Some R" "cg ?P (l * (x2 - x1)) (y2 - y1)"
      "arep ?p R (l ^ 2 - x1 - x2) (l * (x1 - (l ^ 2 - x1 - x2)) - y1)" using affine_add [OF c p n d] by blast
  have d': "coprime (x1 - x2) (int ?P)" using d coprime_minus_left_iff [of "x2 - x1"] by simp
  have "\<not> cg ?P x1 x2"
  proof
    assume "cg ?P x1 x2"
    then have "int ?P dvd 1" using d' by (simp add: cg_def coprime_absorb_right coprime_commute)
    then show False using modulusD(4) [OF P] by simp
  qed
  moreover have "cg ?P (l * (x1 - x2)) (y1 - y2)" using cg_minus [OF R(2)] by (simp add: right_diff_distrib)
  ultimately have s: "point_sum ?P (coeff_a curve) (x1, y1) (x2, y2) (l ^ 2 - x1 - x2, l * (x1 - (l ^ 2 - x1 - x2)) - y1)"
    using d' by (auto simp: point_sum_def slope_def)
  obtain J' z' where J: "point_jacobian_add c1 J curve = Some J'" "jrep ?p J' (l ^ 2 - x1 - x2) (l * (x1 - (l ^ 2 - x1 - x2)) - y1) z'" "coprime z' (int ?P)"
    using jacobian_sum [OF c, of c1 "(x1, y1)" J "(x2, y2)" z, unfolded fst_conv snd_conv, OF p(1) j z s] unfolding fst_conv snd_conv by blast
  obtain R' where R': "jacobian_to_curve J' ?p = Some R'" "arep ?p R' (l ^ 2 - x1 - x2) (l * (x1 - (l ^ 2 - x1 - x2)) - y1)"
    using jacobian_to_curve_val [OF P J(2,3)] by blast
  show ?thesis using R(1) J(1) R'(1) arep_unique [OF R(3) R'(2) cg_refl cg_refl] by simp
qed

lemma flat_curve: "curve_ok (secp256k1 t)" "arep (curve_prime (secp256k1 t)) \<lparr> pt_x = [1, 0, 0, 0, 0, 0, 0, 0, 0], pt_y = [1, 0, 0, 0, 0, 0, 0, 0, 0] \<rparr> 1 1"
  "arep (curve_prime (secp256k1 t)) \<lparr> pt_x = [2, 0, 0, 0, 0, 0, 0, 0, 0], pt_y = [1, 0, 0, 0, 0, 0, 0, 0, 0] \<rparr> 2 1"
  "jrep (curve_prime (secp256k1 t)) \<lparr> j_x = [1, 0, 0, 0, 0, 0, 0, 0, 0], j_y = [1, 0, 0, 0, 0, 0, 0, 0, 0], j_z = [1, 0, 0, 0, 0, 0, 0, 0, 0] \<rparr> 1 1 1"
proof -
  have "modulus (curve_prime (secp256k1 t))" by (simp add: modulus_def secp256k1_prime_ok secp256k1_prime)
  then show "curve_ok (secp256k1 t)" by (simp add: curve_ok_def) (simp add: secp256k1_def word_le_nat_alt)
  note f = flat_numbers [OF secp256k1_prime, of t]
  show "arep (curve_prime (secp256k1 t)) \<lparr> pt_x = [1, 0, 0, 0, 0, 0, 0, 0, 0], pt_y = [1, 0, 0, 0, 0, 0, 0, 0, 0] \<rparr> 1 1"
    "arep (curve_prime (secp256k1 t)) \<lparr> pt_x = [2, 0, 0, 0, 0, 0, 0, 0, 0], pt_y = [1, 0, 0, 0, 0, 0, 0, 0, 0] \<rparr> 2 1"
    using f by (simp_all add: arep_def)
  have "fe (curve_prime (secp256k1 t)) 2 [1, 0, 0, 0, 0, 0, 0, 0, 0] 1" by (rule fe_mono [OF fr_fe [OF f(1)]]) simp
  then show "jrep (curve_prime (secp256k1 t)) \<lparr> j_x = [1, 0, 0, 0, 0, 0, 0, 0, 0], j_y = [1, 0, 0, 0, 0, 0, 0, 0, 0], j_z = [1, 0, 0, 0, 0, 0, 0, 0, 0] \<rparr> 1 1 1"
    by (simp add: jrep_def secp256k1_prime)
qed

theorem jacobian_double_equiv_witness:
  "\<exists>R. point_double (secp256k1 []) \<lparr> pt_x = [1, 0, 0, 0, 0, 0, 0, 0, 0], pt_y = [1, 0, 0, 0, 0, 0, 0, 0, 0] \<rparr> = Some R"
  using jacobian_double_equiv [OF flat_curve(1,2,4) coprime_1_left coprime_1_left, of "[]"] by blast

theorem jacobian_add_equiv_witness:
  "\<exists>R. point_add (secp256k1 []) \<lparr> pt_x = [2, 0, 0, 0, 0, 0, 0, 0, 0], pt_y = [1, 0, 0, 0, 0, 0, 0, 0, 0] \<rparr>
    \<lparr> pt_x = [1, 0, 0, 0, 0, 0, 0, 0, 0], pt_y = [1, 0, 0, 0, 0, 0, 0, 0, 0] \<rparr> = Some R"
proof -
  have "coprime (1 - 2) (int (bn_val (curve_prime (secp256k1 []))))" by simp
  then show ?thesis
    using jacobian_add_equiv [OF flat_curve(1,3,2) _ _ flat_curve(4) _ coprime_1_left, of "[]"] by (auto simp: point_is_infinity_def bn_is_zero_val)
qed

section \<open>The random denominators\<close>

text \<open>C23: For a modulus whose upper digits are ones, such as the prime and the order of the curve, the loop that draws a number from 1 to the modulus,
  less one, ends at the first draw, after nine steps of the generator: two successive numbers of the generator never end in 30 zeros or 30 ones.
\<close>

theorem generate_k_random_result:
  "top_ones p \<Longrightarrow> \<exists>k. generate_k_random p seed = Some (k, (lcg ^^ 9) seed) \<and> bignum k \<and> 0 < bn_val k \<and> bn_val k < bn_val p"
  by (rule generate_k_random_val)

theorem generate_k_random_result_witness:
  "\<exists>k. generate_k_random (curve_order (secp256k1 [])) 1 = Some (k, (lcg ^^ 9) 1) \<and> bignum k"
  using generate_k_random_result [of "curve_order (secp256k1 [])" 1] by (auto simp: top_ones_def secp256k1_order)

end
