(* ===== verification/Sign_Laws.thy ===== *)
theory Sign_Laws
  imports Scalar_Mult
begin

text \<open>
  What an attempt at a signature in \<open>src/crypto/ecdsa.c\<close> computes: the equation of \<open>s\<close> modulo the order, its range and the recovery byte.
\<close>

section \<open>The signature\<close>

lemma subtract_val:
  assumes "bignum a" "bignum b" "bn_val b \<le> bn_val a" "bn_val a < 2 ^ 270"
  shows "bignum (bn_subtract a b) \<and> bn_val (bn_subtract a b) = bn_val a - bn_val b"
proof -
  have "(x + m - y) mod m = x - y" if "y \<le> x" "x < m" for x y m :: nat
  proof -
    have "x + m - y = (x - y) + m" using that(1) by simp
    moreover have "x - y < m" using that(2) by simp
    ultimately show ?thesis by (simp only: mod_add_self2 mod_less)
  qed
  note this [OF assms(3,4)]
  then show ?thesis using bn_subtract_val [OF assms(1,2)] by (simp only: simp_thms)
qed

text \<open>The number \<open>s\<close> before it is halved in range: the blinding by the random number cancels.\<close>

lemma blinded_quotient:
  assumes n: "modulus n" and k: "fe n 1 k kv" "coprime kv (int (bn_val n))"
    and b: "fe n 1 b bv" "coprime bv (int (bn_val n))" and e: "fe n 4 e ev"
  shows "\<exists>kb ki s1 s2 s. bn_multiply b k n = Some kb \<and> bn_inverse kb n = Some ki \<and> bn_multiply ki e n = Some s1 \<and> bn_multiply b s1 n = Some s2 \<and>
    bn_mod s2 n = Some s \<and> bignum s \<and> bn_val s < bn_val n \<and> cg (bn_val n) (kv * int (bn_val s)) ev"
proof -
  obtain kb where kb: "bn_multiply b k n = Some kb" "fe n 2 kb (bv * kv)" using fe_multiply [OF n b(1) k(1)] by auto
  have "coprime (bv * kv) (int (bn_val n))" using k(2) b(2) by simp
  then obtain ki w where ki: "bn_inverse kb n = Some ki" "fr n ki w" "cg (bn_val n) (bv * kv * w) 1" using fe_inverse [OF n kb(2)] by blast
  obtain s1 where s1: "bn_multiply ki e n = Some s1" "fe n 2 s1 (w * ev)" using fe_multiply [OF n fr_fe [OF ki(2)] e] by auto
  obtain s2 where s2: "bn_multiply b s1 n = Some s2" "fe n 2 s2 (bv * (w * ev))" "bn_val s2 < 2 * bn_val n" using multiply_strict [OF n b(1) s1(2)] by auto
  obtain s where s: "bn_mod s2 n = Some s" "fr n s (bv * (w * ev))" using fr_mod [OF n s2(2,3)] by blast
  have "cg (bn_val n) (kv * int (bn_val s)) (kv * (bv * (w * ev)))" using s(2) by (intro cg_mult) (simp_all add: fr_def)
  also have "kv * (bv * (w * ev)) = bv * kv * w * ev" by algebra
  also have "cg (bn_val n) (bv * kv * w * ev) (1 * ev)" by (intro cg_mult ki(3) cg_refl)
  finally have "cg (bn_val n) (kv * int (bn_val s)) ev" by simp
  then show ?thesis using kb(1) ki(1) s1(1) s2(1) s by (auto simp: fr_def)
qed

text \<open>The two bits of the recovery byte: the parity of \<open>y\<close>, exchanged when \<open>s\<close> is, and whether \<open>x\<close> was reduced.\<close>

definition recovery :: "bool \<Rightarrow> bool \<Rightarrow> bool \<Rightarrow> byte" where
  "recovery y x flip = (if y \<noteq> flip then 1 else 0) + (if x then 2 else 0)"

lemma byte_parity: "bignum a \<Longrightarrow> (ucast (a ! 0 AND 1) :: byte) = (if odd (bn_val a) then 1 else 0)"
  using odd_first [of a] and_1_if [of "a ! 0"] by (cases "a = []") (auto simp: bignum_def split: if_splits)

lemma recovery_flip: "recovery y x False XOR 1 = recovery y x True"
  by (cases y; cases x) (simp_all add: recovery_def)

text \<open>The first coordinate, reduced, and the recovery byte before \<open>s\<close> is known.\<close>

lemma reduced_x:
  assumes n: "bignum n" "2 ^ 256 < 2 * bn_val n" and x: "bignum x" "bn_val x < 2 ^ 256"
  shows "\<exists>rx. (if \<not> bn_is_less x n then (bn_subtract x n, (if y then 1 else 0) OR 2) else (x, if y then 1 else 0)) =
      (rx, recovery y (bn_val n \<le> bn_val x) False) \<and> bignum rx \<and> bn_val rx = bn_val x mod bn_val n"
proof -
  have less: "bn_is_less x n \<longleftrightarrow> \<not> bn_val n \<le> bn_val x" using bn_is_less_val [OF x(1) n(1)] by auto
  have "bn_val x < 2 * bn_val n" using x(2) n(2) by linarith
  then have "bn_val x mod bn_val n = (if bn_val n \<le> bn_val x then bn_val x - bn_val n else bn_val x)" by (auto simp: mod_if)
  moreover have "bn_val x < 2 ^ 270" using x(2) by simp
  ultimately show ?thesis using subtract_val [OF x(1) n(1)] x(1) less by (auto simp: recovery_def)
qed

text \<open>One attempt, up to the choice between \<open>s\<close> and its negation.\<close>

lemma sign_point_attempt:
  assumes n: "modulus (curve_order curve)" "2 ^ 256 < 2 * bn_val (curve_order curve)"
    and priv: "32 \<le> length priv_key" and z: "bignum z" "bn_val z < 2 ^ 256"
    and k: "fe (curve_order curve) 1 k kv" "coprime kv (int (bn_val (curve_order curve)))"
    and R: "bignum (pt_x R)" "bn_val (pt_x R) < 2 ^ 256" "bignum (pt_y R)"
    and b: "generate_k_random (curve_order curve) seed = Some (b, seed')" "fe (curve_order curve) 1 b bv" "coprime bv (int (bn_val (curve_order curve)))"
    and r: "0 < bn_val (pt_x R) mod bn_val (curve_order curve)"
  shows "\<exists>rx t. let recid = recovery (odd (bn_val (pt_y R))) (bn_val (curve_order curve) \<le> bn_val (pt_x R)) False in
    sign_point curve priv_key z k R seed = Some (if bn_is_zero t then Null
      else if bn_is_less (order_half curve) t then Ptr (recid XOR 1, rx, bn_subtract (curve_order curve) t) else Ptr (recid, rx, t), seed') \<and>
    bignum rx \<and> bn_val rx = bn_val (pt_x R) mod bn_val (curve_order curve) \<and> bignum t \<and> bn_val t < bn_val (curve_order curve) \<and>
    cg (bn_val (curve_order curve)) (kv * int (bn_val t)) (int (bn_val z) + int (bn_val rx) * int (be_val (take 32 priv_key)))"
proof -
  let ?n = "curve_order curve" and ?d = "take 32 priv_key"
  obtain rx where rx: "(if \<not> bn_is_less (pt_x R) ?n then (bn_subtract (pt_x R) ?n, (if odd (bn_val (pt_y R)) then 1 else 0) OR 2)
      else (pt_x R, if odd (bn_val (pt_y R)) then 1 else 0)) = (rx, recovery (odd (bn_val (pt_y R))) (bn_val ?n \<le> bn_val (pt_x R)) False)"
      "bignum rx" "bn_val rx = bn_val (pt_x R) mod bn_val ?n"
    using reduced_x [OF modulusD(3) [OF n(1)] n(2) R(1,2)] by blast
  have dl: "length ?d = 32" "mem_read priv_key 0 32 = Some ?d" using priv by (simp_all add: mem_read_def)
  obtain s where s: "bn_read_be ?d = Some s" "bignum s" "bn_val s = be_val ?d" using bn_read_be_val [OF dl(1)] by blast
  have "be_val ?d < 2 ^ 256" using be_val_less [of ?d] unfolding dl by simp
  then have S: "fe ?n 2 s (int (be_val ?d))" using s n(2) fe_self [of s 2 ?n] by simp
  have X: "fe ?n 1 rx (int (bn_val rx))" using rx(2,3) modulusD(6) [OF n(1)] by (intro fe_self) (simp_all add: less_imp_le)
  have Z: "fe ?n 2 z (int (bn_val z))" using z n(2) by (intro fe_self) simp_all
  obtain xs where xs: "bn_multiply rx s ?n = Some xs" "fe ?n 2 xs (int (bn_val rx) * int (be_val ?d))" using fe_multiply [OF n(1) X S] by auto
  have E: "fe ?n 4 (bn_add xs z) (int (bn_val z) + int (bn_val rx) * int (be_val ?d))" using fe_add [OF n(1) xs(2) Z] by (simp add: add.commute)
  obtain kb ki s1 s2 t where t: "bn_multiply b k ?n = Some kb" "bn_inverse kb ?n = Some ki" "bn_multiply ki (bn_add xs z) ?n = Some s1"
      "bn_multiply b s1 ?n = Some s2" "bn_mod s2 ?n = Some t" "bignum t" "bn_val t < bn_val ?n"
      "cg (bn_val ?n) (kv * int (bn_val t)) (int (bn_val z) + int (bn_val rx) * int (be_val ?d))"
    using blinded_quotient [OF n(1) k b(2,3) E] by blast
  have "\<not> bn_is_zero rx" using r rx(3) bn_is_zero_val by simp
  then have "sign_point curve priv_key z k R seed = Some (if bn_is_zero t then Null
      else if bn_is_less (order_half curve) t then Ptr (recovery (odd (bn_val (pt_y R))) (bn_val ?n \<le> bn_val (pt_x R)) False XOR 1, rx, bn_subtract ?n t)
      else Ptr (recovery (odd (bn_val (pt_y R))) (bn_val ?n \<le> bn_val (pt_x R)) False, rx, t), seed')"
    unfolding sign_point_def byte_parity [OF R(3)] Let_def rx(1) using b(1) t(1-5) dl(2) s(1) xs(1) by simp
  then show ?thesis unfolding Let_def using rx(2,3) t(6-8) by blast
qed

text \<open>The smaller of \<open>s\<close> and its negation.\<close>

lemma lower_half:
  assumes n: "bignum n" "bn_val n < 2 ^ 256" "odd (bn_val n)" and h: "bignum h" "bn_val h = bn_val n div 2"
    and t: "bignum t" "0 < bn_val t" "bn_val t < bn_val n" "cg (bn_val n) (kv * int (bn_val t)) e"
  shows "bn_is_less h t \<Longrightarrow> bignum (bn_subtract n t) \<and> 0 < bn_val (bn_subtract n t) \<and> bn_val (bn_subtract n t) \<le> bn_val n div 2 \<and> cg (bn_val n) (kv * int (bn_val (bn_subtract n t))) (- e)"
    and "\<not> bn_is_less h t \<Longrightarrow> bn_val t \<le> bn_val n div 2"
proof -
  have less: "bn_is_less h t \<longleftrightarrow> bn_val n div 2 < bn_val t" using bn_is_less_val [OF h(1) t(1)] h(2) by simp
  then show "\<not> bn_is_less h t \<Longrightarrow> bn_val t \<le> bn_val n div 2" by simp
  assume "bn_is_less h t"
  have v: "bignum (bn_subtract n t)" "bn_val (bn_subtract n t) = bn_val n - bn_val t" using subtract_val [OF n(1) t(1)] t(3) n(2) by simp_all
  have "kv * int (bn_val n - bn_val t) = kv * int (bn_val n) - kv * int (bn_val t)" using t(3) by (simp add: of_nat_diff right_diff_distrib)
  moreover have "cg (bn_val n) (kv * int (bn_val n) - kv * int (bn_val t)) (0 - e)" by (rule cg_diff [OF _ t(4)]) (simp add: cg_def)
  moreover have "bn_val n - bn_val t \<le> bn_val n div 2" "0 < bn_val n - bn_val t" using \<open>bn_is_less h t\<close> less t(3) by linarith+
  ultimately show "bignum (bn_subtract n t) \<and> 0 < bn_val (bn_subtract n t) \<and> bn_val (bn_subtract n t) \<le> bn_val n div 2 \<and> cg (bn_val n) (kv * int (bn_val (bn_subtract n t))) (- e)"
    unfolding v(2) using v(1) by simp
qed

lemma sign_point_cases:
  assumes n: "modulus (curve_order curve)" "top_ones (curve_order curve)"
    and h: "bignum (order_half curve)" "bn_val (order_half curve) = bn_val (curve_order curve) div 2"
    and priv: "32 \<le> length priv_key" and z: "bignum z" "bn_val z < 2 ^ 256"
    and k: "bignum k" "bn_val k < bn_val (curve_order curve)" "coprime (bn_val k) (bn_val (curve_order curve))"
    and R: "bignum (pt_x R)" "bn_val (pt_x R) < 2 ^ 256" "bignum (pt_y R)"
    and b: "generate_k_random (curve_order curve) seed = Some (b, seed')" "coprime (bn_val b) (bn_val (curve_order curve))"
  defines "m \<equiv> bn_val (curve_order curve)"
  defines "r \<equiv> bn_val (pt_x R) mod m"
  defines "e \<equiv> int (bn_val z) + int r * int (be_val (take 32 priv_key))"
  shows "\<exists>out. sign_point curve priv_key z k R seed = Some (out, if r = 0 then seed else seed') \<and>
    (case out of
       Null \<Rightarrow> r = 0 \<or> cg m e 0
     | Ptr (recid, rx, s) \<Rightarrow> \<exists>flip. bignum rx \<and> bignum s \<and> bn_val rx = r \<and> 0 < r \<and> 0 < bn_val s \<and> bn_val s \<le> m div 2 \<and>
         cg m (int (bn_val k) * int (bn_val s)) (if flip then - e else e) \<and>
         recid = recovery (odd (bn_val (pt_y R))) (m \<le> bn_val (pt_x R)) flip)"
proof -
  let ?n = "curve_order curve"
  have nb: "bignum ?n" "0 < m" "m < 2 ^ 256" "2 ^ 256 < 2 * bn_val ?n" "odd m" using modulusD [OF n(1)] n(2) by (simp_all add: top_ones_def m_def)
  show ?thesis
  proof (cases "r = 0")
    case True
    obtain rx where "(if \<not> bn_is_less (pt_x R) ?n then (bn_subtract (pt_x R) ?n, (if odd (bn_val (pt_y R)) then 1 else 0) OR 2)
        else (pt_x R, if odd (bn_val (pt_y R)) then 1 else 0)) = (rx, recovery (odd (bn_val (pt_y R))) (bn_val ?n \<le> bn_val (pt_x R)) False)"
        "bn_val rx = 0"
      using reduced_x [OF nb(1,4) R(1,2)] True unfolding r_def m_def by metis
    then show ?thesis using True unfolding sign_point_def byte_parity [OF R(3)] Let_def by (simp add: bn_is_zero_val)
  next
    case False
    have B: "fe ?n 1 b (int (bn_val b))" "coprime (int (bn_val b)) (int (bn_val ?n))"
      using generate_k_random_val [OF n(2), of seed] b by (auto intro!: fe_self)
    have K: "fe ?n 1 k (int (bn_val k))" "coprime (int (bn_val k)) (int (bn_val ?n))" using k by (auto intro!: fe_self)
    define recid where "recid = recovery (odd (bn_val (pt_y R))) (m \<le> bn_val (pt_x R))"
    obtain rx t where run: "sign_point curve priv_key z k R seed = Some (if bn_is_zero t then Null
          else if bn_is_less (order_half curve) t then Ptr (recid False XOR 1, rx, bn_subtract ?n t) else Ptr (recid False, rx, t), seed')"
        "bignum rx" "bn_val rx = r" "bignum t" "bn_val t < bn_val ?n" "cg (bn_val ?n) (int (bn_val k) * int (bn_val t)) e"
      using sign_point_attempt [OF n(1) nb(4) priv z K R b(1) B] False unfolding e_def r_def m_def recid_def Let_def by fastforce
    note half = lower_half [OF nb(1) nb(3,5) [unfolded m_def] h run(4) _ run(5,6)]
    consider "bn_val t = 0" | "0 < bn_val t" "bn_is_less (order_half curve) t" | "0 < bn_val t" "\<not> bn_is_less (order_half curve) t" by blast
    then show ?thesis
    proof cases
      case 1
      then show ?thesis using run(1) cg_sym [OF run(6)] False by (simp add: bn_is_zero_val m_def)
    next
      case 2
      then show ?thesis using run(1-4) half(1) False
        by (auto simp: bn_is_zero_val m_def recid_def recovery_flip intro!: exI [of _ True])
    next
      case 3
      then show ?thesis using run(1-4,6) half(2) False by (auto simp: bn_is_zero_val m_def recid_def intro!: exI [of _ False])
    qed
  qed
qed

text \<open>C1: An attempt at a signature either is given up, when \<open>r\<close> or \<open>s\<close> is 0 modulo the order, or gives \<open>r\<close>, the first coordinate reduced, and an
  \<open>s\<close> from 1 to half the order with \<open>k * s\<close> congruent to \<open>z + r * d\<close>, or to its negation, the key being \<open>d\<close>; the recovery byte tells which, together with
  the parity of the second coordinate and whether the first was reduced. The blinding by a random number leaves no trace.
\<close>

theorem sign_point_result:
  assumes n: "modulus (curve_order curve)" "top_ones (curve_order curve)"
    and h: "bignum (order_half curve)" "bn_val (order_half curve) = bn_val (curve_order curve) div 2"
    and priv: "32 \<le> length priv_key" and z: "bignum z" "bn_val z < 2 ^ 256"
    and k: "bignum k" "bn_val k < bn_val (curve_order curve)" "coprime (bn_val k) (bn_val (curve_order curve))"
    and R: "bignum (pt_x R)" "bn_val (pt_x R) < 2 ^ 256" "bignum (pt_y R)"
    and b: "generate_k_random (curve_order curve) seed = Some (b, seed')" "coprime (bn_val b) (bn_val (curve_order curve))"
  defines "m \<equiv> bn_val (curve_order curve)"
  defines "r \<equiv> bn_val (pt_x R) mod m"
  defines "e \<equiv> int (bn_val z) + int r * int (be_val (take 32 priv_key))"
  shows "\<exists>out. sign_point curve priv_key z k R seed = Some (out, if r = 0 then seed else seed') \<and>
    (case out of
       Null \<Rightarrow> r = 0 \<or> cg m e 0
     | Ptr (recid, rx, s) \<Rightarrow> \<exists>flip. bn_val rx = r \<and> 0 < r \<and> 0 < bn_val s \<and> bn_val s \<le> m div 2 \<and>
         cg m (int (bn_val k) * int (bn_val s)) (if flip then - e else e) \<and>
         recid = recovery (odd (bn_val (pt_y R))) (m \<le> bn_val (pt_x R)) flip)"
proof -
  obtain out where out: "sign_point curve priv_key z k R seed = Some (out, if r = 0 then seed else seed')"
      "case out of Null \<Rightarrow> r = 0 \<or> cg m e 0
       | Ptr (recid, rx, s) \<Rightarrow> \<exists>flip. bignum rx \<and> bignum s \<and> bn_val rx = r \<and> 0 < r \<and> 0 < bn_val s \<and> bn_val s \<le> m div 2 \<and>
           cg m (int (bn_val k) * int (bn_val s)) (if flip then - e else e) \<and>
           recid = recovery (odd (bn_val (pt_y R))) (m \<le> bn_val (pt_x R)) flip"
    using sign_point_cases [OF n h priv z k R b, folded m_def, folded r_def, folded e_def] by (elim exE conjE, intro that)
  show ?thesis
  proof (intro exI conjI, rule out(1), cases out)
    case (Ptr t)
    obtain recid rx s where t: "t = (recid, rx, s)" by (cases t)
    show "case out of Null \<Rightarrow> r = 0 \<or> cg m e 0
       | Ptr (recid, rx, s) \<Rightarrow> \<exists>flip. bn_val rx = r \<and> 0 < r \<and> 0 < bn_val s \<and> bn_val s \<le> m div 2 \<and>
           cg m (int (bn_val k) * int (bn_val s)) (if flip then - e else e) \<and>
           recid = recovery (odd (bn_val (pt_y R))) (m \<le> bn_val (pt_x R)) flip"
      using out(2) unfolding Ptr t ptr.case prod.case by blast
  qed (use out(2) in \<open>simp only: ptr.case\<close>)
qed

lemma order_random:
  "generate_k_random (curve_order (secp256k1 t)) 1 =
    Some ([1015568748, 512263643, 18219390, 879966917, 217083232, 513327423, 106356114, 241328073, 59028], (lcg ^^ 9) 1)"
proof -
  have "bn_is_less [1015568748, 512263643, 18219390, 879966917, 217083232, 513327423, 106356114, 241328073, 59028] (curve_order (secp256k1 t))"
    by (subst bn_is_less_val) (simp_all add: secp256k1_order, simp add: bignum_def)
  then show ?thesis using first_random by (subst generate_k_random.simps) (simp add: bn_is_zero_val)
qed

theorem sign_point_result_witness:
  "\<exists>recid rx s flip. sign_point (secp256k1 []) (replicate 31 0 @ [1]) [5, 0, 0, 0, 0, 0, 0, 0, 0] [1, 0, 0, 0, 0, 0, 0, 0, 0] (base_point (secp256k1 [])) 1 =
      Some (Ptr (recid, rx, s), (lcg ^^ 9) 1) \<and>
    bn_val rx = 0x79be667ef9dcbbac55a06295ce870b07029bfcdb2dce28d959f2815b16f81798 \<and>
    cg (bn_val (curve_order (secp256k1 []))) (int (bn_val s)) (if flip then - (5 + int (bn_val rx)) else 5 + int (bn_val rx))"
proof -
  let ?c = "secp256k1 []" and ?priv = "replicate 31 0 @ [1] :: byte list" and ?x = "0x79be667ef9dcbbac55a06295ce870b07029bfcdb2dce28d959f2815b16f81798 :: nat"
  let ?n = "0xfffffffffffffffffffffffffffffffebaaedce6af48a03bbfd25e8cd0364141 :: nat" and ?z = "[5, 0, 0, 0, 0, 0, 0, 0, 0] :: u32 list"
    and ?k = "[1, 0, 0, 0, 0, 0, 0, 0, 0] :: u32 list"
  have n: "modulus (curve_order ?c)" "top_ones (curve_order ?c)" by (simp_all add: modulus_def top_ones_def secp256k1_prime_ok secp256k1_order)
  have v: "bignum ?z" "bn_val ?z = 5" "bignum ?k" "bn_val ?k = 1" by (simp_all add: bignum_def)
  let ?b = "[1015568748, 512263643, 18219390, 879966917, 217083232, 513327423, 106356114, 241328073, 59028] :: u32 list"
  have b: "coprime (bn_val ?b) (bn_val (curve_order ?c))"
    unfolding secp256k1_order
    by (intro coprime_certificate [of _ 82938915819733068169281361693729953791546857335211428058532801240389405650231
        74703017637385693252941824860359137383117593685549340080443004135031416906355]) auto
  have d: "be_val (take 32 ?priv) = 1" by code_simp
  have l: "32 \<le> length ?priv" by simp
  have m: "?x mod ?n = ?x" by simp
  have e: "\<not> cg ?n (5 + int ?x) 0" by (simp add: cg_def)
  have h: "bn_val ?z < 2 ^ 256" "bn_val ?k < bn_val (curve_order ?c)" "coprime (bn_val ?k) (bn_val (curve_order ?c))" "bn_val (pt_x (base_point ?c)) < 2 ^ 256"
    by (simp_all add: v secp256k1_order secp256k1_base_point)
  have "int (5 :: nat) = 5" by simp
  note q = sign_point_result [OF n secp256k1_order_half l v(1) h(1) v(3) h(2,3) secp256k1_base_point(1) [of "[]"] h(4) secp256k1_base_point(2) [of "[]"]
    order_random b, unfolded d v secp256k1_order secp256k1_base_point(3), unfolded m of_nat_1 mult_1 mult_1_right this]
  obtain out where o: "sign_point ?c ?priv ?z ?k (base_point ?c) 1 = Some (out, (lcg ^^ 9) 1)"
    "case out of Null \<Rightarrow> ?x = 0 \<or> cg ?n (5 + int ?x) 0
     | Ptr (recid, rx, s) \<Rightarrow> \<exists>flip. bn_val rx = ?x \<and> 0 < ?x \<and> 0 < bn_val s \<and> bn_val s \<le> ?n div 2 \<and>
         cg ?n (int (bn_val s)) (if flip then - (5 + int ?x) else 5 + int ?x) \<and>
         recid = recovery (odd (bn_val (pt_y (base_point ?c)))) (?n \<le> ?x) flip"
    using q by auto
  show ?thesis
  proof (cases out)
    case Null
    then show ?thesis using o(2) e by simp
  next
    case (Ptr t)
    obtain recid rx s where t: "t = (recid, rx, s)" by (cases t)
    obtain flip where f: "bn_val rx = ?x" "cg ?n (int (bn_val s)) (if flip then - (5 + int ?x) else 5 + int ?x)"
      using o(2) unfolding Ptr t ptr.case prod.case by blast
    show ?thesis unfolding secp256k1_order
      by (intro exI [of _ recid] exI [of _ rx] exI [of _ s] exI [of _ flip] conjI f(1) o(1) [unfolded Ptr t] f(2) [folded f(1)])
  qed
qed

section \<open>The attempts\<close>

text \<open>What a return of the loop of attempts stands for.\<close>

definition signed_by ::
  "ecdsa_curve \<Rightarrow> byte list \<Rightarrow> bignum256 \<Rightarrow> (byte \<Rightarrow> byte list \<Rightarrow> bool) ptr \<Rightarrow> byte list \<Rightarrow> byte ptr \<Rightarrow> byte ptr \<Rightarrow> u32 \<Rightarrow> bool" where
  "signed_by curve priv_key z is_canonical sig' pby pby' seed' \<longleftrightarrow> (\<exists>k recid rx s sig0 seed0.
     bignum k \<and> 0 < bn_val k \<and> bn_is_less k (curve_order curve) \<and>
     sign_with curve priv_key z k seed0 = Some (Ptr (recid, rx, s), seed') \<and>
     bn_write_be rx sig0 0 \<bind> (\<lambda>m. bn_write_be s m 32) = Some sig' \<and>
     (case is_canonical of Null \<Rightarrow> True | Ptr f \<Rightarrow> f recid sig') \<and>
     pby' = (case pby of Null \<Rightarrow> Null | Ptr _ \<Rightarrow> Ptr recid))"

lemma sign_attempt_cases:
  assumes "sign_attempt curve priv_key z is_canonical k sig pby seed = Some (Inr (ret, sig', pby', seed'))"
    and "bignum k" "0 < bn_val k" "bn_is_less k (curve_order curve)"
  shows "ret = 0 \<and> signed_by curve priv_key z is_canonical sig' pby pby' seed'"
proof -
  obtain res seed1 where w: "sign_with curve priv_key z k seed = Some (res, seed1)" using assms(1) by (auto simp: sign_attempt_def split: bind_splits)
  obtain recid rx s where p: "res = Ptr (recid, rx, s)" using assms(1) w by (cases res) (auto simp: sign_attempt_def)
  obtain m where m: "bn_write_be rx sig 0 = Some m" using assms(1) w p by (auto simp: sign_attempt_def split: bind_splits)
  obtain m' where m': "bn_write_be s m 32 = Some m'" using assms(1) w p m by (auto simp: sign_attempt_def split: bind_splits)
  have c: "\<not> (case is_canonical of Null \<Rightarrow> False | Ptr f \<Rightarrow> \<not> f recid m')" using assms(1) w p m m' by (auto simp: sign_attempt_def split: if_splits)
  then have r: "ret = 0" "sig' = m'" "pby' = (case pby of Null \<Rightarrow> Null | Ptr _ \<Rightarrow> Ptr recid)" "seed' = seed1"
    using assms(1) w p m m' by (simp_all add: sign_attempt_def)
  moreover have "case is_canonical of Null \<Rightarrow> True | Ptr f \<Rightarrow> f recid sig'" using c r(2) by (cases is_canonical) simp_all
  ultimately have "signed_by curve priv_key z is_canonical sig' pby pby' seed'"
    using assms(2-4) w p m m' unfolding signed_by_def
    by - (rule exI [of _ k], rule exI [of _ recid], rule exI [of _ rx], rule exI [of _ s], rule exI [of _ sig], rule exI [of _ seed], simp)
  then show ?thesis using r(1) by simp
qed

lemma bn_read_loop_bignum:
  "bn_read_loop rd [i..<8] temp = Some r \<Longrightarrow> i \<le> 8 \<Longrightarrow> unat temp < 2 ^ (2 * i) \<Longrightarrow> length r = 9 - i \<and> normal r"
proof (induction "8 - i" arbitrary: i temp r)
  case 0
  then have "i = 8" by simp
  moreover have "unat temp < 2 ^ 30" using 0 by (simp add: less_trans [of "unat temp" "2 ^ 16"] \<open>i = 8\<close>)
  ultimately show ?case using 0 by auto
next
  case (Suc n)
  then have i: "i < 8" "n = 8 - Suc i" by simp_all
  obtain limb rest where l: "bn_read_loop rd [Suc i..<8] (drop_bit (30 - 2 * i) limb) = Some rest" "r = ((temp OR push_bit (2 * i) limb) AND LIMB) # rest"
    using Suc.prems(1) i(1) by (auto simp: upt_conv_Cons bind_eq_Some_conv Let_def)
  have "unat (drop_bit (30 - 2 * i) limb) < 2 ^ (2 * Suc i)"
  proof -
    have "unat limb div 2 ^ (30 - 2 * i) < 2 ^ (2 * Suc i)"
    proof (rule less_mult_imp_div_less)
      have "unat limb < 2 ^ 32" using unsigned_less [of limb] by simp
      also have "(2 :: nat) ^ 32 = 2 ^ (2 * Suc i + (30 - 2 * i))" using i(1) by simp
      finally show "unat limb < 2 ^ (2 * Suc i) * 2 ^ (30 - 2 * i)" by (simp only: power_add)
    qed
    then show ?thesis by (simp only: unat_drop_bit)
  qed
  then have "length rest = 9 - Suc i" "normal rest" using Suc.hyps(1) [OF i(2) l(1)] i(1) by simp_all
  moreover have "unat ((temp OR push_bit (2 * i) limb) AND LIMB) < 2 ^ 30" by (simp add: unat_LIMB)
  ultimately show ?case using l(2) i(1) by simp
qed

lemma rfc6979_bignum: "generate_k_rfc6979 big junk rng = Some (k, rng') \<Longrightarrow> bignum k"
  using bn_read_loop_bignum [of _ 0 0 k] by (auto simp: generate_k_rfc6979_def bn_read_be_def bignum_def bind_eq_Some_conv split: prod.split_asm)

lemma sign_loop_cases:
  assumes "sign_loop i curve big junk priv_key z is_canonical rng sig pby seed = Some (ret, sig', pby', seed')"
  shows "ret = 0 \<and> signed_by curve priv_key z is_canonical sig' pby pby' seed' \<or> ret = - 1 \<and> pby' = pby"
  using assms
proof (induction i arbitrary: rng sig seed)
  case (Suc i)
  obtain k rng' where k: "generate_k_rfc6979 big junk rng = Some (k, rng')" using Suc.prems by (auto split: bind_splits)
  show ?case
  proof (cases "bn_is_zero k \<or> \<not> bn_is_less k (curve_order curve)")
    case True
    then show ?thesis using Suc k by simp
  next
    case False
    then obtain out where o: "sign_attempt curve priv_key z is_canonical k sig pby seed = Some out" using Suc.prems k by (auto split: bind_splits)
    have pos: "bignum k" "0 < bn_val k" "bn_is_less k (curve_order curve)" using False bn_is_zero_val rfc6979_bignum [OF k] by auto
    show ?thesis
    proof (cases out)
      case (Inl p)
      then show ?thesis using Suc False k o by (cases p) simp
    next
      case (Inr r)
      then show ?thesis using Suc.prems False k o sign_attempt_cases [OF _ pos] by simp
    qed
  qed
qed simp

lemma sign_loop_random_cases:
  assumes "top_ones (curve_order curve)"
    and "sign_loop_random i curve priv_key z is_canonical sig pby seed = Some (ret, sig', pby', seed')"
  shows "ret = 0 \<and> signed_by curve priv_key z is_canonical sig' pby pby' seed' \<or> ret = - 1 \<and> pby' = pby"
  using assms(2)
proof (induction i arbitrary: sig seed)
  case (Suc i)
  obtain k where k: "generate_k_random (curve_order curve) seed = Some (k, (lcg ^^ 9) seed)" "bignum k" "0 < bn_val k" "bn_val k < bn_val (curve_order curve)"
    using generate_k_random_val [OF assms(1), of seed] by blast
  have less: "bn_is_less k (curve_order curve)" using bn_is_less_val [OF k(2)] k(4) assms(1) by (simp add: top_ones_def)
  obtain out where o: "sign_attempt curve priv_key z is_canonical k sig pby ((lcg ^^ 9) seed) = Some out" using Suc.prems k(1) by (auto split: bind_splits)
  show ?case
  proof (cases out)
    case (Inl p)
    then show ?thesis using Suc k(1) o by (cases p) simp
  next
    case (Inr r)
    then show ?thesis using Suc.prems k(1) o sign_attempt_cases [OF _ k(2,3) less] by simp
  qed
qed simp

lemma sign_digest_cases:
  assumes "ecdsa_sign_digest curve big junk raw_rng priv_key digest sig pby is_canonical seed = Some (ret, sig', pby', seed')"
  shows "length (take 32 digest) = 32 \<and> (\<exists>z. bignum z \<and> bn_val z = be_val (take 32 digest) \<and>
    (if ret = 0 then signed_by curve priv_key z is_canonical sig' pby pby' seed' else ret = - 1 \<and> pby' = pby))"
proof -
  obtain rng bytes z where r: "mem_read digest 0 32 = Some bytes" "bn_read_be bytes = Some z"
      "sign_loop 10000 curve big junk priv_key z is_canonical rng sig pby seed = Some (ret, sig', pby', seed')"
    using assms unfolding ecdsa_sign_digest_def by (auto split: bind_splits)
  have b: "bytes = take 32 digest" "length bytes = 32" using r(1) by (auto simp: mem_read_def split: if_splits)
  have "bignum z" "bn_val z = be_val bytes" using bn_read_be_val [OF b(2)] r(2) by auto
  then show ?thesis using sign_loop_cases [OF r(3)] b by auto
qed

text \<open>C5: A call that signs a digest of 32 bytes either reports failure and leaves the recovery byte as it was, or returns 0 and the buffer holds the \<open>r\<close> and
  \<open>s\<close>, 32 bytes each, of an attempt with a number \<open>k\<close> from 1 to the order, less one, for the number that the digest denotes; the caller's test
  accepts them, and the recovery byte is stored where the caller asked for it.
\<close>

theorem ecdsa_sign_digest_result:
  "case ecdsa_sign_digest curve big junk raw_rng priv_key digest sig pby is_canonical seed of
     None \<Rightarrow> True
   | Some (ret, sig', pby', seed') \<Rightarrow> length (take 32 digest) = 32 \<and>
       (\<exists>z. bignum z \<and> bn_val z = be_val (take 32 digest) \<and>
         (if ret = 0 then signed_by curve priv_key z is_canonical sig' pby pby' seed' else ret = - 1 \<and> pby' = pby))"
proof (cases "ecdsa_sign_digest curve big junk raw_rng priv_key digest sig pby is_canonical seed")
  case (Some out)
  obtain ret sig' pby' seed' where o: "out = (ret, sig', pby', seed')" by (cases out)
  show ?thesis unfolding Some o option.case prod.case by (rule sign_digest_cases [OF Some [unfolded o]])
qed simp

text \<open>
  The build that draws the number of a signature at random has the same result, the numbers drawn being in range.
\<close>

theorem ecdsa_sign_digest_random_result:
  assumes "top_ones (curve_order curve)"
    and "ecdsa_sign_digest_random curve priv_key digest sig pby is_canonical seed = Some (ret, sig', pby', seed')"
  shows "\<exists>z. bignum z \<and> bn_val z = be_val (take 32 digest) \<and>
    (if ret = 0 then signed_by curve priv_key z is_canonical sig' pby pby' seed' else ret = - 1 \<and> pby' = pby)"
proof -
  obtain bytes z where r: "mem_read digest 0 32 = Some bytes" "bn_read_be bytes = Some z"
      "sign_loop_random 10000 curve priv_key z is_canonical sig pby seed = Some (ret, sig', pby', seed')"
    using assms(2) unfolding ecdsa_sign_digest_random_def by (auto split: bind_splits)
  have b: "bytes = take 32 digest" "length bytes = 32" using r(1) by (auto simp: mem_read_def split: if_splits)
  have "bignum z" "bn_val z = be_val bytes" using bn_read_be_val [OF b(2)] r(2) by auto
  then show ?thesis using sign_loop_random_cases [OF assms(1) r(3)] b by auto
qed

end
