(* ===== verification/Signer.thy ===== *)
theory Signer
  imports Ecdsa Keccak Signer_Hex
begin

text \<open>
  The hash, public key and signature of \<open>src/signer.c\<close>, over the elliptic curve code and Keccak. The table of \<open>secp256k1.table\<close> is the argument
  \<open>table\<close>; the seed of the generator that randomises the computation is passed on.
\<close>

definition signer_get_public_key :: "curve_point list list \<Rightarrow> byte list \<Rightarrow> byte list \<Rightarrow> u32 \<Rightarrow> (byte list \<times> u32) option" where
  "signer_get_public_key table private_key public_key seed = ecdsa_get_public_key65 (secp256k1 table) private_key public_key seed"

definition signer_get_hash :: "bool \<Rightarrow> u64 \<Rightarrow> byte list \<Rightarrow> byte list option" where
  "signer_get_hash big addr data = keccak_256 big addr data"

text \<open>The recovery byte goes to the last byte of the signature.\<close>

definition signer_get_signature ::
  "curve_point list list \<Rightarrow> bool \<Rightarrow> u64 \<Rightarrow> byte list \<Rightarrow> HMAC_DRBG_CTX \<Rightarrow> byte list \<Rightarrow> byte list \<Rightarrow> byte list \<Rightarrow> u32 \<Rightarrow>
   (int \<times> byte list \<times> u32) option" where
  "signer_get_signature table big addr junk raw_rng data private_key signature seed = do {
     digest \<leftarrow> signer_get_hash big addr data;
     (r, signature, pby, seed) \<leftarrow>
       ecdsa_sign_digest (secp256k1 table) big junk raw_rng private_key digest signature (Ptr (signature ! 64)) Null seed;
     signature \<leftarrow> (case pby of Null \<Rightarrow> None | Ptr b \<Rightarrow> mem_put signature 64 b);
     Some (if r \<noteq> 0 then - 1 else 0, signature, seed)
   }"

end
