(* ===== verification/Signer_Laws.thy ===== *)
theory Signer_Laws
  imports Sign_Laws Signer
begin

text \<open>
  The public key and the signature as \<open>src/signer.c\<close> hands them to the action encoder: the parts of \<open>src/crypto/ecdsa.c\<close> and the hash put together.
\<close>

section \<open>The public key\<close>

text \<open>A point as it is written out: both coordinates reduced, most significant byte first.\<close>

definition point_bytes :: "nat \<Rightarrow> int \<times> int \<Rightarrow> byte list" where
  "point_bytes P p = num_be 32 (nat (fst p mod int P)) @ num_be 32 (nat (snd p mod int P))"

lemma fr_value: "fr p x v \<Longrightarrow> bn_val x = nat (v mod int (bn_val p))"
proof -
  assume a: "fr p x v"
  then have "int (bn_val x) mod int (bn_val p) = v mod int (bn_val p)" unfolding fr_def cg_def mod_eq_dvd_iff by blast
  moreover have "int (bn_val x) mod int (bn_val p) = int (bn_val x)" using a by (simp only: fr_def flip: zmod_int) simp
  ultimately have "v mod int (bn_val p) = int (bn_val x)" by (simp only:)
  then show ?thesis by (simp only: nat_int)
qed

lemma patch_three:
  assumes "length X = 32" "length Y = 32" "65 \<le> length m"
  shows "patch (patch (patch m 0 [b]) 1 X) 33 Y = patch m 0 (b # X @ Y)"
proof -
  have "patch (patch m 0 [b]) 1 X = patch m 0 ([b] @ X)" using assms by (intro patch_append) simp_all
  moreover have "patch (patch m 0 ([b] @ X)) 33 Y = patch m 0 (([b] @ X) @ Y)" using assms by (intro patch_append) simp_all
  ultimately show ?thesis by simp
qed

text \<open>C3: The public key of a private key \<open>d\<close> from 1 to the order, less one: the byte 4 and the coordinates of the multiple of the table's point that the
  multiplication by \<open>d\<close> leads to, 32 bytes each, most significant first; what lies behind the 65 bytes is left as it is.
\<close>

theorem public_key_result:
  assumes c: "curve_ok curve" "top_ones (curve_prime curve)"
    and n: "bignum (curve_order curve)" "odd (bn_val (curve_order curve))" "bn_val (curve_order curve) < 2 ^ 256"
    and d: "32 \<le> length priv_key" "0 < be_val (take 32 priv_key)" "be_val (take 32 priv_key) < bn_val (curve_order curve)"
    and t: "table_of curve M" "table_sums curve M (odd_number (bn_val (curve_order curve)) (be_val (take 32 priv_key)))"
    and z: "generate_k_random (curve_prime curve) seed = Some (z, seed')" "coprime (bn_val z) (bn_val (curve_prime curve))"
    and l: "65 \<le> length pub_key"
  shows "ecdsa_get_public_key65 curve priv_key pub_key seed =
    (let d = be_val (take 32 priv_key); m = int d - (if odd d then 0 else int (bn_val (curve_order curve)))
     in Some (patch pub_key 0 (4 # point_bytes (bn_val (curve_prime curve)) (M m)), seed'))"
proof -
  let ?d = "be_val (take 32 priv_key)" and ?P = "bn_val (curve_prime curve)"
  let ?m = "int ?d - (if odd ?d then 0 else int (bn_val (curve_order curve)))"
  have r: "mem_read priv_key 0 32 = Some (take 32 priv_key)" "length (take 32 priv_key) = 32" using d(1) by (simp_all add: mem_read_def)
  obtain k where k: "bn_read_be (take 32 priv_key) = Some k" "bignum k" "bn_val k = ?d" using bn_read_be_val [OF r(2)] by blast
  obtain R where R: "scalar_multiply curve k seed = Some (R, seed')" "arep (curve_prime curve) R (fst (M ?m)) (snd (M ?m))"
    using scalar_multiply_base [OF c n k(2) _ _ t(1) _ z] d(2,3) t(2) unfolding k(3) Let_def by blast
  have x: "bignum (pt_x R)" "bn_val (pt_x R) = nat (fst (M ?m) mod int ?P)" and y: "bignum (pt_y R)" "bn_val (pt_y R) = nat (snd (M ?m) mod int ?P)"
    using fr_value [OF R(2) [unfolded arep_def, THEN conjunct1]] fr_value [OF R(2) [unfolded arep_def, THEN conjunct2]] R(2) by (simp_all only: arep_def fr_def)
  let ?X = "num_be 32 (nat (fst (M ?m) mod int ?P)) :: byte list" and ?Y = "num_be 32 (nat (snd (M ?m) mod int ?P)) :: byte list"
  let ?p1 = "patch pub_key 0 [4]"
  have "0 < length pub_key" using l by linarith
  then have p1: "mem_put pub_key 0 4 = Some ?p1" "length ?p1 = length pub_key" by (rule mem_put_patch, intro length_patch) (use l in simp)
  let ?p2 = "patch ?p1 1 ?X"
  have p2: "bn_write_be (pt_x R) ?p1 1 = Some ?p2" "length ?p2 = length pub_key" using bn_write_be_val [OF x(1), of 1 ?p1] l p1(2) x(2) by simp_all
  have p3: "bn_write_be (pt_y R) ?p2 33 = Some (patch ?p2 33 ?Y)" using bn_write_be_val [OF y(1), of 33 ?p2] l p2(2) y(2) by simp
  have "patch ?p2 33 ?Y = patch pub_key 0 (4 # ?X @ ?Y)"
    by (rule patch_three [OF _ _ l]) simp_all
  then show ?thesis using r(1) k(1) R(1) p1(1) p2(1) p3 unfolding ecdsa_get_public_key65_def point_bytes_def Let_def by (simp only: bind.bind_lunit prod.case option.sel)
qed

theorem public_key_result_witness:
  "ecdsa_get_public_key65 (secp256k1 flat_table) (replicate 31 0 @ [1]) (replicate 65 0) 1 =
    Some (4 # point_bytes (2 ^ 256 - 2 ^ 32 - 977) (- 3, 1), (lcg ^^ 9) 1)"
proof -
  let ?c = "secp256k1 flat_table" and ?priv = "replicate 31 0 @ [1] :: byte list"
  have t: "top_ones (curve_prime ?c)" by (simp add: top_ones_def secp256k1_prime)
  have d: "be_val (take 32 ?priv) = 1" by code_simp
  have n: "odd (bn_val (curve_order ?c))" "bn_val (curve_order ?c) < 2 ^ 256" by (simp_all add: secp256k1_order)
  have s: "table_sums ?c flat_multiple (odd_number (bn_val (curve_order ?c)) (be_val (take 32 ?priv)))"
    unfolding d using flat_table_sums by (simp add: odd_number_def)
  have b: "32 \<le> length ?priv" "0 < be_val (take 32 ?priv)" "be_val (take 32 ?priv) < bn_val (curve_order ?c)" "65 \<le> length (replicate 65 0 :: byte list)"
    unfolding d by (simp_all add: secp256k1_order)
  have f: "flat_multiple 1 = (- 3, 1)" using flat_first_row [of 0] by simp
  have p: "patch (replicate 65 0) 0 (4 # point_bytes P q) = 4 # point_bytes P q" for P q by (simp add: patch_def point_bytes_def)
  show ?thesis
    using public_key_result [OF flat_curve(1) t secp256k1_order(1) n b(1-3) flat_table_of s flat_random flat_coprime b(4)]
    unfolding d secp256k1_prime Let_def by (simp add: p f)
qed

section \<open>The signature\<close>

lemma signature_cases:
  assumes "signer_get_signature table big addr junk raw_rng data private_key sig seed = Some (r, sig', seed')"
  shows "\<exists>digest z s b.
    keccak_256 big addr data = Some digest \<and> bignum z \<and> bn_val z = be_val (take 32 digest) \<and>
    mem_put s 64 b = Some sig' \<and>
    (if r = 0 then signed_by (secp256k1 table) private_key z Null s (Ptr (sig ! 64)) (Ptr b) seed' else r = - 1 \<and> b = sig ! 64)"
proof -
  obtain digest ret s pby b where g: "keccak_256 big addr data = Some digest"
      "ecdsa_sign_digest (secp256k1 table) big junk raw_rng private_key digest sig (Ptr (sig ! 64)) Null seed = Some (ret, s, pby, seed')"
      "pby = Ptr b" "mem_put s 64 b = Some sig'" "r = (if ret \<noteq> 0 then - 1 else 0)"
    using assms unfolding signer_get_signature_def signer_get_hash_def by (auto split: bind_splits ptr.splits)
  obtain z where z: "bignum z" "bn_val z = be_val (take 32 digest)"
      "if ret = 0 then signed_by (secp256k1 table) private_key z Null s (Ptr (sig ! 64)) pby seed' else ret = - 1 \<and> pby = Ptr (sig ! 64)"
    using sign_digest_cases [OF g(2)] by blast
  then show ?thesis using g by (auto split: if_splits)
qed

text \<open>A signature of data: the digest is the Keccak hash of the data, and the call either fails with -1, or returns 0 with the 64 bytes of an attempt that signs
  the number the digest denotes, and its recovery byte in the last place.
\<close>

theorem signer_get_signature_result:
  "case signer_get_signature table big addr junk raw_rng data private_key sig seed of
     None \<Rightarrow> True
   | Some (r, sig', seed') \<Rightarrow> \<exists>digest z s b.
       keccak_256 big addr data = Some digest \<and> bignum z \<and> bn_val z = be_val (take 32 digest) \<and>
       mem_put s 64 b = Some sig' \<and>
       (if r = 0 then signed_by (secp256k1 table) private_key z Null s (Ptr (sig ! 64)) (Ptr b) seed' else r = - 1 \<and> b = sig ! 64)"
proof (cases "signer_get_signature table big addr junk raw_rng data private_key sig seed")
  case (Some out)
  obtain r sig' seed' where o: "out = (r, sig', seed')" by (cases out)
  show ?thesis unfolding Some o option.case prod.case by (rule signature_cases [OF Some [unfolded o]])
qed simp

end
