(* ===== verification/Signed_Action.thy ===== *)
theory Signed_Action
  imports Signer_Laws Pb_Proto
begin

text \<open>
  The actions of \<open>src/pb_proto.c\<close> over the cryptography of \<open>src/signer.c\<close>: the public key and the signature functions of the encoder are the ones of
  the library, the seed of the generator going from the first to the second.
\<close>

section \<open>The equation of a signature\<close>

text \<open>
  \<open>r\<close> and \<open>s\<close> sign the number \<open>z\<close> with the key \<open>d\<close> and the number \<open>k\<close>, whose multiple of the base point is \<open>p\<close>: \<open>r\<close> is the first coordinate modulo the order,
  \<open>s\<close> the smaller of the two solutions of the equation, and the recovery byte says which, with the parity of the second coordinate and whether the first was reduced.
\<close>

definition equation_of :: "ecdsa_curve \<Rightarrow> nat \<Rightarrow> nat \<Rightarrow> nat \<Rightarrow> int \<times> int \<Rightarrow> nat \<Rightarrow> nat \<Rightarrow> byte \<Rightarrow> bool" where
  "equation_of curve d z k p r s recid \<longleftrightarrow>
     (let n = bn_val (curve_order curve); P = int (bn_val (curve_prime curve)); x = nat (fst p mod P); y = nat (snd p mod P); e = int z + int r * int d
      in r = x mod n \<and> 0 < r \<and> 0 < s \<and> s \<le> n div 2 \<and>
        (\<exists>flip. cg n (int k * int s) (if flip then - e else e) \<and> recid = recovery (odd y) (n \<le> x) flip))"

text \<open>
  The 64 bytes are \<open>r\<close> and \<open>s\<close> of an attempt: with a number \<open>k\<close> in range, and two numbers drawn one after the other, they satisfy the equation for every function
  \<open>M\<close> of multiples that the table and the sums of its points agree with, provided that \<open>k\<close> and the drawn numbers have no divisor in common with the modulus each is inverted by.
\<close>

definition signature_of :: "ecdsa_curve \<Rightarrow> nat \<Rightarrow> nat \<Rightarrow> byte list \<Rightarrow> byte \<Rightarrow> bool" where
  "signature_of curve d z sig recid \<longleftrightarrow> (\<exists>k z0 b seed0 seed1 seed2. let n = bn_val (curve_order curve) in
     0 < k \<and> k < n \<and> generate_k_random (curve_prime curve) seed0 = Some (z0, seed1) \<and> generate_k_random (curve_order curve) seed1 = Some (b, seed2) \<and>
     (\<forall>M. table_of curve M \<and> table_sums curve M (odd_number n k) \<and>
        coprime (bn_val z0) (bn_val (curve_prime curve)) \<and> coprime k n \<and> coprime (bn_val b) n \<longrightarrow>
        (\<exists>r s. take 64 sig = num_be 32 r @ num_be 32 s \<and> equation_of curve d z k (M (int k - (if odd k then 0 else int n))) r s recid)))"

lemma bn_write_loop_room:
  "bn_write_loop (\<lambda>out i. write_be out (off + i * 4)) a is temp m = Some m' \<Longrightarrow> length m' = length m \<and> (\<forall>i \<in> set is. off + i * 4 + 4 \<le> length m)"
proof (induction "is" arbitrary: temp m)
  case (Cons i "is")
  obtain t m1 where m1: "write_be m (off + i * 4) t = Some m1" "bn_write_loop (\<lambda>out i. write_be out (off + i * 4)) a is (a ! (7 - i)) m1 = Some m'"
    using Cons.prems by (auto simp: Let_def bind_eq_Some_conv)
  have "off + i * 4 + 4 \<le> length m" "length m1 = length m" using m1(1) mem_blit_length by (auto simp: write_be_def mem_blit_def split: if_splits)
  then show ?case using Cons.IH [OF m1(2)] by simp
qed simp

lemma bn_write_be_room: "bn_write_be a m off = Some m' \<Longrightarrow> off + 32 \<le> length m"
  using bn_write_loop_room [of off a "[0..<8]" "a ! 8" m m'] by (auto simp: bn_write_be_def dest: bspec [of _ _ 7])

lemma signed_by_signature:
  assumes w: "signed_by (secp256k1 table) key z is_canonical sig (Ptr b0) (Ptr recid) seed'"
    and key: "length key = 32" and z: "bignum z" "bn_val z < 2 ^ 256"
  shows "signature_of (secp256k1 table) (be_val key) (bn_val z) sig recid"
proof -
  let ?c = "secp256k1 table" let ?n = "bn_val (curve_order ?c)" and ?P = "bn_val (curve_prime ?c)"
  obtain k rx s sig0 seed0 where k: "bignum k" "0 < bn_val k" "bn_is_less k (curve_order ?c)"
      and run: "sign_with ?c key z k seed0 = Some (Ptr (recid, rx, s), seed')"
      and out: "bn_write_be rx sig0 0 \<bind> (\<lambda>m. bn_write_be s m 32) = Some sig"
    using w unfolding signed_by_def by auto
  have n: "modulus (curve_order ?c)" "top_ones (curve_order ?c)" "top_ones (curve_prime ?c)"
    by (simp_all add: modulus_def top_ones_def secp256k1_prime_ok secp256k1_order secp256k1_prime)
  have n': "odd ?n" "?n < 2 ^ 256" using modulusD [OF n(1)] by simp_all
  have kn: "bn_val k < ?n" using bn_is_less_val [OF k(1) secp256k1_order(1)] k(3) by simp
  obtain z0 seed1 where z0: "generate_k_random (curve_prime ?c) seed0 = Some (z0, seed1)" using generate_k_random_val [OF n(3)] by blast
  obtain b seed2 where b: "generate_k_random (curve_order ?c) seed1 = Some (b, seed2)" using generate_k_random_val [OF n(2)] by blast
  let ?m = "int (bn_val k) - (if odd (bn_val k) then 0 else int ?n)"
  have "\<exists>r s. take 64 sig = num_be 32 r @ num_be 32 s \<and> equation_of ?c (be_val key) (bn_val z) (bn_val k) (M ?m) r s recid"
    if M: "table_of ?c M" "table_sums ?c M (odd_number ?n (bn_val k))" and cop: "coprime (bn_val z0) ?P" "coprime (bn_val k) ?n" "coprime (bn_val b) ?n" for M
  proof -
    obtain R where R: "scalar_multiply ?c k seed0 = Some (R, seed1)" "arep (curve_prime ?c) R (fst (M ?m)) (snd (M ?m))"
      using scalar_multiply_base [OF flat_curve(1) n(3) secp256k1_order(1) n' k(1,2) kn M z0 cop(1)] unfolding Let_def by blast
    have f: "fr (curve_prime ?c) (pt_x R) (fst (M ?m))" "fr (curve_prime ?c) (pt_y R) (snd (M ?m))" using R(2) by (simp_all add: arep_def)
    have xy: "bn_val (pt_x R) = nat (fst (M ?m) mod int ?P)" "bn_val (pt_y R) = nat (snd (M ?m) mod int ?P)" using fr_value f by blast+
    have Rb: "bignum (pt_x R)" "bn_val (pt_x R) < 2 ^ 256" "bignum (pt_y R)" using f secp256k1_prime(2) [of table] by (auto simp: fr_def)
    have p: "sign_point ?c key z k R seed1 = Some (Ptr (recid, rx, s), seed')" using run R(1) by (simp add: sign_with_def)
    have tk: "take 32 key = key" "32 \<le> length key" using key by simp_all
    note q = sign_point_cases [OF n(1,2) secp256k1_order_half tk(2) z k(1) kn cop(2) Rb b cop(3), unfolded tk(1)]
    let ?r = "bn_val (pt_x R) mod ?n"
    obtain flip where e: "bignum rx" "bignum s" "bn_val rx = ?r" "0 < ?r" "0 < bn_val s" "bn_val s \<le> ?n div 2"
        "cg ?n (int (bn_val k) * int (bn_val s)) (if flip then - (int (bn_val z) + int ?r * int (be_val key)) else int (bn_val z) + int ?r * int (be_val key))"
        "recid = recovery (odd (bn_val (pt_y R))) (?n \<le> bn_val (pt_x R)) flip"
      using q unfolding p by (elim exE conjE) (simp only: option.inject prod.inject, elim conjE, hypsubst, simp only: ptr.case prod.case, elim exE conjE, rule that)
    obtain m where m: "bn_write_be rx sig0 0 = Some m" "bn_write_be s m 32 = Some sig" using out by (cases "bn_write_be rx sig0 0") simp_all
    have l: "0 + 32 \<le> length sig0" "32 + 32 \<le> length m" using bn_write_be_room [OF m(1)] bn_write_be_room [OF m(2)] by simp_all
    have "sig = patch (patch sig0 0 (num_be 32 (bn_val rx))) 32 (num_be 32 (bn_val s))"
      using m bn_write_be_val [OF e(1) l(1)] bn_write_be_val [OF e(2) l(2)] by simp
    then have "take 64 sig = num_be 32 (bn_val rx) @ num_be 32 (bn_val s)" by (simp add: patch_def)
    moreover have "equation_of ?c (be_val key) (bn_val z) (bn_val k) (M ?m) (bn_val rx) (bn_val s) recid"
      unfolding equation_of_def Let_def xy [symmetric] e(3) using e(4-8) by blast
    ultimately show ?thesis by blast
  qed
  then show ?thesis using k(2) kn z0 b unfolding signature_of_def Let_def by blast
qed

section \<open>The action\<close>

definition session_public_key :: "curve_point list list \<Rightarrow> u32 \<Rightarrow> byte list \<Rightarrow> byte list option" where
  "session_public_key table seed key = map_option fst (signer_get_public_key table key (replicate SIG_PUBLIC_KEY_SIZE 0) seed)"

definition session_signature ::
  "curve_point list list \<Rightarrow> bool \<Rightarrow> u64 \<Rightarrow> byte list \<Rightarrow> HMAC_DRBG_CTX \<Rightarrow> u32 \<Rightarrow> byte list \<Rightarrow> byte list \<Rightarrow> (int \<times> byte list) option" where
  "session_signature table big addr junk raw_rng seed data key = do {
     (_, seed) \<leftarrow> signer_get_public_key table key (replicate SIG_PUBLIC_KEY_SIZE 0) seed;
     (r, sig, _) \<leftarrow> signer_get_signature table big addr junk raw_rng data key (replicate SIG_SIGNATURE_SIZE 0) seed;
     Some (r, sig)
   }"

text \<open>What a message that was not refused is made of.\<close>

definition action_of ::
  "curve_point list list \<Rightarrow> bool \<Rightarrow> u64 \<Rightarrow> u32 \<Rightarrow> iotex_st_act_core \<Rightarrow> byte \<Rightarrow> pb_st_item list \<Rightarrow> nat \<Rightarrow> byte list \<Rightarrow> nat \<Rightarrow> int \<Rightarrow> byte list \<Rightarrow> bool" where
  "action_of table big addr seed core action_id action action_sz buf max_sz n buf' \<longleftrightarrow>
     (\<exists>keytext key pk sig packed buf1 digest.
        privateKey core = Ptr keytext \<and> signer_str2hex keytext (replicate 32 0) 32 = Some (32, key) \<and> length key = 32 \<and>
        session_public_key table seed key = Some pk \<and>
        (let items = act_core_items big core action_id action action_sz in
          pb_pack big items (length items) buf 0 max_sz = Some (int (length packed), buf1) \<and> packed = take (length packed) buf1 \<and>
          pb_pack big (tx_action_items items pk sig) 3 buf1 0 max_sz = Some (n, buf')) \<and>
        keccak_256 big addr packed = Some digest \<and> 64 < length sig \<and>
        signature_of (secp256k1 table) (be_val key) (be_val (take 32 digest)) sig (sig ! 64))"

text \<open>Why a message is refused: the key, the size of the core, the signature, or the size of the whole.\<close>

definition refused ::
  "curve_point list list \<Rightarrow> bool \<Rightarrow> u64 \<Rightarrow> byte list \<Rightarrow> HMAC_DRBG_CTX \<Rightarrow> u32 \<Rightarrow> iotex_st_act_core \<Rightarrow> byte \<Rightarrow> pb_st_item list \<Rightarrow> nat \<Rightarrow> byte list \<Rightarrow> nat \<Rightarrow>
   int \<Rightarrow> byte list \<Rightarrow> bool" where
  "refused table big addr junk raw_rng seed core action_id action action_sz buf max_sz n buf' \<longleftrightarrow>
     (\<exists>keytext len key. privateKey core = Ptr keytext \<and> signer_str2hex keytext (replicate 32 0) 32 = Some (len, key) \<and>
        (let items = act_core_items big core action_id action action_sz in
          len \<noteq> 32 \<and> n = - 1 \<and> buf' = buf \<or>
          len = 32 \<and> pb_pack big items (length items) buf 0 max_sz = Some (n, buf') \<or>
          (\<exists>l buf1 r sig pk. len = 32 \<and> pb_pack big items (length items) buf 0 max_sz = Some (int l, buf1) \<and>
             session_signature table big addr junk raw_rng seed (take l buf1) key = Some (r, sig) \<and>
             (r \<noteq> 0 \<and> n = - 1 \<and> buf' = buf1 \<or>
              r = 0 \<and> session_public_key table seed key = Some pk \<and> pb_pack big (tx_action_items items pk sig) 3 buf1 0 max_sz = Some (n, buf')))))"

lemma str2hex_length: "sz \<le> length m \<Longrightarrow> signer_str2hex keytext m sz = Some (n, m') \<Longrightarrow> length m' = length m"
  using signer_str2hex_cases [of sz m keytext] by auto

lemma session_signature_ok:
  assumes "session_signature table big addr junk raw_rng seed data key = Some (0, sig)" "length key = 32"
  shows "\<exists>digest. keccak_256 big addr data = Some digest \<and> 64 < length sig \<and>
    signature_of (secp256k1 table) (be_val key) (be_val (take 32 digest)) sig (sig ! 64)"
proof -
  obtain seed1 seed2 where "signer_get_signature table big addr junk raw_rng data key (replicate SIG_SIGNATURE_SIZE 0) seed1 = Some (0, sig, seed2)"
    using assms(1) unfolding session_signature_def by (auto split: bind_splits)
  from signature_cases [OF this] obtain digest z s b where w: "keccak_256 big addr data = Some digest" "bignum z" "bn_val z = be_val (take 32 digest)"
      "mem_put s 64 b = Some sig" "signed_by (secp256k1 table) key z Null s (Ptr 0) (Ptr b) seed2"
    by (simp add: sig_sizes) blast
  have "be_val (take 32 digest) < 2 ^ (8 * length (take 32 digest))" by (rule be_val_less)
  also have "\<dots> \<le> 2 ^ 256" by (rule power_increasing) simp_all
  finally have z: "bn_val z < 2 ^ 256" unfolding w(3) .
  have "signature_of (secp256k1 table) (be_val key) (be_val (take 32 digest)) s b"
    using signed_by_signature [OF w(5) assms(2) w(2) z] unfolding w(3) .
  moreover have "64 < length sig" "sig ! 64 = b" "take 64 sig = take 64 s" using w(4) by (auto simp: mem_put_def split: if_splits)
  ultimately show ?thesis using w(1) by (simp add: signature_of_def)
qed

lemma proto_gen_action_cases:
  assumes "proto_gen_action (session_public_key table seed) (session_signature table big addr junk raw_rng seed) big core action_id action action_sz buf max_sz = Some (n, buf')"
  shows "if n < 0 then refused table big addr junk raw_rng seed core action_id action action_sz buf max_sz n buf'
    else action_of table big addr seed core action_id action action_sz buf max_sz n buf'"
proof -
  let ?items = "act_core_items big core action_id action action_sz"
  obtain keytext where t: "privateKey core = Ptr keytext" using assms by (auto simp: proto_gen_action_def split: ptr.splits)
  obtain len0 key where k: "signer_str2hex keytext (replicate 32 0) 32 = Some (len0, key)"
    using assms unfolding proto_gen_action_def t Let_def by (auto simp: sig_sizes split: bind_splits)
  show ?thesis
  proof (cases "len0 = 32")
    case False
    then have "n = - 1" "buf' = buf" using assms k unfolding proto_gen_action_def t by (simp_all add: sig_sizes)
    then show ?thesis using t k False by (simp add: refused_def)
  next
    case True
    note k = k [unfolded True]
    obtain pk where pk: "session_public_key table seed key = Some pk"
      using assms k unfolding proto_gen_action_def t Let_def by (auto simp: sig_sizes split: bind_splits)
    obtain len buf1 where p: "pb_pack big ?items (length ?items) buf 0 max_sz = Some (len, buf1)"
      using assms k pk unfolding proto_gen_action_def t Let_def by (auto simp: sig_sizes split: bind_splits)
    show ?thesis
    proof (cases "len < 0")
      case True
      then have "n = len" "buf' = buf1" using assms k pk p unfolding proto_gen_action_def t by (simp_all add: sig_sizes Let_def)
      then have "refused table big addr junk raw_rng seed core action_id action action_sz buf max_sz n buf'"
        using t k p by (simp add: refused_def Let_def)
      then show ?thesis using True \<open>n = len\<close> by simp
    next
      case False
      obtain packed where m: "mem_read buf1 0 (nat len) = Some packed"
        using assms k pk p False unfolding proto_gen_action_def t Let_def by (auto simp: sig_sizes split: bind_splits)
      obtain r sig where g: "session_signature table big addr junk raw_rng seed packed key = Some (r, sig)"
        using assms k pk p False m unfolding proto_gen_action_def t Let_def by (auto simp: sig_sizes split: bind_splits)
      have pl: "len = int (length packed)" "packed = take (length packed) buf1" using m False by (auto simp: mem_read_def split: if_splits)
      have g': "session_signature table big addr junk raw_rng seed (take (length packed) buf1) key = Some (r, sig)"
        using g by (simp flip: pl(2))
      have l: "length (tx_action_items ?items pk sig) = 3" by (simp add: tx_action_items_def)
      have out: "if r \<noteq> 0 then n = - 1 \<and> buf' = buf1 else pb_pack big (tx_action_items ?items pk sig) 3 buf1 0 max_sz = Some (n, buf')"
        using assms k pk p False m g l unfolding proto_gen_action_def t by (cases "r = 0") (simp_all add: sig_sizes Let_def)
      show ?thesis
      proof (cases "n < 0")
        case True
        have "refused table big addr junk raw_rng seed core action_id action action_sz buf max_sz n buf'"
          unfolding refused_def Let_def
          by (rule exI [of _ keytext], rule exI [of _ 32], rule exI [of _ key], intro conjI t k disjI2, rule exI [of _ "length packed"], rule exI [of _ buf1],
              rule exI [of _ r], rule exI [of _ sig], rule exI [of _ pk]) (use p [unfolded pl(1)] g' pk out in \<open>auto split: if_splits\<close>)
        then show ?thesis using True by simp
      next
        case False
        then have r: "r = 0" and e: "pb_pack big (tx_action_items ?items pk sig) 3 buf1 0 max_sz = Some (n, buf')" using out by (auto split: if_splits)
        have kl: "length key = 32" using str2hex_length [OF _ k] by simp
        obtain digest where w: "keccak_256 big addr packed = Some digest" "64 < length sig"
            "signature_of (secp256k1 table) (be_val key) (be_val (take 32 digest)) sig (sig ! 64)"
          using session_signature_ok [OF g [unfolded r] kl] by blast
        have "action_of table big addr seed core action_id action action_sz buf max_sz n buf'"
          unfolding action_of_def Let_def
          by (rule exI [of _ keytext], rule exI [of _ key], rule exI [of _ pk], rule exI [of _ sig], rule exI [of _ packed], rule exI [of _ buf1], rule exI [of _ digest])
            (intro conjI t k kl pk p [unfolded pl(1)] e pl(2) w)
        then show ?thesis using False by simp
      qed
    qed
  qed
qed

text \<open>C4: An action is packed only with its signature. Where the behaviour is defined, a result that is not negative means: the key's text denotes 32 bytes, the core of the action was
  packed first, the message consists of the same items, the public key of that key and 65 bytes, and these 65 bytes are a signature of the Keccak hash of exactly the
  packed core with that key: some \<open>k\<close> in range and two drawn numbers are such that, if none of the three has a divisor in common with the modulus it is inverted by, then for
  every function of multiples that the table and the sums of its points agree with, the first 64 bytes are the \<open>r\<close> and the lower \<open>s\<close> of the signature equation for \<open>k\<close>, free of the
  blinding, and the last byte is the recovery byte. A negative result means that the key's text does not give 32 bytes, that the core or the message was not packed, or
  that signing failed, with the buffer as it was at that step.
\<close>

theorem signed_action_result:
  "case proto_gen_action (session_public_key table seed) (session_signature table big addr junk raw_rng seed) big core action_id action action_sz buf max_sz of
     None \<Rightarrow> True
   | Some (n, buf') \<Rightarrow> if n < 0 then refused table big addr junk raw_rng seed core action_id action action_sz buf max_sz n buf'
       else action_of table big addr seed core action_id action action_sz buf max_sz n buf'"
  by (simp add: proto_gen_action_cases split: option.split)

end
