(* ===== verification/Spec2Isabelle.thy ===== *)
theory Spec2Isabelle
  imports Emb_Prelude Endian_Conv U128 Utils Signer_Hex Abi Pb_Pack Pb_Proto Emb_Config Request Jsmn Rule Parse
    Response Iotex_Emb Keccak Sha2_Spec Sha2_Hash Hmac_Spec Rand Bignum_Mul Bignum_Pow Bignum_Laws Bignum_Conv Bignum_Format
    Bignum_Inverse Field Curve Ecdsa Point_Laws
    Scalar_Laws Scalar_Mult Sign_Laws Signer Signer_Laws Signed_Action
begin

text \<open>
  A verification development of the IoTeX client library for embedded devices: \<open>src/\<close> with the library proper and \<open>src/crypto/\<close> with the
  cryptography it signs with.

  How the program works. A caller fills a configuration (\<open>config.c\<close>) and calls the API of \<open>iotex_emb.c\<close>. A query composes a URL
  (\<open>request.c\<close>), fetches the answer through libcurl, and parses the JSON text (\<open>jsmn.h\<close>, \<open>parse.c\<close>) by rules (\<open>rule.c\<close>) that say which value goes
  to which member of the result structure (\<open>response.c\<close>). A transfer or execution is packed as a protocol buffer message
  (\<open>pb_pack.c\<close>, \<open>pb_proto.c\<close>), hashed and signed (\<open>signer.c\<close>, \<open>crypto/\<close>), and posted as hexadecimal text. Amounts go through \<open>u128.c\<close> and
  \<open>utils.c\<close>, contract data through \<open>abi_pack.c\<close> and \<open>abi_read_contract.c\<close>, byte orders through \<open>endian_conv.c\<close>.

  The theories, each with the code it models:

  \<^item> \<open>Emb_Prelude\<close>: pointers, memory read and written with bounds, text, decimal numbers, and the lemmas on them that the other theories share.
  \<^item> \<open>Endian_Conv\<close> (\<open>endian_conv.c/.h\<close>), \<open>U128\<close> (\<open>u128.c\<close>, both builds), \<open>Utils\<close> (\<open>utils_rau2iotx\<close>), \<open>Abi\<close> (\<open>abi_pack.c\<close>,
    \<open>abi_read_contract.c\<close>), \<open>Signer_Hex\<close> (the hexadecimal text of \<open>signer.c\<close>): values to text and bytes and back. The lemmas give round
    trips, exact values, and what happens to text that is not a number.
  \<^item> \<open>Pb_Pack\<close> (\<open>pb_pack.c\<close>): the encoder with its buffer arithmetic; the wire format is the specification, shown to be readable by a decoder. \<open>Pb_Proto\<close>
    (\<open>pb_proto.c\<close>): the action messages and how they are signed.
  \<^item> \<open>Emb_Config\<close> (\<open>config.c\<close>): initialisation and clearing as a step relation with an invariant of the reachable configurations.
    \<open>Request\<close> (\<open>request.c\<close>): URLs, the receive callback, the requests. libcurl is a parameter that delivers chunks, and the transfers made are a list that
    every function that talks to the network takes and returns.
  \<^item> \<open>Jsmn\<close> (\<open>jsmn.h\<close>): the tokenizer, with the invariant of its tokens. \<open>Rule\<close> (\<open>rule.c\<close>), \<open>Parse\<close> (\<open>parse.c\<close>), \<open>Response\<close> (\<open>response.c\<close>): from tokens to
    a store of named locations. \<open>Iotex_Emb\<close> (\<open>iotex_emb.c\<close>): the exported functions over all of these.
  \<^item> \<open>Keccak\<close> (\<open>crypto/sha3.c\<close>): the permutation against the standard's step maps, the context against the sponge.
  \<^item> \<open>Sha2\<close> (\<open>crypto/sha2.c\<close>), \<open>Sha2_Spec\<close> (the compression functions, rolled and unrolled, against the standard), \<open>Sha2_Hash\<close> (the contexts, of which
    the locale \<open>block_hash\<close> is the common contract, against padding and iterated compression).
  \<^item> \<open>Hmac_Drbg\<close> (\<open>crypto/hmac_drbg.c\<close>, \<open>crypto/rfc6979.c\<close>) and \<open>Hmac_Spec\<close>: the generator with its precomputed hash states refines the
    generator of SP 800-90A over HMAC-SHA-256. \<open>Rand\<close> (\<open>crypto/rand.c\<close>): the linear congruential generator.
  \<^item> \<open>Bignum\<close>, \<open>Bignum_Mul\<close>, \<open>Bignum_Pow\<close>, \<open>Bignum_Laws\<close>, \<open>Bignum_Conv\<close> (\<open>crypto/bignum.c\<close>): numbers of nine digits of 30 bits; \<open>bn_val\<close> is the number, and every
    operation is shown to compute on it, carries and wraps included. \<open>Bignum_Inv\<close> has the fast modular inverse, \<open>Bignum_Inverse\<close> its correctness.
    \<open>Bignum_Format\<close> has the texts: the decimal one, written from its end into a buffer, and the hexadecimal one; and \<open>crypto/memzero.c\<close>.
    \<open>Field\<close> reads them as elements of the field, with the multiple of the modulus each operation may leave.
  \<^item> \<open>Curve\<close> (\<open>crypto/secp256k1.c\<close>), \<open>Ecdsa_Point\<close>, \<open>Ecdsa\<close> (\<open>crypto/ecdsa.c\<close>): points, scalar multiplication, keys and signatures. \<open>Point_Laws\<close> shows
    that the point operations compute the chord and tangent formulas, in affine coordinates and in Jacobian coordinates with any denominator;
    \<open>Scalar_Laws\<close> has the random denominators, the number a scalar is recoded into and its signed digits; \<open>Scalar_Mult\<close> the sum of the digits, the windows of
    both multiplications, and that the multiplication of the base point gives the multiple that the chord and tangent sums of its digits lead to;
    \<open>Sign_Laws\<close> the equation of a signature, its range, its recovery byte, and the loop of attempts. \<open>Signer\<close> (\<open>signer.c\<close>): the functions the action
    encoder calls; \<open>Signer_Laws\<close> their results, and \<open>Signed_Action\<close> the encoder over them: a message is only ever made with a signature of its core that satisfies the equation.

  How C is modelled. Machine integers are words of their width, or natural numbers with the wrap written out; memory is a list of bytes,
  read and written through \<open>mem_read\<close>, \<open>mem_put\<close> and \<open>patch\<close>, and an access outside it, a failed assertion or a division by zero is the result
  \<open>None\<close>. Pointers that may be \<open>NULL\<close> have type \<open>ptr\<close>. The byte order of the host is the parameter \<open>big\<close>; memory the code reads before it
  writes it is a parameter called \<open>junk\<close>; the static seed of the random generator is passed and returned. Errors are the negative numbers the code returns.

  Termination. Loops are structural recursion or have a measure. Four loops have none of their own: the rejection loop of \<open>random_uniform\<close>, shown to
  return because the generator has full period, the one of \<open>generate_k_random\<close>, shown to return at its first draw, the loop
  that fills the text of \<open>bn_format\<close>, and the loops of the modular inverse. Those are partial functions, whose results are shown to exist.

  Hypotheses. The prime and the order of the curve enter as odd numbers just below 2 to the 256. That they are prime is not shown in the kernel; where
  the code relies on it, the number it inverts is assumed to have no common divisor with the modulus. The table is assumed to hold the odd multiples, and
  each sum of two multiples that the digits of the scalar ask for is assumed to be the one by chord or tangent (\<open>table_of\<close>, \<open>table_sums\<close>).

  Not modelled. What libcurl does with the options it is given; the wiping of
  memory that is not read again, though \<open>memzero\<close> itself is modelled; the macros of \<open>debug.h\<close>, which only print; the table of \<open>secp256k1.table\<close>, which is an argument; the examples and the unit tests. That the points of the curve form a group is not shown; the multiples of a point are a
  parameter, and of the multiplication of any point only the windows and the point operations are shown correct.
\<close>

end
